(* ===== verification/Prelude.thy ===== *)
theory Prelude
  imports Main "HOL-Library.Word" "HOL-Library.Monad_Syntax" "HOL-Library.Multiset"
begin

text \<open>
  Shared material of the development: how Go values, machine integers, panics, slices and
  callback loops are represented, with the lemmas the component theories use.

  \<^item> A Go \<^verbatim>\<open>string\<close> and a \<^verbatim>\<open>[]byte\<close> are both sequences of bytes, HOL's \<open>string\<close>
    (a \<open>char\<close> is one byte).
  \<^item> A run-time panic is \<open>None\<close>: a function that can panic returns an \<open>option\<close>.
  \<^item> Go's \<^verbatim>\<open>int\<close> and \<^verbatim>\<open>int64\<close> are \<open>int\<close> with the two's complement wrap-around
    written out by \<open>wrap64\<close> where the code can overflow.
  \<^item> A value of type \<^verbatim>\<open>interface{}\<close> is a \<open>gany\<close>.
  \<^item> A callback iteration (\<^verbatim>\<open>Range\<close>, \<^verbatim>\<open>ForEach\<close>) over elements is \<open>iter\<close>: the
    callback reads and writes the captured variables (the state \<open>'s\<close>) and says whether
    to go on.
\<close>

named_theorems iter_simps
named_theorems codec_simps

section \<open>Go values\<close>

type_synonym bytes = string

datatype gany = GNil | GStr string | GBytes string | GInt int

section \<open>64-bit integers\<close>

definition int64 :: "int \<Rightarrow> bool" where
  "int64 x \<longleftrightarrow> - (2 ^ 63) \<le> x \<and> x < 2 ^ 63"

definition wrap64 :: "int \<Rightarrow> int" where
  "wrap64 x = (x + 2 ^ 63) mod 2 ^ 64 - 2 ^ 63"

lemma wrap64_int64 [simp]: "int64 (wrap64 x)"
proof -
  have "0 \<le> (x + 2 ^ 63) mod 2 ^ 64" and "(x + 2 ^ 63) mod 2 ^ 64 < 2 ^ 64"
    by simp_all
  then show ?thesis by (simp add: int64_def wrap64_def)
qed

lemma wrap64_id: "int64 x \<Longrightarrow> wrap64 x = x"
  by (simp add: int64_def wrap64_def)

lemma int64_0 [simp]: "int64 0"
  by (simp add: int64_def)

text \<open>Quotients of Go's \<^verbatim>\<open>/\<close> and \<^verbatim>\<open>%\<close> truncate towards zero.\<close>

definition go_div :: "int \<Rightarrow> int \<Rightarrow> int" where
  "go_div a b = sgn a * sgn b * (\<bar>a\<bar> div \<bar>b\<bar>)"

definition go_mod :: "int \<Rightarrow> int \<Rightarrow> int" where
  "go_mod a b = a - b * go_div a b"

lemma go_div_nonneg [simp]: "0 \<le> a \<Longrightarrow> 0 < b \<Longrightarrow> go_div a b = a div b"
  by (cases "a = 0") (auto simp: go_div_def)

lemma go_mod_nonneg [simp]: "0 \<le> a \<Longrightarrow> 0 < b \<Longrightarrow> go_mod a b = a mod b"
  by (simp add: go_mod_def minus_mult_div_eq_mod)

section \<open>Slices and lengths\<close>

text \<open>
  The slice expression \<^verbatim>\<open>xs[lo:hi]\<close>; it panics unless \<open>0 \<le> lo \<le> hi \<le> len(xs)\<close>.
\<close>

definition gslice :: "'a list \<Rightarrow> int \<Rightarrow> int \<Rightarrow> 'a list option" where
  "gslice xs lo hi =
     (if 0 \<le> lo \<and> lo \<le> hi \<and> hi \<le> int (length xs)
      then Some (take (nat (hi - lo)) (drop (nat lo) xs)) else None)"

text \<open>The index expression \<^verbatim>\<open>xs[i]\<close>.\<close>

definition gindex :: "'a list \<Rightarrow> int \<Rightarrow> 'a option" where
  "gindex xs i = (if 0 \<le> i \<and> i < int (length xs) then Some (xs ! nat i) else None)"

lemma gindex_nth [simp]: "n < length xs \<Longrightarrow> gindex xs (int n) = Some (xs ! n)"
  by (simp add: gindex_def)

text \<open>
  Go's allocator refuses objects of \<open>2 ^ 48\<close> bytes and more on 64-bit platforms, so every
  string the server holds is shorter.
\<close>

definition go_str :: "string \<Rightarrow> bool" where
  "go_str s \<longleftrightarrow> length s < 2 ^ 48"

lemma go_str_Nil [simp]: "go_str []"
  by (simp add: go_str_def)

section \<open>Callback loops\<close>

fun iter :: "('s \<Rightarrow> nat \<Rightarrow> 'a \<Rightarrow> ('s \<times> bool) option) \<Rightarrow> nat \<Rightarrow> 'a list \<Rightarrow> 's \<Rightarrow> 's option" where
  "iter f i [] s = Some s"
| "iter f i (x # xs) s =
     do { (s', go) \<leftarrow> f s i x; if go then iter f (Suc i) xs s' else Some s' }"

text \<open>A callback that never stops and never panics is a fold.\<close>

lemma iter_fold [iter_simps]:
  "iter (\<lambda>s i x. Some (g s x, True)) i xs s = Some (foldl g s xs)"
  by (induction xs arbitrary: i s) auto

lemma iter_collect [iter_simps]:
  "iter (\<lambda>s i x. Some (s @ g x, True)) i xs s = Some (s @ concat (map g xs))"
  by (induction xs arbitrary: i s) auto

lemma iter_keys [iter_simps]:
  "iter (\<lambda>acc i (k, v). Some (acc @ [k], True)) j m acc = Some (acc @ map fst m)"
  by (induction m arbitrary: j acc) auto

text \<open>A callback that looks for an element and stops there.\<close>

lemma iter_search [iter_simps]:
  "iter (\<lambda>s i x. Some (if P x then (True, False) else (s, True))) i xs False
     = Some (\<exists>x \<in> set xs. P x)"
  by (induction xs arbitrary: i) auto

lemma iter_cong_pure:
  assumes "\<And>s i x. x \<in> set xs \<Longrightarrow> f s i x = g s i x"
  shows "iter f i xs s = iter g i xs s"
  using assms
proof (induction xs arbitrary: i s)
  case (Cons x xs)
  then show ?case by (auto split: Option.bind_splits)
qed simp

section \<open>Allocation\<close>

text \<open>A slice of more bytes than the address space has (48 bits) cannot be made: \<^verbatim>\<open>make\<close> panics.\<close>

definition maxAlloc :: int where
  "maxAlloc = 2 ^ 48"

section \<open>Lists\<close>

definition list_insert :: "nat \<Rightarrow> 'a \<Rightarrow> 'a list \<Rightarrow> 'a list" where
  "list_insert i x xs = take i xs @ x # drop i xs"

definition list_remove :: "nat \<Rightarrow> 'a list \<Rightarrow> 'a list" where
  "list_remove i xs = take i xs @ drop (Suc i) xs"

lemma length_list_insert [simp]: "length (list_insert i x xs) = Suc (length xs)"
  by (simp add: list_insert_def)

lemma set_list_insert [simp]: "set (list_insert i x xs) = insert x (set xs)"
  by (metis Un_insert_right append_take_drop_id list.simps(15) list_insert_def set_append)

lemma length_list_remove [simp]: "i < length xs \<Longrightarrow> length (list_remove i xs) = length xs - 1"
  by (simp add: list_remove_def)

lemma mset_list_insert [simp]: "mset (list_insert i x xs) = add_mset x (mset xs)"
proof -
  have "mset (take i xs) + mset (drop i xs) = mset xs"
    by (metis append_take_drop_id mset_append)
  then show ?thesis by (simp add: list_insert_def)
qed

section \<open>Association lists\<close>

lemma map_of_card: "distinct (map fst m) \<Longrightarrow> card (dom (map_of m)) = length m"
  using distinct_card [of "map fst m"] by (simp add: dom_map_of_conv_image_fst)

end
