(* ===== verification/IntStr.thy ===== *)
theory IntStr
  imports Prelude
begin

text \<open>
  The integer conversions of \<^verbatim>\<open>internal/object/listpack.go\<close>: \<open>parseInt64\<close>,
  \<open>formatInt64\<close> and \<open>isInt\<close>, the test that decides whether a string is stored as an
  integer. \<open>parseInt64\<close> never reports an error: on a bad digit or an overflow it returns 0,
  and the round trip in \<open>isInt\<close> is what rejects the string.
\<close>

section \<open>Conversions\<close>

definition maxInt64 :: int where
  "maxInt64 = 2 ^ 63 - 1"

text \<open>The digit loop; \<open>None\<close> is the early \<^verbatim>\<open>return 0, nil\<close>.\<close>

fun parse_digits :: "int \<Rightarrow> string \<Rightarrow> int option" where
  "parse_digits v [] = Some v"
| "parse_digits v (c # cs) =
     (if of_char c < (48 :: int) \<or> of_char c > (57 :: int) then None
      else let digit = of_char c - 48 in
        if v > go_div (maxInt64 - digit) 10 then None
        else parse_digits (v * 10 + digit) cs)"

definition parseInt64 :: "string \<Rightarrow> int" where
  "parseInt64 s =
     (case s of [] \<Rightarrow> 0
      | c # cs \<Rightarrow>
          (let negative = (c = CHR ''-'');
               ds = (if c = CHR ''-'' \<or> c = CHR ''+'' then cs else s)
           in case parse_digits 0 ds of
                None \<Rightarrow> 0
              | Some v \<Rightarrow> if negative then wrap64 (- v) else v))"

fun count_digits :: "int \<Rightarrow> nat" where
  "count_digits tmp = (if tmp > 0 then Suc (count_digits (tmp div 10)) else 0)"

declare count_digits.simps [simp del]

fun fill_digits :: "nat \<Rightarrow> int \<Rightarrow> string" where
  "fill_digits 0 v = []"
| "fill_digits (Suc n) v = fill_digits n (v div 10) @ [char_of (48 + v mod 10)]"

definition formatInt64 :: "int \<Rightarrow> string" where
  "formatInt64 v =
     (if v = 0 then ''0''
      else let negative = v < 0;
               w = (if v < 0 then wrap64 (- v) else v);
               buf = fill_digits (count_digits w) w
           in if negative then CHR ''-'' # buf else buf)"

definition isInt :: "string \<Rightarrow> int \<times> bool" where
  "isInt s = (if s = [] then (0, False)
              else let v = parseInt64 s in (v, formatInt64 v = s))"

section \<open>Round trips\<close>

lemma parse_digits_append:
  "parse_digits v (xs @ ys) = parse_digits v xs \<bind> (\<lambda>w. parse_digits w ys)"
  by (induction v xs rule: parse_digits.induct) (auto simp: Let_def)

lemma parse_digits_snoc:
  assumes "0 \<le> d" "d < 10"
  shows "parse_digits v [char_of (48 + d)]
           = (if v * 10 + d \<le> maxInt64 then Some (v * 10 + d) else None)"
proof -
  have c: "of_char (char_of (48 + d) :: char) = 48 + d"
    using assms by (simp add: of_char_of take_bit_eq_mod)
  have "v > (maxInt64 - d) div 10 \<longleftrightarrow> \<not> v * 10 + d \<le> maxInt64"
    by (auto simp: maxInt64_def)
  then show ?thesis using assms by (simp add: c maxInt64_def)
qed

lemma count_digits_bound: "0 \<le> w \<Longrightarrow> w < 10 ^ count_digits w"
proof (induction w rule: count_digits.induct)
  case (1 w)
  show ?case
  proof (cases "w > 0")
    case True
    then have "w div 10 < 10 ^ count_digits (w div 10)" using 1 by simp
    then show ?thesis using True by (simp add: count_digits.simps [of w])
  qed (use 1 in \<open>simp add: count_digits.simps [of w]\<close>)
qed

lemma times10_le: "z * 10 + r \<le> m \<Longrightarrow> 0 \<le> z \<Longrightarrow> 0 \<le> r \<Longrightarrow> z \<le> m"
  for z r m :: int
  by linarith

lemma parse_fill_digits:
  assumes "0 \<le> w" "w < 10 ^ n" "0 \<le> v" "v * 10 ^ n + w \<le> maxInt64"
  shows "parse_digits v (fill_digits n w) = Some (v * 10 ^ n + w)"
  using assms
proof (induction n arbitrary: w)
  case (Suc n)
  let ?q = "w div 10" and ?r = "w mod 10"
  have w: "w = ?q * 10 + ?r" by simp
  have 1: "v * 10 ^ n + ?q \<le> maxInt64"
  proof -
    have "(v * 10 ^ n + ?q) * 10 + ?r \<le> maxInt64"
      using Suc.prems(4) w by (simp add: algebra_simps)
    moreover have "0 \<le> v * 10 ^ n + ?q" using Suc.prems by simp
    moreover have "0 \<le> ?r" by simp
    ultimately show ?thesis using times10_le by blast
  qed
  have "parse_digits v (fill_digits n ?q) = Some (v * 10 ^ n + ?q)"
    using Suc.prems 1 by (intro Suc.IH) auto
  moreover have "(v * 10 ^ n + ?q) * 10 + ?r = v * 10 ^ Suc n + w"
    using w by (simp add: algebra_simps)
  ultimately show ?case
    using Suc.prems(4) parse_digits_snoc [of ?r "v * 10 ^ n + ?q"]
    by (simp add: parse_digits_append)
qed simp

lemma fill_digits_chars: "c \<in> set (fill_digits n w) \<Longrightarrow> c \<noteq> CHR ''-'' \<and> c \<noteq> CHR ''+''"
proof (induction n arbitrary: w)
  case (Suc n)
  let ?c = "char_of (48 + w mod 10) :: char"
  have "of_char ?c = 48 + w mod 10"
    by (simp add: of_char_of take_bit_eq_mod)
  moreover have "0 \<le> w mod 10" by simp
  ultimately have "of_char ?c \<noteq> (45 :: int)" "of_char ?c \<noteq> (43 :: int)" by linarith+
  then have "?c \<noteq> CHR ''-''" "?c \<noteq> CHR ''+''" by fastforce+
  with Suc show ?case by auto
qed simp

text \<open>
  \<open>isInt\<close> accepts exactly the canonical decimal spellings of the 64-bit integers other
  than the least one.
\<close>

definition canon_int :: "int \<Rightarrow> bool" where
  "canon_int v \<longleftrightarrow> - maxInt64 \<le> v \<and> v \<le> maxInt64"

lemma canon_int_int64: "canon_int v \<Longrightarrow> int64 v"
  by (simp add: canon_int_def int64_def maxInt64_def)

lemma parse_format_pos:
  assumes "0 < v" "v \<le> maxInt64"
  shows "parse_digits 0 (fill_digits (count_digits v) v) = Some v"
  using parse_fill_digits [of v "count_digits v" 0] count_digits_bound [of v] assms by simp

lemma count_digits_pos: "0 < v \<Longrightarrow> \<exists>n. count_digits v = Suc n"
  by (simp add: count_digits.simps [of v])

lemma fill_digits_Suc_nonempty: "fill_digits (Suc n) v \<noteq> []"
  by simp

lemma formatInt64_nonempty [simp]: "canon_int v \<Longrightarrow> formatInt64 v \<noteq> []"
  using count_digits_pos [of v] by (auto simp: formatInt64_def Let_def)

lemma count_digits_le: "0 \<le> w \<Longrightarrow> w < 10 ^ n \<Longrightarrow> count_digits w \<le> n"
proof (induction n arbitrary: w)
  case (Suc n)
  then show ?case using Suc.IH [of "w div 10"] by (simp add: count_digits.simps [of w] div_less_iff_less_mult)
qed (simp add: count_digits.simps)

lemma length_fill_digits [simp]: "length (fill_digits n v) = n"
  by (induction n arbitrary: v) auto

lemma formatInt64_short: "canon_int v \<Longrightarrow> length (formatInt64 v) \<le> 20"
proof -
  assume v: "canon_int v"
  then have w: "wrap64 (- v) = - v" by (intro wrap64_id) (auto simp: canon_int_def maxInt64_def int64_def)
  have "count_digits v \<le> 19" "count_digits (- v) \<le> 19" if "v \<noteq> 0"
    using v count_digits_le [of v 19] count_digits_le [of "- v" 19]
    by (cases "0 \<le> v"; simp add: canon_int_def maxInt64_def count_digits.simps [of v] count_digits.simps [of "- v"])+
  then show ?thesis using w by (auto simp: formatInt64_def Let_def)
qed

theorem parse_format: "canon_int v \<Longrightarrow> parseInt64 (formatInt64 v) = v"
proof -
  assume c: "canon_int v"
  consider "v = 0" | "0 < v" | "v < 0" by linarith
  then show ?thesis
  proof cases
    case 1
    then show ?thesis by (simp add: formatInt64_def parseInt64_def maxInt64_def)
  next
    case 2
    let ?ds = "fill_digits (count_digits v) v"
    obtain x xs where ds: "?ds = x # xs"
      using count_digits_pos [OF 2] by (metis fill_digits_Suc_nonempty list.exhaust)
    with fill_digits_chars [of x "count_digits v" v] have "x \<noteq> CHR ''-''" "x \<noteq> CHR ''+''"
      by auto
    with 2 c show ?thesis
      using parse_format_pos [of v] ds
      by (simp add: formatInt64_def parseInt64_def canon_int_def Let_def)
  next
    case 3
    have "wrap64 (- v) = - v" "wrap64 (- (- v)) = v"
      using 3 c by (simp_all add: wrap64_id int64_def canon_int_def maxInt64_def)
    with 3 c show ?thesis
      using parse_format_pos [of "- v"]
      by (simp add: formatInt64_def parseInt64_def canon_int_def Let_def)
  qed
qed

lemma parse_digits_range: "parse_digits v ds = Some w \<Longrightarrow> 0 \<le> v \<Longrightarrow> v \<le> maxInt64 \<Longrightarrow> 0 \<le> w \<and> w \<le> maxInt64"
proof (induction v ds rule: parse_digits.induct)
  case (2 v c cs)
  let ?d = "of_char c - 48 :: int"
  from "2.prems"(1) have d: "0 \<le> ?d" "?d \<le> 9" and le: "v \<le> (maxInt64 - ?d) div 10"
    and rec: "parse_digits (v * 10 + ?d) cs = Some w"
    by (auto simp: Let_def maxInt64_def split: if_splits)
  from le have "v * 10 + ?d \<le> maxInt64" by linarith
  moreover have "0 \<le> v * 10 + ?d" using d "2.prems"(2) by simp
  moreover have "\<not> (of_char c < (48 :: int) \<or> (57 :: int) < of_char c)" using d by simp
  moreover have "\<not> go_div (maxInt64 - ?d) 10 < v" using le d by (simp add: maxInt64_def)
  ultimately show ?case by (intro "2.IH" [OF _ refl _ rec]) simp_all
qed simp

lemma parseInt64_canon: "canon_int (parseInt64 s)"
proof -
  have "canon_int (wrap64 (- v))" "canon_int v"
    if "parse_digits 0 ds = Some v" for ds v
    using parse_digits_range [OF that]
    by (auto simp: canon_int_def maxInt64_def wrap64_id int64_def)
  moreover have "canon_int 0" by (simp add: canon_int_def maxInt64_def)
  ultimately show ?thesis
    by (auto simp del: parse_digits.simps simp: parseInt64_def Let_def
             split: list.splits option.splits if_splits)
qed

lemma isInt_Some: "isInt s = (v, True) \<longleftrightarrow> canon_int v \<and> formatInt64 v = s"
  using parseInt64_canon [of s] parse_format [of v]
  by (auto simp: isInt_def Let_def split: if_splits)

lemma isInt_format [simp]: "canon_int v \<Longrightarrow> isInt (formatInt64 v) = (v, True)"
  by (simp add: isInt_Some)

lemma formatInt64_inj: "canon_int v \<Longrightarrow> canon_int w \<Longrightarrow> formatInt64 v = formatInt64 w \<Longrightarrow> v = w"
  by (metis parse_format)

lemma isInt_cases:
  obtains (int) v where "canon_int v" "s = formatInt64 v" "isInt s = (v, True)"
  | (other) v where "isInt s = (v, False)" "\<And>w. canon_int w \<Longrightarrow> formatInt64 w \<noteq> s"
proof (cases "isInt s")
  case (Pair v b)
  show thesis
  proof (cases b)
    case True
    then show thesis using int [of v] Pair isInt_Some [of s v] by simp
  next
    case False
    then have "formatInt64 w \<noteq> s" if "canon_int w" for w using Pair that by auto
    then show thesis using other [of v] Pair False by simp
  qed
qed

section \<open>Properties\<close>

text \<open>The smallest 64-bit integer has no text: \<open>formatInt64\<close> prints a lone minus sign, because the
  negation wraps, and \<open>isInt\<close> does not recognise its decimal form as an integer.\<close>

lemma min_int_text: "formatInt64 (- (2 ^ 63)) = ''-'' \<and> \<not> snd (isInt ''-9223372036854775808'')"
proof
  have "wrap64 (2 ^ 63) = - (2 ^ 63)" by (simp add: wrap64_def)
  then show "formatInt64 (- (2 ^ 63)) = ''-''" by (simp add: formatInt64_def count_digits.simps)
  show "\<not> snd (isInt ''-9223372036854775808'')"
  proof
    assume "snd (isInt ''-9223372036854775808'')"
    then obtain v where "isInt ''-9223372036854775808'' = (v, True)" by (metis prod.collapse)
    then have "canon_int v" "parseInt64 ''-9223372036854775808'' = v"
      unfolding isInt_Some by (metis parse_format)+
    then show False
      using isInt_Some [of "''-9223372036854775808''" v] \<open>isInt ''-9223372036854775808'' = (v, True)\<close>
      by (simp add: parseInt64_def maxInt64_def formatInt64_def)
  qed
qed

text \<open>C11. The integers from \<^verbatim>\<open>-MaxInt64\<close> to \<^verbatim>\<open>MaxInt64\<close> and their printed texts determine each other:
  \<open>parseInt64\<close> reads the text that \<open>formatInt64\<close> prints back to the same integer, and \<open>isInt\<close> accepts exactly the
  printed texts of these integers, with their values. The least 64-bit integer is excluded: it prints as a lone minus
  sign.\<close>

theorem int_text_roundtrip:
  "(canon_int v \<longrightarrow> parseInt64 (formatInt64 v) = v) \<and> (isInt s = (v, True) \<longleftrightarrow> canon_int v \<and> formatInt64 v = s) \<and>
   (int64 v \<and> \<not> canon_int v \<longrightarrow> formatInt64 v = ''-'')"
proof (intro conjI impI)
  assume "int64 v \<and> \<not> canon_int v"
  then have "v = - (2 ^ 63)" by (auto simp: canon_int_def int64_def maxInt64_def)
  then show "formatInt64 v = ''-''" using min_int_text by simp
qed (simp_all add: parse_format isInt_Some)

theorem int_text_roundtrip_witness:
  "parseInt64 (formatInt64 (-120)) = -120 \<and> isInt (formatInt64 (-120)) = (-120, True) \<and> formatInt64 (- (2 ^ 63)) = ''-''"
  using int_text_roundtrip [of "-120" "formatInt64 (-120)"] int_text_roundtrip [of "- (2 ^ 63)"]
  by (simp add: canon_int_def maxInt64_def int64_def)

end
