(* ===== verification/Codec.thy ===== *)
theory Codec
  imports Prelude
begin

text \<open>
  The contract of a self-delimiting byte encoding, as the listpack element format and the
  request arguments of the wire protocol use it: a decoder that, given an encoded value
  followed by anything, returns the value and the number of bytes it took. \<open>dec\<close> has the
  Go decoders' shape: \<open>None\<close> for a panic, otherwise the value and the bytes consumed.
\<close>

locale self_delimiting =
  fixes enc :: "'a \<Rightarrow> bytes"
    and dec :: "bytes \<Rightarrow> ('b \<times> nat) option"
    and emb :: "'a \<Rightarrow> 'b"
    and ok :: "'a \<Rightarrow> bool"
  assumes dec_enc: "ok x \<Longrightarrow> dec (enc x @ rest) = Some (emb x, length (enc x))"
    and enc_nonempty: "ok x \<Longrightarrow> enc x \<noteq> []"
    and emb_inj: "ok x \<Longrightarrow> ok y \<Longrightarrow> emb x = emb y \<Longrightarrow> x = y"
begin

abbreviation encs :: "'a list \<Rightarrow> bytes" where
  "encs xs \<equiv> concat (map enc xs)"

text \<open>No encoding is a proper prefix of another one.\<close>

lemma enc_prefix_free:
  assumes "ok x" "ok y" "enc x @ r = enc y @ r'"
  shows "x = y \<and> r = r'"
proof -
  have "dec (enc x @ r) = Some (emb x, length (enc x))" using assms(1) by (rule dec_enc)
  moreover have "dec (enc y @ r') = Some (emb y, length (enc y))" using assms(2) by (rule dec_enc)
  ultimately have "x = y" using assms emb_inj by simp
  with assms(3) show ?thesis by simp
qed

text \<open>A concatenation of encodings parses in one way only.\<close>

lemma encs_inj:
  assumes "\<forall>x \<in> set xs. ok x" "\<forall>y \<in> set ys. ok y" "encs xs = encs ys"
  shows "xs = ys"
  using assms
proof (induction xs arbitrary: ys)
  case Nil
  then show ?case using enc_nonempty by (cases ys) auto
next
  case (Cons x xs)
  have "ys \<noteq> []" using Cons.prems(1,3) enc_nonempty [of x] by auto
  then obtain y ys' where ys: "ys = y # ys'" by (cases ys) auto
  from Cons.prems have "ok x" "ok y" "enc x @ encs xs = enc y @ encs ys'" by (simp_all add: ys)
  then have "x = y \<and> encs xs = encs ys'" by (rule enc_prefix_free)
  moreover have "xs = ys'" if "encs xs = encs ys'"
    using Cons.prems that by (intro Cons.IH) (simp_all add: ys)
  ultimately show ?case by (simp add: ys)
qed

text \<open>Decoding at the offset of the \<open>i\<close>-th element gives that element.\<close>

lemma dec_at:
  assumes "\<forall>x \<in> set xs. ok x" "i < length xs"
  shows "dec (drop (length (encs (take i xs))) (encs xs)) = Some (emb (xs ! i), length (enc (xs ! i)))"
proof -
  have "encs xs = encs (take i xs) @ enc (xs ! i) @ encs (drop (Suc i) xs)"
    by (subst id_take_nth_drop [OF assms(2)]) simp
  moreover have "ok (xs ! i)" using assms by simp
  ultimately show ?thesis by (simp add: dec_enc)
qed

end

end
