(* ===== verification/Listpack.thy ===== *)
theory Listpack
  imports IntStr Codec
begin

text \<open>
  The listpack of \<^verbatim>\<open>internal/object/listpack.go\<close>: a flat byte buffer of tagged elements
  (\<open>0x00\<close>, uvarint length, bytes for a string; \<open>0x01\<close>, zigzag varint for an
  integer) and an element count, with the varint routines of Go's \<^verbatim>\<open>encoding/binary\<close> it
  calls. The main fact: a listpack built by its operations is the canonical image \<open>lp_of\<close>
  of a list of elements, and \<open>Get\<close> and \<open>Range\<close> read exactly that list back.
\<close>

unbundle bit_operations_syntax

section \<open>Varints (encoding/binary)\<close>

fun append_uvarint :: "nat \<Rightarrow> bytes" where
  "append_uvarint x =
     (if x \<ge> 128 then char_of ((x mod 256) OR 128) # append_uvarint (x div 128)
      else [char_of x])"

declare append_uvarint.simps [simp del]

fun uvarint_loop :: "nat \<Rightarrow> nat \<Rightarrow> nat \<Rightarrow> bytes \<Rightarrow> nat \<times> int" where
  "uvarint_loop i x s [] = (0, 0)"
| "uvarint_loop i x s (c # cs) =
     (let b = of_char c :: nat in
      if i = 10 then (0, - (int i + 1))
      else if b < 128 then
        (if i = 9 \<and> b > 1 then (0, - (int i + 1))
         else (x OR take_bit 64 (push_bit s b), int i + 1))
      else uvarint_loop (Suc i) (x OR take_bit 64 (push_bit s (b AND 127))) (s + 7) cs)"

definition uvarint :: "bytes \<Rightarrow> nat \<times> int" where
  "uvarint buf = uvarint_loop 0 0 0 buf"

definition zigzag :: "int \<Rightarrow> nat" where
  "zigzag x = (let ux = nat ((2 * x) mod 2 ^ 64) in if x < 0 then 2 ^ 64 - 1 - ux else ux)"

definition unzigzag :: "nat \<Rightarrow> int" where
  "unzigzag ux = (let x = int (ux div 2) in if odd ux then - x - 1 else x)"

definition append_varint :: "int \<Rightarrow> bytes" where
  "append_varint x = append_uvarint (zigzag x)"

definition varint :: "bytes \<Rightarrow> int \<times> int" where
  "varint buf = (let (ux, n) = uvarint buf in (unzigzag ux, n))"

section \<open>Elements\<close>

definition elemStr :: char where
  "elemStr = char_of (0 :: nat)"

definition elemInt :: char where
  "elemInt = char_of (1 :: nat)"

definition encodeStrElem :: "string \<Rightarrow> bytes" where
  "encodeStrElem s = elemStr # append_uvarint (length s) @ s"

definition encodeIntElem :: "int \<Rightarrow> bytes" where
  "encodeIntElem v = elemInt # append_varint v"

text \<open>
  The result is \<open>None\<close> when a slice expression panics; a malformed element is
  \<^verbatim>\<open>nil, 0\<close>. The sum \<^verbatim>\<open>pos+int(strLen)\<close> is 64-bit arithmetic on a length read from
  the buffer.
\<close>

definition decodeElem :: "bytes \<Rightarrow> (gany \<times> nat) option" where
  "decodeElem data =
     (case data of
        [] \<Rightarrow> Some (GNil, 0)
      | tag # rest \<Rightarrow>
          if tag = elemStr then
            (let (strLen, n) = uvarint rest in
             if n \<le> 0 then Some (GNil, 0)
             else let pos = 1 + n; end_pos = wrap64 (pos + wrap64 (int strLen)) in
               if end_pos > int (length data) then Some (GNil, 0)
               else do { s \<leftarrow> gslice data pos end_pos; Some (GStr s, nat end_pos) })
          else if tag = elemInt then
            (let (v, n) = varint rest in
             if n \<le> 0 then Some (GNil, 0) else Some (GInt v, nat (1 + n)))
          else Some (GNil, 0))"

section \<open>The listpack\<close>

record listpack =
  lp_buf :: bytes
  lp_num :: nat

definition newListpack :: listpack where
  "newListpack = \<lparr>lp_buf = [], lp_num = 0\<rparr>"

definition lp_len :: "listpack \<Rightarrow> nat" where
  "lp_len lp = lp_num lp"

definition lp_bytes :: "listpack \<Rightarrow> bytes" where
  "lp_bytes lp = lp_buf lp"

definition lp_appendStr :: "listpack \<Rightarrow> string \<Rightarrow> listpack" where
  "lp_appendStr lp s = lp\<lparr>lp_buf := lp_buf lp @ encodeStrElem s, lp_num := lp_num lp + 1\<rparr>"

definition lp_appendInt :: "listpack \<Rightarrow> int \<Rightarrow> listpack" where
  "lp_appendInt lp v = lp\<lparr>lp_buf := lp_buf lp @ encodeIntElem v, lp_num := lp_num lp + 1\<rparr>"

text \<open>The loop of \<open>Get\<close>; the position is the suffix of the buffer that starts there.\<close>

fun lp_get_from :: "nat \<Rightarrow> bytes \<Rightarrow> (gany \<times> bool) option" where
  "lp_get_from 0 rest = do { (val, _) \<leftarrow> decodeElem rest; Some (val, val \<noteq> GNil) }"
| "lp_get_from (Suc j) rest =
     do { (_, consumed) \<leftarrow> decodeElem rest;
          if consumed = 0 then Some (GNil, False)
          else lp_get_from j (drop consumed rest) }"

definition lp_get :: "listpack \<Rightarrow> int \<Rightarrow> (gany \<times> bool) option" where
  "lp_get lp i =
     (if i < 0 \<or> i \<ge> int (lp_num lp) then Some (GNil, False)
      else lp_get_from (nat i) (lp_buf lp))"

fun lp_range_from :: "('s \<Rightarrow> nat \<Rightarrow> gany \<Rightarrow> ('s \<times> bool) option) \<Rightarrow> nat \<Rightarrow> nat \<Rightarrow> bytes \<Rightarrow> 's \<Rightarrow> 's option" where
  "lp_range_from fn i 0 rest s = Some s"
| "lp_range_from fn i (Suc n) rest s =
     do { (val, consumed) \<leftarrow> decodeElem rest;
          if consumed = 0 then Some s
          else do { (s', go) \<leftarrow> fn s i val;
                    if go then lp_range_from fn (Suc i) n (drop consumed rest) s' else Some s' } }"

definition lp_range :: "listpack \<Rightarrow> ('s \<Rightarrow> nat \<Rightarrow> gany \<Rightarrow> ('s \<times> bool) option) \<Rightarrow> 's \<Rightarrow> 's option" where
  "lp_range lp fn s = lp_range_from fn 0 (lp_num lp) (lp_buf lp) s"

section \<open>Varint round trips\<close>

lemma or_push_bit: "x < 2 ^ s \<Longrightarrow> x OR push_bit s b = x + b * 2 ^ s" for x b :: nat
proof -
  assume "x < 2 ^ s"
  then have low: "n < s" if "bit x n" for n
    using that by (metis bit_take_bit_iff take_bit_nat_eq_self)
  have "x AND push_bit s b = 0"
    by (rule bit_eqI) (auto simp: bit_simps dest: low)
  then have "x OR push_bit s b = x + push_bit s b"
    by (simp add: disjunctive_add_eq_or)
  then show ?thesis by (simp add: push_bit_eq_mult)
qed

lemma or_128: "(x mod 256) OR 128 = x mod 128 + (128 :: nat)"
proof -
  have "take_bit (Suc k) x OR push_bit k 1 = take_bit k x OR push_bit k 1" for k and x :: nat
    by (rule bit_eqI) (auto simp: bit_simps less_Suc_eq)
  from this [of 7 x] have "take_bit 8 x OR push_bit 7 1 = take_bit 7 x OR push_bit 7 (1 :: nat)"
    by simp
  also have "\<dots> = x mod 128 + 128"
    using or_push_bit [of "take_bit 7 x" 7 1] by (simp add: take_bit_eq_mod)
  finally show ?thesis by (simp add: take_bit_eq_mod push_bit_eq_mult)
qed

lemma take_bit_push: "b * 2 ^ s < 2 ^ 64 \<Longrightarrow> take_bit 64 (push_bit s b) = push_bit s b" for b :: nat
  by (simp add: push_bit_eq_mult take_bit_nat_eq_self)

lemma of_char_char_of: "n < 256 \<Longrightarrow> of_char (char_of n :: char) = (n :: nat)"
  by (simp add: of_char_of take_bit_eq_mod)

lemma uvarint_loop_append:
  assumes "acc < 2 ^ s" "s = 7 * i" "y < 2 ^ (64 - s)" "i \<le> 9"
  shows "uvarint_loop i acc s (append_uvarint y @ rest)
           = (acc + y * 2 ^ s, int i + int (length (append_uvarint y)))"
  using assms
proof (induction y arbitrary: i acc s rule: append_uvarint.induct)
  case (1 y)
  have pow: "(2 :: nat) ^ (64 - s) * 2 ^ s = 2 ^ 64"
    using "1.prems"(2,4) by (simp flip: power_add)
  have "y * 2 ^ s < 2 ^ (64 - s) * 2 ^ s" using "1.prems"(3) by simp
  with pow have fits: "y * 2 ^ s < 2 ^ 64" by simp
  show ?case
  proof (cases "y \<ge> 128")
    case False
    have nine: "y \<le> 1" if "i = 9" using that "1.prems" by simp
    have "acc OR take_bit 64 (push_bit s y) = acc + y * 2 ^ s"
      using or_push_bit [OF "1.prems"(1)] by (simp only: take_bit_push [OF fits])
    then show ?thesis
      using False nine "1.prems"(4)
      by (auto simp: append_uvarint.simps [of y] of_char_char_of)
  next
    case True
    have i: "i \<le> 8"
    proof (rule ccontr)
      assume "\<not> i \<le> 8"
      then have "i = 9" using "1.prems"(4) by simp
      then show False using "1.prems" True by simp
    qed
    let ?b = "y mod 128"
    have b: "(of_char (char_of ((y mod 256) OR 128) :: char) :: nat) = ?b + 128"
      by (simp only: or_128) (rule of_char_char_of, simp)
    have band: "(?b + 128) AND 127 = ?b"
    proof -
      have "(?b + 128) AND mask 7 = take_bit 7 (?b + 128)" by (simp add: take_bit_eq_mask)
      then show ?thesis by (simp add: take_bit_eq_mod mask_eq_exp_minus_1)
    qed
    have "?b * 2 ^ s \<le> y * 2 ^ s" by simp
    with fits have fb: "?b * 2 ^ s < 2 ^ 64" by linarith
    have acc: "acc OR take_bit 64 (push_bit s ?b) = acc + ?b * 2 ^ s"
      using or_push_bit [OF "1.prems"(1)] by (simp only: take_bit_push [OF fb])
    have "acc + ?b * 2 ^ s < 2 ^ s + 127 * 2 ^ s"
    proof -
      have "?b * 2 ^ s \<le> 127 * 2 ^ s" by (rule mult_le_mono1) simp
      then show ?thesis using "1.prems"(1) by linarith
    qed
    then have acc_lt: "acc + ?b * 2 ^ s < 2 ^ (s + 7)" by (simp add: power_add)
    have "y div 128 < 2 ^ (64 - (s + 7))"
    proof -
      have "(2 :: nat) ^ (64 - s) = 2 ^ (64 - (s + 7) + 7)"
        using "1.prems"(2) i by simp
      also have "\<dots> = 2 ^ (64 - (s + 7)) * 128" by (simp add: power_add)
      finally show ?thesis using "1.prems"(3) by (simp add: less_mult_imp_div_less)
    qed
    with acc_lt i "1.prems"(2) have
      "uvarint_loop (Suc i) (acc + ?b * 2 ^ s) (s + 7) (append_uvarint (y div 128) @ rest)
        = (acc + ?b * 2 ^ s + (y div 128) * 2 ^ (s + 7),
           int (Suc i) + int (length (append_uvarint (y div 128))))"
      by (intro "1.IH" [OF True]) simp_all
    moreover have "acc + ?b * 2 ^ s + (y div 128) * 2 ^ (s + 7) = acc + y * 2 ^ s"
    proof -
      have "b * p + q * (p * 128) = (q * 128 + b) * p" for b p q :: nat by algebra
      from this [of ?b "2 ^ s" "y div 128"] show ?thesis
        by (simp only: power_add div_mult_mod_eq add.assoc) simp
    qed
    moreover have "uvarint_loop i acc s (char_of ((y mod 256) OR 128) # cs)
        = uvarint_loop (Suc i) (acc + ?b * 2 ^ s) (s + 7) cs" for cs
      by (simp only: uvarint_loop.simps Let_def b band acc) (use i in simp)
    ultimately show ?thesis
      using True by (simp add: append_uvarint.simps [of y])
  qed
qed

lemma uvarint_append: "x < 2 ^ 64 \<Longrightarrow> uvarint (append_uvarint x @ rest) = (x, int (length (append_uvarint x)))"
  using uvarint_loop_append [of 0 0 0 x rest] by (simp add: uvarint_def)

lemma length_append_uvarint: "1 \<le> length (append_uvarint x) \<and> length (append_uvarint x) \<le> x + 1"
proof (induction x rule: append_uvarint.induct)
  case (1 x)
  then show ?case by (cases "x \<ge> 128") (auto simp: append_uvarint.simps [of x])
qed

lemma zigzag_inverse:
  assumes "int64 x"
  shows "zigzag x < 2 ^ 64" and "unzigzag (zigzag x) = x"
proof -
  show "zigzag x < 2 ^ 64"
    by (auto simp: zigzag_def Let_def nat_less_iff)
  show "unzigzag (zigzag x) = x"
  proof (cases "x < 0")
    case True
    have "(2 * x + 2 ^ 64) mod 2 ^ 64 = 2 * x + 2 ^ 64"
      using True assms by (intro mod_pos_pos_trivial) (simp_all add: int64_def)
    then have "2 * x mod 2 ^ 64 = 2 * x + 2 ^ 64" by simp
    then have "int (zigzag x) = - 2 * x - 1" using True assms
      by (simp add: zigzag_def Let_def int64_def)
    then have "odd (zigzag x)" "int (zigzag x div 2) = - x - 1"
      by presburger+
    then show ?thesis by (simp add: unzigzag_def)
  next
    case False
    then have "int (zigzag x) = 2 * x"
      using assms by (simp add: zigzag_def int64_def)
    then have "even (zigzag x)" "int (zigzag x div 2) = x" by presburger+
    then show ?thesis by (simp add: unzigzag_def)
  qed
qed

lemma varint_append: "int64 x \<Longrightarrow> varint (append_varint x @ rest) = (x, int (length (append_varint x)))"
  using uvarint_append [OF zigzag_inverse(1), of x rest]
  by (simp add: varint_def append_varint_def zigzag_inverse(2))

section \<open>The element codec\<close>

fun elem_enc :: "gany \<Rightarrow> bytes" where
  "elem_enc (GStr s) = encodeStrElem s"
| "elem_enc (GInt v) = encodeIntElem v"
| "elem_enc _ = []"

fun elem_ok :: "gany \<Rightarrow> bool" where
  "elem_ok (GStr s) = go_str s"
| "elem_ok (GInt v) = int64 v"
| "elem_ok _ = False"

lemma decode_encodeStr:
  assumes "go_str s"
  shows "decodeElem (encodeStrElem s @ rest) = Some (GStr s, length (encodeStrElem s))"
proof -
  let ?n = "length (append_uvarint (length s))"
  have n: "1 \<le> ?n" "?n \<le> length s + 1" using length_append_uvarint by auto
  have s: "length s < 2 ^ 48" using assms by (simp add: go_str_def)
  then have u: "uvarint (append_uvarint (length s) @ s @ rest) = (length s, int ?n)"
    by (intro uvarint_append) simp
  have w1: "wrap64 (int (length s)) = int (length s)"
    using s by (intro wrap64_id) (simp add: int64_def)
  have w2: "wrap64 (1 + int ?n + int (length s)) = 1 + int ?n + int (length s)"
    using s n by (intro wrap64_id) (simp add: int64_def)
  have "nat (1 + int ?n) = Suc ?n" "nat (1 + int ?n + int (length s)) = Suc (?n + length s)"
    by simp_all
  moreover have "append_uvarint (length s) \<noteq> []" using n(1) by auto
  ultimately show ?thesis
    by (simp add: decodeElem_def encodeStrElem_def u w1 w2 gslice_def)
qed

lemma decode_encodeInt:
  assumes "int64 v"
  shows "decodeElem (encodeIntElem v @ rest) = Some (GInt v, length (encodeIntElem v))"
proof -
  let ?n = "length (append_varint v)"
  have "0 < ?n" using length_append_uvarint [of "zigzag v"] by (auto simp: append_varint_def)
  moreover have "nat (1 + int ?n) = Suc ?n" by simp
  ultimately show ?thesis
    using varint_append [OF assms, of rest]
    by (simp add: decodeElem_def encodeIntElem_def elemStr_def elemInt_def)
qed

interpretation lpe: self_delimiting elem_enc decodeElem id elem_ok
proof unfold_locales
  fix x rest assume "elem_ok x"
  then show "decodeElem (elem_enc x @ rest) = Some (id x, length (elem_enc x))"
    by (cases x) (simp_all add: decode_encodeStr decode_encodeInt)
next
  fix x assume "elem_ok x"
  then show "elem_enc x \<noteq> []"
    by (cases x) (simp_all add: encodeStrElem_def encodeIntElem_def)
qed simp

section \<open>A listpack is the list of its elements\<close>

definition lp_of :: "gany list \<Rightarrow> listpack" where
  "lp_of xs = \<lparr>lp_buf = concat (map elem_enc xs), lp_num = length xs\<rparr>"

definition elems_ok :: "gany list \<Rightarrow> bool" where
  "elems_ok xs \<longleftrightarrow> (\<forall>x \<in> set xs. elem_ok x)"

lemma elems_ok_simps [simp]:
  "elems_ok []" "elems_ok (x # xs) \<longleftrightarrow> elem_ok x \<and> elems_ok xs"
  "elems_ok (xs @ ys) \<longleftrightarrow> elems_ok xs \<and> elems_ok ys"
  by (auto simp: elems_ok_def)

lemma lp_build [simp]:
  "newListpack = lp_of []"
  "lp_appendStr (lp_of xs) s = lp_of (xs @ [GStr s])"
  "lp_appendInt (lp_of xs) v = lp_of (xs @ [GInt v])"
  "lp_len (lp_of xs) = length xs"
  by (simp_all add: newListpack_def lp_of_def lp_appendStr_def lp_appendInt_def lp_len_def)

lemma lp_get_from_eq:
  assumes "elems_ok xs" "i < length xs"
  shows "lp_get_from i (concat (map elem_enc xs)) = Some (xs ! i, True)"
  using assms
proof (induction i arbitrary: xs)
  case 0
  then obtain x ys where "xs = x # ys" by (cases xs) auto
  with 0 show ?case using lpe.dec_enc [of x] by (cases x) simp_all
next
  case (Suc i)
  then obtain x ys where "xs = x # ys" by (cases xs) auto
  with Suc show ?case using lpe.dec_enc [of x] lpe.enc_nonempty [of x] by simp
qed

lemma lp_get_of [simp]:
  assumes "elems_ok xs"
  shows "lp_get (lp_of xs) i =
    Some (if 0 \<le> i \<and> i < int (length xs) then (xs ! nat i, True) else (GNil, False))"
  using lp_get_from_eq [OF assms, of "nat i"] by (auto simp: lp_get_def lp_of_def)

lemma lp_range_from_eq:
  "elems_ok xs \<Longrightarrow> lp_range_from fn i (length xs) (concat (map elem_enc xs)) s = iter fn i xs s"
proof (induction xs arbitrary: i s)
  case (Cons x xs)
  then show ?case
    using lpe.dec_enc [of x] lpe.enc_nonempty [of x]
    by (auto split: Option.bind_splits)
qed simp

lemma lp_range_of [simp]: "elems_ok xs \<Longrightarrow> lp_range (lp_of xs) fn s = iter fn 0 xs s"
  by (simp add: lp_range_def lp_of_def lp_range_from_eq)

lemma lp_of_inj: "elems_ok xs \<Longrightarrow> elems_ok ys \<Longrightarrow> lp_of xs = lp_of ys \<Longrightarrow> xs = ys"
  using lpe.encs_inj [of xs ys] by (simp add: lp_of_def elems_ok_def)

section \<open>Properties\<close>

text \<open>Appending an element of either kind, as the callers do.\<close>

definition lp_append_all :: "gany list \<Rightarrow> listpack" where
  "lp_append_all xs = foldl (\<lambda>lp x. case x of GStr s \<Rightarrow> lp_appendStr lp s | GInt v \<Rightarrow> lp_appendInt lp v | _ \<Rightarrow> lp)
     newListpack xs"

lemma lp_append_all_of: "elems_ok xs \<Longrightarrow> lp_append_all xs = lp_of xs"
proof (induction xs rule: rev_induct)
  case (snoc x xs)
  then show ?case by (cases x) (auto simp: lp_append_all_def)
qed (simp add: lp_append_all_def)

text \<open>C10. A listpack gives back what was appended to it: \<open>Range\<close> visits exactly the appended strings
  and integers with their positions, in order, and \<open>Get\<close> returns the element at every position
  and reports every other index as missing.\<close>

theorem listpack_roundtrip:
  assumes "elems_ok xs"
  shows "lp_range (lp_append_all xs) (\<lambda>acc i x. Some (acc @ [(i, x)], True)) [] = Some (enumerate 0 xs) \<and>
    lp_get (lp_append_all xs) i =
      Some (if 0 \<le> i \<and> i < int (length xs) then (xs ! nat i, True) else (GNil, False))"
proof
  have "iter (\<lambda>acc i x. Some (acc @ [(i, x)], True)) n ys acc = Some (acc @ enumerate n ys)" for n ys and acc :: "(nat \<times> gany) list"
    by (induction ys arbitrary: n acc) auto
  then show "lp_range (lp_append_all xs) (\<lambda>acc i x. Some (acc @ [(i, x)], True)) [] = Some (enumerate 0 xs)"
    using assms by (simp add: lp_append_all_of)
qed (use assms in \<open>simp add: lp_append_all_of\<close>)

theorem listpack_roundtrip_witness:
  "lp_get (lp_append_all [GStr ''ab'', GInt (-300)]) 1 = Some (GInt (-300), True)"
  using listpack_roundtrip [of "[GStr ''ab'', GInt (-300)]" 1] by (simp add: go_str_def int64_def)

end
