(* ===== verification/Intset.thy ===== *)
theory Intset
  imports IntStr
begin

text \<open>
  The sorted integer set of \<^verbatim>\<open>internal/object/intset.go\<close>, with Go's binary search
  \<^verbatim>\<open>sort.Search\<close>. The methods that test their receiver for nil take an
  \<open>intset option\<close>. The invariant: the data is strictly increasing and every value fits the
  recorded width.
\<close>

section \<open>Binary search (sort.Search)\<close>

function search :: "(nat \<Rightarrow> bool) \<Rightarrow> nat \<Rightarrow> nat \<Rightarrow> nat" where
  "search f i j =
     (if i < j then
        (let h = (i + j) div 2 in if \<not> f h then search f (Suc h) j else search f i h)
      else i)"
  by pat_completeness auto
termination
  by (relation "measure (\<lambda>(f, i, j). j - i)") auto

declare search.simps [simp del]

definition sort_Search :: "nat \<Rightarrow> (nat \<Rightarrow> bool) \<Rightarrow> nat" where
  "sort_Search n f = search f 0 n"

text \<open>
  On a predicate that is false and then true, the search returns the first index where it is
  true.
\<close>

lemma search_stop [simp]: "\<not> i < j \<Longrightarrow> search f i j = i"
  by (simp add: search.simps)

lemma search_bounds: "i \<le> j \<Longrightarrow> i \<le> search f i j \<and> search f i j \<le> j"
proof (induction f i j rule: search.induct)
  case (1 f i j)
  show ?case
  proof (cases "i < j")
    case True
    let ?h = "(i + j) div 2"
    have "i \<le> ?h" "?h < j" using True by auto
    then show ?thesis
      using "1.IH" [OF True refl] True by (auto simp: search.simps [of f i j] Let_def)
  qed (use "1.prems" in simp)
qed

lemma search_first:
  assumes "\<And>a b. a \<le> b \<Longrightarrow> b < n \<Longrightarrow> f a \<Longrightarrow> f b" "i \<le> j" "j \<le> n"
    and "\<And>a. a < i \<Longrightarrow> \<not> f a" "\<And>a. j \<le> a \<Longrightarrow> a < n \<Longrightarrow> f a"
  shows "(\<forall>a < search f i j. \<not> f a) \<and> (\<forall>a. search f i j \<le> a \<and> a < n \<longrightarrow> f a)"
  using assms
proof (induction f i j rule: search.induct)
  case (1 f i j)
  show ?case
  proof (cases "i < j")
    case True
    let ?h = "(i + j) div 2"
    have h: "i \<le> ?h" "?h < j" using True by auto
    show ?thesis
    proof (cases "f ?h")
      case fh: True
      have "\<And>a. ?h \<le> a \<Longrightarrow> a < n \<Longrightarrow> f a" using "1.prems"(1) fh by blast
      with "1.IH"(2) [OF True refl] "1.prems" h fh show ?thesis
        by (simp add: search.simps [of f i j] True Let_def)
    next
      case fh: False
      have "\<not> f a" if "a < Suc ?h" for a
        using "1.prems"(1) [of a ?h] "1.prems"(3) fh h that by auto
      with "1.IH"(1) [OF True refl] "1.prems" h fh show ?thesis
        by (simp add: search.simps [of f i j] True Let_def)
    qed
  next
    case False
    then have "i = j" using "1.prems"(2) by simp
    with "1.prems" show ?thesis by simp
  qed
qed

section \<open>The intset\<close>

record intset =
  is_data :: "int list"
  is_width :: nat

definition newIntset :: intset where
  "newIntset = \<lparr>is_data = [], is_width = 16\<rparr>"

definition is_len :: "intset \<Rightarrow> nat" where
  "is_len s = length (is_data s)"

definition is_getWidth :: "intset \<Rightarrow> nat" where
  "is_getWidth s = is_width s"

definition is_find :: "intset \<Rightarrow> int \<Rightarrow> nat" where
  "is_find s v = sort_Search (length (is_data s)) (\<lambda>i. is_data s ! i \<ge> v)"

definition is_contains :: "intset option \<Rightarrow> int \<Rightarrow> bool" where
  "is_contains so v =
     (case so of
        None \<Rightarrow> False
      | Some s \<Rightarrow>
          if is_data s = [] then False
          else let idx = is_find s v in idx < length (is_data s) \<and> is_data s ! idx = v)"

definition is_updateWidth :: "intset \<Rightarrow> int \<Rightarrow> intset" where
  "is_updateWidth s v =
     (if v < -2147483648 \<or> v > 2147483647 then s\<lparr>is_width := 64\<rparr>
      else if v < -32768 \<or> v > 32767 then
        (if is_width s < 32 then s\<lparr>is_width := 32\<rparr> else s)
      else (if is_width s < 16 then s\<lparr>is_width := 16\<rparr> else s))"

definition is_add :: "intset option \<Rightarrow> int \<Rightarrow> intset option \<times> bool" where
  "is_add so v =
     (case so of
        None \<Rightarrow> (None, False)
      | Some s \<Rightarrow>
          (let idx = is_find s v in
           if idx < length (is_data s) \<and> is_data s ! idx = v then (Some s, False)
           else let s1 = is_updateWidth s v
                in (Some (s1\<lparr>is_data := list_insert idx v (is_data s1)\<rparr>), True)))"

definition is_remove :: "intset option \<Rightarrow> int \<Rightarrow> intset option \<times> bool" where
  "is_remove so v =
     (case so of
        None \<Rightarrow> (None, False)
      | Some s \<Rightarrow>
          if is_data s = [] then (Some s, False)
          else let idx = is_find s v in
            if idx \<ge> length (is_data s) \<or> is_data s ! idx \<noteq> v then (Some s, False)
            else (Some (s\<lparr>is_data := list_remove idx (is_data s)\<rparr>), True))"

definition is_range :: "intset option \<Rightarrow> ('s \<Rightarrow> int \<Rightarrow> ('s \<times> bool) option) \<Rightarrow> 's \<Rightarrow> 's option" where
  "is_range so fn st =
     (case so of None \<Rightarrow> Some st | Some s \<Rightarrow> iter (\<lambda>st _ v. fn st v) 0 (is_data s) st)"

definition is_toSlice :: "intset option \<Rightarrow> int list" where
  "is_toSlice so = (case so of None \<Rightarrow> [] | Some s \<Rightarrow> is_data s)"

section \<open>Invariant and behaviour\<close>

definition fits_width :: "nat \<Rightarrow> int \<Rightarrow> bool" where
  "fits_width w v \<longleftrightarrow> - (2 ^ (w - 1)) \<le> v \<and> v < 2 ^ (w - 1)"

definition intset_inv :: "intset \<Rightarrow> bool" where
  "intset_inv s \<longleftrightarrow> sorted_wrt (<) (is_data s) \<and> is_width s \<in> {16, 32, 64} \<and>
     (\<forall>v \<in> set (is_data s). fits_width (is_width s) v)"

lemma is_find_spec:
  assumes "sorted_wrt (<) (is_data s)"
  shows "is_find s v \<le> length (is_data s)"
    and "\<forall>x \<in> set (take (is_find s v) (is_data s)). x < v"
    and "\<forall>x \<in> set (drop (is_find s v) (is_data s)). v \<le> x"
proof -
  let ?n = "length (is_data s)" and ?f = "\<lambda>i. is_data s ! i \<ge> v"
  show le: "is_find s v \<le> ?n"
    using search_bounds [of 0 ?n ?f] by (simp add: is_find_def sort_Search_def)
  have mono: "?f b" if "a \<le> b" "b < ?n" "?f a" for a b
    using sorted_wrt_nth_less [OF assms, of a b] that by (cases "a = b") auto
  have "(\<forall>a < is_find s v. \<not> ?f a) \<and> (\<forall>a. is_find s v \<le> a \<and> a < ?n \<longrightarrow> ?f a)"
    unfolding is_find_def sort_Search_def
  proof (rule search_first)
    show "?f b" if "a \<le> b" "b < ?n" "?f a" for a b using that by (rule mono)
  qed simp_all
  then show "\<forall>x \<in> set (take (is_find s v) (is_data s)). x < v"
    "\<forall>x \<in> set (drop (is_find s v) (is_data s)). v \<le> x"
    using le by (auto simp: in_set_conv_nth not_le)
qed

lemma is_find_mem:
  assumes "sorted_wrt (<) (is_data s)"
  shows "is_find s v < length (is_data s) \<and> is_data s ! is_find s v = v \<longleftrightarrow> v \<in> set (is_data s)"
proof
  assume "v \<in> set (is_data s)"
  then have "v \<in> set (take (is_find s v) (is_data s)) \<union> set (drop (is_find s v) (is_data s))"
    by (simp flip: set_append)
  then have in_drop: "v \<in> set (drop (is_find s v) (is_data s))"
    using is_find_spec(2) [OF assms, of v] by blast
  then obtain y ys where d: "drop (is_find s v) (is_data s) = y # ys"
    by (cases "drop (is_find s v) (is_data s)") auto
  have len: "is_find s v < length (is_data s)"
    using d by (cases "is_find s v < length (is_data s)") auto
  have y: "y = v"
  proof -
    have "sorted_wrt (<) (y # ys)"
      using sorted_wrt_drop [OF assms, of "is_find s v"] by (simp only: d)
    moreover have "v \<le> y" using is_find_spec(3) [OF assms, of v] d by simp
    moreover have "v \<in> set (y # ys)" using in_drop by (simp only: d)
    ultimately show ?thesis by auto
  qed
  show "is_find s v < length (is_data s) \<and> is_data s ! is_find s v = v"
    using Cons_nth_drop_Suc [OF len] by (simp only: d y len) simp
next
  assume "is_find s v < length (is_data s) \<and> is_data s ! is_find s v = v"
  then show "v \<in> set (is_data s)" using nth_mem by metis
qed

lemma fits_width_mono: "fits_width w v \<Longrightarrow> w \<le> w' \<Longrightarrow> fits_width w' v"
proof -
  assume "fits_width w v" "w \<le> w'"
  moreover have "(2 :: int) ^ (w - 1) \<le> 2 ^ (w' - 1)"
    using \<open>w \<le> w'\<close> by (intro power_increasing) auto
  ultimately show ?thesis unfolding fits_width_def by linarith
qed

lemma updateWidth_data [simp]: "is_data (is_updateWidth s v) = is_data s"
  by (simp add: is_updateWidth_def)

lemma updateWidth_inv:
  assumes "is_width s \<in> {16, 32, 64}" "int64 v"
  shows "is_width (is_updateWidth s v) \<in> {16, 32, 64}"
    and "is_width s \<le> is_width (is_updateWidth s v)"
    and "fits_width (is_width (is_updateWidth s v)) v"
  using assms by (auto simp: is_updateWidth_def fits_width_def int64_def)

lemma sorted_insert_find:
  assumes "sorted_wrt (<) (is_data s)" "v \<notin> set (is_data s)"
  shows "sorted_wrt (<) (list_insert (is_find s v) v (is_data s))"
proof -
  let ?k = "is_find s v"
  have v: "\<forall>x \<in> set (drop ?k (is_data s)). v < x"
    using is_find_spec(3) [OF assms(1), of v] assms(2)
    by (metis in_set_dropD order_le_imp_less_or_eq)
  have t: "sorted_wrt (<) (take ?k (is_data s))" "sorted_wrt (<) (drop ?k (is_data s))"
    using assms(1) by (simp_all add: sorted_wrt_take sorted_wrt_drop)
  have "x < y" if "x \<in> set (take ?k (is_data s))" "y \<in> set (drop ?k (is_data s))" for x y
    using is_find_spec(2) [OF assms(1), of v] v that by fastforce
  with v t is_find_spec(2) [OF assms(1), of v] show ?thesis
    by (auto simp: list_insert_def sorted_wrt_append)
qed

lemma is_add_spec:
  assumes "intset_inv s" "int64 v" "is_add (Some s) v = (so, b)"
  obtains s' where "so = Some s'" "intset_inv s'" "set (is_data s') = insert v (set (is_data s))"
    "b \<longleftrightarrow> v \<notin> set (is_data s)" "is_width s \<le> is_width s'"
proof (cases "v \<in> set (is_data s)")
  case True
  then show thesis
    using that [of s] assms is_find_mem [of s v] by (auto simp: is_add_def intset_inv_def Let_def)
next
  case False
  let ?s' = "(is_updateWidth s v)\<lparr>is_data := list_insert (is_find s v) v (is_data s)\<rparr>"
  have w: "is_width s \<in> {16, 32, 64}" using assms(1) by (simp add: intset_inv_def)
  have "so = Some ?s'" "b"
    using assms False is_find_mem [of s v] by (auto simp: is_add_def intset_inv_def Let_def)
  moreover have "intset_inv ?s'"
    using assms False updateWidth_inv [OF w assms(2)] sorted_insert_find [of s v]
    by (auto simp: intset_inv_def intro: fits_width_mono)
  ultimately show thesis using that [of ?s'] updateWidth_inv(2) [OF w assms(2)] False by simp
qed

lemma list_remove_set:
  "sorted_wrt (<) xs \<Longrightarrow> i < length xs \<Longrightarrow> set (list_remove i xs) = set xs - {xs ! i}"
  for xs :: "'a :: linorder list"
proof -
  assume s: "sorted_wrt (<) xs" and i: "i < length xs"
  then have "distinct xs" by (simp add: strict_sorted_iff)
  moreover have xs: "xs = take i xs @ xs ! i # drop (Suc i) xs" using i by (rule id_take_nth_drop)
  ultimately have "xs ! i \<notin> set (take i xs) \<union> set (drop (Suc i) xs)"
    by (metis UnE disjoint_insert(1) distinct.simps(2) distinct_append list.simps(15))
  moreover have "set xs = set (take i xs) \<union> insert (xs ! i) (set (drop (Suc i) xs))"
    using arg_cong [OF xs, of set] by simp
  ultimately show ?thesis by (auto simp: list_remove_def)
qed

lemma sorted_list_remove: "sorted_wrt (<) xs \<Longrightarrow> sorted_wrt (<) (list_remove i xs)"
proof -
  assume s: "sorted_wrt (<) xs"
  have "sorted_wrt (<) (take i xs @ drop i xs)" using s by simp
  then have "\<forall>x \<in> set (take i xs). \<forall>y \<in> set (drop i xs). x < y"
    unfolding sorted_wrt_append by blast
  moreover have "set (drop (Suc i) xs) \<subseteq> set (drop i xs)" by (rule set_drop_subset_set_drop) simp
  ultimately have "\<forall>x \<in> set (take i xs). \<forall>y \<in> set (drop (Suc i) xs). x < y" by blast
  then show ?thesis
    using s by (simp add: list_remove_def sorted_wrt_append sorted_wrt_take sorted_wrt_drop)
qed

lemma is_remove_spec:
  assumes "intset_inv s" "is_remove (Some s) v = (so, b)"
  obtains s' where "so = Some s'" "intset_inv s'" "set (is_data s') = set (is_data s) - {v}"
    "b \<longleftrightarrow> v \<in> set (is_data s)"
proof (cases "v \<in> set (is_data s)")
  case True
  have s: "sorted_wrt (<) (is_data s)" using assms(1) by (simp add: intset_inv_def)
  let ?s' = "s\<lparr>is_data := list_remove (is_find s v) (is_data s)\<rparr>"
  have f: "is_find s v < length (is_data s)" "is_data s ! is_find s v = v"
    using True is_find_mem [OF s, of v] by auto
  have "so = Some ?s'" "b"
    using assms(2) f True by (auto simp: is_remove_def Let_def split: if_splits)
  moreover have "set (is_data ?s') = set (is_data s) - {v}"
    using list_remove_set [OF s f(1)] f(2) by simp
  moreover from this have "intset_inv ?s'"
    using assms(1) sorted_list_remove [OF s] by (auto simp: intset_inv_def)
  ultimately show thesis using that [of ?s'] True by simp
next
  case False
  then show thesis
    using that [of s] assms is_find_mem [of s v]
    by (auto simp: is_remove_def intset_inv_def Let_def split: if_splits)
qed

lemma is_contains_spec: "intset_inv s \<Longrightarrow> is_contains (Some s) v \<longleftrightarrow> v \<in> set (is_data s)"
  using is_find_mem [of s v] by (auto simp: is_contains_def intset_inv_def Let_def)

lemma newIntset_inv [simp]: "intset_inv newIntset" "is_data newIntset = []"
  by (simp_all add: newIntset_def intset_inv_def)

lemma intset_distinct: "intset_inv s \<Longrightarrow> distinct (is_data s)"
  by (simp add: intset_inv_def strict_sorted_iff)

lemma is_range_eq [simp]: "is_range (Some s) fn st = iter (\<lambda>st _ v. fn st v) 0 (is_data s) st"
  by (simp add: is_range_def)

section \<open>Properties\<close>

text \<open>C12. On a well-formed intset \<open>Add\<close> and \<open>Remove\<close> are insertion into and deletion from the set
  of integers that \<open>Contains\<close> decides: they report whether the set changed, and they keep the
  elements ascending and inside the recorded width, which an insertion never narrows.\<close>

theorem intset_set_semantics:
  assumes "intset_inv s" "int64 v"
  shows "\<exists>s1 s2. is_add (Some s) v = (Some s1, \<not> is_contains (Some s) v) \<and> intset_inv s1 \<and>
           (\<forall>w. is_contains (Some s1) w \<longleftrightarrow> w = v \<or> is_contains (Some s) w) \<and> is_width s \<le> is_width s1 \<and>
           is_remove (Some s) v = (Some s2, is_contains (Some s) v) \<and> intset_inv s2 \<and>
           (\<forall>w. is_contains (Some s2) w \<longleftrightarrow> w \<noteq> v \<and> is_contains (Some s) w)"
proof -
  obtain so b where add: "is_add (Some s) v = (so, b)" by fastforce
  obtain s1 where s1: "so = Some s1" "intset_inv s1" "set (is_data s1) = insert v (set (is_data s))"
      "b \<longleftrightarrow> v \<notin> set (is_data s)" "is_width s \<le> is_width s1"
    by (rule is_add_spec [OF assms add])
  obtain so' b' where rem: "is_remove (Some s) v = (so', b')" by fastforce
  obtain s2 where s2: "so' = Some s2" "intset_inv s2" "set (is_data s2) = set (is_data s) - {v}"
      "b' \<longleftrightarrow> v \<in> set (is_data s)"
    by (rule is_remove_spec [OF assms(1) rem])
  show ?thesis
    by (intro exI [of _ s1] exI [of _ s2])
      (simp add: add rem s1 s2 is_contains_spec [OF assms(1)] is_contains_spec [OF s1(2)] is_contains_spec [OF s2(2)] conj_commute)
qed

theorem intset_set_semantics_witness:
  "\<exists>s1. is_add (Some \<lparr>is_data = [2, 5], is_width = 16\<rparr>) 40000 = (Some s1, True) \<and> intset_inv s1 \<and>
        is_contains (Some s1) 40000"
proof -
  have inv: "intset_inv \<lparr>is_data = [2, 5], is_width = 16\<rparr>" and "int64 40000"
    by (simp_all add: intset_inv_def fits_width_def int64_def)
  from intset_set_semantics [OF this] show ?thesis
    by (simp only: is_contains_spec [OF inv]) (elim exE conjE, intro exI conjI, auto)
qed

end
