(* ===== verification/Dict.thy ===== *)
theory Dict
  imports Prelude
begin

text \<open>
  The interface \<^verbatim>\<open>dict.Dict\<close> of \<^verbatim>\<open>internal/datastruct/dict/dict.go\<close>: the table of
  operations, the contract every implementation has to keep (locale \<open>dict_impl\<close>, over the
  abstract map a dict stands for and the number of bindings up to which its
  counters are exact), and what a client may conclude from it: any sequence of calls
  returns what a plain finite map returns. The implementations are interpreted in their own
  theories (\<open>SimpleDict\<close>, \<open>ConcurrentDict\<close>, \<open>RedisDict\<close>).
\<close>

section \<open>The interface\<close>

text \<open>
  Each operation returns \<open>None\<close> when it panics. \<open>dGet\<close> and \<open>dRemove\<close> return the
  value as an option for the pair of a value and a flag (or a count of 0 or 1). \<open>dEntries\<close>
  is the sequence of bindings that \<^verbatim>\<open>ForEach\<close> visits.
\<close>

record ('d, 'v) Dict =
  dGet :: "'d \<Rightarrow> string \<Rightarrow> 'v option option"
  dLen :: "'d \<Rightarrow> nat option"
  dPut :: "'d \<Rightarrow> string \<Rightarrow> 'v \<Rightarrow> ('d \<times> nat) option"
  dPutIfAbsent :: "'d \<Rightarrow> string \<Rightarrow> 'v \<Rightarrow> ('d \<times> nat) option"
  dPutIfExists :: "'d \<Rightarrow> string \<Rightarrow> 'v \<Rightarrow> ('d \<times> nat) option"
  dRemove :: "'d \<Rightarrow> string \<Rightarrow> ('d \<times> 'v option) option"
  dEntries :: "'d \<Rightarrow> (string \<times> 'v) list"
  dClear :: "'d \<Rightarrow> 'd"

section \<open>Sequences of calls\<close>

datatype 'v dict_op =
    OpGet string
  | OpLen
  | OpPut string 'v
  | OpPutIfAbsent string 'v
  | OpPutIfExists string 'v
  | OpRemove string
  | OpClear

datatype 'v dict_res = RVal "'v option" | RNum nat | RUnit

fun dict_step :: "('d, 'v) Dict \<Rightarrow> 'd \<Rightarrow> 'v dict_op \<Rightarrow> ('d \<times> 'v dict_res) option" where
  "dict_step D d (OpGet k) = do { v \<leftarrow> dGet D d k; Some (d, RVal v) }"
| "dict_step D d OpLen = do { n \<leftarrow> dLen D d; Some (d, RNum n) }"
| "dict_step D d (OpPut k v) = do { (d', n) \<leftarrow> dPut D d k v; Some (d', RNum n) }"
| "dict_step D d (OpPutIfAbsent k v) = do { (d', n) \<leftarrow> dPutIfAbsent D d k v; Some (d', RNum n) }"
| "dict_step D d (OpPutIfExists k v) = do { (d', n) \<leftarrow> dPutIfExists D d k v; Some (d', RNum n) }"
| "dict_step D d (OpRemove k) = do { (d', v) \<leftarrow> dRemove D d k; Some (d', RVal v) }"
| "dict_step D d OpClear = Some (dClear D d, RUnit)"

fun dict_run :: "('d, 'v) Dict \<Rightarrow> 'd \<Rightarrow> 'v dict_op list \<Rightarrow> ('d \<times> 'v dict_res list) option" where
  "dict_run D d [] = Some (d, [])"
| "dict_run D d (op # ops) =
     do { (d1, r) \<leftarrow> dict_step D d op; (d2, rs) \<leftarrow> dict_run D d1 ops; Some (d2, r # rs) }"

text \<open>The same calls on a finite map, the abstract specification.\<close>

fun map_step :: "(string \<rightharpoonup> 'v) \<Rightarrow> 'v dict_op \<Rightarrow> (string \<rightharpoonup> 'v) \<times> 'v dict_res" where
  "map_step m (OpGet k) = (m, RVal (m k))"
| "map_step m OpLen = (m, RNum (card (dom m)))"
| "map_step m (OpPut k v) = (m(k \<mapsto> v), RNum (if k \<in> dom m then 0 else 1))"
| "map_step m (OpPutIfAbsent k v) =
     (if k \<in> dom m then (m, RNum 0) else (m(k \<mapsto> v), RNum 1))"
| "map_step m (OpPutIfExists k v) =
     (if k \<in> dom m then (m(k \<mapsto> v), RNum 1) else (m, RNum 0))"
| "map_step m (OpRemove k) = (m(k := None), RVal (m k))"
| "map_step m OpClear = (Map.empty, RUnit)"

fun map_run :: "(string \<rightharpoonup> 'v) \<Rightarrow> 'v dict_op list \<Rightarrow> (string \<rightharpoonup> 'v) \<times> 'v dict_res list" where
  "map_run m [] = (m, [])"
| "map_run m (op # ops) =
     (let (m1, r) = map_step m op; (m2, rs) = map_run m1 ops in (m2, r # rs))"

lemma map_step_finite: "finite (dom m) \<Longrightarrow> finite (dom (fst (map_step m op)))"
  by (cases op) auto

lemma map_step_card: "finite (dom m) \<Longrightarrow> card (dom (fst (map_step m op))) \<le> Suc (card (dom m))"
  by (cases op) (auto simp: card_insert_if intro: le_SucI card_mono)

section \<open>The contract\<close>

locale dict_impl =
  fixes D :: "('d, 'v) Dict"
    and inv :: "'d \<Rightarrow> bool"
    and abs :: "'d \<Rightarrow> (string \<rightharpoonup> 'v)"
    and cap :: nat
  assumes get: "inv d \<Longrightarrow> dGet D d k = Some (abs d k)"
    and len: "inv d \<Longrightarrow> dLen D d = Some (card (dom (abs d)))"
    and put: "inv d \<Longrightarrow> card (dom (abs d)) < cap \<Longrightarrow>
      \<exists>d'. dPut D d k v = Some (d', if k \<in> dom (abs d) then 0 else 1) \<and> inv d' \<and>
           abs d' = (abs d)(k \<mapsto> v)"
    and putIfAbsent: "inv d \<Longrightarrow> card (dom (abs d)) < cap \<Longrightarrow>
      \<exists>d'. dPutIfAbsent D d k v = Some (d', if k \<in> dom (abs d) then 0 else 1) \<and> inv d' \<and>
           abs d' = (if k \<in> dom (abs d) then abs d else (abs d)(k \<mapsto> v))"
    and putIfExists: "inv d \<Longrightarrow> card (dom (abs d)) < cap \<Longrightarrow>
      \<exists>d'. dPutIfExists D d k v = Some (d', if k \<in> dom (abs d) then 1 else 0) \<and> inv d' \<and>
           abs d' = (if k \<in> dom (abs d) then (abs d)(k \<mapsto> v) else abs d)"
    and remove: "inv d \<Longrightarrow>
      \<exists>d'. dRemove D d k = Some (d', abs d k) \<and> inv d' \<and> abs d' = (abs d)(k := None)"
    and entries: "inv d \<Longrightarrow> distinct (map fst (dEntries D d)) \<and> map_of (dEntries D d) = abs d"
    and clear: "inv d \<Longrightarrow> inv (dClear D d) \<and> abs (dClear D d) = Map.empty"
begin

lemma finite_dom: "inv d \<Longrightarrow> finite (dom (abs d))"
  using entries [of d] finite_dom_map_of [of "dEntries D d"] by simp

lemma card_entries: "inv d \<Longrightarrow> card (dom (abs d)) = length (dEntries D d)"
  using entries [of d] map_of_card [of "dEntries D d"] by simp

text \<open>One call implements the call on the abstract map and keeps the invariant.\<close>

lemma step_refines:
  assumes "inv d" "card (dom (abs d)) < cap"
  shows "\<exists>d'. dict_step D d op = Some (d', snd (map_step (abs d) op)) \<and> inv d' \<and>
              abs d' = fst (map_step (abs d) op)"
proof (cases op)
  case (OpPut k v)
  then show ?thesis using put [OF assms, of k v] by auto
next
  case (OpPutIfAbsent k v)
  then show ?thesis using putIfAbsent [OF assms, of k v] by fastforce
next
  case (OpPutIfExists k v)
  then show ?thesis using putIfExists [OF assms, of k v] by fastforce
next
  case (OpRemove k)
  then show ?thesis using remove [OF assms(1), of k] by auto
qed (use assms get len clear in auto)

text \<open>
  Every sequence of calls returns, without a panic, the results of the same calls on the map.
\<close>

lemma run_refines:
  assumes "inv d" "card (dom (abs d)) + length ops \<le> cap"
  shows "\<exists>d'. dict_run D d ops = Some (d', snd (map_run (abs d) ops)) \<and> inv d' \<and>
              abs d' = fst (map_run (abs d) ops)"
  using assms
proof (induction ops arbitrary: d)
  case Nil
  then show ?case by simp
next
  case (Cons op ops)
  obtain d1 where d1: "dict_step D d op = Some (d1, snd (map_step (abs d) op))" "inv d1"
      "abs d1 = fst (map_step (abs d) op)"
    using step_refines [of d op] Cons.prems by auto
  have "card (dom (abs d1)) + length ops \<le> cap"
    using map_step_card [of "abs d" op] finite_dom [of d] Cons.prems d1(3) by simp
  then obtain d2 where "dict_run D d1 ops = Some (d2, snd (map_run (abs d1) ops))" "inv d2"
      "abs d2 = fst (map_run (abs d1) ops)"
    using Cons.IH [of d1] d1(2) by auto
  then show ?case using d1(1,3) by (simp add: split_beta Let_def)
qed

end

end
