(* ===== verification/SimpleDict.thy ===== *)
theory SimpleDict
  imports Dict
begin

text \<open>
  The map-backed dict of \<^verbatim>\<open>internal/datastruct/dict/simple.go\<close>. A Go map is the list of its
  bindings in the order an iteration happens to visit them; Go leaves that order open, and no
  statement of the development depends on it.
\<close>

record 'v simpleDict =
  sd_m :: "(string \<times> 'v) list"

definition makeSimple :: "'v simpleDict" where
  "makeSimple = \<lparr>sd_m = []\<rparr>"

fun gmap_set :: "string \<Rightarrow> 'v \<Rightarrow> (string \<times> 'v) list \<Rightarrow> (string \<times> 'v) list" where
  "gmap_set k v [] = [(k, v)]"
| "gmap_set k v ((k', v') # m) = (if k' = k then (k, v) # m else (k', v') # gmap_set k v m)"

definition gmap_delete :: "string \<Rightarrow> (string \<times> 'v) list \<Rightarrow> (string \<times> 'v) list" where
  "gmap_delete k m = filter (\<lambda>(k', _). k' \<noteq> k) m"

definition sd_get :: "'v simpleDict \<Rightarrow> string \<Rightarrow> 'v option" where
  "sd_get d k = map_of (sd_m d) k"

definition sd_len :: "'v simpleDict \<Rightarrow> nat" where
  "sd_len d = length (sd_m d)"

definition sd_put :: "'v simpleDict \<Rightarrow> string \<Rightarrow> 'v \<Rightarrow> 'v simpleDict \<times> nat" where
  "sd_put d k v =
     (let existed = map_of (sd_m d) k \<noteq> None; d' = d\<lparr>sd_m := gmap_set k v (sd_m d)\<rparr>
      in if existed then (d', 0) else (d', 1))"

definition sd_putIfAbsent :: "'v simpleDict \<Rightarrow> string \<Rightarrow> 'v \<Rightarrow> 'v simpleDict \<times> nat" where
  "sd_putIfAbsent d k v =
     (if map_of (sd_m d) k \<noteq> None then (d, 0)
      else (d\<lparr>sd_m := gmap_set k v (sd_m d)\<rparr>, 1))"

definition sd_putIfExists :: "'v simpleDict \<Rightarrow> string \<Rightarrow> 'v \<Rightarrow> 'v simpleDict \<times> nat" where
  "sd_putIfExists d k v =
     (if map_of (sd_m d) k \<noteq> None then (d\<lparr>sd_m := gmap_set k v (sd_m d)\<rparr>, 1) else (d, 0))"

definition sd_remove :: "'v simpleDict \<Rightarrow> string \<Rightarrow> 'v simpleDict \<times> 'v option" where
  "sd_remove d k = (d\<lparr>sd_m := gmap_delete k (sd_m d)\<rparr>, map_of (sd_m d) k)"

definition sd_keys :: "'v simpleDict \<Rightarrow> string list" where
  "sd_keys d = map fst (sd_m d)"

definition sd_forEach :: "'v simpleDict \<Rightarrow> ('s \<Rightarrow> string \<Rightarrow> 'v \<Rightarrow> ('s \<times> bool) option) \<Rightarrow> 's \<Rightarrow> 's option" where
  "sd_forEach d consumer s = iter (\<lambda>s _ (k, v). consumer s k v) 0 (sd_m d) s"

text \<open>
  Each round of \<open>RandomKeys\<close> takes the first key of a fresh iteration (the empty string
  where there is none); \<open>RandomDistinctKeys\<close> takes the first keys of one iteration.
\<close>

definition sd_randomKeys :: "'v simpleDict \<Rightarrow> nat \<Rightarrow> string list" where
  "sd_randomKeys d limit =
     map (\<lambda>_. case sd_m d of [] \<Rightarrow> [] | (k, _) # _ \<Rightarrow> k) [0..<limit]"

definition sd_randomDistinctKeys :: "'v simpleDict \<Rightarrow> nat \<Rightarrow> string list" where
  "sd_randomDistinctKeys d limit = take (min limit (length (sd_m d))) (map fst (sd_m d))"

definition sd_clear :: "'v simpleDict \<Rightarrow> 'v simpleDict" where
  "sd_clear d = makeSimple"

definition simple_Dict :: "('v simpleDict, 'v) Dict" where
  "simple_Dict = \<lparr>
     dGet = (\<lambda>d k. Some (sd_get d k)),
     dLen = (\<lambda>d. Some (sd_len d)),
     dPut = (\<lambda>d k v. Some (sd_put d k v)),
     dPutIfAbsent = (\<lambda>d k v. Some (sd_putIfAbsent d k v)),
     dPutIfExists = (\<lambda>d k v. Some (sd_putIfExists d k v)),
     dRemove = (\<lambda>d k. Some (sd_remove d k)),
     dEntries = sd_m,
     dClear = sd_clear\<rparr>"

section \<open>Invariant and contract\<close>

definition sd_inv :: "'v simpleDict \<Rightarrow> bool" where
  "sd_inv d \<longleftrightarrow> distinct (map fst (sd_m d))"

definition sd_abs :: "'v simpleDict \<Rightarrow> (string \<rightharpoonup> 'v)" where
  "sd_abs d = map_of (sd_m d)"

lemma gmap_set_map_of [simp]: "map_of (gmap_set k v m) = (map_of m)(k \<mapsto> v)"
  by (induction m) auto

lemma gmap_set_keys: "set (map fst (gmap_set k v m)) = insert k (set (map fst m))"
  by (induction k v m rule: gmap_set.induct) auto

lemma gmap_set_distinct: "distinct (map fst m) \<Longrightarrow> distinct (map fst (gmap_set k v m))"
proof (induction m)
  case (Cons p m)
  then show ?case using gmap_set_keys [of k v m] by (cases p) auto
qed simp

lemma gmap_delete_map_of [simp]: "map_of (gmap_delete k m) = (map_of m)(k := None)"
  by (induction m) (auto simp: gmap_delete_def)

lemma gmap_delete_distinct: "distinct (map fst m) \<Longrightarrow> distinct (map fst (gmap_delete k m))"
  by (induction m) (auto simp: gmap_delete_def)

interpretation sd: dict_impl simple_Dict sd_inv sd_abs cap for cap
  by unfold_locales
    (auto simp: simple_Dict_def sd_inv_def sd_abs_def sd_get_def sd_len_def sd_put_def
      sd_putIfAbsent_def sd_putIfExists_def sd_remove_def sd_clear_def makeSimple_def Let_def
      gmap_set_distinct gmap_delete_distinct map_of_card)

lemma makeSimple_inv [simp]: "sd_inv makeSimple" "sd_abs makeSimple = Map.empty"
  by (simp_all add: makeSimple_def sd_inv_def sd_abs_def)

lemma sd_randomDistinct:
  "sd_inv d \<Longrightarrow> distinct (sd_randomDistinctKeys d n) \<and> set (sd_randomDistinctKeys d n) \<subseteq> dom (sd_abs d)
    \<and> length (sd_randomDistinctKeys d n) = min n (sd_len d)"
  using set_take_subset [of n "map fst (sd_m d)"] distinct_take [of "map fst (sd_m d)" n]
  by (auto simp: sd_randomDistinctKeys_def sd_inv_def sd_abs_def sd_len_def
      dom_map_of_conv_image_fst min_def take_map)

end
