(* ===== verification/Buckets.thy ===== *)
theory Buckets
  imports Prelude
begin

unbundle bit_operations_syntax

text \<open>
  What the hash tables share: rounding a size up to a power of two by smearing its top bit,
  masking a hash with the table size, and rows of buckets whose keys are determined by the
  bucket's index.
\<close>

section \<open>Powers of two\<close>

lemma and_mask_lt: "x AND (2 ^ n - 1) < (2 :: nat) ^ n"
proof -
  have "x AND (2 ^ n - 1) = take_bit n x" by (simp add: take_bit_eq_mask mask_eq_exp_minus_1)
  then show ?thesis by simp
qed

lemma smear_step:
  fixes a x :: nat
  assumes "\<And>i. bit a i \<longleftrightarrow> (\<exists>j < m. bit x (i + j))"
  shows "bit (a OR drop_bit m a) i \<longleftrightarrow> (\<exists>j < 2 * m. bit x (i + j))"
proof
  assume "bit (a OR drop_bit m a) i"
  then consider "bit a i" | "bit a (m + i)" by (auto simp: bit_simps)
  then show "\<exists>j < 2 * m. bit x (i + j)"
  proof cases
    case 1
    then obtain j where "j < m" "bit x (i + j)" using assms by blast
    then show ?thesis by (intro exI [of _ j]) simp
  next
    case 2
    then obtain j where "j < m" "bit x (m + i + j)" using assms by blast
    then show ?thesis by (intro exI [of _ "m + j"]) (simp add: ac_simps)
  qed
next
  assume "\<exists>j < 2 * m. bit x (i + j)"
  then obtain j where j: "j < 2 * m" "bit x (i + j)" by blast
  show "bit (a OR drop_bit m a) i"
  proof (cases "j < m")
    case True
    then have "bit a i" using j assms by blast
    then show ?thesis by (simp add: bit_simps)
  next
    case False
    then have "j - m < m" "m + i + (j - m) = i + j" using j(1) by auto
    then have "bit a (m + i)" using j(2) assms by metis
    then show ?thesis by (simp add: bit_simps)
  qed
qed

lemma bit_top:
  fixes x :: nat
  assumes "2 ^ k \<le> x" "x < 2 ^ Suc k"
  shows "bit x k" and "k < l \<Longrightarrow> \<not> bit x l"
proof -
  have "x div 2 ^ k = 1" using assms by (simp add: div_nat_eqI)
  then show "bit x k" by (simp add: bit_iff_odd)
  assume "k < l"
  then have "(2 :: nat) ^ Suc k \<le> 2 ^ l" by (intro power_increasing) auto
  then have "x div 2 ^ l = 0" using assms(2) by simp
  then show "\<not> bit x l" by (simp add: bit_iff_odd)
qed

definition smear :: "nat \<Rightarrow> nat \<Rightarrow> nat" where
  "smear m a = a OR drop_bit m a"

lemma smear_window32:
  "bit (smear 16 (smear 8 (smear 4 (smear 2 (smear 1 x))))) i \<longleftrightarrow> (\<exists>j < 32. bit x (i + j))"
proof -
  have step: "bit (smear m a) i \<longleftrightarrow> (\<exists>j < 2 * m. bit x (i + j))"
    if "\<And>i. bit a i \<longleftrightarrow> (\<exists>j < m. bit x (i + j))" for m a i
    unfolding smear_def using that by (rule smear_step)
  have s0: "bit x i \<longleftrightarrow> (\<exists>j < 1. bit x (i + j))" for i by simp
  have s1: "bit (smear 1 x) i \<longleftrightarrow> (\<exists>j < 2. bit x (i + j))" for i
    using step [OF s0] by simp
  have s2: "bit (smear 2 (smear 1 x)) i \<longleftrightarrow> (\<exists>j < 4. bit x (i + j))" for i
    using step [OF s1] by simp
  have s4: "bit (smear 4 (smear 2 (smear 1 x))) i \<longleftrightarrow> (\<exists>j < 8. bit x (i + j))" for i
    using step [OF s2] by simp
  have s8: "bit (smear 8 (smear 4 (smear 2 (smear 1 x)))) i \<longleftrightarrow> (\<exists>j < 16. bit x (i + j))" for i
    using step [OF s4] by simp
  show ?thesis using step [OF s8] by simp
qed

lemma smear_window64:
  "bit (smear 32 (smear 16 (smear 8 (smear 4 (smear 2 (smear 1 x)))))) i \<longleftrightarrow> (\<exists>j < 64. bit x (i + j))"
  using smear_step [OF smear_window32, of x] by (simp add: smear_def [of 32])

text \<open>
  Smearing over a window of \<open>w\<close> bits fills every bit below the top one, where the window
  reaches that far.
\<close>

lemma smear_mask:
  fixes x y :: nat
  assumes k: "2 ^ k \<le> x" "x < 2 ^ Suc k" and y: "\<And>i. bit y i \<longleftrightarrow> (\<exists>j < w. bit x (i + j))" and w: "k < w"
  shows "y = mask (Suc k)"
proof -
  have "bit y i \<longleftrightarrow> i < Suc k" for i
  proof
    assume "bit y i"
    then obtain j where "bit x (i + j)" using y by blast
    then have "\<not> k < i + j" using bit_top(2) [OF k] by blast
    then show "i < Suc k" by simp
  next
    assume "i < Suc k"
    then have "bit x (i + (k - i))" "k - i < w" using bit_top(1) [OF k] w by auto
    then show "bit y i" using y by blast
  qed
  then show ?thesis by (intro bit_eqI) (simp add: bit_mask_iff)
qed

section \<open>Rows of buckets\<close>

text \<open>Buckets whose keys carry their index as a tag are disjoint.\<close>

lemma concat_tagged:
  assumes "\<forall>i < length bs. \<forall>e \<in> set (bs ! i). f (fst e) = i + c" "e \<in> set (concat bs)"
  shows "c \<le> f (fst e)"
proof -
  obtain b where "b \<in> set bs" "e \<in> set b" using assms(2) by auto
  then obtain i where "i < length bs" "e \<in> set (bs ! i)" by (auto simp: in_set_conv_nth)
  then show ?thesis using assms(1) by simp
qed

lemma map_of_concat_tagged:
  assumes "\<forall>i < length bs. \<forall>e \<in> set (bs ! i). f (fst e) = i + c" "c \<le> f k" "f k < c + length bs"
  shows "map_of (concat bs) k = map_of (bs ! (f k - c)) k"
  using assms
proof (induction bs arbitrary: c)
  case (Cons b bs)
  have rest: "\<forall>i < length bs. \<forall>e \<in> set (bs ! i). f (fst e) = i + Suc c"
    using Cons.prems(1) by fastforce
  have head: "\<forall>e \<in> set b. f (fst e) = c" using Cons.prems(1) by fastforce
  show ?case
  proof (cases "f k = c")
    case True
    have "map_of (concat bs) k = None"
    proof -
      have "f (fst e) \<noteq> c" if "e \<in> set (concat bs)" for e
        using concat_tagged [OF rest that] by simp
      then show ?thesis using True by (auto simp: map_of_eq_None_iff)
    qed
    then show ?thesis using True by (simp add: map_add_def split: option.split)
  next
    case False
    then have "map_of b k = None" using head by (auto simp: map_of_eq_None_iff)
    moreover have "map_of (concat bs) k = map_of (bs ! (f k - Suc c)) k"
      using Cons.IH [of "Suc c"] rest Cons.prems(2,3) False by simp
    moreover have "f k - c = Suc (f k - Suc c)" using Cons.prems(2) False by simp
    ultimately show ?thesis by (simp add: map_add_def split: option.splits)
  qed
qed simp

lemma distinct_concat_tagged:
  assumes "\<forall>i < length bs. \<forall>e \<in> set (bs ! i). f (fst e) = i + c"
    "\<forall>i < length bs. distinct (map fst (bs ! i))"
  shows "distinct (map fst (concat bs))"
  using assms
proof (induction bs arbitrary: c)
  case (Cons b bs)
  have rest: "\<forall>i < length bs. \<forall>e \<in> set (bs ! i). f (fst e) = i + Suc c"
    "\<forall>i < length bs. distinct (map fst (bs ! i))"
    using Cons.prems by fastforce+
  have head: "\<forall>e \<in> set b. f (fst e) = c" "distinct (map fst b)" using Cons.prems by fastforce+
  have "fst e \<noteq> fst e'" if "e \<in> set b" "e' \<in> set (concat bs)" for e e'
    using concat_tagged [OF rest(1) that(2)] head(1) that(1) by force
  with head(2) Cons.IH [OF rest] show ?case by (auto simp del: set_concat)
qed simp

lemma length_concat_update:
  "i < length bs \<Longrightarrow> length (concat (bs[i := c])) + length (bs ! i) = length (concat bs) + length c"
proof (induction bs arbitrary: i)
  case (Cons b bs)
  then show ?case by (cases i) auto
qed simp

end
