(* ===== verification/RedisDict.thy ===== *)
theory RedisDict
  imports Dict Buckets
begin

text \<open>
  The incrementally rehashed hash table of \<^verbatim>\<open>internal/datastruct/dict/redisdict.go\<close>. A
  bucket is the list of its chained entries; \<open>None\<close> stands for an index or nil panic. While a
  rehash runs (\<open>rd_rehashIdx\<close> is not -1), the buckets of table 0 below the index are empty and
  every key of table 1 hashes, in table 0, below the index. From that invariant every operation
  implements the map operation, and scans visit each key once.
\<close>

unbundle bit_operations_syntax

section \<open>Tables and hashing\<close>

record 'v hashTable =
  ht_buckets :: "(string \<times> 'v) list list"
  ht_mask :: nat
  ht_used :: int

record 'v redisDict =
  rd_t0 :: "'v hashTable"
  rd_t1 :: "'v hashTable option"
  rd_rehashIdx :: int
  rd_count :: int

definition minSize :: int where
  "minSize = 4"

text \<open>The arguments are 64-bit integers; above \<open>2 ^ 62\<close> the last addition wraps around.\<close>

definition nextPower :: "int \<Rightarrow> int" where
  "nextPower n =
     (if n \<le> minSize then minSize
      else let n1 = nat (n - 1);
               n2 = n1 OR drop_bit 1 n1;
               n3 = n2 OR drop_bit 2 n2;
               n4 = n3 OR drop_bit 4 n3;
               n5 = n4 OR drop_bit 8 n4;
               n6 = n5 OR drop_bit 16 n5;
               n7 = n6 OR drop_bit 32 n6
           in wrap64 (int n7 + 1))"

definition new_table :: "nat \<Rightarrow> 'v hashTable" where
  "new_table sz = \<lparr>ht_buckets = replicate sz [], ht_mask = sz - 1, ht_used = 0\<rparr>"

text \<open>\<^verbatim>\<open>make([]*entry, sz)\<close> panics for a negative length and for more pointers than can be allocated.\<close>

definition make_table :: "int \<Rightarrow> 'v hashTable option" where
  "make_table sz = (if sz < 0 \<or> sz * 8 > maxAlloc then None else Some (new_table (nat sz)))"

definition makeRedis :: "int \<Rightarrow> 'v redisDict option" where
  "makeRedis hint =
     do { t0 \<leftarrow> make_table (nextPower (if hint < minSize then minSize else hint));
          Some \<lparr>rd_t0 = t0, rd_t1 = None, rd_rehashIdx = -1, rd_count = 0\<rparr> }"

definition fnv1a :: "string \<Rightarrow> nat" where
  "fnv1a key =
     foldl (\<lambda>hash c. ((hash XOR of_char c) * 1099511628211) mod 2 ^ 64) 14695981039346656037 key"

definition bucket_of :: "'v hashTable \<Rightarrow> string \<Rightarrow> nat" where
  "bucket_of ht key = fnv1a key AND ht_mask ht"

section \<open>Rehashing\<close>

definition isRehashing :: "'v redisDict \<Rightarrow> bool" where
  "isRehashing d \<longleftrightarrow> rd_rehashIdx d \<noteq> -1"

definition startRehash :: "'v redisDict \<Rightarrow> int \<Rightarrow> 'v redisDict option" where
  "startRehash d newSize =
     (if isRehashing d then Some d
      else let n = (if newSize < ht_used (rd_t0 d) then ht_used (rd_t0 d) else newSize)
           in do { t1 \<leftarrow> make_table (nextPower n); Some (d\<lparr>rd_t1 := Some t1, rd_rehashIdx := 0\<rparr>) })"

text \<open>
  The load factor test \<^verbatim>\<open>float64(used)/float64(len) >= 1\<close> is \<open>used \<ge> len\<close>: dividing by
  a power of two is exact, and so is the conversion of the counts, which the allocation limit keeps
  below \<open>2 ^ 53\<close>.
\<close>

definition startRehashIfNeeded :: "'v redisDict \<Rightarrow> 'v redisDict option" where
  "startRehashIfNeeded d =
     (if isRehashing d then Some d
      else if ht_used (rd_t0 d) = 0 then Some d
      else if ht_used (rd_t0 d) \<ge> int (length (ht_buckets (rd_t0 d)))
           then startRehash d (int (length (ht_buckets (rd_t0 d))) * 2) else Some d)"

text \<open>The entry is linked in at the head of its chain in the other table.\<close>

definition ht_push :: "'v hashTable \<Rightarrow> string \<times> 'v \<Rightarrow> 'v hashTable option" where
  "ht_push ht e =
     (let idx = bucket_of ht (fst e) in
      do { chain \<leftarrow> gindex (ht_buckets ht) (int idx);
           Some (ht\<lparr>ht_buckets := (ht_buckets ht)[idx := e # chain], ht_used := ht_used ht + 1\<rparr>) })"

fun ht_push_all :: "'v hashTable \<Rightarrow> (string \<times> 'v) list \<Rightarrow> 'v hashTable option" where
  "ht_push_all ht [] = Some ht"
| "ht_push_all ht (e # es) = do { ht' \<leftarrow> ht_push ht e; ht_push_all ht' es }"

text \<open>
  The scan for the next non-empty bucket at or after \<open>i\<close>; \<open>None\<close> when there is none,
  which completes the rehash.
\<close>

function next_bucket :: "'v hashTable \<Rightarrow> nat \<Rightarrow> nat option" where
  "next_bucket ht i =
     (if i < length (ht_buckets ht) then
        (if ht_buckets ht ! i = [] then next_bucket ht (Suc i) else Some i)
      else None)"
  by pat_completeness auto
termination
  by (relation "measure (\<lambda>(ht, i). length (ht_buckets ht) - i)") auto

declare next_bucket.simps [simp del]

definition rehashStep :: "'v redisDict \<Rightarrow> 'v redisDict option" where
  "rehashStep d =
     (if \<not> isRehashing d then Some d
      else if rd_rehashIdx d < 0 then None
      else case next_bucket (rd_t0 d) (nat (rd_rehashIdx d)) of
        Some i \<Rightarrow>
          (let ht0 = rd_t0 d in
           do { ht1 \<leftarrow> rd_t1 d;
                ht1' \<leftarrow> ht_push_all ht1 (ht_buckets ht0 ! i);
                Some (d\<lparr>rd_t0 := ht0\<lparr>ht_buckets := (ht_buckets ht0)[i := []]\<rparr>,
                        rd_t1 := Some ht1', rd_rehashIdx := int i + 1\<rparr>) })
      | None \<Rightarrow>
          do { ht1 \<leftarrow> rd_t1 d; Some (d\<lparr>rd_t0 := ht1, rd_t1 := None, rd_rehashIdx := -1\<rparr>) })"

section \<open>Operations\<close>

text \<open>The table a key lives in: \<open>True\<close> for table 1, with the bucket index.\<close>

definition bucketIndex :: "'v redisDict \<Rightarrow> string \<Rightarrow> (bool \<times> nat) option" where
  "bucketIndex d key =
     (if isRehashing d then
        (if int (bucket_of (rd_t0 d) key) \<ge> rd_rehashIdx d then Some (False, bucket_of (rd_t0 d) key)
         else do { ht1 \<leftarrow> rd_t1 d; Some (True, bucket_of ht1 key) })
      else Some (False, bucket_of (rd_t0 d) key))"

definition table :: "'v redisDict \<Rightarrow> bool \<Rightarrow> 'v hashTable option" where
  "table d w = (if w then rd_t1 d else Some (rd_t0 d))"

definition set_table :: "'v redisDict \<Rightarrow> bool \<Rightarrow> 'v hashTable \<Rightarrow> 'v redisDict" where
  "set_table d w ht = (if w then d\<lparr>rd_t1 := Some ht\<rparr> else d\<lparr>rd_t0 := ht\<rparr>)"

definition rd_get :: "'v redisDict \<Rightarrow> string \<Rightarrow> 'v option option" where
  "rd_get d key =
     do { (w, idx) \<leftarrow> bucketIndex d key; ht \<leftarrow> table d w;
          chain \<leftarrow> gindex (ht_buckets ht) (int idx);
          Some (map_of chain key) }"

definition rd_len :: "'v redisDict \<Rightarrow> nat" where
  "rd_len d = nat (rd_count d)"

fun chain_set :: "string \<Rightarrow> 'v \<Rightarrow> (string \<times> 'v) list \<Rightarrow> (string \<times> 'v) list" where
  "chain_set k v [] = []"
| "chain_set k v ((k', v') # es) =
     (if k' = k then (k', v) # es else (k', v') # chain_set k v es)"

text \<open>
  \<open>Put\<close>, \<open>PutIfAbsent\<close> and \<open>PutIfExists\<close> share their first and last steps: locate
  the chain after a rehash step, then write the value of an existing entry or link a new one.
\<close>

definition rd_locate :: "'v redisDict \<Rightarrow> string \<Rightarrow> ('v redisDict \<times> bool \<times> nat \<times> 'v hashTable \<times> (string \<times> 'v) list) option" where
  "rd_locate d key =
     do { d0 \<leftarrow> startRehashIfNeeded d; d1 \<leftarrow> rehashStep d0;
          (w, idx) \<leftarrow> bucketIndex d1 key; ht \<leftarrow> table d1 w;
          chain \<leftarrow> gindex (ht_buckets ht) (int idx);
          Some (d1, w, idx, ht, chain) }"

definition rd_write :: "'v redisDict \<Rightarrow> bool \<Rightarrow> nat \<Rightarrow> 'v hashTable \<Rightarrow> (string \<times> 'v) list \<Rightarrow> 'v redisDict" where
  "rd_write d w idx ht chain = set_table d w (ht\<lparr>ht_buckets := (ht_buckets ht)[idx := chain]\<rparr>)"

definition rd_insert :: "'v redisDict \<Rightarrow> bool \<Rightarrow> nat \<Rightarrow> 'v hashTable \<Rightarrow> (string \<times> 'v) list \<Rightarrow> string \<Rightarrow> 'v \<Rightarrow> 'v redisDict" where
  "rd_insert d w idx ht chain key v =
     (set_table d w (ht\<lparr>ht_buckets := (ht_buckets ht)[idx := (key, v) # chain], ht_used := ht_used ht + 1\<rparr>))
       \<lparr>rd_count := rd_count d + 1\<rparr>"

definition rd_put :: "'v redisDict \<Rightarrow> string \<Rightarrow> 'v \<Rightarrow> ('v redisDict \<times> nat) option" where
  "rd_put d key v =
     do { (d1, w, idx, ht, chain) \<leftarrow> rd_locate d key;
          if map_of chain key \<noteq> None
          then Some (rd_write d1 w idx ht (chain_set key v chain), 0)
          else Some (rd_insert d1 w idx ht chain key v, 1) }"

definition rd_putIfAbsent :: "'v redisDict \<Rightarrow> string \<Rightarrow> 'v \<Rightarrow> ('v redisDict \<times> nat) option" where
  "rd_putIfAbsent d key v =
     do { (d1, w, idx, ht, chain) \<leftarrow> rd_locate d key;
          if map_of chain key \<noteq> None then Some (d1, 0)
          else Some (rd_insert d1 w idx ht chain key v, 1) }"

definition rd_putIfExists :: "'v redisDict \<Rightarrow> string \<Rightarrow> 'v \<Rightarrow> ('v redisDict \<times> nat) option" where
  "rd_putIfExists d key v =
     do { (d1, w, idx, ht, chain) \<leftarrow> rd_locate d key;
          if map_of chain key \<noteq> None
          then Some (rd_write d1 w idx ht (chain_set key v chain), 1)
          else Some (d1, 0) }"

text \<open>Unlinking the first entry with the key from a chain.\<close>

fun chain_remove :: "string \<Rightarrow> (string \<times> 'v) list \<Rightarrow> (string \<times> 'v) list" where
  "chain_remove k [] = []"
| "chain_remove k ((k', v') # es) = (if k' = k then es else (k', v') # chain_remove k es)"

definition ht_remove :: "'v hashTable \<Rightarrow> string \<Rightarrow> ('v hashTable \<times> 'v option) option" where
  "ht_remove ht key =
     (let idx = bucket_of ht key in
      do { chain \<leftarrow> gindex (ht_buckets ht) (int idx);
           case map_of chain key of
             None \<Rightarrow> Some (ht, None)
           | Some v \<Rightarrow> Some (ht\<lparr>ht_buckets := (ht_buckets ht)[idx := chain_remove key chain],
                              ht_used := ht_used ht - 1\<rparr>, Some v) })"

definition rd_remove :: "'v redisDict \<Rightarrow> string \<Rightarrow> ('v redisDict \<times> 'v option) option" where
  "rd_remove d key =
     do { d1 \<leftarrow> (if isRehashing d then rehashStep d else Some d);
          (t0, r0) \<leftarrow> ht_remove (rd_t0 d1) key;
          (case r0 of
             Some v \<Rightarrow> Some (d1\<lparr>rd_t0 := t0, rd_count := rd_count d1 - 1\<rparr>, Some v)
           | None \<Rightarrow>
               if \<not> isRehashing d1 then Some (d1, None)
               else case rd_t1 d1 of
                 None \<Rightarrow> Some (d1, None)
               | Some ht1 \<Rightarrow>
                   do { (t1, r1) \<leftarrow> ht_remove ht1 key;
                        case r1 of
                          Some v \<Rightarrow> Some (d1\<lparr>rd_t1 := Some t1, rd_count := rd_count d1 - 1\<rparr>, Some v)
                        | None \<Rightarrow> Some (d1, None) }) }"

definition rd_clear :: "'v redisDict \<Rightarrow> 'v redisDict" where
  "rd_clear d = \<lparr>rd_t0 = new_table (nat minSize), rd_t1 = None, rd_rehashIdx = -1, rd_count = 0\<rparr>"

text \<open>The entries in the order \<open>ForEach\<close> visits them.\<close>

definition rd_entries :: "'v redisDict \<Rightarrow> (string \<times> 'v) list" where
  "rd_entries d =
     concat (ht_buckets (rd_t0 d)) @
     (if isRehashing d then (case rd_t1 d of None \<Rightarrow> [] | Some ht1 \<Rightarrow> concat (ht_buckets ht1)) else [])"

definition rd_forEach :: "'v redisDict \<Rightarrow> ('s \<Rightarrow> string \<Rightarrow> 'v \<Rightarrow> ('s \<times> bool) option) \<Rightarrow> 's \<Rightarrow> 's option" where
  "rd_forEach d consumer s = iter (\<lambda>s _ (k, v). consumer s k v) 0 (rd_entries d) s"

definition rd_keys :: "'v redisDict \<Rightarrow> string list option" where
  "rd_keys d = rd_forEach d (\<lambda>keys k _. Some (keys @ [k], True)) []"

definition redis_Dict :: "('v redisDict, 'v) Dict" where
  "redis_Dict = \<lparr>
     dGet = rd_get,
     dLen = (\<lambda>d. Some (rd_len d)),
     dPut = rd_put,
     dPutIfAbsent = rd_putIfAbsent,
     dPutIfExists = rd_putIfExists,
     dRemove = rd_remove,
     dEntries = rd_entries,
     dClear = rd_clear\<rparr>"

section \<open>Well-formed tables\<close>

definition ht_wf :: "'v hashTable \<Rightarrow> bool" where
  "ht_wf ht \<longleftrightarrow>
     (\<exists>n \<ge> 2. length (ht_buckets ht) = 2 ^ n \<and> ht_mask ht = 2 ^ n - 1) \<and>
     (\<forall>i < length (ht_buckets ht). \<forall>e \<in> set (ht_buckets ht ! i). bucket_of ht (fst e) = i) \<and>
     (\<forall>i < length (ht_buckets ht). distinct (map fst (ht_buckets ht ! i)))"

definition ht_find :: "'v hashTable \<Rightarrow> string \<Rightarrow> 'v option" where
  "ht_find ht k = map_of (ht_buckets ht ! bucket_of ht k) k"

definition ht_total :: "'v hashTable \<Rightarrow> nat" where
  "ht_total ht = length (concat (ht_buckets ht))"

lemma bucket_of_lt: "ht_wf ht \<Longrightarrow> bucket_of ht k < length (ht_buckets ht)"
  using and_mask_lt by (auto simp: ht_wf_def bucket_of_def)

lemma bucket_of_cong [simp]:
  "bucket_of (ht\<lparr>ht_buckets := bs\<rparr>) k = bucket_of ht k"
  "bucket_of (ht\<lparr>ht_used := u\<rparr>) k = bucket_of ht k"
  "bucket_of (ht\<lparr>ht_buckets := bs, ht_used := u\<rparr>) k = bucket_of ht k"
  by (simp_all add: bucket_of_def)

lemma ht_find_map_of: "ht_wf ht \<Longrightarrow> map_of (concat (ht_buckets ht)) k = ht_find ht k"
  using map_of_concat_tagged [of "ht_buckets ht" "bucket_of ht" 0 k] bucket_of_lt [of ht k]
  by (simp add: ht_wf_def ht_find_def)

lemma ht_distinct: "ht_wf ht \<Longrightarrow> distinct (map fst (concat (ht_buckets ht)))"
  using distinct_concat_tagged [of "ht_buckets ht" "bucket_of ht" 0] by (simp add: ht_wf_def)

lemma ht_keys_find: "ht_wf ht \<Longrightarrow> k \<in> fst ` set (concat (ht_buckets ht)) \<longleftrightarrow> ht_find ht k \<noteq> None"
  using ht_find_map_of [of ht k] map_of_eq_None_iff [of "concat (ht_buckets ht)" k] by auto

text \<open>Replacing the chain of one bucket.\<close>

definition ht_set_chain :: "'v hashTable \<Rightarrow> nat \<Rightarrow> (string \<times> 'v) list \<Rightarrow> int \<Rightarrow> 'v hashTable" where
  "ht_set_chain ht i c u = ht\<lparr>ht_buckets := (ht_buckets ht)[i := c], ht_used := u\<rparr>"

lemma ht_set_chain_bucket_of [simp]: "bucket_of (ht_set_chain ht i c u) k = bucket_of ht k"
  by (simp add: ht_set_chain_def)

lemma ht_set_chain_wf:
  assumes "ht_wf ht" "i < length (ht_buckets ht)" "distinct (map fst c)"
    "\<forall>e \<in> set c. bucket_of ht (fst e) = i"
  shows "ht_wf (ht_set_chain ht i c u)"
    and "ht_find (ht_set_chain ht i c u) k = (if bucket_of ht k = i then map_of c k else ht_find ht k)"
    and "ht_total (ht_set_chain ht i c u) + length (ht_buckets ht ! i) = ht_total ht + length c"
proof -
  have "bucket_of (ht_set_chain ht i c u) = bucket_of ht" by (rule ext) simp
  then show "ht_wf (ht_set_chain ht i c u)"
    using assms by (auto simp: ht_wf_def ht_set_chain_def nth_list_update)
  show "ht_find (ht_set_chain ht i c u) k = (if bucket_of ht k = i then map_of c k else ht_find ht k)"
    using assms(2) bucket_of_lt [OF assms(1), of k]
    by (auto simp: ht_find_def ht_set_chain_def nth_list_update)
  show "ht_total (ht_set_chain ht i c u) + length (ht_buckets ht ! i) = ht_total ht + length c"
    using length_concat_update [OF assms(2), of c] by (simp add: ht_total_def ht_set_chain_def)
qed

lemma ht_set_chain_same_size [simp]:
  "length (ht_buckets (ht_set_chain ht i c u)) = length (ht_buckets ht)"
  "ht_used (ht_set_chain ht i c u) = u"
  by (simp_all add: ht_set_chain_def)

lemma ht_wf_bucket:
  "ht_wf ht \<Longrightarrow> i < length (ht_buckets ht) \<Longrightarrow>
     distinct (map fst (ht_buckets ht ! i)) \<and> (\<forall>e \<in> set (ht_buckets ht ! i). bucket_of ht (fst e) = i)"
  by (simp add: ht_wf_def)

section \<open>Moving a chain to the other table\<close>

lemma ht_push_spec:
  assumes "ht_wf ht" "ht_find ht k = None"
  obtains ht' where "ht_push ht (k, v) = Some ht'" "ht_wf ht'" "ht_used ht' = ht_used ht + 1"
    "ht_total ht' = ht_total ht + 1" "bucket_of ht' = bucket_of ht"
    "ht_find ht' = (ht_find ht)(k \<mapsto> v)" "length (ht_buckets ht') = length (ht_buckets ht)"
proof -
  let ?i = "bucket_of ht k"
  let ?c = "(k, v) # ht_buckets ht ! ?i"
  let ?h = "ht_set_chain ht ?i ?c (ht_used ht + 1)"
  have i: "?i < length (ht_buckets ht)" using assms(1) by (rule bucket_of_lt)
  have "k \<notin> fst ` set (ht_buckets ht ! ?i)"
    using assms(2) by (simp add: ht_find_def map_of_eq_None_iff)
  then have c: "distinct (map fst ?c)" "\<forall>e \<in> set ?c. bucket_of ht (fst e) = ?i"
    using ht_wf_bucket [OF assms(1) i] by auto
  have "ht_push ht (k, v) = Some ?h"
    using i by (simp add: ht_push_def ht_set_chain_def Let_def)
  moreover have "ht_find ?h = (ht_find ht)(k \<mapsto> v)"
    using ht_set_chain_wf(2) [OF assms(1) i c] by (auto simp: ht_find_def)
  moreover have "ht_total ?h = ht_total ht + 1"
    using ht_set_chain_wf(3) [OF assms(1) i c, of "ht_used ht + 1"] by simp
  ultimately show thesis
    using that [of ?h] ht_set_chain_wf(1) [OF assms(1) i c, of "ht_used ht + 1"] by (simp add: fun_eq_iff)
qed

lemma ht_push_all_spec:
  assumes "ht_wf ht" "distinct (map fst es)" "\<forall>e \<in> set es. ht_find ht (fst e) = None"
  shows "\<exists>ht'. ht_push_all ht es = Some ht' \<and> ht_wf ht' \<and> ht_used ht' = ht_used ht + int (length es) \<and>
    ht_total ht' = ht_total ht + length es \<and> bucket_of ht' = bucket_of ht \<and>
    ht_find ht' = ht_find ht ++ map_of es"
  using assms
proof (induction es arbitrary: ht)
  case Nil
  then show ?case by simp
next
  case (Cons e es)
  obtain k v where e: "e = (k, v)" by (cases e)
  have "ht_find ht k = None" using Cons.prems(3) e by simp
  then obtain h1 where h1: "ht_push ht (k, v) = Some h1" "ht_wf h1" "ht_used h1 = ht_used ht + 1"
      "ht_total h1 = ht_total ht + 1" "bucket_of h1 = bucket_of ht" "ht_find h1 = (ht_find ht)(k \<mapsto> v)"
    using ht_push_spec [OF Cons.prems(1)] by metis
  have "\<forall>x \<in> set es. ht_find h1 (fst x) = None" using Cons.prems(2,3) e h1(6) by auto
  then obtain h2 where h2: "ht_push_all h1 es = Some h2" "ht_wf h2" "ht_used h2 = ht_used h1 + int (length es)"
      "ht_total h2 = ht_total h1 + length es" "bucket_of h2 = bucket_of h1" "ht_find h2 = ht_find h1 ++ map_of es"
    using Cons.IH [OF h1(2)] Cons.prems(2) by auto
  have "map_of es k = None" using Cons.prems(2) e by (simp add: map_of_eq_None_iff)
  then have "ht_find h2 = ht_find ht ++ map_of (e # es)"
    by (auto simp: e h1(6) h2(6) map_add_def fun_eq_iff split: option.splits)
  then show ?case using h1(1,3,4,5) h2(1-5) by (intro exI [of _ h2]) (simp add: e del: map_of.simps)
qed

lemma next_bucket_Some:
  "next_bucket ht i = Some j \<Longrightarrow>
     i \<le> j \<and> j < length (ht_buckets ht) \<and> ht_buckets ht ! j \<noteq> [] \<and> (\<forall>l. i \<le> l \<and> l < j \<longrightarrow> ht_buckets ht ! l = [])"
proof (induction ht i rule: next_bucket.induct)
  case (1 ht i)
  show ?case
  proof (cases "i < length (ht_buckets ht) \<and> ht_buckets ht ! i = []")
    case True
    then have "next_bucket ht (Suc i) = Some j"
      using "1.prems" by (simp add: next_bucket.simps [of ht i])
    with "1.IH" True have IH: "Suc i \<le> j" "j < length (ht_buckets ht)" "ht_buckets ht ! j \<noteq> []"
      "\<forall>l. Suc i \<le> l \<and> l < j \<longrightarrow> ht_buckets ht ! l = []" by auto
    have "ht_buckets ht ! l = []" if "i \<le> l" "l < j" for l
      using IH True that by (cases "l = i") auto
    with IH show ?thesis by simp
  next
    case False
    then show ?thesis using "1.prems" by (auto simp: next_bucket.simps [of ht i] split: if_splits)
  qed
qed

lemma next_bucket_None:
  "next_bucket ht i = None \<Longrightarrow> i \<le> l \<Longrightarrow> l < length (ht_buckets ht) \<Longrightarrow> ht_buckets ht ! l = []"
proof (induction ht i rule: next_bucket.induct)
  case (1 ht i)
  show ?case
  proof (cases "i = l")
    case True
    then show ?thesis using "1.prems" by (auto simp: next_bucket.simps [of ht l] split: if_splits)
  next
    case False
    then have "i < length (ht_buckets ht)" "ht_buckets ht ! i = []" "next_bucket ht (Suc i) = None"
      using "1.prems" by (auto simp: next_bucket.simps [of ht i] split: if_splits)
    then show ?thesis using "1.IH" "1.prems" False by simp
  qed
qed

section \<open>The invariant of the dict\<close>

definition rehash_inv :: "'v redisDict \<Rightarrow> 'v hashTable \<Rightarrow> bool" where
  "rehash_inv d h1 \<longleftrightarrow> 0 \<le> rd_rehashIdx d \<and> rd_rehashIdx d \<le> int (length (ht_buckets (rd_t0 d))) \<and>
     ht_wf h1 \<and> ht_used h1 = int (ht_total h1) \<and>
     (\<forall>i < nat (rd_rehashIdx d). ht_buckets (rd_t0 d) ! i = []) \<and>
     (\<forall>k. ht_find h1 k \<noteq> None \<longrightarrow> int (bucket_of (rd_t0 d) k) < rd_rehashIdx d) \<and>
     rd_count d = int (ht_total (rd_t0 d) + ht_total h1)"

definition rd_inv :: "'v redisDict \<Rightarrow> bool" where
  "rd_inv d \<longleftrightarrow> ht_wf (rd_t0 d) \<and>
     (if isRehashing d then (\<exists>h1. rd_t1 d = Some h1 \<and> rehash_inv d h1)
      else rd_t1 d = None \<and> ht_used (rd_t0 d) = int (ht_total (rd_t0 d)) \<and>
           rd_count d = int (ht_total (rd_t0 d)))"

definition rd_abs :: "'v redisDict \<Rightarrow> (string \<rightharpoonup> 'v)" where
  "rd_abs d = map_of (rd_entries d)"

text \<open>Where a key is found: in the table and bucket that \<open>bucketIndex\<close> names.\<close>

lemma rehash_low_empty:
  assumes "rehash_inv d h1" "int (bucket_of (rd_t0 d) k) < rd_rehashIdx d"
  shows "ht_find (rd_t0 d) k = None"
proof -
  have "ht_buckets (rd_t0 d) ! bucket_of (rd_t0 d) k = []"
    using assms by (simp add: rehash_inv_def)
  then show ?thesis by (simp add: ht_find_def)
qed

lemma rd_abs_idle:
  assumes "rd_inv d" "\<not> isRehashing d"
  shows "rd_abs d = ht_find (rd_t0 d)"
  using assms ht_find_map_of [of "rd_t0 d"] by (auto simp: rd_abs_def rd_entries_def rd_inv_def)

lemma rd_abs_rehash:
  assumes "rd_inv d" "isRehashing d" "rd_t1 d = Some h1"
  shows "rd_abs d = (\<lambda>k. if int (bucket_of (rd_t0 d) k) < rd_rehashIdx d then ht_find h1 k
                         else ht_find (rd_t0 d) k)"
proof
  fix k
  have r: "rehash_inv d h1" "ht_wf (rd_t0 d)" using assms by (auto simp: rd_inv_def)
  then have w: "ht_wf h1" by (simp add: rehash_inv_def)
  have m: "rd_abs d k = (case ht_find (rd_t0 d) k of None \<Rightarrow> ht_find h1 k | Some v \<Rightarrow> Some v)"
    using assms(2,3) by (simp add: rd_abs_def rd_entries_def map_add_def ht_find_map_of [OF r(2)]
      ht_find_map_of [OF w] split: option.split)
  show "rd_abs d k = (if int (bucket_of (rd_t0 d) k) < rd_rehashIdx d then ht_find h1 k
                      else ht_find (rd_t0 d) k)"
  proof (cases "int (bucket_of (rd_t0 d) k) < rd_rehashIdx d")
    case True
    then show ?thesis using m rehash_low_empty [OF r(1) True] by simp
  next
    case False
    then have "ht_find h1 k = None" using r(1) by (auto simp: rehash_inv_def)
    then show ?thesis using m False by (simp split: option.split)
  qed
qed

lemma rd_find_spec:
  assumes "rd_inv d"
  obtains w idx ht where "bucketIndex d k = Some (w, idx)" "table d w = Some ht" "idx = bucket_of ht k"
    "ht_wf ht" "idx < length (ht_buckets ht)" "rd_abs d k = ht_find ht k"
    "w \<longleftrightarrow> isRehashing d \<and> int (bucket_of (rd_t0 d) k) < rd_rehashIdx d"
proof (cases "isRehashing d \<and> int (bucket_of (rd_t0 d) k) < rd_rehashIdx d")
  case True
  then obtain h1 where h1: "rd_t1 d = Some h1" "rehash_inv d h1" using assms by (auto simp: rd_inv_def)
  then have "ht_wf h1" by (simp add: rehash_inv_def)
  then show thesis
    using True h1 that [of True "bucket_of h1 k" h1] rd_abs_rehash [OF assms _ h1(1)] bucket_of_lt [of h1 k]
    by (simp add: bucketIndex_def table_def)
next
  case False
  have "ht_wf (rd_t0 d)" using assms by (simp add: rd_inv_def)
  moreover have "rd_abs d k = ht_find (rd_t0 d) k"
  proof (cases "isRehashing d")
    case True
    then obtain h1 where "rd_t1 d = Some h1" using assms by (auto simp: rd_inv_def)
    then show ?thesis using False True rd_abs_rehash [OF assms True] by simp
  qed (use rd_abs_idle [OF assms] in simp)
  ultimately show thesis
    using False that [of False "bucket_of (rd_t0 d) k" "rd_t0 d"] bucket_of_lt [of "rd_t0 d" k]
    by (auto simp: bucketIndex_def table_def)
qed

lemma rd_get_spec: "rd_inv d \<Longrightarrow> rd_get d k = Some (rd_abs d k)"
  by (elim rd_find_spec [of d k]) (simp add: rd_get_def ht_find_def)

section \<open>Table sizes\<close>

text \<open>
  The bit smearing of \<open>nextPower\<close>: after the step with shift \<open>m\<close>, a bit is set if one
  of the next \<open>2 * m\<close> bits of the start value was.
\<close>

lemma nextPower_spec:
  assumes "n \<le> 2 ^ 62"
  obtains m where "2 \<le> m" "m \<le> 62" "nextPower n = 2 ^ m" "n \<le> 2 ^ m" "4 < n \<Longrightarrow> 2 ^ m < 2 * n" "n \<le> 4 \<Longrightarrow> m = 2"
proof (cases "n \<le> 4")
  case True
  then show thesis using that [of 2] by (simp add: nextPower_def minSize_def)
next
  case False
  define x where "x = nat (n - 1)"
  have n: "n = int x + 1" and "1 \<le> x" using False by (simp_all add: x_def)
  then obtain k where k: "2 ^ k \<le> x" "x < 2 ^ Suc k"
    using ex_power_ivl1 [of 2 x] by auto
  have "x < 2 ^ 62" using assms by (simp add: n)
  then have "(2 :: nat) ^ k < 2 ^ 62" using k(1) by simp
  then have k62: "k < 62" using power_less_imp_less_exp [of 2 k 62] by simp
  have k2: "2 \<le> Suc k" using k(2) False by (cases k) (auto simp: x_def)
  have "smear 32 (smear 16 (smear 8 (smear 4 (smear 2 (smear 1 x))))) = mask (Suc k)"
    using smear_mask [OF k smear_window64] k62 by simp
  then have "nextPower n = wrap64 (int (mask (Suc k)) + 1)"
    using False by (simp add: nextPower_def minSize_def Let_def smear_def x_def)
  moreover have "int (mask (Suc k)) + 1 = 2 ^ Suc k" by (simp add: mask_eq_exp_minus_1 of_nat_diff)
  moreover have "(2 :: int) ^ Suc k \<le> 2 ^ 62" using k62 by (intro power_increasing) auto
  then have "wrap64 (2 ^ Suc k) = 2 ^ Suc k" by (intro wrap64_id) (auto simp: int64_def intro: order.trans [of _ 0])
  ultimately have p: "nextPower n = 2 ^ Suc k" by simp
  define q :: int where "q = 2 ^ Suc k"
  have "int (2 ^ Suc k) \<le> int (2 * x)" "int (x + 1) \<le> int (2 ^ Suc k)" using k unfolding of_nat_le_iff by simp_all
  then have "q \<le> 2 * int x" "int x + 1 \<le> q" by (simp_all add: q_def)
  then have "2 ^ Suc k < 2 * n" "n \<le> 2 ^ Suc k" unfolding n q_def [symmetric] by simp_all
  then show thesis using that [of "Suc k"] k2 k62 False p by simp
qed

lemma new_table_wf:
  assumes "2 \<le> n"
  shows "ht_wf (new_table (2 ^ n) :: 'v hashTable)" "ht_find (new_table (2 ^ n) :: 'v hashTable) = Map.empty"
    "ht_total (new_table (2 ^ n) :: 'v hashTable) = 0" "ht_used (new_table (2 ^ n) :: 'v hashTable) = 0"
    "length (ht_buckets (new_table (2 ^ n) :: 'v hashTable)) = 2 ^ n"
proof -
  show wf: "ht_wf (new_table (2 ^ n) :: 'v hashTable)" using assms by (auto simp: ht_wf_def new_table_def)
  show "ht_find (new_table (2 ^ n) :: 'v hashTable) = Map.empty"
  proof
    fix k
    show "ht_find (new_table (2 ^ n) :: 'v hashTable) k = None"
      using bucket_of_lt [OF wf, of k] by (simp add: ht_find_def new_table_def)
  qed
  show "ht_total (new_table (2 ^ n) :: 'v hashTable) = 0" by (simp add: ht_total_def new_table_def)
qed (simp_all add: new_table_def)

section \<open>Rehash steps keep the contents\<close>

lemma make_table_spec: "m \<le> 45 \<Longrightarrow> make_table (2 ^ m) = Some (new_table (2 ^ m))"
proof -
  assume "m \<le> 45"
  then have "(2 :: int) ^ m \<le> 2 ^ 45" by (intro power_increasing) auto
  then show ?thesis by (simp add: make_table_def maxAlloc_def nat_power_eq)
qed

lemma nextPower_table:
  assumes "n \<le> 2 ^ 45"
  obtains m where "2 \<le> m" "make_table (nextPower n) = Some (new_table (2 ^ m))"
proof -
  obtain m where m: "2 \<le> m" "nextPower n = 2 ^ m" "4 < n \<Longrightarrow> 2 ^ m < 2 * n" "n \<le> 4 \<Longrightarrow> m = 2"
    using nextPower_spec [of n] assms by auto
  have "(2 :: int) ^ m < 2 ^ 46" using m(3,4) assms by (cases "n \<le> 4") auto
  then have "m < 46" using power_less_imp_less_exp [of "2 :: int" m 46] by simp
  then show thesis using that [OF m(1)] make_table_spec [of m] m(2) by simp
qed

lemma startRehashIfNeeded_spec:
  fixes d :: "'v redisDict"
  assumes "rd_inv d" "rd_count d < 2 ^ 44"
  obtains d' where "startRehashIfNeeded d = Some d'" "rd_inv d'" "rd_abs d' = rd_abs d" "rd_count d' = rd_count d"
proof (cases "\<not> isRehashing d \<and> ht_used (rd_t0 d) \<noteq> 0 \<and> ht_used (rd_t0 d) \<ge> int (length (ht_buckets (rd_t0 d)))")
  case True
  let ?t = "rd_t0 d"
  let ?n = "if int (length (ht_buckets ?t)) * 2 < ht_used ?t then ht_used ?t else int (length (ht_buckets ?t)) * 2"
  have u: "ht_used ?t = rd_count d" "ht_wf ?t" "ht_used ?t = int (ht_total ?t)"
    using assms(1) True by (auto simp: rd_inv_def)
  have "?n \<le> 2 ^ 45" using True u(1) assms(2) by auto
  then obtain m where m: "2 \<le> m" "make_table (nextPower ?n) = Some (new_table (2 ^ m) :: 'v hashTable)"
    using nextPower_table [where 'a = 'v] by blast
  let ?d = "d\<lparr>rd_t1 := Some (new_table (2 ^ m)), rd_rehashIdx := 0\<rparr>"
  have d: "startRehashIfNeeded d = Some ?d"
    using True m(2) by (simp add: startRehashIfNeeded_def startRehash_def Let_def)
  have r: "isRehashing ?d" by (simp add: isRehashing_def)
  have inv: "rd_inv ?d"
    using u assms(1) new_table_wf [OF m(1), where 'v = 'v]
    by (auto simp: rd_inv_def r rehash_inv_def)
  moreover have "rd_abs ?d = rd_abs d"
    using rd_abs_rehash [OF inv r] rd_abs_idle [OF assms(1)] True by simp
  ultimately show thesis using that d by simp
next
  case False
  then show thesis using that assms(1) by (auto simp: startRehashIfNeeded_def)
qed

lemma rehashStep_move:
  assumes "rd_inv d" "isRehashing d" "rd_t1 d = Some h1"
    and j: "next_bucket (rd_t0 d) (nat (rd_rehashIdx d)) = Some j"
  shows "\<exists>d'. rehashStep d = Some d' \<and> rd_inv d' \<and> rd_abs d' = rd_abs d \<and> rd_count d' = rd_count d"
proof -
  let ?t = "rd_t0 d"
  let ?es = "ht_buckets ?t ! j"
  have R: "rehash_inv d h1" "ht_wf ?t" using assms by (auto simp: rd_inv_def)
  then have ge: "0 \<le> rd_rehashIdx d" and wf1: "ht_wf h1" by (auto simp: rehash_inv_def)
  have J: "nat (rd_rehashIdx d) \<le> j" "j < length (ht_buckets ?t)"
    "\<forall>l. nat (rd_rehashIdx d) \<le> l \<and> l < j \<longrightarrow> ht_buckets ?t ! l = []"
    using next_bucket_Some [OF j] by auto
  have es: "distinct (map fst ?es)" "\<forall>e \<in> set ?es. bucket_of ?t (fst e) = j"
    using ht_wf_bucket [OF R(2) J(2)] by auto
  have fresh: "\<forall>e \<in> set ?es. ht_find h1 (fst e) = None"
  proof
    fix e assume "e \<in> set ?es"
    then have "\<not> int (bucket_of ?t (fst e)) < rd_rehashIdx d" using es(2) J(1) ge by auto
    then show "ht_find h1 (fst e) = None" using R(1) by (auto simp: rehash_inv_def)
  qed
  obtain h1' where h1': "ht_push_all h1 ?es = Some h1'" "ht_wf h1'"
      "ht_used h1' = ht_used h1 + int (length ?es)" "ht_total h1' = ht_total h1 + length ?es"
      "ht_find h1' = ht_find h1 ++ map_of ?es"
    using ht_push_all_spec [OF wf1 es(1) fresh] by auto
  let ?t' = "ht_set_chain ?t j [] (ht_used ?t)"
  let ?d' = "d\<lparr>rd_t0 := ?t', rd_t1 := Some h1', rd_rehashIdx := int j + 1\<rparr>"
  have t': "ht_wf ?t'" "\<And>k. ht_find ?t' k = (if bucket_of ?t k = j then None else ht_find ?t k)"
    "ht_total ?t' + length ?es = ht_total ?t"
    using ht_set_chain_wf [OF R(2) J(2), of "[]"] by auto
  have r': "isRehashing ?d'" by (simp add: isRehashing_def)
  have low: "ht_buckets ?t' ! i = []" if "i < Suc j" for i
    using that R(1) J by (cases "i < nat (rd_rehashIdx d)")
      (auto simp: ht_set_chain_def nth_list_update rehash_inv_def less_Suc_eq)
  have tag: "int (bucket_of ?t k) < int j + 1" if "ht_find h1' k \<noteq> None" for k
  proof (cases "map_of ?es k")
    case None
    then have "ht_find h1 k \<noteq> None" using that h1'(5) by (simp add: map_add_def)
    then show ?thesis using R(1) J(1) ge by (fastforce simp: rehash_inv_def)
  next
    case (Some v)
    then have "(k, v) \<in> set ?es" by (rule map_of_SomeD)
    then show ?thesis using es(2) by fastforce
  qed
  have "rehash_inv ?d' h1'"
    using J(2) h1'(2,3,4) R(1) t'(3) low tag by (auto simp: rehash_inv_def)
  then have inv: "rd_inv ?d'" using t'(1) by (simp add: rd_inv_def r')
  have "rd_abs ?d' k = rd_abs d k" for k
  proof -
    have mem: "map_of ?es k = ht_find ?t k" if "bucket_of ?t k = j" using that by (simp add: ht_find_def)
    have out: "map_of ?es k = None" if "bucket_of ?t k \<noteq> j"
      using that es(2) by (auto simp: map_of_eq_None_iff)
    have mid_none: "ht_find ?t k = None" if "\<not> int (bucket_of ?t k) < rd_rehashIdx d" "bucket_of ?t k < j"
      using that J(3) ge by (simp add: ht_find_def)
    have h1k: "ht_find h1 k = None" if "\<not> int (bucket_of ?t k) < rd_rehashIdx d"
      using that R(1) by (auto simp: rehash_inv_def)
    have new: "rd_abs ?d' k = (if bucket_of ?t k \<le> j then ht_find h1' k else ht_find ?t' k)"
      using rd_abs_rehash [OF inv r'] by simp
    have old: "rd_abs d k = (if int (bucket_of ?t k) < rd_rehashIdx d then ht_find h1 k else ht_find ?t k)"
      using rd_abs_rehash [OF assms(1,2,3)] by simp
    consider (moved) "int (bucket_of ?t k) < rd_rehashIdx d"
      | (mid) "\<not> int (bucket_of ?t k) < rd_rehashIdx d" "bucket_of ?t k < j"
      | (here) "\<not> int (bucket_of ?t k) < rd_rehashIdx d" "bucket_of ?t k = j"
      | (above) "j < bucket_of ?t k" by linarith
    then show ?thesis
    proof cases
      case moved
      then have "bucket_of ?t k < j" using J(1) ge by linarith
      then show ?thesis using new old out moved h1'(5) by (simp add: map_add_def)
    next
      case mid
      then show ?thesis using new old out h1k h1'(5) mid_none by (simp add: map_add_def)
    next
      case here
      then show ?thesis using new old mem h1k h1'(5) by (simp add: map_add_def split: option.split)
    next
      case above
      then have "\<not> int (bucket_of ?t k) < rd_rehashIdx d" using J(1) ge by linarith
      then show ?thesis using new old above t'(2) [of k] by simp
    qed
  qed
  moreover have "rehashStep d = Some ?d'"
    using assms(2,3) ge j h1'(1) by (simp add: rehashStep_def Let_def ht_set_chain_def)
  ultimately show ?thesis using inv by (intro exI [of _ ?d']) auto
qed

lemma rehashStep_finish:
  assumes "rd_inv d" "isRehashing d" "rd_t1 d = Some h1"
    and j: "next_bucket (rd_t0 d) (nat (rd_rehashIdx d)) = None"
  shows "\<exists>d'. rehashStep d = Some d' \<and> rd_inv d' \<and> rd_abs d' = rd_abs d \<and> rd_count d' = rd_count d"
proof -
  let ?t = "rd_t0 d" and ?d' = "d\<lparr>rd_t0 := h1, rd_t1 := None, rd_rehashIdx := -1\<rparr>"
  have R: "rehash_inv d h1" "ht_wf ?t" using assms by (auto simp: rd_inv_def)
  have all: "ht_buckets ?t ! i = []" if "i < length (ht_buckets ?t)" for i
    using that R(1) next_bucket_None [OF j, of i] by (cases "i < nat (rd_rehashIdx d)")
      (auto simp: rehash_inv_def)
  then have "concat (ht_buckets ?t) = []" by (auto simp: in_set_conv_nth)
  then have t0: "ht_total ?t = 0" by (simp add: ht_total_def)
  have r': "\<not> isRehashing ?d'" by (simp add: isRehashing_def)
  have inv: "rd_inv ?d'" using R(1) t0 r' by (simp add: rd_inv_def rehash_inv_def)
  have none: "ht_find ?t k = None" for k using all bucket_of_lt [OF R(2), of k] by (simp add: ht_find_def)
  have "rd_abs ?d' k = rd_abs d k" for k
    using rd_abs_idle [OF inv r'] rd_abs_rehash [OF assms(1,2,3)] none [of k] R(1)
    by (auto simp: rehash_inv_def)
  moreover have "rehashStep d = Some ?d'"
    using assms(2,3) j R(1) by (simp add: rehashStep_def rehash_inv_def)
  ultimately show ?thesis using inv by (intro exI [of _ ?d']) auto
qed

lemma rehashStep_spec:
  assumes "rd_inv d"
  obtains d' where "rehashStep d = Some d'" "rd_inv d'" "rd_abs d' = rd_abs d" "rd_count d' = rd_count d"
proof (cases "isRehashing d")
  case True
  then obtain h1 where h1: "rd_t1 d = Some h1" using assms by (auto simp: rd_inv_def)
  show thesis
    using rehashStep_move [OF assms True h1] rehashStep_finish [OF assms True h1] that
    by (cases "next_bucket (rd_t0 d) (nat (rd_rehashIdx d))") blast+
next
  case False
  then show thesis using that [of d] assms by (simp add: rehashStep_def)
qed

section \<open>Writes\<close>

text \<open>
  Replacing the chain a key belongs to, in the table \<open>bucketIndex\<close> names, changes the
  abstract map at that chain's keys only.
\<close>

lemma set_chain_spec:
  assumes inv: "rd_inv d" and bi: "bucketIndex d k = Some (w, idx)" and ht: "table d w = Some ht"
    and c: "distinct (map fst c)" "\<forall>e \<in> set c. fst e \<in> fst ` set (ht_buckets ht ! idx) \<or> fst e = k"
    and n: "n = int (length c) - int (length (ht_buckets ht ! idx))"
    and d': "d' = (set_table d w (ht_set_chain ht idx c (ht_used ht + n)))\<lparr>rd_count := rd_count d + n\<rparr>"
    and other: "\<And>k'. k' \<noteq> k \<Longrightarrow> map_of c k' = map_of (ht_buckets ht ! idx) k'"
  shows "rd_inv d'" and "rd_abs d' = (rd_abs d)(k := map_of c k)"
proof -
  let ?t = "rd_t0 d"
  obtain w' idx' ht' where "bucketIndex d k = Some (w', idx')" "table d w' = Some ht'"
      and F: "idx' = bucket_of ht' k" "ht_wf ht'" "idx' < length (ht_buckets ht')"
      "w' \<longleftrightarrow> isRehashing d \<and> int (bucket_of (rd_t0 d) k) < rd_rehashIdx d"
    using rd_find_spec [OF inv, of k] by metis
  with bi ht have F: "idx = bucket_of ht k" "ht_wf ht" "idx < length (ht_buckets ht)"
      "w \<longleftrightarrow> isRehashing d \<and> int (bucket_of ?t k) < rd_rehashIdx d" by simp_all
  have cb: "\<forall>e \<in> set c. bucket_of ht (fst e) = idx"
    using c(2) ht_wf_bucket [OF F(2,3)] F(1) by force
  let ?h = "ht_set_chain ht idx c (ht_used ht + n)"
  note H = ht_set_chain_wf [OF F(2,3) c(1) cb, where u = "ht_used ht + n"]
  have tot: "int (ht_total ?h) = int (ht_total ht) + n" using H(3) n by linarith
  have find: "ht_find ?h = (ht_find ht)(k := map_of c k)"
  proof
    fix k'
    show "ht_find ?h k' = ((ht_find ht)(k := map_of c k)) k'"
      using H(2) [of k'] other [of k'] F(1) by (auto simp: ht_find_def)
  qed
  have "rd_inv d' \<and> (\<forall>k'. rd_abs d' k' = ((rd_abs d)(k := map_of c k)) k')"
  proof (cases "isRehashing d")
    case False
    then have w: "\<not> w" "ht = ?t" using F(4) ht by (auto simp: table_def)
    have d'': "d' = d\<lparr>rd_t0 := ?h, rd_count := rd_count d + n\<rparr>" using d' w by (simp add: set_table_def)
    have r': "\<not> isRehashing d'" using False by (simp add: d'' isRehashing_def)
    have "rd_inv d'"
      using inv False r' H(1) tot w by (auto simp: rd_inv_def d'')
    then show ?thesis
      using rd_abs_idle [OF _ r'] rd_abs_idle [OF inv False] find w by (simp add: d'')
  next
    case True
    then obtain h1 where h1: "rd_t1 d = Some h1" "rehash_inv d h1" using inv by (auto simp: rd_inv_def)
    show ?thesis
    proof (cases w)
      case w: True
      then have hh: "ht = h1" using ht h1 by (simp add: table_def)
      have d'': "d' = d\<lparr>rd_t1 := Some ?h, rd_count := rd_count d + n\<rparr>" using d' w by (simp add: set_table_def)
      have r': "isRehashing d'" using True by (simp add: d'' isRehashing_def)
      have "rehash_inv d' ?h"
        using h1(2) H(1) tot find F(4) w unfolding hh by (auto simp: rehash_inv_def d'')
      then have inv': "rd_inv d'" using inv r' by (auto simp: rd_inv_def d'')
      have "rd_abs d' k' = ((rd_abs d)(k := map_of c k)) k'" for k'
      proof -
        have "rd_abs d' k' = (if int (bucket_of ?t k') < rd_rehashIdx d then ht_find ?h k' else ht_find ?t k')"
          using rd_abs_rehash [OF inv' r', of ?h] by (simp add: d'')
        moreover have "rd_abs d k' = (if int (bucket_of ?t k') < rd_rehashIdx d then ht_find ht k' else ht_find ?t k')"
          using rd_abs_rehash [OF inv True h1(1)] hh by simp
        ultimately show ?thesis using find F(4) w by auto
      qed
      then show ?thesis using inv' by blast
    next
      case w: False
      then have hh: "ht = ?t" using ht by (simp add: table_def)
      have hi: "rd_rehashIdx d \<le> int idx" using F(1,4) w True hh by simp
      have d'': "d' = d\<lparr>rd_t0 := ?h, rd_count := rd_count d + n\<rparr>" using d' w by (simp add: set_table_def)
      have r': "isRehashing d'" using True by (simp add: d'' isRehashing_def)
      have low: "ht_buckets ?h ! i = []" if "i < nat (rd_rehashIdx d)" for i
        using that h1(2) hi F(3) hh by (auto simp: rehash_inv_def ht_set_chain_def nth_list_update)
      have "rehash_inv d' h1"
        using h1(2) tot low hh by (simp add: rehash_inv_def d'')
      then have inv': "rd_inv d'" using h1(1) r' H(1) hh by (auto simp: rd_inv_def d'')
      have "rd_abs d' k' = ((rd_abs d)(k := map_of c k)) k'" for k'
      proof -
        have "rd_abs d' k' = (if int (bucket_of ?t k') < rd_rehashIdx d then ht_find h1 k' else ht_find ?h k')"
          using rd_abs_rehash [OF inv' r', of h1] h1(1) hh by (simp add: d'')
        moreover have "rd_abs d k' = (if int (bucket_of ?t k') < rd_rehashIdx d then ht_find h1 k' else ht_find ht k')"
          using rd_abs_rehash [OF inv True h1(1)] hh by simp
        ultimately show ?thesis using find F(4) w True by auto
      qed
      then show ?thesis using inv' by blast
    qed
  qed
  then show "rd_inv d'" "rd_abs d' = (rd_abs d)(k := map_of c k)" by auto
qed

lemma rd_entries_spec:
  assumes "rd_inv d"
  shows "distinct (map fst (rd_entries d))" and "rd_count d = int (length (rd_entries d))"
proof -
  let ?t = "rd_t0 d"
  have t: "ht_wf ?t" using assms by (simp add: rd_inv_def)
  have "distinct (map fst (rd_entries d)) \<and> rd_count d = int (length (rd_entries d))"
  proof (cases "isRehashing d")
    case True
    then obtain h1 where h1: "rd_t1 d = Some h1" "rehash_inv d h1" using assms by (auto simp: rd_inv_def)
    then have w: "ht_wf h1" by (simp add: rehash_inv_def)
    have "k \<notin> fst ` set (concat (ht_buckets h1))" if "k \<in> fst ` set (concat (ht_buckets ?t))" for k
      using that ht_keys_find [OF t, of k] ht_keys_find [OF w, of k] h1(2) rehash_low_empty [OF h1(2), of k]
      by (auto simp: rehash_inv_def simp del: set_concat)
    then have "set (map fst (concat (ht_buckets ?t))) \<inter> set (map fst (concat (ht_buckets h1))) = {}"
      by (auto simp del: set_concat)
    then have "distinct (map fst (concat (ht_buckets ?t)) @ map fst (concat (ht_buckets h1)))"
      using ht_distinct [OF t] ht_distinct [OF w] by (simp only: distinct_append)
    then show ?thesis
      using True h1 by (simp add: rd_entries_def rehash_inv_def ht_total_def del: distinct_append)
  next
    case False
    then show ?thesis using assms ht_distinct [OF t] by (simp add: rd_entries_def rd_inv_def ht_total_def)
  qed
  then show "distinct (map fst (rd_entries d))" "rd_count d = int (length (rd_entries d))" by auto
qed

lemma rd_count_card: "rd_inv d \<Longrightarrow> rd_count d = int (card (dom (rd_abs d)))"
  using rd_entries_spec [of d] map_of_card [of "rd_entries d"] by (simp add: rd_abs_def)

lemma rd_locate_spec:
  assumes "rd_inv d" "card (dom (rd_abs d)) < 2 ^ 44"
  obtains d1 w idx ht where "rd_locate d k = Some (d1, w, idx, ht, ht_buckets ht ! idx)"
    "rd_inv d1" "rd_abs d1 = rd_abs d" "bucketIndex d1 k = Some (w, idx)" "table d1 w = Some ht"
    "map_of (ht_buckets ht ! idx) k = rd_abs d k" "distinct (map fst (ht_buckets ht ! idx))"
proof -
  have "rd_count d < 2 ^ 44"
    using assms by (simp add: rd_count_card)
  from startRehashIfNeeded_spec [OF assms(1) this] obtain d0
    where d0: "startRehashIfNeeded d = Some d0" "rd_inv d0" "rd_abs d0 = rd_abs d" by metis
  obtain d1 where d1: "rehashStep d0 = Some d1" "rd_inv d1" "rd_abs d1 = rd_abs d"
    using rehashStep_spec [OF d0(2)] d0(3) by metis
  obtain w idx ht where F: "bucketIndex d1 k = Some (w, idx)" "table d1 w = Some ht" "idx = bucket_of ht k"
      "ht_wf ht" "idx < length (ht_buckets ht)" "rd_abs d1 k = ht_find ht k"
    using rd_find_spec [OF d1(2), of k] by metis
  show thesis
    using that [of d1 w idx ht] d0(1) d1 F ht_wf_bucket [OF F(4,5)] by (simp add: rd_locate_def ht_find_def)
qed

lemma chain_set_spec:
  "map_of es k \<noteq> None \<Longrightarrow> map_of (chain_set k v es) = (map_of es)(k \<mapsto> v)"
  "map fst (chain_set k v es) = map fst es"
  by (induction k v es rule: chain_set.induct) auto

lemma chain_remove_spec:
  assumes "distinct (map fst es)"
  shows "map_of (chain_remove k es) = (map_of es)(k := None)" "distinct (map fst (chain_remove k es))"
    "set (chain_remove k es) \<subseteq> set es"
    "map_of es k \<noteq> None \<Longrightarrow> Suc (length (chain_remove k es)) = length es"
proof -
  show sub: "set (chain_remove k es) \<subseteq> set es" by (induction k es rule: chain_remove.induct) auto
  show "map_of (chain_remove k es) = (map_of es)(k := None)"
    using assms
  proof (induction k es rule: chain_remove.induct)
    case (2 k k' v' es)
    then show ?case by (auto simp: fun_eq_iff map_of_eq_None_iff)
  qed simp
  have S: "set (chain_remove k es) \<subseteq> set es" for k and es :: "(string \<times> 'a) list"
    by (induction k es rule: chain_remove.induct) auto
  show "distinct (map fst (chain_remove k es))"
    using assms
  proof (induction k es rule: chain_remove.induct)
    case (2 k k' v' es)
    then show ?case using S [of k es] by (auto simp: image_iff)
  qed simp
  show "map_of es k \<noteq> None \<Longrightarrow> Suc (length (chain_remove k es)) = length es"
    by (induction k es rule: chain_remove.induct) auto
qed

lemma rd_write_spec:
  assumes "rd_inv d" "bucketIndex d k = Some (w, idx)" "table d w = Some ht"
    "map_of (ht_buckets ht ! idx) k \<noteq> None" "distinct (map fst (ht_buckets ht ! idx))"
  shows "rd_inv (rd_write d w idx ht (chain_set k v (ht_buckets ht ! idx)))"
    and "rd_abs (rd_write d w idx ht (chain_set k v (ht_buckets ht ! idx))) = (rd_abs d)(k \<mapsto> v)"
proof -
  let ?c = "chain_set k v (ht_buckets ht ! idx)"
  note C = chain_set_spec(1) [OF assms(4), of v] chain_set_spec(2) [of k v "ht_buckets ht ! idx"]
  have "rd_write d w idx ht ?c
      = (set_table d w (ht_set_chain ht idx ?c (ht_used ht + 0)))\<lparr>rd_count := rd_count d + 0\<rparr>"
    by (simp add: rd_write_def set_table_def ht_set_chain_def)
  moreover have "fst e \<in> fst ` set (ht_buckets ht ! idx)" if "e \<in> set ?c" for e
    using that arg_cong [OF C(2), of set] by auto
  moreover have "0 = int (length ?c) - int (length (ht_buckets ht ! idx))"
    using arg_cong [OF C(2), of length] by simp
  ultimately have "rd_inv (rd_write d w idx ht ?c) \<and>
      rd_abs (rd_write d w idx ht ?c) = (rd_abs d)(k := map_of ?c k)"
    using set_chain_spec [OF assms(1-3), of ?c 0] assms(5) C by simp
  then show "rd_inv (rd_write d w idx ht ?c)" "rd_abs (rd_write d w idx ht ?c) = (rd_abs d)(k \<mapsto> v)"
    by (auto simp: C(1))
qed

lemma rd_insert_spec:
  assumes "rd_inv d" "bucketIndex d k = Some (w, idx)" "table d w = Some ht"
    "map_of (ht_buckets ht ! idx) k = None" "distinct (map fst (ht_buckets ht ! idx))"
  shows "rd_inv (rd_insert d w idx ht (ht_buckets ht ! idx) k v)"
    and "rd_abs (rd_insert d w idx ht (ht_buckets ht ! idx) k v) = (rd_abs d)(k \<mapsto> v)"
proof -
  let ?c = "(k, v) # ht_buckets ht ! idx" and ?d = "rd_insert d w idx ht (ht_buckets ht ! idx) k v"
  have "?d = (set_table d w (ht_set_chain ht idx ?c (ht_used ht + 1)))\<lparr>rd_count := rd_count d + 1\<rparr>"
    by (simp add: rd_insert_def ht_set_chain_def)
  then have "rd_inv ?d \<and> rd_abs ?d = (rd_abs d)(k := map_of ?c k)"
    using set_chain_spec [OF assms(1-3), of ?c 1 ?d] assms(4,5) by (auto simp: map_of_eq_None_iff)
  then show "rd_inv ?d" "rd_abs ?d = (rd_abs d)(k \<mapsto> v)" by auto
qed

lemma rd_put_spec:
  assumes "rd_inv d" "card (dom (rd_abs d)) < 2 ^ 44"
  shows "\<exists>d'. rd_put d k v = Some (d', if k \<in> dom (rd_abs d) then 0 else 1) \<and> rd_inv d' \<and>
           rd_abs d' = (rd_abs d)(k \<mapsto> v)"
    and "\<exists>d'. rd_putIfAbsent d k v = Some (d', if k \<in> dom (rd_abs d) then 0 else 1) \<and> rd_inv d' \<and>
           rd_abs d' = (if k \<in> dom (rd_abs d) then rd_abs d else (rd_abs d)(k \<mapsto> v))"
    and "\<exists>d'. rd_putIfExists d k v = Some (d', if k \<in> dom (rd_abs d) then 1 else 0) \<and> rd_inv d' \<and>
           rd_abs d' = (if k \<in> dom (rd_abs d) then (rd_abs d)(k \<mapsto> v) else rd_abs d)"
proof -
  obtain d1 w idx ht where L: "rd_locate d k = Some (d1, w, idx, ht, ht_buckets ht ! idx)"
    "rd_inv d1" "rd_abs d1 = rd_abs d" "bucketIndex d1 k = Some (w, idx)" "table d1 w = Some ht"
    "map_of (ht_buckets ht ! idx) k = rd_abs d k" "distinct (map fst (ht_buckets ht ! idx))"
    using rd_locate_spec [OF assms] by metis
  note W = rd_write_spec [OF L(2,4,5) _ L(7), of v] and I = rd_insert_spec [OF L(2,4,5) _ L(7), of v]
  show "\<exists>d'. rd_put d k v = Some (d', if k \<in> dom (rd_abs d) then 0 else 1) \<and> rd_inv d' \<and>
           rd_abs d' = (rd_abs d)(k \<mapsto> v)"
    using L W I by (cases "rd_abs d k") (simp_all add: rd_put_def dom_def)
  show "\<exists>d'. rd_putIfAbsent d k v = Some (d', if k \<in> dom (rd_abs d) then 0 else 1) \<and> rd_inv d' \<and>
           rd_abs d' = (if k \<in> dom (rd_abs d) then rd_abs d else (rd_abs d)(k \<mapsto> v))"
    using L I by (cases "rd_abs d k") (simp_all add: rd_putIfAbsent_def dom_def)
  show "\<exists>d'. rd_putIfExists d k v = Some (d', if k \<in> dom (rd_abs d) then 1 else 0) \<and> rd_inv d' \<and>
           rd_abs d' = (if k \<in> dom (rd_abs d) then (rd_abs d)(k \<mapsto> v) else rd_abs d)"
    using L W by (cases "rd_abs d k") (simp_all add: rd_putIfExists_def dom_def)
qed

lemma ht_remove_eq:
  assumes "ht_wf ht"
  shows "ht_remove ht k = Some (if ht_find ht k = None then (ht, None)
    else (ht_set_chain ht (bucket_of ht k) (chain_remove k (ht_buckets ht ! bucket_of ht k)) (ht_used ht + - 1),
          ht_find ht k))"
  using bucket_of_lt [OF assms, of k]
  by (auto simp: ht_remove_def Let_def gindex_nth ht_find_def ht_set_chain_def split: option.split)

lemma rd_remove_chain:
  assumes "rd_inv d" "bucketIndex d k = Some (w, idx)" "table d w = Some ht"
    "map_of (ht_buckets ht ! idx) k \<noteq> None" "distinct (map fst (ht_buckets ht ! idx))"
    "d' = (set_table d w (ht_set_chain ht idx (chain_remove k (ht_buckets ht ! idx)) (ht_used ht + - 1)))
            \<lparr>rd_count := rd_count d + - 1\<rparr>"
  shows "rd_inv d' \<and> rd_abs d' = (rd_abs d)(k := None)"
proof -
  let ?c = "chain_remove k (ht_buckets ht ! idx)"
  note C = chain_remove_spec [OF assms(5), of k]
  have "\<forall>e\<in>set ?c. fst e \<in> fst ` set (ht_buckets ht ! idx) \<or> fst e = k" using C(3) by auto
  moreover have "- 1 = int (length ?c) - int (length (ht_buckets ht ! idx))" using C(4) [OF assms(4)] by simp
  ultimately show ?thesis
    using set_chain_spec [OF assms(1-3) C(2) _ _ assms(6)] by (simp add: C(1))
qed

lemma rd_remove_spec:
  assumes "rd_inv d"
  shows "\<exists>d'. rd_remove d k = Some (d', rd_abs d k) \<and> rd_inv d' \<and> rd_abs d' = (rd_abs d)(k := None)"
proof -
  obtain d1 where d1: "(if isRehashing d then rehashStep d else Some d) = Some d1" "rd_inv d1"
      "rd_abs d1 = rd_abs d"
    using rehashStep_spec [OF assms] assms by (metis (full_types))
  obtain w idx ht where F: "bucketIndex d1 k = Some (w, idx)" "table d1 w = Some ht" "idx = bucket_of ht k"
      "ht_wf ht" "idx < length (ht_buckets ht)" "rd_abs d1 k = ht_find ht k"
      "w \<longleftrightarrow> isRehashing d1 \<and> int (bucket_of (rd_t0 d1) k) < rd_rehashIdx d1"
    using rd_find_spec [OF d1(2), of k] by metis
  have t0: "ht_wf (rd_t0 d1)" using d1(2) by (simp add: rd_inv_def)
  note R = rd_remove_chain [OF d1(2) F(1,2) _ _ refl]
  have chain: "distinct (map fst (ht_buckets ht ! idx))" using ht_wf_bucket [OF F(4,5)] by simp
  have absent: ?thesis if "rd_remove d k = Some (d1, None)" "ht_find ht k = None"
    using that d1 F(6) by auto
  show ?thesis
  proof (cases w)
    case True
    then obtain h1 where h1: "rd_t1 d1 = Some h1" "rehash_inv d1 h1" "ht = h1" "isRehashing d1"
      using F d1(2) by (auto simp: rd_inv_def table_def)
    have "ht_find (rd_t0 d1) k = None"
      using rehash_low_empty [OF h1(2), of k] F(7) True by simp
    then have "rd_remove d k = (if ht_find ht k = None then Some (d1, None) else
        Some ((set_table d1 w (ht_set_chain ht idx (chain_remove k (ht_buckets ht ! idx)) (ht_used ht + - 1)))
          \<lparr>rd_count := rd_count d1 + - 1\<rparr>, ht_find ht k))"
      using d1(1) h1 True F(3,4) t0 by (auto simp: rd_remove_def ht_remove_eq set_table_def)
    then show ?thesis
      using R chain absent d1(3) F(3,6) by (cases "ht_find ht k") (auto simp: ht_find_def)
  next
    case False
    then have eq: "ht = rd_t0 d1" using F(2) by (simp add: table_def)
    have "ht_find h1 k = None \<and> ht_wf h1" if "isRehashing d1" "rd_t1 d1 = Some h1" for h1
      using that d1(2) False F(7) by (fastforce simp: rd_inv_def rehash_inv_def)
    then have "rd_remove d k = (if ht_find ht k = None then Some (d1, None) else
        Some ((set_table d1 w (ht_set_chain ht idx (chain_remove k (ht_buckets ht ! idx)) (ht_used ht + - 1)))
          \<lparr>rd_count := rd_count d1 + - 1\<rparr>, ht_find ht k))"
      using d1(1) False F(3,4) t0 eq
      by (auto simp: rd_remove_def ht_remove_eq set_table_def split: option.split)
    then show ?thesis
      using R chain absent d1(3) F(3,6) by (cases "ht_find ht k") (auto simp: ht_find_def)
  qed
qed

lemma empty_table_inv:
  assumes "2 \<le> n" "d = \<lparr>rd_t0 = new_table (2 ^ n), rd_t1 = None, rd_rehashIdx = -1, rd_count = 0\<rparr>"
  shows "rd_inv d" and "rd_abs d = Map.empty"
proof -
  note T = new_table_wf [OF assms(1), where 'v = 'a]
  show "rd_inv d" using assms(2) T by (simp add: rd_inv_def isRehashing_def)
  have "concat (ht_buckets (rd_t0 d)) = []" using assms(2) T(3) by (simp add: ht_total_def)
  then show "rd_abs d = Map.empty"
    using assms(2) by (simp add: isRehashing_def rd_abs_def rd_entries_def del: concat_eq_Nil_conv)
qed

lemma rd_clear_spec: "rd_inv (rd_clear d)" "rd_abs (rd_clear d) = Map.empty"
  using empty_table_inv [of 2 "rd_clear d"] by (simp_all add: rd_clear_def minSize_def)

lemma makeRedis_spec:
  assumes "hint \<le> 2 ^ 45"
  obtains d :: "'v redisDict" where "makeRedis hint = Some d" "rd_inv d" "rd_abs d = Map.empty"
proof -
  obtain n where n: "2 \<le> n"
      "make_table (nextPower (if hint < minSize then minSize else hint)) = Some (new_table (2 ^ n) :: 'v hashTable)"
    by (rule nextPower_table [of "if hint < minSize then minSize else hint"]) (use assms in \<open>auto simp: minSize_def\<close>)
  then show thesis using that empty_table_inv [OF n(1) refl, where 'a = 'v] by (simp add: makeRedis_def)
qed

text \<open>The incremental-rehash table keeps the contract of the dictionary interface.\<close>

interpretation rd: dict_impl redis_Dict rd_inv rd_abs "2 ^ 44"
proof unfold_locales
  fix d :: "'v redisDict" and k v
  assume inv: "rd_inv d"
  show "dGet redis_Dict d k = Some (rd_abs d k)" using inv by (simp add: redis_Dict_def rd_get_spec)
  show "dLen redis_Dict d = Some (card (dom (rd_abs d)))"
    using inv by (simp add: redis_Dict_def rd_len_def rd_count_card)
  show "\<exists>d'. dRemove redis_Dict d k = Some (d', rd_abs d k) \<and> rd_inv d' \<and> rd_abs d' = (rd_abs d)(k := None)"
    using rd_remove_spec [OF inv] by (simp add: redis_Dict_def)
  show "distinct (map fst (dEntries redis_Dict d)) \<and> map_of (dEntries redis_Dict d) = rd_abs d"
    using rd_entries_spec [OF inv] by (simp add: redis_Dict_def rd_abs_def)
next
  fix d :: "'v redisDict"
  show "rd_inv (dClear redis_Dict d) \<and> rd_abs (dClear redis_Dict d) = Map.empty"
    by (simp add: redis_Dict_def rd_clear_spec)
qed (simp_all add: redis_Dict_def rd_put_spec)

text \<open>\<open>nextPower\<close> rounds a requested table size up to the next power of two, at least 4, for
  every request up to \<open>2 ^ 62\<close>.\<close>

lemma nextPower_least:
  assumes "n \<le> 2 ^ 62"
  shows "\<exists>m. nextPower n = 2 ^ m \<and> max 4 n \<le> 2 ^ m \<and> (\<forall>m'. max 4 n \<le> 2 ^ m' \<longrightarrow> m \<le> m')"
proof -
  obtain m where m: "2 \<le> m" "nextPower n = 2 ^ m" "n \<le> 2 ^ m" "4 < n \<Longrightarrow> 2 ^ m < 2 * n" "n \<le> 4 \<Longrightarrow> m = 2"
    using nextPower_spec [OF assms] by blast
  have "(2 :: int) ^ 2 \<le> 2 ^ m" using m(1) by (intro power_increasing) auto
  moreover have "m \<le> m'" if "max 4 n \<le> 2 ^ m'" for m'
  proof -
    have "(2 :: int) ^ m < 2 ^ Suc m'" using that m(4,5) by (cases "n \<le> 4") auto
    then have "m < Suc m'" by (rule power_less_imp_less_exp [rotated]) simp
    then show ?thesis by simp
  qed
  ultimately show ?thesis using m by auto
qed

lemma rehashStep_progress:
  assumes "rd_inv d" "isRehashing d" "rehashStep d = Some d'" "isRehashing d'"
  shows "rd_rehashIdx d < rd_rehashIdx d'"
proof -
  have "0 \<le> rd_rehashIdx d" using assms(1,2) by (auto simp: rd_inv_def rehash_inv_def)
  moreover obtain i where "next_bucket (rd_t0 d) (nat (rd_rehashIdx d)) = Some i" "rd_rehashIdx d' = int i + 1"
    using assms(2-4) by (auto simp: rehashStep_def isRehashing_def Let_def split: if_splits option.splits bind_splits)
  ultimately show ?thesis using next_bucket_Some [of "rd_t0 d"] by fastforce
qed

section \<open>Properties\<close>

text \<open>C5. An incremental rehash step neither panics nor changes the contents: on every well-formed table,
  before, during or at the end of a rehash, it leaves a well-formed table with the same bindings
  and the same count. A step of a rehash that does not end it moves on to a later bucket, so the rehash ends.\<close>

theorem rehash_keeps_bindings:
  assumes "rd_inv d"
  shows "\<exists>d'. rehashStep d = Some d' \<and> rd_inv d' \<and> rd_abs d' = rd_abs d \<and> rd_len d' = rd_len d \<and>
    (isRehashing d \<and> isRehashing d' \<longrightarrow> rd_rehashIdx d < rd_rehashIdx d')"
  using rehashStep_spec [OF assms] rehashStep_progress [OF assms] by (metis rd_len_def)

text \<open>Four keys fill the four buckets of a fresh table: the next write starts a rehash.\<close>

definition full_table :: "int redisDict" where
  "full_table = \<lparr>rd_t0 = \<lparr>ht_buckets = [[(''a'', 1)], [(''b'', 2)], [(''c'', 3)], [(''d'', 4)]], ht_mask = 3, ht_used = 4\<rparr>,
     rd_t1 = None, rd_rehashIdx = -1, rd_count = 4\<rparr>"

lemma full_table_inv: "rd_inv full_table"
proof -
  let ?t = "rd_t0 full_table"
  have "fnv1a ''a'' = 12638187200555641996" "fnv1a ''b'' = 12638190499090526629"
    "fnv1a ''c'' = 12638189399578898418" "fnv1a ''d'' = 12638183902020757363"
    by (simp_all add: fnv1a_def)
  then have b: "bucket_of ?t ''a'' = 0" "bucket_of ?t ''b'' = 1" "bucket_of ?t ''c'' = 2" "bucket_of ?t ''d'' = 3"
    by (simp_all add: bucket_of_def full_table_def)
  have t: "ht_buckets ?t = [[(''a'', 1)], [(''b'', 2)], [(''c'', 3)], [(''d'', 4)]]" "ht_mask ?t = 3" "ht_used ?t = 4"
    by (simp_all add: full_table_def)
  have four: "i < Suc (Suc (Suc (Suc 0))) \<longleftrightarrow> i = 0 \<or> i = 1 \<or> i = 2 \<or> i = 3" for i :: nat by arith
  have "ht_wf ?t" using b by (auto simp: ht_wf_def t four intro!: exI [of _ 2])
  then show ?thesis using t by (simp add: rd_inv_def isRehashing_def ht_total_def) (simp add: full_table_def)
qed

theorem rehash_keeps_bindings_witness:
  "\<exists>d d'. startRehashIfNeeded full_table = Some d \<and> isRehashing d \<and> rehashStep d = Some d' \<and> isRehashing d' \<and>
     ht_total (rd_t0 d) = 4 \<and> ht_total (rd_t0 d') = 3 \<and> rd_rehashIdx d < rd_rehashIdx d' \<and>
     rd_abs d' = [''a'' \<mapsto> 1, ''b'' \<mapsto> 2, ''c'' \<mapsto> 3, ''d'' \<mapsto> 4] \<and> rd_len d' = 4"
proof -
  obtain d where d: "startRehashIfNeeded full_table = Some d" "rd_inv d" "rd_abs d = rd_abs full_table"
    using startRehashIfNeeded_spec [OF full_table_inv] by (auto simp: full_table_def)
  have e: "d = full_table\<lparr>rd_t1 := Some (new_table 8), rd_rehashIdx := 0\<rparr>"
    using d(1) by (simp add: startRehashIfNeeded_def startRehash_def full_table_def isRehashing_def make_table_def nextPower_def
        minSize_def maxAlloc_def wrap64_def Let_def)
  obtain d' where d': "rehashStep d = Some d'" "rd_abs d' = rd_abs d" "rd_len d' = rd_len d"
      "isRehashing d \<and> isRehashing d' \<longrightarrow> rd_rehashIdx d < rd_rehashIdx d'"
    using rehash_keeps_bindings [OF d(2)] by auto
  have "rd_abs full_table = [''a'' \<mapsto> 1, ''b'' \<mapsto> 2, ''c'' \<mapsto> 3, ''d'' \<mapsto> 4]"
    by (auto simp: rd_abs_def rd_entries_def full_table_def isRehashing_def fun_eq_iff)
  moreover have "isRehashing d" "isRehashing d'" "ht_total (rd_t0 d) = 4" "ht_total (rd_t0 d') = 3" "rd_len d = 4"
    using d'(1) by (auto simp: e full_table_def isRehashing_def rehashStep_def next_bucket.simps ht_total_def rd_len_def Let_def
        split: bind_splits)
  ultimately show ?thesis using d(1,3) d' by auto
qed

end
