(* ===== verification/Wildcard.thy ===== *)
theory Wildcard
  imports Prelude
begin

text \<open>
  The glob translator of \<^verbatim>\<open>internal/lib/wildcard/wildcard.go\<close>: \<open>CompilePattern\<close> rewrites
  a glob to a regular expression and hands it to Go's \<^verbatim>\<open>regexp\<close> package, which is the
  parameter \<open>regexp\<close>: for a source text, the matcher it compiles to, or \<open>None\<close> for a
  compile error.
\<close>

type_synonym matcher = "string \<Rightarrow> bool"

definition replaceMap :: "char \<rightharpoonup> string" where
  "replaceMap = map_of
     [(CHR ''+'', [CHR 0x5C, CHR ''+'']), (CHR '')'', [CHR 0x5C, CHR '')'']),
      (CHR ''$'', [CHR 0x5C, CHR ''$'']), (CHR ''.'', [CHR 0x5C, CHR ''.'']),
      (CHR ''{'', [CHR 0x5C, CHR ''{'']), (CHR ''}'', [CHR 0x5C, CHR ''}'']),
      (CHR ''|'', [CHR 0x5C, CHR ''|'']), (CHR ''*'', ''.*''), (CHR ''?'', ''.'')]"

text \<open>What the loop writes for a caret at index \<open>i\<close>: bare only right after an opening bracket.\<close>

definition caret_src :: "string \<Rightarrow> nat \<Rightarrow> string" where
  "caret_src src i =
     (if i = 0 then [CHR 0x5C, CHR ''^'']
      else if i = 1 then
        (if src ! (i - 1) = CHR ''['' then ''^'' else [CHR 0x5C, CHR ''^''])
      else if src ! (i - 1) = CHR ''['' \<and> src ! (i - 2) \<noteq> CHR 0x5C then ''^''
      else [CHR 0x5C, CHR ''^''])"

function regex_body :: "string \<Rightarrow> nat \<Rightarrow> string option" where
  "regex_body src i =
     (if i < length src then
        (let ch = src ! i in
         if ch = CHR 0x5C then
           (if i = length src - 1 then None
            else map_option (\<lambda>r. ch # src ! (i + 1) # r) (regex_body src (i + 2)))
         else if ch = CHR ''^'' then map_option (\<lambda>r. caret_src src i @ r) (regex_body src (i + 1))
         else (case replaceMap ch of
                 Some escaped \<Rightarrow> map_option (\<lambda>r. escaped @ r) (regex_body src (i + 1))
               | None \<Rightarrow> map_option (\<lambda>r. ch # r) (regex_body src (i + 1))))
      else Some [])"
  by pat_completeness auto
termination
  by (relation "measure (\<lambda>(src, i). length src - i)") auto

declare regex_body.simps [simp del]

definition regex_src :: "string \<Rightarrow> string option" where
  "regex_src src = map_option (\<lambda>b. ''^'' @ b @ ''$'') (regex_body src 0)"

definition compilePattern :: "(string \<Rightarrow> matcher option) \<Rightarrow> string \<Rightarrow> matcher option" where
  "compilePattern regexp src = regex_src src \<bind> regexp"

section \<open>What the translation gives\<close>

text \<open>
  A pattern without special characters is matched literally: the expression is the pattern
  between anchors.
\<close>

definition plain_char :: "char \<Rightarrow> bool" where
  "plain_char c \<longleftrightarrow> c \<noteq> CHR 0x5C \<and> c \<noteq> CHR ''^'' \<and> replaceMap c = None"

lemma regex_body_plain:
  "(\<forall>c \<in> set (drop i src). plain_char c) \<Longrightarrow> regex_body src i = Some (drop i src)"
proof (induction src i rule: regex_body.induct)
  case (1 src i)
  show ?case
  proof (cases "i < length src")
    case True
    have d: "drop i src = src ! i # drop (Suc i) src" using True by (simp add: Cons_nth_drop_Suc)
    then have p: "plain_char (src ! i)" "\<forall>c \<in> set (drop (Suc i) src). plain_char c"
      using "1.prems" by auto
    then have "regex_body src (Suc i) = Some (drop (Suc i) src)"
      using "1.IH" [OF True refl] by (auto simp: plain_char_def)
    then show ?thesis
      using True p(1) d by (simp add: regex_body.simps [of src i] plain_char_def)
  qed (simp add: regex_body.simps [of src i])
qed

lemma regex_src_plain: "(\<forall>c \<in> set src. plain_char c) \<Longrightarrow> regex_src src = Some (''^'' @ src @ ''$'')"
  using regex_body_plain [of 0 src] by (simp add: regex_src_def)

lemma regex_src_mark: "regex_src ''?'' = Some ''^.$''"
  by code_simp

end
