(* ===== verification/Scan.thy ===== *)
theory Scan
  imports Wildcard
begin

text \<open>
  Cursor scans. The scan commands hand a cursor back and forth: the client calls with cursor 0,
  then with each cursor returned, until 0 comes back. \<open>scan_loop\<close> is that client.
  The locale \<open>cursor_scan\<close> is what it relies on: the container \<open>x\<close> is a row of \<open>n x\<close>
  buckets, a call at a position that the scan can reach gives the matching keys of the buckets
  from there up to a later position, and returns that position, or 0 at the end. The dictionaries
  that offer \<^verbatim>\<open>DictScan\<close> interpret it in their own theories.
\<close>

text \<open>The predicate both dictionaries test a key with: the star pattern is matched without the engine.\<close>

definition scan_match :: "(string \<Rightarrow> matcher option) \<Rightarrow> string \<Rightarrow> matcher" where
  "scan_match regexp pattern key =
     (pattern = ''*'' \<or> (case compilePattern regexp pattern of None \<Rightarrow> False | Some m \<Rightarrow> m key))"

lemma scan_match_star [simp]: "scan_match regexp ''*'' = (\<lambda>_. True)"
  by (simp add: scan_match_def fun_eq_iff)

fun scan_loop :: "('x \<Rightarrow> int \<Rightarrow> (string list \<times> int) option) \<Rightarrow> 'x \<Rightarrow> nat \<Rightarrow> int \<Rightarrow> string list \<Rightarrow>
    string list option" where
  "scan_loop scan x 0 c acc = None"
| "scan_loop scan x (Suc fuel) c acc =
     do { (ks, c') \<leftarrow> scan x c;
          if c' = 0 then Some (acc @ ks) else scan_loop scan x fuel c' (acc @ ks) }"

locale cursor_scan =
  fixes scan :: "'x \<Rightarrow> int \<Rightarrow> (string list \<times> int) option"
    and out :: "'x \<Rightarrow> nat \<Rightarrow> string list"
    and n :: "'x \<Rightarrow> nat"
    and ok :: "'x \<Rightarrow> nat \<Rightarrow> bool"
  assumes step: "ok x c \<Longrightarrow>
    \<exists>c'. c < c' \<and> c' \<le> n x \<and> (c' < n x \<longrightarrow> ok x c') \<and>
         scan x (int c) = Some (concat (map (out x) [c..<c']), if c' = n x then 0 else int c')"
begin

lemma loop_from:
  assumes "ok x c" "n x - c \<le> fuel"
  shows "scan_loop scan x fuel (int c) acc = Some (acc @ concat (map (out x) [c..<n x]))"
  using assms
proof (induction fuel arbitrary: c acc)
  case 0
  then show ?case using step [of x c] by auto
next
  case (Suc fuel)
  obtain c' where c': "c < c'" "c' \<le> n x" "c' < n x \<longrightarrow> ok x c'"
      "scan x (int c) = Some (concat (map (out x) [c..<c']), if c' = n x then 0 else int c')"
    using step [OF Suc.prems(1)] by auto
  show ?case
  proof (cases "c' = n x")
    case True
    then show ?thesis using c' by simp
  next
    case False
    then have "ok x c'" "n x - c' \<le> fuel" using c'(1-3) Suc.prems(2) by auto
    then have rest: "scan_loop scan x fuel (int c') acc' = Some (acc' @ concat (map (out x) [c'..<n x]))" for acc'
      by (rule Suc.IH)
    have "[c..<n x] = [c..<c'] @ [c'..<n x]"
      using c'(1,2) upt_add_eq_append [of c c' "n x - c'"] by simp
    then show ?thesis using False c'(1,4) rest by simp
  qed
qed

text \<open>The client gets the matching keys of every bucket, each bucket once, and it stops.\<close>

lemma loop_complete:
  "ok x 0 \<Longrightarrow> n x \<le> fuel \<Longrightarrow> scan_loop scan x fuel 0 [] = Some (concat (map (out x) [0..<n x]))"
  using loop_from [of x 0 fuel "[]"] by simp

end

lemma concat_map_nth: "concat (map (\<lambda>i. f (xs ! i)) [0..<length xs]) = concat (map f xs)"
proof -
  have "map (\<lambda>i. f (xs ! i)) [0..<length xs] = map f (map ((!) xs) [0..<length xs])"
    by (simp only: map_map comp_def)
  then show ?thesis by (simp only: map_nth)
qed

end
