(* ===== verification/RedisScan.thy ===== *)
theory RedisScan
  imports RedisDict Scan
begin

text \<open>
  The read-only sampling and scan operations of \<^verbatim>\<open>internal/datastruct/dict/redisdict.go\<close>:
  \<open>RandomKeys\<close>, \<open>RandomDistinctKeys\<close> and \<open>DictScan\<close> with its cursor over the buckets of
  one or, during a rehash, two tables. A full scan of an unchanging table returns every matching
  key exactly once.
\<close>

definition rd_randomKeys :: "'v redisDict \<Rightarrow> int \<Rightarrow> string list option" where
  "rd_randomKeys d limit =
     (if limit < 0 then None
      else iter (\<lambda>result _ (k, _). Some (result @ [k], \<not> limit \<le> int (length (result @ [k])))) 0 (rd_entries d) [])"

definition rd_randomDistinctKeys :: "'v redisDict \<Rightarrow> int \<Rightarrow> string list option" where
  "rd_randomDistinctKeys d limit =
     (if limit < 0 then None
      else map_option snd (iter (\<lambda>(seen, result) _ (k, _).
             if k \<notin> seen
             then Some ((insert k seen, result @ [k]), \<not> limit \<le> int (length (result @ [k])))
             else Some ((seen, result), True)) 0 (rd_entries d) ({}, [])))"

text \<open>One of the two scan loops: from bucket \<open>i\<close> on while fewer than \<open>cnt\<close> keys are collected.\<close>

function scan_table :: "matcher \<Rightarrow> int \<Rightarrow> (string \<times> 'v) list list \<Rightarrow> int \<Rightarrow> string list \<Rightarrow>
    (int \<times> string list) option" where
  "scan_table matchKey cnt buckets i result =
     (if i < int (length buckets) \<and> int (length result) < cnt then
        do { chain \<leftarrow> gindex buckets i;
             let result' = result @ filter matchKey (map fst chain);
             if cnt \<le> int (length result') then Some (i + 1, result')
             else scan_table matchKey cnt buckets (i + 1) result' }
      else Some (i, result))"
  by pat_completeness auto
termination
  by (relation "measure (\<lambda>(_, _, buckets, i, _). nat (int (length buckets) - i))") auto

declare scan_table.simps [simp del]

definition rd_dictScan :: "(string \<Rightarrow> matcher option) \<Rightarrow> 'v redisDict \<Rightarrow> int \<Rightarrow> int \<Rightarrow> string \<Rightarrow>
    (string list \<times> int) option" where
  "rd_dictScan regexp d cursor cnt pattern =
     (if rd_count d = 0 then Some ([], 0)
      else if pattern = ''*'' \<and> rd_count d \<le> cnt then Some (map fst (rd_entries d), 0)
      else if pattern \<noteq> ''*'' \<and> compilePattern regexp pattern = None then Some ([], -1)
      else
        (let matchKey = scan_match regexp pattern;
             b0 = ht_buckets (rd_t0 d);
             b1 = (case rd_t1 d of None \<Rightarrow> [] | Some ht1 \<Rightarrow> ht_buckets ht1);
             n0 = int (length b0);
             n1 = int (length b1);
             (i0, i1) = (if isRehashing d
                         then (if cursor < n0 then (cursor, 0) else (n0, cursor - n0))
                         else (cursor, 0))
         in do { (j0, result0) \<leftarrow> scan_table matchKey cnt b0 i0 [];
                 (j1, result) \<leftarrow> (if isRehashing d \<and> 0 < n1
                                  then scan_table matchKey cnt b1 i1 result0
                                  else Some (i1, result0));
                 if isRehashing d
                 then (if n1 \<le> j1 \<and> n0 \<le> j0 then Some (result, 0)
                       else if j0 < n0 then Some (result, j0)
                       else Some (result, n0 + j1))
                 else if n0 \<le> j0 then Some (result, 0)
                 else Some (result, j0) }))"

section \<open>The scan loops\<close>

text \<open>The matching keys of one bucket.\<close>

definition bucket_keys :: "matcher \<Rightarrow> (string \<times> 'v) list list \<Rightarrow> nat \<Rightarrow> string list" where
  "bucket_keys m bs i = filter m (map fst (bs ! i))"

lemma scan_table_spec:
  assumes "i \<le> length bs"
  obtains j where "i \<le> j" "j \<le> length bs"
    "scan_table m cnt bs (int i) res = Some (int j, res @ concat (map (bucket_keys m bs) [i..<j]))"
    "j = length bs \<or> cnt \<le> int (length (res @ concat (map (bucket_keys m bs) [i..<j])))"
    "i < length bs \<Longrightarrow> int (length res) < cnt \<Longrightarrow> i < j"
    "cnt \<le> int (length res) \<Longrightarrow> j = i"
proof -
  have "\<exists>j. i \<le> j \<and> j \<le> length bs \<and>
    scan_table m cnt bs (int i) res = Some (int j, res @ concat (map (bucket_keys m bs) [i..<j])) \<and>
    (j = length bs \<or> cnt \<le> int (length (res @ concat (map (bucket_keys m bs) [i..<j])))) \<and>
    (i < length bs \<and> int (length res) < cnt \<longrightarrow> i < j) \<and> (cnt \<le> int (length res) \<longrightarrow> j = i)"
    using assms
  proof (induction "length bs - i" arbitrary: i res)
    case 0
    then show ?case by (intro exI [of _ i]) (simp add: scan_table.simps [of _ _ _ "int i"])
  next
    case (Suc k)
    let ?res = "res @ bucket_keys m bs i"
    have lt: "i < length bs" using Suc.hyps(2) by simp
    show ?case
    proof (cases "int (length res) < cnt")
      case False
      then show ?thesis using lt by (intro exI [of _ i]) (simp add: scan_table.simps [of _ _ _ "int i"])
    next
      case True
      have unf: "scan_table m cnt bs (int i) res =
          (if cnt \<le> int (length ?res) then Some (int (Suc i), ?res) else scan_table m cnt bs (int (Suc i)) ?res)"
        using True lt by (simp add: scan_table.simps [of _ _ _ "int i"] bucket_keys_def Let_def add.commute)
      show ?thesis
      proof (cases "cnt \<le> int (length ?res)")
        case True
        then show ?thesis using unf lt \<open>int (length res) < cnt\<close> by (intro exI [of _ "Suc i"]) simp
      next
        case False
        have "k = length bs - Suc i" "Suc i \<le> length bs" using Suc.hyps(2) by auto
        then obtain j where j: "Suc i \<le> j" "j \<le> length bs"
          "scan_table m cnt bs (int (Suc i)) ?res = Some (int j, ?res @ concat (map (bucket_keys m bs) [Suc i..<j]))"
          "j = length bs \<or> cnt \<le> int (length (?res @ concat (map (bucket_keys m bs) [Suc i..<j])))"
          using Suc.hyps(1) [of "Suc i" ?res] by blast
        have "[i..<j] = i # [Suc i..<j]" using j(1) by (simp add: upt_conv_Cons)
        then show ?thesis
          using j unf False True by (intro exI [of _ j]) (simp del: upt_Suc)
      qed
    qed
  qed
  then show thesis using that by auto
qed

section \<open>A call and a full scan\<close>

definition rd_buckets :: "'v redisDict \<Rightarrow> (string \<times> 'v) list list" where
  "rd_buckets d = ht_buckets (rd_t0 d) @
     (if isRehashing d then (case rd_t1 d of None \<Rightarrow> [] | Some ht1 \<Rightarrow> ht_buckets ht1) else [])"

definition scan_ok :: "(string \<Rightarrow> matcher option) \<Rightarrow> string \<Rightarrow> bool" where
  "scan_ok regexp pat \<longleftrightarrow> pat = ''*'' \<or> compilePattern regexp pat \<noteq> None"

definition rd_scan_ok :: "(string \<Rightarrow> matcher option) \<Rightarrow> 'v redisDict \<times> int \<times> string \<Rightarrow> nat \<Rightarrow> bool" where
  "rd_scan_ok regexp = (\<lambda>(d, cnt, pat) c. rd_inv d \<and> 1 \<le> cnt \<and> scan_ok regexp pat \<and> c < length (rd_buckets d) \<and>
     (rd_count d = 0 \<or> pat = ''*'' \<and> rd_count d \<le> cnt \<longrightarrow> c = 0))"

lemma concat_rd_buckets: "concat (rd_buckets d) = rd_entries d"
  by (simp add: rd_buckets_def rd_entries_def split: option.split)

lemma bucket_keys_left: "j \<le> length b0 \<Longrightarrow> map (bucket_keys m (b0 @ b1)) [i..<j] = map (bucket_keys m b0) [i..<j]"
  by (simp add: bucket_keys_def nth_append)

lemma bucket_keys_right:
  "map (bucket_keys m (b0 @ b1)) [length b0 + i..<length b0 + j] = map (bucket_keys m b1) [i..<j]"
proof -
  have "[length b0 + i..<length b0 + j] = map ((+) (length b0)) [i..<j]"
    by (induction j) auto
  then show ?thesis by (simp add: bucket_keys_def nth_append)
qed

lemma bucket_keys_all: "concat (map (bucket_keys m bs) [0..<length bs]) = filter m (map fst (concat bs))"
  unfolding bucket_keys_def concat_map_nth [of "\<lambda>b. filter m (map fst b)"]
  by (induction bs) auto

lemma rd_entries_empty: "rd_inv d \<Longrightarrow> rd_count d = 0 \<Longrightarrow> rd_entries d = []"
  using rd_entries_spec(2) [of d] by simp

text \<open>During a rehash the two loops run over the buckets of both tables in one row.\<close>

lemma scan_two_tables:
  assumes "c < length (b0 @ b1)" "1 \<le> cnt" "0 < length b1"
    and i: "(i0, i1) = (if int c < int (length b0) then (int c, 0) else (int (length b0), int c - int (length b0)))"
  obtains j0 j1 res0 c' where "scan_table m cnt b0 i0 [] = Some (int j0, res0)"
    "scan_table m cnt b1 i1 res0 = Some (int j1, concat (map (bucket_keys m (b0 @ b1)) [c..<c']))"
    "c < c'" "c' \<le> length (b0 @ b1)"
    "c' = (if j0 < length b0 then j0 else length b0 + j1)" "j1 \<le> length b1" "j0 \<le> length b0"
proof (cases "c < length b0")
  case True
  then have i01: "i0 = int c" "i1 = int 0" using i by auto
  obtain j0 where j0: "c \<le> j0" "j0 \<le> length b0" "c < j0"
      "scan_table m cnt b0 (int c) [] = Some (int j0, concat (map (bucket_keys m b0) [c..<j0]))"
      "j0 = length b0 \<or> cnt \<le> int (length (concat (map (bucket_keys m b0) [c..<j0])))"
    using scan_table_spec [of c b0 m cnt "[]"] True assms(2) by auto
  let ?r = "concat (map (bucket_keys m b0) [c..<j0])"
  obtain j1 where j1: "j1 \<le> length b1"
      "scan_table m cnt b1 (int 0) ?r = Some (int j1, ?r @ concat (map (bucket_keys m b1) [0..<j1]))"
      "cnt \<le> int (length ?r) \<Longrightarrow> j1 = 0"
    using scan_table_spec [of 0 b1 m cnt ?r] by auto
  show thesis
  proof (cases "j0 < length b0")
    case True
    then have "j1 = 0" using j0(5) j1(3) by simp
    then show thesis
      using that [of j0 ?r 0 j0] True j0 j1(2) i01 bucket_keys_left [of j0 b0 m b1 c] by simp
  next
    case False
    then have "j0 = length b0" using j0(2) by simp
    moreover have "[c..<length b0 + j1] = [c..<length b0] @ [length b0 + 0..<length b0 + j1]"
      using upt_add_eq_append [of c "length b0" j1] \<open>c < length b0\<close> by simp
    ultimately have "concat (map (bucket_keys m (b0 @ b1)) [c..<length b0 + j1]) =
        ?r @ concat (map (bucket_keys m b1) [0..<j1])"
      by (simp only: map_append concat_append bucket_keys_left [OF le_refl] bucket_keys_right)
    then show thesis
      using that [of j0 ?r j1 "length b0 + j1"] \<open>c < length b0\<close> \<open>j0 = length b0\<close> j0(4) j1(1,2) i01
      by (simp del: map_concat)
  qed
next
  case False
  then obtain k where k: "c = length b0 + k" using le_Suc_ex [of "length b0" c] by auto
  then have i01: "i0 = int (length b0)" "i1 = int k" using i by auto
  have r0: "scan_table m cnt b0 (int (length b0)) [] = Some (int (length b0), [])"
    by (simp add: scan_table.simps [of _ _ _ "int (length b0)"])
  obtain j1 where j1: "j1 \<le> length b1" "k < j1"
      "scan_table m cnt b1 (int k) [] = Some (int j1, concat (map (bucket_keys m b1) [k..<j1]))"
    using scan_table_spec [of k b1 m cnt "[]"] k assms(1,2) by auto
  then show thesis
    using that [of "length b0" "[]" j1 "length b0 + j1"] r0 i01 k bucket_keys_right [of m b0 b1 k j1] by simp
qed

lemma rd_dictScan_step:
  assumes "rd_scan_ok regexp (d, cnt, pat) c"
  shows "\<exists>c'. c < c' \<and> c' \<le> length (rd_buckets d) \<and> (c' < length (rd_buckets d) \<longrightarrow> rd_scan_ok regexp (d, cnt, pat) c') \<and>
    rd_dictScan regexp d (int c) cnt pat = Some (concat (map (bucket_keys (scan_match regexp pat) (rd_buckets d)) [c..<c']),
      if c' = length (rd_buckets d) then 0 else int c')"
proof -
  let ?m = "scan_match regexp pat" and ?B = "rd_buckets d"
  have ok: "rd_inv d" "1 \<le> cnt" "scan_ok regexp pat" "c < length ?B"
    "rd_count d = 0 \<or> pat = ''*'' \<and> rd_count d \<le> cnt \<longrightarrow> c = 0"
    using assms by (auto simp: rd_scan_ok_def)
  have all: "concat (map (bucket_keys ?m ?B) [0..<length ?B]) = filter ?m (map fst (rd_entries d))"
    by (simp add: bucket_keys_all concat_rd_buckets)
  consider "rd_count d = 0" | "rd_count d \<noteq> 0" "pat = ''*''" "rd_count d \<le> cnt"
    | "rd_count d \<noteq> 0" "\<not> (pat = ''*'' \<and> rd_count d \<le> cnt)" by blast
  then show ?thesis
  proof cases
    case 1
    then show ?thesis using ok all rd_entries_empty [of d]
      by (intro exI [of _ "length ?B"]) (simp add: rd_dictScan_def)
  next
    case 2
    then show ?thesis using ok all by (intro exI [of _ "length ?B"]) (simp add: rd_dictScan_def)
  next
    case 3
    then have next_ok: "rd_scan_ok regexp (d, cnt, pat) c'" if "c' < length ?B" for c'
      using ok that by (auto simp: rd_scan_ok_def)
    have err: "\<not> (pat \<noteq> ''*'' \<and> compilePattern regexp pat = None)" using ok(3) by (simp add: scan_ok_def)
    show ?thesis
    proof (cases "isRehashing d")
      case True
      then obtain h1 where h1: "rd_t1 d = Some h1" "ht_wf h1"
        using ok(1) by (auto simp: rd_inv_def rehash_inv_def)
      let ?b0 = "ht_buckets (rd_t0 d)" and ?b1 = "ht_buckets h1"
      have B: "?B = ?b0 @ ?b1" using True h1 by (simp add: rd_buckets_def)
      have pos: "0 < length ?b1" using h1(2) by (auto simp: ht_wf_def)
      obtain i0 i1 where i: "(i0, i1) =
          (if int c < int (length ?b0) then (int c, 0) else (int (length ?b0), int c - int (length ?b0)))"
        by (metis surj_pair)
      obtain j0 j1 res0 c' where "scan_table ?m cnt ?b0 i0 [] = Some (int j0, res0)"
        "scan_table ?m cnt ?b1 i1 res0 = Some (int j1, concat (map (bucket_keys ?m (?b0 @ ?b1)) [c..<c']))"
        "c < c'" "c' \<le> length (?b0 @ ?b1)"
        "c' = (if j0 < length ?b0 then j0 else length ?b0 + j1)" "j1 \<le> length ?b1" "j0 \<le> length ?b0"
        using scan_two_tables [OF _ ok(2) pos i, of ?m] ok(4) B by metis
      then show ?thesis
        using 3 True h1(1) err i next_ok B pos
        by (intro exI [of _ c']) (auto simp: rd_dictScan_def Let_def)
    next
      case False
      then have B: "?B = ht_buckets (rd_t0 d)" by (simp add: rd_buckets_def)
      obtain j where "c < j" "j \<le> length ?B"
          "scan_table ?m cnt ?B (int c) [] = Some (int j, concat (map (bucket_keys ?m ?B) [c..<j]))"
        using scan_table_spec [of c ?B ?m cnt "[]"] ok(2,4) by auto
      then show ?thesis
        using 3 False err next_ok B by (intro exI [of _ j]) (auto simp: rd_dictScan_def Let_def)
    qed
  qed
qed

interpretation rds: cursor_scan "\<lambda>(d, cnt, pat) c. rd_dictScan regexp d c cnt pat"
    "\<lambda>(d, cnt, pat). bucket_keys (scan_match regexp pat) (rd_buckets d)"
    "\<lambda>(d, cnt, pat). length (rd_buckets d)" "rd_scan_ok regexp" for regexp
proof (unfold_locales, goal_cases)
  case (1 x c)
  then show ?case using rd_dictScan_step [of regexp "fst x" "fst (snd x)" "snd (snd x)" c]
    by (simp add: split_beta)
qed

lemma random_distinct_fill:
  assumes "distinct (map fst es)" "seen = set result" "set result \<inter> fst ` set es = {}" "int (length result) < limit"
  shows "map_option snd (iter (\<lambda>(seen, result) _ (k, _).
             if k \<notin> seen then Some ((insert k seen, result @ [k]), \<not> limit \<le> int (length (result @ [k])))
             else Some ((seen, result), True)) i es (seen, result))
     = Some (result @ take (nat limit - length result) (map fst es))"
  using assms
proof (induction es arbitrary: i seen result)
  case (Cons e es)
  obtain k v where e: "e = (k, v)" by (cases e)
  have k: "k \<notin> seen" using Cons.prems(2,3) e by auto
  have n: "nat limit - length result = Suc (nat limit - length (result @ [k]))" using Cons.prems(4) by simp
  show ?case
  proof (cases "limit \<le> int (length (result @ [k]))")
    case True
    then show ?thesis using k e n by simp
  next
    case False
    have "set (result @ [k]) \<inter> fst ` set es = {}" using Cons.prems(1,3) e by auto
    then show ?thesis
      using Cons.IH [of "insert k seen" "result @ [k]" "Suc i"] Cons.prems(1,2) k e n False by simp
  qed
qed simp

section \<open>Properties\<close>

text \<open>C8. A full scan of the table is complete and free of repetitions, also in the middle of a rehash:
  a client that starts at cursor 0 and follows the returned cursors over an unchanged table
  with a count of at least 1 and a pattern that compiles gets, after at most as many calls as there are buckets,
  every key that matches the pattern exactly once.\<close>

theorem rd_full_scan:
  assumes "rd_inv d" "1 \<le> cnt" "scan_ok regexp pat" "length (rd_buckets d) \<le> fuel"
  shows "\<exists>ks. scan_loop (\<lambda>(d, cnt, pat) c. rd_dictScan regexp d c cnt pat) (d, cnt, pat) fuel 0 [] = Some ks \<and>
    distinct ks \<and> set ks = {k \<in> dom (rd_abs d). scan_match regexp pat k}"
proof -
  let ?m = "scan_match regexp pat"
  have "0 < length (rd_buckets d)"
    using assms(1) by (auto simp: rd_buckets_def rd_inv_def ht_wf_def)
  then have "rd_scan_ok regexp (d, cnt, pat) 0" using assms by (simp add: rd_scan_ok_def)
  then have "scan_loop (\<lambda>(d, cnt, pat) c. rd_dictScan regexp d c cnt pat) (d, cnt, pat) fuel 0 [] =
      Some (filter ?m (map fst (rd_entries d)))"
    using rds.loop_complete [of regexp "(d, cnt, pat)" fuel] assms(4)
    by (simp add: bucket_keys_all concat_rd_buckets)
  moreover have "set (filter ?m (map fst (rd_entries d))) = {k \<in> dom (rd_abs d). ?m k}"
    by (auto simp: rd_abs_def dom_map_of_conv_image_fst)
  ultimately show ?thesis using rd_entries_spec(1) [OF assms(1)] by simp
qed

theorem rd_full_scan_witness:
  "\<exists>d ks. rd_abs d = [''a'' \<mapsto> 1, ''bc'' \<mapsto> (2 :: int)] \<and>
     scan_loop (\<lambda>(d, cnt, pat) c. rd_dictScan (\<lambda>_. Some (\<lambda>k. length k = 1)) d c cnt pat) (d, 1, ''?'')
       (length (rd_buckets d)) 0 [] = Some ks \<and> set ks = {''a''}"
proof -
  let ?re = "\<lambda>_ :: string. Some (\<lambda>k :: string. length k = 1)"
  obtain d where d: "rd_inv d" "rd_abs d = [''a'' \<mapsto> 1, ''bc'' \<mapsto> (2 :: int)]"
  proof -
    obtain d0 :: "int redisDict" where "rd_inv d0" "rd_abs d0 = Map.empty" using makeRedis_spec [of 0] by auto
    then show thesis using that rd.run_refines [of d0 "[OpPut ''a'' 1, OpPut ''bc'' (2 :: int)]"] by auto
  qed
  have c: "compilePattern ?re ''?'' = Some (\<lambda>k. length k = 1)"
    by (simp add: compilePattern_def regex_src_mark)
  then have so: "scan_ok ?re ''?''" by (simp add: scan_ok_def)
  obtain ks where ks:
    "scan_loop (\<lambda>(d, cnt, pat) c. rd_dictScan ?re d c cnt pat) (d, 1, ''?'') (length (rd_buckets d)) 0 [] = Some ks"
    "set ks = {k \<in> dom (rd_abs d). scan_match ?re ''?'' k}"
    using rd_full_scan [OF d(1) order_refl so order_refl] by (elim exE conjE) simp_all
  have "set ks = {''a''}" unfolding ks(2) d(2) by (auto simp: scan_match_def compilePattern_def regex_src_mark split: if_splits)
  with d(2) ks(1) show ?thesis by (intro exI conjI)
qed

text \<open>A count that is not positive, which SCAN does not reject, ends the scan at once without a key.\<close>

lemma scan_without_count:
  assumes "rd_inv d" "cnt \<le> 0" "scan_ok regexp pat"
  shows "rd_dictScan regexp d 0 cnt pat = Some ([], 0)"
proof -
  have "0 \<le> rd_count d" "0 < length (ht_buckets (rd_t0 d))"
    using assms(1) by (auto simp: rd_count_card rd_inv_def ht_wf_def)
  then show ?thesis using assms(2,3) by (auto simp: rd_dictScan_def scan_ok_def scan_table.simps Let_def split: option.split)
qed

text \<open>\<open>RandomDistinctKeys\<close> returns, for a positive limit, that many different keys of the table, or
  all keys where there are fewer.\<close>

lemma rd_random_distinct:
  assumes "rd_inv d" "1 \<le> limit"
  shows "\<exists>ks. rd_randomDistinctKeys d limit = Some ks \<and> distinct ks \<and> set ks \<subseteq> dom (rd_abs d) \<and>
    length ks = min (nat limit) (card (dom (rd_abs d)))"
proof -
  have dk: "distinct (map fst (rd_entries d))" using rd_entries_spec(1) [OF assms(1)] .
  have "rd_randomDistinctKeys d limit = Some (take (nat limit) (map fst (rd_entries d)))"
    using random_distinct_fill [OF dk, of "{}" "[]" limit 0] assms(2) by (simp add: rd_randomDistinctKeys_def)
  moreover have "card (dom (rd_abs d)) = length (rd_entries d)"
    using map_of_card [OF dk] by (simp add: rd_abs_def)
  moreover have "set (take (nat limit) (map fst (rd_entries d))) \<subseteq> dom (rd_abs d)"
    using set_take_subset [of "nat limit" "map fst (rd_entries d)"]
    by (auto simp: rd_abs_def dom_map_of_conv_image_fst)
  ultimately show ?thesis using dk by (simp add: min.commute)
qed

end
