(* ===== verification/ConcurrentDict.thy ===== *)
theory ConcurrentDict
  imports SimpleDict Buckets Scan
begin

text \<open>
  The sharded dict of \<^verbatim>\<open>internal/datastruct/dict/concurrent.go\<close>, the default engine of the
  key space: a power-of-two row of shards, each a Go map, and a 32-bit counter of bindings. The
  operations are modelled as they run under their shard's mutex; the mutexes themselves are the
  subject of \<open>ShardLocks\<close>. The dict keeps the contract \<open>dict_impl\<close> up to
  \<open>2 ^ 31 - 1\<close> bindings, where the counter would wrap.
\<close>

unbundle bit_operations_syntax

record 'v shard =
  sh_m :: "(string \<times> 'v) list"

record 'v concurrentDict =
  cd_table :: "'v shard list"
  cd_count :: int
  cd_shardCount :: nat

text \<open>
  The branch of \<open>computeCapacity\<close> for a negative \<^verbatim>\<open>n\<close> is never taken: a 64-bit integer above 15 keeps its sign
  when it is combined with its own right shifts.
\<close>

definition computeCapacity :: "int \<Rightarrow> nat" where
  "computeCapacity param =
     (if param \<le> 16 then 16
      else let n1 = nat (param - 1);
               n2 = n1 OR drop_bit 1 n1;
               n3 = n2 OR drop_bit 2 n2;
               n4 = n3 OR drop_bit 4 n3;
               n5 = n4 OR drop_bit 8 n4;
               n6 = n5 OR drop_bit 16 n5
           in n6 + 1)"

definition makeConcurrent :: "int \<Rightarrow> 'v concurrentDict" where
  "makeConcurrent shardCount =
     (if shardCount = 1 then \<lparr>cd_table = [\<lparr>sh_m = []\<rparr>], cd_count = 0, cd_shardCount = 1\<rparr>
      else let n = computeCapacity shardCount
           in \<lparr>cd_table = replicate n \<lparr>sh_m = []\<rparr>, cd_count = 0, cd_shardCount = n\<rparr>)"

definition fnv32 :: "string \<Rightarrow> nat" where
  "fnv32 key = foldl (\<lambda>hash c. (hash * 16777619) mod 2 ^ 32 XOR of_char c) 2166136261 key"

definition spread :: "'v concurrentDict \<Rightarrow> string \<Rightarrow> nat" where
  "spread d key =
     (if length (cd_table d) = 1 then 0
      else let hashCode = fnv32 key; tableSize = length (cd_table d) mod 2 ^ 32
           in ((tableSize + 2 ^ 32 - 1) mod 2 ^ 32) AND hashCode)"

definition getShard :: "'v concurrentDict \<Rightarrow> nat \<Rightarrow> 'v shard option" where
  "getShard d index = gindex (cd_table d) (int index)"

definition add32 :: "int \<Rightarrow> int \<Rightarrow> int" where
  "add32 x y = (x + y + 2 ^ 31) mod 2 ^ 32 - 2 ^ 31"

definition addCount :: "'v concurrentDict \<Rightarrow> 'v concurrentDict" where
  "addCount d = d\<lparr>cd_count := add32 (cd_count d) 1\<rparr>"

definition decreaseCount :: "'v concurrentDict \<Rightarrow> 'v concurrentDict" where
  "decreaseCount d = d\<lparr>cd_count := add32 (cd_count d) (- 1)\<rparr>"

definition set_shard :: "'v concurrentDict \<Rightarrow> nat \<Rightarrow> (string \<times> 'v) list \<Rightarrow> 'v concurrentDict" where
  "set_shard d index m = d\<lparr>cd_table := (cd_table d)[index := \<lparr>sh_m = m\<rparr>]\<rparr>"

definition cd_get :: "'v concurrentDict \<Rightarrow> string \<Rightarrow> 'v option option" where
  "cd_get d key = do { s \<leftarrow> getShard d (spread d key); Some (map_of (sh_m s) key) }"

definition cd_len :: "'v concurrentDict \<Rightarrow> int" where
  "cd_len d = cd_count d"

definition cd_put :: "'v concurrentDict \<Rightarrow> string \<Rightarrow> 'v \<Rightarrow> ('v concurrentDict \<times> nat) option" where
  "cd_put d key val =
     (let index = spread d key in
      do { s \<leftarrow> getShard d index;
           if map_of (sh_m s) key \<noteq> None
           then Some (set_shard d index (gmap_set key val (sh_m s)), 0)
           else Some (set_shard (addCount d) index (gmap_set key val (sh_m s)), 1) })"

definition cd_putIfAbsent :: "'v concurrentDict \<Rightarrow> string \<Rightarrow> 'v \<Rightarrow> ('v concurrentDict \<times> nat) option" where
  "cd_putIfAbsent d key val =
     (let index = spread d key in
      do { s \<leftarrow> getShard d index;
           if map_of (sh_m s) key \<noteq> None then Some (d, 0)
           else Some (addCount (set_shard d index (gmap_set key val (sh_m s))), 1) })"

definition cd_putIfExists :: "'v concurrentDict \<Rightarrow> string \<Rightarrow> 'v \<Rightarrow> ('v concurrentDict \<times> nat) option" where
  "cd_putIfExists d key val =
     (let index = spread d key in
      do { s \<leftarrow> getShard d index;
           if map_of (sh_m s) key \<noteq> None
           then Some (set_shard d index (gmap_set key val (sh_m s)), 1)
           else Some (d, 0) })"

definition cd_remove :: "'v concurrentDict \<Rightarrow> string \<Rightarrow> ('v concurrentDict \<times> 'v option) option" where
  "cd_remove d key =
     (let index = spread d key in
      do { s \<leftarrow> getShard d index;
           case map_of (sh_m s) key of
             Some v \<Rightarrow> Some (decreaseCount (set_shard d index (gmap_delete key (sh_m s))), Some v)
           | None \<Rightarrow> Some (d, None) })"

definition cd_entries :: "'v concurrentDict \<Rightarrow> (string \<times> 'v) list" where
  "cd_entries d = concat (map sh_m (cd_table d))"

definition cd_forEach :: "'v concurrentDict \<Rightarrow> ('s \<Rightarrow> string \<Rightarrow> 'v \<Rightarrow> ('s \<times> bool) option) \<Rightarrow> 's \<Rightarrow> 's option" where
  "cd_forEach d consumer s = iter (\<lambda>s _ (k, v). consumer s k v) 0 (cd_entries d) s"

text \<open>\<open>Keys\<close> allocates as many slots as the counter says and appends once they are full.\<close>

definition cd_keys :: "'v concurrentDict \<Rightarrow> string list option" where
  "cd_keys d =
     (if cd_len d < 0 then None
      else map_option fst (cd_forEach d (\<lambda>(keys, i) key _.
             if i < length keys then Some ((keys[i := key], Suc i), True)
             else Some ((keys @ [key], i), True)) (replicate (nat (cd_len d)) [], 0)))"

definition cd_clear :: "'v concurrentDict \<Rightarrow> 'v concurrentDict" where
  "cd_clear d = makeConcurrent (int (cd_shardCount d))"

function cd_scan_loop :: "matcher \<Rightarrow> int \<Rightarrow> int \<Rightarrow> 'v shard list \<Rightarrow> int \<Rightarrow> string list \<Rightarrow>
    (string list \<times> int) option" where
  "cd_scan_loop matchKey cnt cursor table shardIndex result =
     (if shardIndex < int (length table) then
        do { s \<leftarrow> gindex table shardIndex;
             if cnt < int (length result) + int (length (sh_m s)) \<and> cursor < shardIndex
             then Some (result, shardIndex)
             else cd_scan_loop matchKey cnt cursor table (shardIndex + 1)
                    (result @ filter matchKey (map fst (sh_m s))) }
      else Some (result, 0))"
  by pat_completeness auto
termination
  by (relation "measure (\<lambda>(_, _, _, table, i, _). nat (int (length table) - i))") auto

declare cd_scan_loop.simps [simp del]

definition cd_dictScan :: "(string \<Rightarrow> matcher option) \<Rightarrow> 'v concurrentDict \<Rightarrow> int \<Rightarrow> int \<Rightarrow> string \<Rightarrow>
    (string list \<times> int) option" where
  "cd_dictScan regexp d cursor cnt pattern =
     (if pattern = ''*'' \<and> cd_len d \<le> cnt then do { ks \<leftarrow> cd_keys d; Some (ks, 0) }
      else case compilePattern regexp pattern of
        None \<Rightarrow> Some ([], -1)
      | Some _ \<Rightarrow> cd_scan_loop (scan_match regexp pattern) cnt cursor (cd_table d) cursor [])"

definition concurrent_Dict :: "('v concurrentDict, 'v) Dict" where
  "concurrent_Dict = \<lparr>
     dGet = cd_get,
     dLen = (\<lambda>d. Some (nat (cd_len d))),
     dPut = cd_put,
     dPutIfAbsent = cd_putIfAbsent,
     dPutIfExists = cd_putIfExists,
     dRemove = cd_remove,
     dEntries = cd_entries,
     dClear = cd_clear\<rparr>"

section \<open>Invariant\<close>

definition cd_abs :: "'v concurrentDict \<Rightarrow> (string \<rightharpoonup> 'v)" where
  "cd_abs d = map_of (cd_entries d)"

definition cd_inv :: "'v concurrentDict \<Rightarrow> bool" where
  "cd_inv d \<longleftrightarrow> (\<exists>n \<le> 32. (n = 0 \<or> 4 \<le> n) \<and> length (cd_table d) = 2 ^ n) \<and>
     cd_shardCount d = length (cd_table d) \<and>
     (\<forall>i < length (cd_table d). distinct (map fst (sh_m (cd_table d ! i))) \<and>
        (\<forall>e \<in> set (sh_m (cd_table d ! i)). spread d (fst e) = i)) \<and>
     cd_count d = int (length (cd_entries d)) \<and> cd_count d < 2 ^ 31"

lemma computeCapacity_spec:
  assumes "param \<le> 2 ^ 32"
  obtains m where "4 \<le> m" "m \<le> 32" "computeCapacity param = 2 ^ m" "param \<le> 2 ^ m" "16 < param \<Longrightarrow> 2 ^ m < 2 * param"
proof (cases "param \<le> 16")
  case True
  then show thesis using that [of 4] by (simp add: computeCapacity_def)
next
  case False
  define x where "x = nat (param - 1)"
  have "1 \<le> x" using False by (simp add: x_def)
  then obtain k where k: "2 ^ k \<le> x" "x < 2 ^ Suc k"
    using ex_power_ivl1 [of 2 x] by auto
  have "x < 2 ^ 32" using assms False by (simp add: x_def)
  then have "(2 :: nat) ^ k < 2 ^ 32" using k(1) by (rule le_less_trans [rotated])
  then have k32: "k < 32" using power_less_imp_less_exp [of 2 k 32] by simp
  have "(2 :: nat) ^ 4 < 2 ^ Suc k" using k(2) False by (simp add: x_def)
  then have "4 < Suc k" by (rule power_less_imp_less_exp [rotated]) simp
  then have k4: "4 \<le> Suc k" by simp
  have "smear 16 (smear 8 (smear 4 (smear 2 (smear 1 x)))) = mask (Suc k)"
    using smear_mask [OF k smear_window32 k32] .
  then have "computeCapacity param = mask (Suc k) + 1"
    using False by (simp add: computeCapacity_def Let_def smear_def x_def)
  then have c: "computeCapacity param = 2 ^ Suc k" by (simp add: mask_eq_exp_minus_1)
  have "param = int x + 1" using False by (simp add: x_def)
  moreover have "int x < 2 ^ Suc k" "2 ^ k \<le> int x"
    using k by (metis of_nat_less_iff of_nat_power of_nat_numeral, metis of_nat_le_iff of_nat_power of_nat_numeral)
  ultimately have "param \<le> 2 ^ Suc k" "2 ^ Suc k < 2 * param" unfolding power_Suc by linarith+
  then show thesis using that [of "Suc k"] k4 k32 c by (simp only: Suc_le_eq)
qed

lemma spread_lt: "cd_inv d \<Longrightarrow> spread d k < length (cd_table d)"
proof -
  assume "cd_inv d"
  then obtain n where n: "n \<le> 32" "length (cd_table d) = 2 ^ n" by (auto simp: cd_inv_def)
  have "((2 ^ n) mod 2 ^ 32 + 2 ^ 32 - 1) mod 2 ^ 32 = (2 ^ n - 1 :: nat)"
  proof (cases "n = 32")
    case False
    then have "(2 :: nat) ^ n < 2 ^ 32" using n(1) by (intro power_strict_increasing) auto
    then have "(2 ^ n) mod 2 ^ 32 + 2 ^ 32 - 1 = (2 ^ n - 1) + (2 ^ 32 :: nat)" "(2 :: nat) ^ n - 1 < 2 ^ 32"
      by (simp_all add: less_imp_diff_less)
    then show ?thesis by (metis mod_add_self2 mod_less)
  qed simp
  then show ?thesis
    using n and_mask_lt [of "fnv32 k" n] by (simp add: spread_def Let_def and.commute)
qed

lemma spread_cong: "length (cd_table d') = length (cd_table d) \<Longrightarrow> spread d' k = spread d k"
  by (simp add: spread_def)

lemma cd_abs_shard: "cd_inv d \<Longrightarrow> cd_abs d k = map_of (sh_m (cd_table d ! spread d k)) k"
  using map_of_concat_tagged [of "map sh_m (cd_table d)" "spread d" 0 k] spread_lt [of d k]
  by (simp add: cd_abs_def cd_entries_def cd_inv_def)

lemma cd_entries_distinct: "cd_inv d \<Longrightarrow> distinct (map fst (cd_entries d))"
  using distinct_concat_tagged [of "map sh_m (cd_table d)" "spread d" 0]
  by (simp add: cd_entries_def cd_inv_def)

lemma cd_count_card: "cd_inv d \<Longrightarrow> cd_count d = int (card (dom (cd_abs d)))"
  using map_of_card [OF cd_entries_distinct [of d]] by (simp add: cd_abs_def) (simp add: cd_inv_def)

lemma add32_exact: "0 \<le> x \<Longrightarrow> x < 2 ^ 31 - 1 \<Longrightarrow> add32 x 1 = x + 1" "0 < x \<Longrightarrow> x < 2 ^ 31 \<Longrightarrow> add32 x (- 1) = x - 1"
  by (simp_all add: add32_def)

lemma getShard_spread [simp]: "cd_inv d \<Longrightarrow> getShard d (spread d k) = Some (cd_table d ! spread d k)"
  using spread_lt [of d k] by (simp add: getShard_def)

lemma shard_update:
  assumes inv: "cd_inv d" and m: "distinct (map fst m)"
    "\<forall>e \<in> set m. fst e \<in> fst ` set (sh_m (cd_table d ! spread d k)) \<or> fst e = k"
    and other: "\<And>k'. k' \<noteq> k \<Longrightarrow> map_of m k' = map_of (sh_m (cd_table d ! spread d k)) k'"
    and n: "n = int (length m) - int (length (sh_m (cd_table d ! spread d k)))" "cd_count d + n < 2 ^ 31"
    and d': "d' = (set_shard d (spread d k) m)\<lparr>cd_count := cd_count d + n\<rparr>"
  shows "cd_inv d'" and "cd_abs d' = (cd_abs d)(k := map_of m k)"
proof -
  let ?i = "spread d k"
  have lt: "?i < length (cd_table d)" using inv by (rule spread_lt)
  have tab: "cd_table d' = (cd_table d)[?i := \<lparr>sh_m = m\<rparr>]" "cd_shardCount d' = cd_shardCount d"
    "cd_count d' = cd_count d + n"
    by (simp_all add: d' set_shard_def)
  have sp: "spread d' k' = spread d k'" for k' by (rule spread_cong) (simp add: tab)
  have row: "distinct (map fst (sh_m (cd_table d ! i))) \<and> (\<forall>e \<in> set (sh_m (cd_table d ! i)). spread d (fst e) = i)"
    if "i < length (cd_table d)" for i using inv that by (simp add: cd_inv_def)
  have row': "distinct (map fst (sh_m (cd_table d' ! i))) \<and> (\<forall>e \<in> set (sh_m (cd_table d' ! i)). spread d' (fst e) = i)"
    if "i < length (cd_table d)" for i
  proof (cases "i = ?i")
    case True
    have "spread d (fst e) = ?i" if "e \<in> set m" for e
      using m(2) that row [OF lt] by fastforce
    then show ?thesis using True lt m(1) by (simp add: tab sp)
  next
    case False
    then show ?thesis using row [OF that] by (simp add: tab sp)
  qed
  have "int (length (cd_entries d')) = int (length (cd_entries d)) + n"
    using length_concat_update [of ?i "map sh_m (cd_table d)" m] lt n(1)
    by (simp add: cd_entries_def tab map_update)
  then show inv': "cd_inv d'"
    using inv row' n(2) by (simp add: cd_inv_def tab)
  have "cd_abs d' k' = ((cd_abs d)(k := map_of m k)) k'" for k'
    using lt other [of k'] inv inv'
    by (cases "k' = k"; cases "spread d k' = ?i") (simp_all add: cd_abs_shard sp tab)
  then show "cd_abs d' = (cd_abs d)(k := map_of m k)" by (rule ext)
qed

section \<open>Contract\<close>

lemma gmap_set_length:
  "length (gmap_set k v m) = (if map_of m k = None then Suc (length m) else length m)"
  by (induction m) auto

lemma gmap_delete_length:
  "distinct (map fst m) \<Longrightarrow> map_of m k = Some v \<Longrightarrow> Suc (length (gmap_delete k m)) = length m"
proof (induction m)
  case (Cons p m)
  have "filter (\<lambda>(k', _). k' \<noteq> k) m = m" if "k \<notin> fst ` set m"
    using that by (force simp: filter_id_conv)
  then show ?case using Cons by (cases p) (auto simp: gmap_delete_def split: if_splits)
qed simp

lemma gmap_set_shard:
  assumes "cd_inv d" "n = (if cd_abs d k = None then 1 else 0)" "card (dom (cd_abs d)) < 2 ^ 31 - 1"
    "d' = (set_shard d (spread d k) (gmap_set k v (sh_m (cd_table d ! spread d k))))\<lparr>cd_count := cd_count d + n\<rparr>"
  shows "cd_inv d' \<and> cd_abs d' = (cd_abs d)(k \<mapsto> v)"
proof -
  let ?m = "sh_m (cd_table d ! spread d k)"
  have "distinct (map fst ?m)" using assms(1) spread_lt [OF assms(1), of k] by (simp add: cd_inv_def)
  moreover have "\<forall>e \<in> set (gmap_set k v ?m). fst e \<in> fst ` set ?m \<or> fst e = k"
    using gmap_set_keys [of k v ?m] by auto
  moreover have "n = int (length (gmap_set k v ?m)) - int (length ?m)" "cd_count d + n < 2 ^ 31"
    using assms(1-3) by (auto simp: gmap_set_length cd_abs_shard cd_count_card split: if_splits)
  ultimately show ?thesis
    using shard_update [OF assms(1) gmap_set_distinct _ _ _ _ assms(4)] by simp
qed

lemma gmap_delete_shard:
  assumes "cd_inv d" "cd_abs d k = Some v"
    "d' = (set_shard d (spread d k) (gmap_delete k (sh_m (cd_table d ! spread d k))))\<lparr>cd_count := cd_count d + - 1\<rparr>"
  shows "cd_inv d' \<and> cd_abs d' = (cd_abs d)(k := None)"
proof -
  let ?m = "sh_m (cd_table d ! spread d k)"
  have dm: "distinct (map fst ?m)" using assms(1) spread_lt [OF assms(1), of k] by (simp add: cd_inv_def)
  have "\<forall>e \<in> set (gmap_delete k ?m). fst e \<in> fst ` set ?m \<or> fst e = k"
    by (auto simp: gmap_delete_def)
  moreover have "- 1 = int (length (gmap_delete k ?m)) - int (length ?m)" "cd_count d + - 1 < 2 ^ 31"
    using gmap_delete_length [OF dm, of k v] assms(1,2) by (simp_all add: cd_abs_shard) (simp add: cd_inv_def)
  ultimately show ?thesis
    using shard_update [OF assms(1) gmap_delete_distinct [OF dm] _ _ _ _ assms(3)] by simp
qed

lemma cd_writes:
  assumes "cd_inv d" "card (dom (cd_abs d)) < 2 ^ 31 - 1"
  shows "\<exists>d'. cd_put d k v = Some (d', if k \<in> dom (cd_abs d) then 0 else 1) \<and> cd_inv d' \<and>
           cd_abs d' = (cd_abs d)(k \<mapsto> v)"
    and "\<exists>d'. cd_putIfAbsent d k v = Some (d', if k \<in> dom (cd_abs d) then 0 else 1) \<and> cd_inv d' \<and>
           cd_abs d' = (if k \<in> dom (cd_abs d) then cd_abs d else (cd_abs d)(k \<mapsto> v))"
    and "\<exists>d'. cd_putIfExists d k v = Some (d', if k \<in> dom (cd_abs d) then 1 else 0) \<and> cd_inv d' \<and>
           cd_abs d' = (if k \<in> dom (cd_abs d) then (cd_abs d)(k \<mapsto> v) else cd_abs d)"
proof -
  let ?m = "sh_m (cd_table d ! spread d k)"
  have cnt: "add32 (cd_count d) 1 = cd_count d + 1"
    using assms by (simp add: add32_exact cd_count_card)
  have look: "map_of ?m k = cd_abs d k" using assms(1) by (simp add: cd_abs_shard)
  have "d\<lparr>cd_count := c, cd_table := t\<rparr> = d\<lparr>cd_table := t, cd_count := c\<rparr>" for c t by simp
  note S = gmap_set_shard [OF assms(1) refl assms(2) refl, of k v] and defs = set_shard_def addCount_def this
  show "\<exists>d'. cd_put d k v = Some (d', if k \<in> dom (cd_abs d) then 0 else 1) \<and> cd_inv d' \<and>
           cd_abs d' = (cd_abs d)(k \<mapsto> v)"
    using assms(1) S by (cases "cd_abs d k") (simp_all add: cd_put_def Let_def look cnt defs dom_def)
  show "\<exists>d'. cd_putIfAbsent d k v = Some (d', if k \<in> dom (cd_abs d) then 0 else 1) \<and> cd_inv d' \<and>
           cd_abs d' = (if k \<in> dom (cd_abs d) then cd_abs d else (cd_abs d)(k \<mapsto> v))"
    using assms(1) S by (cases "cd_abs d k") (simp_all add: cd_putIfAbsent_def Let_def look cnt defs dom_def)
  show "\<exists>d'. cd_putIfExists d k v = Some (d', if k \<in> dom (cd_abs d) then 1 else 0) \<and> cd_inv d' \<and>
           cd_abs d' = (if k \<in> dom (cd_abs d) then (cd_abs d)(k \<mapsto> v) else cd_abs d)"
    using assms(1) S by (cases "cd_abs d k") (simp_all add: cd_putIfExists_def Let_def look cnt defs dom_def)
qed

lemma cd_remove_spec:
  assumes "cd_inv d"
  shows "\<exists>d'. cd_remove d k = Some (d', cd_abs d k) \<and> cd_inv d' \<and> cd_abs d' = (cd_abs d)(k := None)"
proof (cases "cd_abs d k")
  case None
  then have "(cd_abs d)(k := None) = cd_abs d" by auto
  then show ?thesis using assms None by (simp add: cd_remove_def Let_def cd_abs_shard [symmetric])
next
  case (Some v)
  then have "finite (dom (cd_abs d))" "dom (cd_abs d) \<noteq> {}"
    by (auto simp: cd_abs_def finite_dom_map_of)
  then have "0 < cd_count d" using cd_count_card [OF assms] by (simp add: card_gt_0_iff)
  moreover have "cd_count d < 2 ^ 31" using assms by (simp add: cd_inv_def)
  ultimately have "add32 (cd_count d) (- 1) = cd_count d + - 1" using add32_exact(2) [of "cd_count d"] by simp
  then show ?thesis
    using assms Some gmap_delete_shard [OF assms Some refl]
    by (simp add: cd_remove_def Let_def cd_abs_shard [symmetric] set_shard_def decreaseCount_def)
qed

lemma makeConcurrent_inv:
  assumes "n \<le> 2 ^ 32"
  shows "cd_inv (makeConcurrent n :: 'v concurrentDict)" "cd_abs (makeConcurrent n :: 'v concurrentDict) = Map.empty"
proof -
  obtain m where "4 \<le> m" "m \<le> 32" "computeCapacity n = 2 ^ m" using computeCapacity_spec [OF assms] by metis
  moreover have "concat (replicate j []) = ([] :: (string \<times> 'v) list)" for j by (induction j) auto
  ultimately show "cd_inv (makeConcurrent n :: 'v concurrentDict)" "cd_abs (makeConcurrent n :: 'v concurrentDict) = Map.empty"
    by (auto simp: makeConcurrent_def cd_inv_def cd_abs_def cd_entries_def Let_def)
qed

interpretation cd: dict_impl concurrent_Dict cd_inv cd_abs "2 ^ 31 - 1"
proof unfold_locales
  fix d :: "'v concurrentDict" and k v
  assume inv: "cd_inv d"
  show "dGet concurrent_Dict d k = Some (cd_abs d k)"
    using inv by (simp add: concurrent_Dict_def cd_get_def cd_abs_shard)
  show "dLen concurrent_Dict d = Some (card (dom (cd_abs d)))"
    using inv by (simp add: concurrent_Dict_def cd_len_def cd_count_card)
  show "\<exists>d'. dRemove concurrent_Dict d k = Some (d', cd_abs d k) \<and> cd_inv d' \<and> cd_abs d' = (cd_abs d)(k := None)"
    using cd_remove_spec [OF inv] by (simp add: concurrent_Dict_def)
  show "distinct (map fst (dEntries concurrent_Dict d)) \<and> map_of (dEntries concurrent_Dict d) = cd_abs d"
    using cd_entries_distinct [OF inv] by (simp add: concurrent_Dict_def cd_abs_def)
  have "int (cd_shardCount d) \<le> 2 ^ 32"
  proof -
    obtain n where "n \<le> 32" "cd_shardCount d = 2 ^ n" using inv by (auto simp: cd_inv_def)
    then show ?thesis using power_increasing [of n 32 "2 :: int"] by simp
  qed
  then show "cd_inv (dClear concurrent_Dict d) \<and> cd_abs (dClear concurrent_Dict d) = Map.empty"
    by (simp add: concurrent_Dict_def cd_clear_def makeConcurrent_inv)
qed (simp_all add: concurrent_Dict_def cd_writes)

section \<open>Keys and scans\<close>

lemma keys_fill:
  "iter (\<lambda>s _ (k, v). (\<lambda>(keys, i) key _. if i < length keys then Some ((keys[i := key], Suc i), True)
       else Some ((keys @ [key], i), True)) s k v) j es (pre @ replicate (length es) [], length pre)
     = Some (pre @ map fst es, length pre + length es)"
proof (induction es arbitrary: j pre)
  case (Cons e es)
  obtain k v where "e = (k, v)" by (cases e)
  then show ?case using Cons.IH [of "Suc j" "pre @ [k]"] by (simp add: list_update_append)
qed simp

lemma cd_keys_spec: "cd_inv d \<Longrightarrow> cd_keys d = Some (map fst (cd_entries d))"
  using keys_fill [of 0 "cd_entries d" "[]"]
  by (simp add: cd_keys_def cd_forEach_def cd_len_def) (simp add: cd_inv_def)

definition shard_keys :: "matcher \<Rightarrow> 'v shard list \<Rightarrow> nat \<Rightarrow> string list" where
  "shard_keys m table i = filter m (map fst (sh_m (table ! i)))"

lemma shard_keys_all: "concat (map (shard_keys m table) [0..<length table]) = filter m (map fst (concat (map sh_m table)))"
  unfolding shard_keys_def concat_map_nth [of "\<lambda>s. filter m (map fst (sh_m s))"]
  by (induction table) auto

lemma cd_scan_loop_spec:
  assumes "c \<le> i" "i \<le> length table" "c < length table"
  shows "\<exists>c'. c < c' \<and> i \<le> c' \<and> c' \<le> length table \<and>
    cd_scan_loop m cnt (int c) table (int i) res =
      Some (res @ concat (map (shard_keys m table) [i..<c']), if c' = length table then 0 else int c')"
  using assms(1,2)
proof (induction "length table - i" arbitrary: i res)
  case 0
  then show ?case using assms(3) by (intro exI [of _ i]) (simp add: cd_scan_loop.simps [of _ _ _ _ "int i"])
next
  case (Suc n)
  let ?r = "res @ shard_keys m table i"
  have lt: "i < length table" using Suc.hyps(2) by simp
  show ?case
  proof (cases "cnt < int (length res) + int (length (sh_m (table ! i))) \<and> c < i")
    case True
    then show ?thesis using lt by (intro exI [of _ i]) (simp add: cd_scan_loop.simps [of _ _ _ _ "int i"])
  next
    case False
    have unf: "cd_scan_loop m cnt (int c) table (int i) res = cd_scan_loop m cnt (int c) table (int (Suc i)) ?r"
      using False lt by (auto simp: cd_scan_loop.simps [of _ _ _ _ "int i"] shard_keys_def add.commute)
    have "n = length table - Suc i" "c \<le> Suc i" "Suc i \<le> length table" using Suc.hyps(2) Suc.prems by auto
    then obtain c' where c': "c < c'" "Suc i \<le> c'" "c' \<le> length table"
      "cd_scan_loop m cnt (int c) table (int (Suc i)) ?r =
        Some (?r @ concat (map (shard_keys m table) [Suc i..<c']), if c' = length table then 0 else int c')"
      using Suc.hyps(1) [of "Suc i" ?r] by blast
    then have "[i..<c'] = i # [Suc i..<c']" by (simp add: upt_conv_Cons)
    then show ?thesis using c' unf by (intro exI [of _ c']) (simp del: upt_Suc)
  qed
qed

definition cd_scan_ok :: "(string \<Rightarrow> matcher option) \<Rightarrow> 'v concurrentDict \<times> int \<times> string \<Rightarrow> nat \<Rightarrow> bool" where
  "cd_scan_ok regexp = (\<lambda>(d, cnt, pat) c. cd_inv d \<and> compilePattern regexp pat \<noteq> None \<and> c < length (cd_table d) \<and>
     (pat = ''*'' \<and> cd_len d \<le> cnt \<longrightarrow> c = 0))"

lemma cd_dictScan_step:
  assumes "cd_scan_ok regexp (d, cnt, pat) c"
  shows "\<exists>c'. c < c' \<and> c' \<le> length (cd_table d) \<and> (c' < length (cd_table d) \<longrightarrow> cd_scan_ok regexp (d, cnt, pat) c') \<and>
    cd_dictScan regexp d (int c) cnt pat = Some (concat (map (shard_keys (scan_match regexp pat) (cd_table d)) [c..<c']),
      if c' = length (cd_table d) then 0 else int c')"
proof -
  let ?m = "scan_match regexp pat" and ?T = "cd_table d"
  have ok: "cd_inv d" "compilePattern regexp pat \<noteq> None" "c < length ?T" "pat = ''*'' \<and> cd_len d \<le> cnt \<longrightarrow> c = 0"
    using assms by (auto simp: cd_scan_ok_def)
  show ?thesis
  proof (cases "pat = ''*'' \<and> cd_len d \<le> cnt")
    case True
    have "concat (map (shard_keys ?m ?T) [0..<length ?T]) = map fst (cd_entries d)"
      using True by (simp add: shard_keys_all cd_entries_def)
    then show ?thesis
      using True ok by (intro exI [of _ "length ?T"]) (simp add: cd_dictScan_def cd_keys_spec)
  next
    case False
    then have "cd_scan_ok regexp (d, cnt, pat) c'" if "c' < length ?T" for c'
      using ok that by (auto simp: cd_scan_ok_def)
    then show ?thesis
      using cd_scan_loop_spec [of c c ?T ?m cnt "[]"] ok(2,3) False by (auto simp: cd_dictScan_def)
  qed
qed

interpretation cds: cursor_scan "\<lambda>(d, cnt, pat) c. cd_dictScan regexp d c cnt pat"
    "\<lambda>(d, cnt, pat). shard_keys (scan_match regexp pat) (cd_table d)"
    "\<lambda>(d, cnt, pat). length (cd_table d)" "cd_scan_ok regexp" for regexp
proof (unfold_locales, goal_cases)
  case (1 x c)
  then show ?case using cd_dictScan_step [of regexp "fst x" "fst (snd x)" "snd (snd x)" c]
    by (simp add: split_beta)
qed

section \<open>Properties\<close>

text \<open>C9. A full scan of the sharded dict is complete and free of repetitions: following the cursors from 0
  over an unchanged dict yields every matching key exactly once, after at most one call per
  shard, whatever count the client asks for.\<close>

theorem cd_full_scan:
  assumes "cd_inv d" "compilePattern regexp pat \<noteq> None" "length (cd_table d) \<le> fuel"
  shows "\<exists>ks. scan_loop (\<lambda>(d, cnt, pat) c. cd_dictScan regexp d c cnt pat) (d, cnt, pat) fuel 0 [] = Some ks \<and>
    distinct ks \<and> set ks = {k \<in> dom (cd_abs d). scan_match regexp pat k}"
proof -
  let ?m = "scan_match regexp pat"
  have "0 < length (cd_table d)" using assms(1) by (auto simp: cd_inv_def)
  then have "cd_scan_ok regexp (d, cnt, pat) 0" using assms by (simp add: cd_scan_ok_def)
  then have "scan_loop (\<lambda>(d, cnt, pat) c. cd_dictScan regexp d c cnt pat) (d, cnt, pat) fuel 0 [] =
      Some (filter ?m (map fst (cd_entries d)))"
    using cds.loop_complete [of regexp "(d, cnt, pat)" fuel] assms(3)
    by (simp add: shard_keys_all cd_entries_def)
  moreover have "set (filter ?m (map fst (cd_entries d))) = {k \<in> dom (cd_abs d). ?m k}"
    by (auto simp: cd_abs_def dom_map_of_conv_image_fst)
  ultimately show ?thesis using cd_entries_distinct [OF assms(1)] by simp
qed

theorem cd_full_scan_witness:
  "\<exists>d ks. cd_abs d = [''a'' \<mapsto> 1, ''bc'' \<mapsto> (2 :: int)] \<and>
     scan_loop (\<lambda>(d, cnt, pat) c. cd_dictScan (\<lambda>_. Some (\<lambda>k. length k = 1)) d c cnt pat) (d, 1, ''?'')
       (length (cd_table d)) 0 [] = Some ks \<and> set ks = {''a''}"
proof -
  let ?re = "\<lambda>_ :: string. Some (\<lambda>k :: string. length k = 1)"
  obtain d where d: "cd_inv d" "cd_abs d = [''a'' \<mapsto> 1, ''bc'' \<mapsto> (2 :: int)]"
    using cd.run_refines [OF makeConcurrent_inv(1) [of 16], of "[OpPut ''a'' 1, OpPut ''bc'' (2 :: int)]"]
    by (simp add: makeConcurrent_inv(2)) (elim exE conjE, simp)
  have c: "compilePattern ?re ''?'' = Some (\<lambda>k. length k = 1)"
    by (simp add: compilePattern_def regex_src_mark)
  then have so: "compilePattern ?re ''?'' \<noteq> None" by simp
  obtain ks where ks:
    "scan_loop (\<lambda>(d, cnt, pat) c. cd_dictScan ?re d c cnt pat) (d, 1, ''?'') (length (cd_table d)) 0 [] = Some ks"
    "set ks = {k \<in> dom (cd_abs d). scan_match ?re ''?'' k}"
    using cd_full_scan [OF d(1) so order_refl, of 1] by (elim exE conjE) simp_all
  have "set ks = {''a''}" unfolding ks(2) d(2) by (auto simp: scan_match_def compilePattern_def regex_src_mark split: if_splits)
  with d(2) ks(1) show ?thesis by (intro exI conjI)
qed

end
