(* ===== verification/ShardLocks.thy ===== *)
theory ShardLocks
  imports ConcurrentDict
begin

text \<open>
  The key locks of \<^verbatim>\<open>internal/datastruct/dict/concurrent.go\<close>: \<open>RWLocks\<close> takes the
  mutexes of the shards of a command's keys in ascending order, \<open>RWUnLocks\<close> gives them back
  in descending order. Goroutines that do so are interleaved by a step relation with the
  semantics of Go's \<^verbatim>\<open>sync.RWMutex\<close>, in which a writer that waits blocks new readers. From the mutual exclusion
  that the mutexes give and the order of the calls it follows that conflicting commands never execute at the same time,
  that no interleaving deadlocks, and that all of them end.
\<close>

section \<open>Lock sequences\<close>

definition toLockIndices :: "'v concurrentDict \<Rightarrow> string list \<Rightarrow> bool \<Rightarrow> nat list" where
  "toLockIndices d keys reverse =
     (let indices = remdups (map (spread d) keys)
      in if \<not> reverse then sort indices else rev (sort indices))"

text \<open>The mutexes in the order of the calls, with the flag of a write lock.\<close>

definition rwLocks :: "'v concurrentDict \<Rightarrow> string list \<Rightarrow> string list \<Rightarrow> (nat \<times> bool) list" where
  "rwLocks d writeKeys readKeys =
     (let writeIndexSet = set (map (spread d) writeKeys)
      in map (\<lambda>index. (index, index \<in> writeIndexSet)) (toLockIndices d (writeKeys @ readKeys) False))"

definition rwUnLocks :: "'v concurrentDict \<Rightarrow> string list \<Rightarrow> string list \<Rightarrow> (nat \<times> bool) list" where
  "rwUnLocks d writeKeys readKeys =
     (let writeIndexSet = set (map (spread d) writeKeys)
      in map (\<lambda>index. (index, index \<in> writeIndexSet)) (toLockIndices d (writeKeys @ readKeys) True))"

section \<open>Goroutines\<close>

text \<open>
  A goroutine holds the mutexes \<open>th_held\<close>, has the calls \<open>th_todo\<close> of \<open>RWLocks\<close>
  and then \<open>th_unlock\<close> of \<open>RWUnLocks\<close> before it, and \<open>th_pend\<close> when it is
  inside a \<^verbatim>\<open>Lock\<close> call that has announced itself but not returned.
\<close>

record thread =
  th_held :: "(nat \<times> bool) list"
  th_todo :: "(nat \<times> bool) list"
  th_pend :: bool
  th_unlock :: "(nat \<times> bool) list"

definition start_thread :: "'v concurrentDict \<Rightarrow> string list \<times> string list \<Rightarrow> thread" where
  "start_thread d = (\<lambda>(wk, rk). \<lparr>th_held = [], th_todo = rwLocks d wk rk, th_pend = False, th_unlock = rwUnLocks d wk rk\<rparr>)"

definition finished :: "thread \<Rightarrow> bool" where
  "finished t \<longleftrightarrow> th_todo t = [] \<and> th_unlock t = []"

definition holds :: "thread \<Rightarrow> nat \<Rightarrow> bool" where
  "holds t i \<longleftrightarrow> i \<in> fst ` set (th_held t)"

definition pending_writer :: "thread \<Rightarrow> nat \<Rightarrow> bool" where
  "pending_writer t i \<longleftrightarrow> th_pend t \<and> th_todo t \<noteq> [] \<and> hd (th_todo t) = (i, True)"

inductive lock_step :: "thread list \<Rightarrow> thread list \<Rightarrow> bool" where
  announce: "j < length S \<Longrightarrow> th_todo (S ! j) = (i, True) # todo \<Longrightarrow> \<not> th_pend (S ! j) \<Longrightarrow>
    lock_step S (S[j := (S ! j)\<lparr>th_pend := True\<rparr>])"
| lock: "j < length S \<Longrightarrow> th_todo (S ! j) = (i, True) # todo \<Longrightarrow> th_pend (S ! j) \<Longrightarrow>
    \<forall>t \<in> set S. \<not> holds t i \<Longrightarrow>
    lock_step S (S[j := (S ! j)\<lparr>th_held := th_held (S ! j) @ [(i, True)], th_todo := todo, th_pend := False\<rparr>])"
| rlock: "j < length S \<Longrightarrow> th_todo (S ! j) = (i, False) # todo \<Longrightarrow>
    \<forall>t \<in> set S. (i, True) \<notin> set (th_held t) \<and> \<not> pending_writer t i \<Longrightarrow>
    lock_step S (S[j := (S ! j)\<lparr>th_held := th_held (S ! j) @ [(i, False)], th_todo := todo\<rparr>])"
| unlock: "j < length S \<Longrightarrow> th_todo (S ! j) = [] \<Longrightarrow> th_unlock (S ! j) = (i, w) # unlocks \<Longrightarrow>
    lock_step S (S[j := (S ! j)\<lparr>th_held := filter (\<lambda>e. e \<noteq> (i, w)) (th_held (S ! j)), th_unlock := unlocks\<rparr>])"

section \<open>Invariant\<close>

definition thread_inv :: "thread \<Rightarrow> bool" where
  "thread_inv t \<longleftrightarrow> rev (th_unlock t) = th_held t @ th_todo t \<and> sorted_wrt (<) (map fst (th_held t @ th_todo t)) \<and>
     (th_pend t \<longrightarrow> th_todo t \<noteq> [] \<and> snd (hd (th_todo t)))"

definition excl :: "thread list \<Rightarrow> bool" where
  "excl S \<longleftrightarrow> (\<forall>j < length S. \<forall>k < length S. j \<noteq> k \<longrightarrow> (\<forall>i. (i, True) \<in> set (th_held (S ! j)) \<longrightarrow> \<not> holds (S ! k) i))"

definition locks_inv :: "thread list \<Rightarrow> bool" where
  "locks_inv S \<longleftrightarrow> (\<forall>t \<in> set S. thread_inv t) \<and> excl S"

lemma rwUnLocks_rev: "rwUnLocks d wk rk = rev (rwLocks d wk rk)"
  by (simp add: rwUnLocks_def rwLocks_def toLockIndices_def Let_def rev_map)

lemma rwLocks_ascending: "sorted_wrt (<) (map fst (rwLocks d wk rk))"
  by (simp add: rwLocks_def toLockIndices_def Let_def comp_def strict_sorted_iff)

lemma start_inv: "locks_inv (map (start_thread d) cmds)"
  by (auto simp: locks_inv_def excl_def start_thread_def thread_inv_def rwUnLocks_rev rwLocks_ascending
      holds_def split_beta)

lemma thread_inv_steps:
  "thread_inv t \<Longrightarrow> th_todo t = (i, True) # todo \<Longrightarrow> thread_inv (t\<lparr>th_pend := True\<rparr>)"
  "thread_inv t \<Longrightarrow> th_todo t = e # todo \<Longrightarrow>
     thread_inv (t\<lparr>th_held := th_held t @ [e], th_todo := todo, th_pend := False\<rparr>)"
  "thread_inv t \<Longrightarrow> th_todo t = e # todo \<Longrightarrow> \<not> th_pend t \<Longrightarrow>
     thread_inv (t\<lparr>th_held := th_held t @ [e], th_todo := todo\<rparr>)"
  by (auto simp: thread_inv_def)

lemma thread_inv_unlock:
  assumes "thread_inv t" "th_todo t = []" "th_unlock t = e # us"
  shows "thread_inv (t\<lparr>th_held := filter (\<lambda>e'. e' \<noteq> e) (th_held t), th_unlock := us\<rparr>)"
proof -
  have h: "th_held t = rev us @ [e]" using assms by (simp add: thread_inv_def)
  then have "e \<notin> set us" using assms(1,2) by (auto simp: thread_inv_def sorted_wrt_append)
  then have "filter (\<lambda>e'. e' \<noteq> e) (th_held t) = rev us" using h by (auto simp: filter_id_conv)
  then show ?thesis using assms h by (auto simp: thread_inv_def sorted_wrt_append)
qed

lemma set_update_forall: "\<forall>x \<in> set xs. P x \<Longrightarrow> P y \<Longrightarrow> \<forall>x \<in> set (xs[j := y]). P x"
  using set_update_subset_insert [of xs j y] by blast

lemma step_thread_inv:
  assumes "lock_step S S'" "\<forall>t \<in> set S. thread_inv t"
  shows "\<forall>t \<in> set S'. thread_inv t"
  using assms
proof (induction rule: lock_step.induct)
  case (announce j S i todo)
  then show ?case by (intro set_update_forall thread_inv_steps(1)) auto
next
  case (lock j S i todo)
  then show ?case by (intro set_update_forall thread_inv_steps(2)) auto
next
  case (rlock j S i todo)
  then have "thread_inv (S ! j)" by simp
  then have "\<not> th_pend (S ! j)" using rlock.hyps(2) by (auto simp: thread_inv_def)
  then show ?case using rlock by (intro set_update_forall thread_inv_steps(3)) auto
next
  case (unlock j S i w unlocks)
  then show ?case by (intro set_update_forall thread_inv_unlock) auto
qed

lemma excl_update:
  assumes "excl S" "j < length S" "\<And>i. holds t i \<Longrightarrow> holds (S ! j) i \<or> (\<forall>k < length S. (i, True) \<notin> set (th_held (S ! k)))"
    "\<And>i. (i, True) \<in> set (th_held t) \<Longrightarrow> (i, True) \<in> set (th_held (S ! j)) \<or> (\<forall>k < length S. \<not> holds (S ! k) i)"
  shows "excl (S[j := t])"
  unfolding excl_def
proof (intro allI impI)
  fix a b i
  assume "a < length (S[j := t])" "b < length (S[j := t])" "a \<noteq> b" "(i, True) \<in> set (th_held (S[j := t] ! a))"
  then show "\<not> holds (S[j := t] ! b) i"
    using assms(1,2) assms(3) [of i] assms(4) [of i]
    by (cases "a = j"; cases "b = j") (auto simp: excl_def)
qed

lemma step_inv: "lock_step S S' \<Longrightarrow> locks_inv S \<Longrightarrow> locks_inv S'"
proof -
  assume s: "lock_step S S'" and inv: "locks_inv S"
  from s inv have "excl S'"
  proof (induction rule: lock_step.induct)
    case (lock j S i todo)
    then have "\<forall>k < length S. \<not> holds (S ! k) i" by simp
    then have "\<forall>k < length S. (i, w) \<notin> set (th_held (S ! k))" for w by (force simp: holds_def)
    then show ?case using lock by (intro excl_update) (auto simp: locks_inv_def holds_def)
  next
    case (rlock j S i todo)
    then show ?case by (intro excl_update) (auto simp: locks_inv_def holds_def)
  qed (intro excl_update; auto simp: locks_inv_def holds_def)+
  then show "locks_inv S'" using step_thread_inv [OF s] inv by (simp add: locks_inv_def)
qed

lemma reachable_inv: "lock_step\<^sup>*\<^sup>* (map (start_thread d) cmds) S \<Longrightarrow> locks_inv S"
  by (induction rule: rtranclp_induct) (auto intro: start_inv step_inv)

section \<open>Progress\<close>

text \<open>The mutex with the highest index that is waited for is free: its holder would wait for a higher one.\<close>

lemma highest_wait_free:
  assumes "locks_inv S" "t \<in> set S" "th_todo t = (i, w) # todo"
    "\<forall>t' \<in> set S. th_todo t' = [] \<longrightarrow> th_unlock t' = []"
    "\<forall>t' \<in> set S. th_todo t' \<noteq> [] \<longrightarrow> fst (hd (th_todo t')) \<le> i"
  shows "\<forall>t' \<in> set S. \<not> holds t' i"
proof
  fix t' assume t': "t' \<in> set S"
  have inv: "thread_inv t'" using assms(1) t' by (simp add: locks_inv_def)
  show "\<not> holds t' i"
  proof (cases "th_todo t'")
    case Nil
    then show ?thesis using inv assms(4) t' by (auto simp: thread_inv_def holds_def)
  next
    case (Cons e es)
    then have "\<forall>e' \<in> set (th_held t'). fst e' < fst e" using inv by (auto simp: thread_inv_def sorted_wrt_append)
    moreover have "fst e \<le> i" using assms(5) t' Cons by fastforce
    ultimately show ?thesis by (auto simp: holds_def)
  qed
qed

lemma progress:
  assumes inv: "locks_inv S" and unfinished: "\<exists>t \<in> set S. \<not> finished t"
  shows "\<exists>S'. lock_step S S'"
proof (cases "\<exists>t \<in> set S. th_todo t = [] \<and> th_unlock t \<noteq> []")
  case True
  then obtain j where "j < length S" "th_todo (S ! j) = []" "th_unlock (S ! j) \<noteq> []" by (auto simp: in_set_conv_nth)
  then show ?thesis by (cases "th_unlock (S ! j)") (auto intro: lock_step.unlock)
next
  case False
  let ?W = "{t \<in> set S. th_todo t \<noteq> []}"
  define f where "f t = fst (hd (th_todo t))" for t :: thread
  have W: "?W \<noteq> {}" "finite ?W" using unfinished False by (auto simp: finished_def)
  then have "Max (f ` ?W) \<in> f ` ?W" by (intro Max_in) auto
  then obtain t where t: "t \<in> ?W" "f t = Max (f ` ?W)" by auto
  have max: "\<forall>t' \<in> set S. th_todo t' \<noteq> [] \<longrightarrow> f t' \<le> f t" using W(2) t(2) by simp
  obtain i w todo where td: "th_todo t = (i, w) # todo" using t(1) by (cases "th_todo t") auto
  have free: "\<forall>t' \<in> set S. \<not> holds t' i"
    using highest_wait_free [OF inv _ td] t(1) max False td by (auto simp: f_def)
  have writer: "\<exists>S'. lock_step S S'" if w: "t' \<in> set S" "th_todo t' = (i, True) # todo'" for t' todo'
  proof -
    obtain j where "j < length S" "S ! j = t'" using w(1) unfolding in_set_conv_nth by blast
    then show ?thesis
      using w(2) free lock_step.announce [of j S i todo'] lock_step.lock [of j S i todo'] by (cases "th_pend t'") auto
  qed
  show ?thesis
  proof (cases "w \<or> (\<exists>t' \<in> set S. pending_writer t' i)")
    case True
    then obtain t' todo' where "t' \<in> set S" "th_todo t' = (i, True) # todo'"
    proof (cases w)
      case False
      then obtain t' where "t' \<in> set S" "th_todo t' \<noteq> []" "hd (th_todo t') = (i, True)"
        using True by (auto simp: pending_writer_def)
      then show thesis using that [of t' "tl (th_todo t')"] by (cases "th_todo t'") auto
    qed (use t td that in auto)
    then show ?thesis by (rule writer)
  next
    case False
    obtain j where "j < length S" "S ! j = t" using t(1) unfolding in_set_conv_nth by blast
    moreover have "\<forall>t' \<in> set S. (i, True) \<notin> set (th_held t') \<and> \<not> pending_writer t' i"
      using free False by (force simp: holds_def)
    ultimately show ?thesis using lock_step.rlock [of j S i todo] td False by auto
  qed
qed

text \<open>Every step uses up some of the work the goroutines have before them.\<close>

definition work :: "thread \<Rightarrow> nat" where
  "work t = 2 * length (th_todo t) + length (th_unlock t) - (if th_pend t then 1 else 0)"

definition total_work :: "thread list \<Rightarrow> nat" where
  "total_work S = sum_list (map work S)"

lemma total_work_update: "j < length S \<Longrightarrow> work t < work (S ! j) \<Longrightarrow> total_work (S[j := t]) < total_work S"
  using elem_le_sum_list [of j "map work S"]
  by (simp add: total_work_def map_update sum_list_update)

lemma step_work: "lock_step S S' \<Longrightarrow> \<forall>t \<in> set S. thread_inv t \<Longrightarrow> total_work S' < total_work S"
proof (induction rule: lock_step.induct)
  case (unlock j S i w us)
  then have "thread_inv (S ! j)" by simp
  then have "\<not> th_pend (S ! j)" using unlock.hyps(2) by (simp add: thread_inv_def)
  then show ?case using unlock by (intro total_work_update) (auto simp: work_def)
qed (intro total_work_update; auto simp: work_def)+

lemma run_bounded: "(lock_step ^^ n) S S' \<Longrightarrow> locks_inv S \<Longrightarrow> n + total_work S' \<le> total_work S \<and> locks_inv S'"
proof (induction n arbitrary: S')
  case (Suc n)
  then obtain S1 where S1: "(lock_step ^^ n) S S1" "lock_step S1 S'" by auto
  then have "n + total_work S1 \<le> total_work S" "locks_inv S1" using Suc.IH Suc.prems(2) by auto
  moreover have "total_work S' < total_work S1" using step_work [OF S1(2)] calculation(2) by (simp add: locks_inv_def)
  ultimately show ?case using step_inv [OF S1(2)] by simp
qed simp

section \<open>Properties\<close>

text \<open>The goroutine of a command is between \<open>RWLocks\<close> and \<open>RWUnLocks\<close>, where the command executes.\<close>

definition running :: "'v concurrentDict \<Rightarrow> string list \<times> string list \<Rightarrow> thread \<Rightarrow> bool" where
  "running d cmd t \<longleftrightarrow> th_todo t = [] \<and> th_unlock t = rwUnLocks d (fst cmd) (snd cmd)"

lemma running_held:
  assumes "thread_inv t" "running d (wk, rk) t"
  shows "key \<in> set wk \<Longrightarrow> (spread d key, True) \<in> set (th_held t)" "key \<in> set wk \<union> set rk \<Longrightarrow> holds t (spread d key)"
proof -
  have "th_held t = rwLocks d wk rk" using assms by (simp add: thread_inv_def running_def rwUnLocks_rev)
  then show "key \<in> set wk \<Longrightarrow> (spread d key, True) \<in> set (th_held t)" "key \<in> set wk \<union> set rk \<Longrightarrow> holds t (spread d key)"
    by (auto simp: rwLocks_def toLockIndices_def holds_def Let_def image_image)
qed

text \<open>C7. Commands that conflict never execute at the same time: in every state that goroutines locking and
  unlocking the keys of their commands can reach, two of them that are both between \<open>RWLocks\<close> and \<open>RWUnLocks\<close> have no
  key in common that one of them writes. (The mutexes of the shards are Go's \<^verbatim>\<open>sync.RWMutex\<close>.)\<close>

theorem conflicting_commands_excluded:
  assumes "lock_step\<^sup>*\<^sup>* (map (start_thread d) cmds) S" "j < length S" "k < length S" "j \<noteq> k"
    "running d (cmds ! j) (S ! j)" "running d (cmds ! k) (S ! k)"
  shows "set (fst (cmds ! j)) \<inter> (set (fst (cmds ! k)) \<union> set (snd (cmds ! k))) = {}"
proof -
  have inv: "thread_inv (S ! j)" "thread_inv (S ! k)" "excl S"
    using reachable_inv [OF assms(1)] assms(2,3) by (auto simp: locks_inv_def)
  have "key \<notin> set (fst (cmds ! k)) \<union> set (snd (cmds ! k))" if "key \<in> set (fst (cmds ! j))" for key
  proof
    assume "key \<in> set (fst (cmds ! k)) \<union> set (snd (cmds ! k))"
    then have "holds (S ! k) (spread d key)" using running_held(2) [OF inv(2), of d] assms(6) by (metis prod.collapse)
    moreover have "(spread d key, True) \<in> set (th_held (S ! j))"
      using running_held(1) [OF inv(1), of d] assms(5) that by (metis prod.collapse)
    ultimately show False using inv(3) assms(2-4) by (auto simp: excl_def)
  qed
  then show ?thesis by blast
qed

text \<open>A writer of one key and a reader of another one, in different shards.\<close>

lemma two_clients:
  fixes d :: "int concurrentDict"
  defines "d \<equiv> makeConcurrent 16"
  defines "w \<equiv> \<lparr>th_held = [], th_todo = [(14, True)], th_pend = False, th_unlock = [(14, True)]\<rparr>"
    and "r \<equiv> \<lparr>th_held = [], th_todo = [(13, False)], th_pend = False, th_unlock = [(13, False)]\<rparr>"
  shows "map (start_thread d) [([''a''], []), ([], [''b''])] = [w, r]"
    and "lock_step\<^sup>*\<^sup>* (map (start_thread d) [([''a''], []), ([], [''b''])])
      [w\<lparr>th_held := [(14, True)], th_todo := []\<rparr>, r\<lparr>th_held := [(13, False)], th_todo := []\<rparr>]"
    and "running d ([''a''], []) (w\<lparr>th_held := [(14, True)], th_todo := []\<rparr>)"
    and "running d ([], [''b'']) (r\<lparr>th_held := [(13, False)], th_todo := []\<rparr>)"
proof -
  have sp: "spread d ''a'' = 14" "spread d ''b'' = 13"
    by (simp_all add: d_def makeConcurrent_def computeCapacity_def spread_def fnv32_def)
  show eq: "map (start_thread d) [([''a''], []), ([], [''b''])] = [w, r]"
    by (simp add: w_def r_def start_thread_def rwLocks_def rwUnLocks_def toLockIndices_def sp)
  let ?w = "w\<lparr>th_held := [(14, True)], th_todo := []\<rparr>"
  have "lock_step [w, r] ([w, r][0 := w\<lparr>th_pend := True\<rparr>])"
    using lock_step.announce [of 0 "[w, r]" 14 "[]"] by (simp add: w_def)
  moreover have "lock_step [w\<lparr>th_pend := True\<rparr>, r] [?w, r]"
    using lock_step.lock [of 0 "[w\<lparr>th_pend := True\<rparr>, r]" 14 "[]"] by (simp add: holds_def w_def r_def)
  moreover have "lock_step [?w, r] [?w, r\<lparr>th_held := [(13, False)], th_todo := []\<rparr>]"
    using lock_step.rlock [of 1 "[?w, r]" 13 "[]"] by (simp add: pending_writer_def w_def r_def)
  ultimately show "lock_step\<^sup>*\<^sup>* (map (start_thread d) [([''a''], []), ([], [''b''])])
      [?w, r\<lparr>th_held := [(13, False)], th_todo := []\<rparr>]"
    unfolding eq by (simp add: converse_rtranclp_into_rtranclp)
  show "running d ([''a''], []) ?w" "running d ([], [''b'']) (r\<lparr>th_held := [(13, False)], th_todo := []\<rparr>)"
    by (simp_all add: running_def w_def r_def rwUnLocks_def toLockIndices_def sp)
qed

theorem conflicting_commands_excluded_witness:
  "\<exists>S. lock_step\<^sup>*\<^sup>* (map (start_thread (makeConcurrent 16 :: int concurrentDict)) [([''a''], []), ([], [''b''])]) S \<and>
     running (makeConcurrent 16 :: int concurrentDict) ([''a''], []) (S ! 0) \<and>
     running (makeConcurrent 16 :: int concurrentDict) ([], [''b'']) (S ! 1) \<and> set [''a''] \<inter> set [''b''] = {}"
  using conflicting_commands_excluded [OF two_clients(2), of 0 1] two_clients(2-4)
  by (intro exI conjI) (assumption | simp)+

text \<open>C6. Locking the shards of a command's keys in ascending order cannot deadlock: every interleaving of
  any number of goroutines is finite, and where it stops every goroutine has taken and released all
  its locks. This holds with the writer preference of \<^verbatim>\<open>sync.RWMutex\<close>.\<close>

theorem locking_ends:
  assumes "(lock_step ^^ n) (map (start_thread d) cmds) S"
  shows "n \<le> total_work (map (start_thread d) cmds) \<and> ((\<exists>S'. lock_step S S') \<or> (\<forall>t \<in> set S. finished t))"
proof -
  have "n \<le> total_work (map (start_thread d) cmds)" "locks_inv S" using run_bounded [OF assms start_inv] by auto
  then show ?thesis using progress by blast
qed

theorem locking_ends_witness:
  "\<exists>S'. lock_step (map (start_thread (makeConcurrent 16 :: int concurrentDict)) [([''a''], []), ([], [''b''])]) S'"
proof (rule ccontr)
  let ?S = "map (start_thread (makeConcurrent 16 :: int concurrentDict)) [([''a''], []), ([], [''b''])]"
  assume "\<nexists>S'. lock_step ?S S'"
  then have "\<forall>t \<in> set ?S. finished t"
    using locking_ends [of 0 "makeConcurrent 16 :: int concurrentDict" "[([''a''], []), ([], [''b''])]" ?S] by auto
  then show False unfolding two_clients(1) by (simp add: finished_def)
qed

end
