(* ===== verification/RObject.thy ===== *)
theory RObject
  imports IntStr
begin

text \<open>
  Typed objects of \<^verbatim>\<open>internal/object/object.go\<close> with the shared small integers of
  \<^verbatim>\<open>shared.go\<close>, and the encoding thresholds of \<^verbatim>\<open>thresholds.go\<close>. An object is a record of
  its type, its encoding and its pointer; the pointer of a string object is a \<open>gany\<close>.
\<close>

datatype objType = TypeString | TypeList | TypeSet | TypeHash | TypeZSet | TypeStream

datatype encoding =
    EncInt | EncEmbstr | EncRaw | EncListpack | EncListpackEx | EncQuicklist | EncIntset
  | EncHashtable | EncSkiplist | EncStream

record 'p robj =
  ro_type :: objType
  ro_enc :: encoding
  ro_ptr :: 'p

definition newRobj :: "objType \<Rightarrow> encoding \<Rightarrow> 'p \<Rightarrow> 'p robj" where
  "newRobj typ enc ptr = \<lparr>ro_type = typ, ro_enc = enc, ro_ptr = ptr\<rparr>"

definition typeName :: "'p robj \<Rightarrow> string" where
  "typeName r =
     (case ro_type r of
        TypeString \<Rightarrow> ''string''
      | TypeList \<Rightarrow> ''list''
      | TypeSet \<Rightarrow> ''set''
      | TypeHash \<Rightarrow> ''hash''
      | TypeZSet \<Rightarrow> ''zset''
      | TypeStream \<Rightarrow> ''stream'')"

definition encodingName :: "'p robj \<Rightarrow> string" where
  "encodingName r =
     (case ro_enc r of
        EncInt \<Rightarrow> ''int''
      | EncEmbstr \<Rightarrow> ''embstr''
      | EncRaw \<Rightarrow> ''raw''
      | EncListpack \<Rightarrow> ''listpack''
      | EncQuicklist \<Rightarrow> ''quicklist''
      | EncIntset \<Rightarrow> ''intset''
      | EncHashtable \<Rightarrow> ''hashtable''
      | EncSkiplist \<Rightarrow> ''skiplist''
      | EncStream \<Rightarrow> ''stream''
      | _ \<Rightarrow> ''unknown'')"

section \<open>String objects\<close>

definition sharedIntegers :: "gany robj list" where
  "sharedIntegers = map (\<lambda>i. \<lparr>ro_type = TypeString, ro_enc = EncInt, ro_ptr = GInt (int i)\<rparr>) [0..<10000]"

definition sharedInt :: "int \<Rightarrow> gany robj" where
  "sharedInt n =
     (if n \<ge> 0 \<and> n < 10000 then sharedIntegers ! nat n
      else \<lparr>ro_type = TypeString, ro_enc = EncInt, ro_ptr = GInt n\<rparr>)"

definition makeStringObject :: "bytes \<Rightarrow> gany robj" where
  "makeStringObject b =
     (let (v, ok) = isInt b in
      if ok then sharedInt v
      else if length b \<le> 44 then \<lparr>ro_type = TypeString, ro_enc = EncEmbstr, ro_ptr = GBytes b\<rparr>
      else \<lparr>ro_type = TypeString, ro_enc = EncRaw, ro_ptr = GBytes b\<rparr>)"

definition makeRawStringObject :: "bytes \<Rightarrow> gany robj" where
  "makeRawStringObject b = \<lparr>ro_type = TypeString, ro_enc = EncRaw, ro_ptr = GBytes b\<rparr>"

text \<open>A failed type assertion panics; a nil slice is the empty one.\<close>

definition getStringBytes :: "gany robj \<Rightarrow> bytes option" where
  "getStringBytes r =
     (case ro_enc r of
        EncInt \<Rightarrow> (case ro_ptr r of GInt v \<Rightarrow> Some (formatInt64 v) | _ \<Rightarrow> None)
      | EncEmbstr \<Rightarrow> (case ro_ptr r of GBytes b \<Rightarrow> Some b | _ \<Rightarrow> None)
      | EncRaw \<Rightarrow> (case ro_ptr r of GBytes b \<Rightarrow> Some b | _ \<Rightarrow> None)
      | _ \<Rightarrow> Some [])"

definition getStringAsInt :: "gany robj \<Rightarrow> (int \<times> bool) option" where
  "getStringAsInt r =
     (if ro_enc r = EncInt then (case ro_ptr r of GInt v \<Rightarrow> Some (v, True) | _ \<Rightarrow> None)
      else Some (0, False))"

section \<open>Thresholds\<close>

record thresholds =
  hashMaxListpackEntries :: int
  hashMaxListpackValue :: int
  setMaxIntsetEntries :: int
  setMaxListpackEntries :: int
  setMaxListpackValue :: int
  zsetMaxListpackEntries :: int
  zsetMaxListpackValue :: int
  listMaxListpackSize :: int

definition defaultEncodingThresholds :: thresholds where
  "defaultEncodingThresholds = \<lparr>
     hashMaxListpackEntries = 128,
     hashMaxListpackValue = 64,
     setMaxIntsetEntries = 512,
     setMaxListpackEntries = 128,
     setMaxListpackValue = 64,
     zsetMaxListpackEntries = 128,
     zsetMaxListpackValue = 64,
     listMaxListpackSize = 128\<rparr>"

text \<open>The thresholds that \<open>SetEncodingThresholds\<close> installs for a request.\<close>

definition setEncodingThresholds :: "thresholds \<Rightarrow> thresholds" where
  "setEncodingThresholds t =
     (let def = defaultEncodingThresholds;
          pick = (\<lambda>f. if f t \<le> 0 then f def else f t)
      in \<lparr>hashMaxListpackEntries = pick hashMaxListpackEntries,
          hashMaxListpackValue = pick hashMaxListpackValue,
          setMaxIntsetEntries = pick setMaxIntsetEntries,
          setMaxListpackEntries = pick setMaxListpackEntries,
          setMaxListpackValue = pick setMaxListpackValue,
          zsetMaxListpackEntries = pick zsetMaxListpackEntries,
          zsetMaxListpackValue = pick zsetMaxListpackValue,
          listMaxListpackSize = pick listMaxListpackSize\<rparr>)"

definition elemLen :: "gany \<Rightarrow> int" where
  "elemLen value = (case value of GStr v \<Rightarrow> int (length v) | GBytes v \<Rightarrow> int (length v) | _ \<Rightarrow> 0)"

text \<open>Every installed threshold is positive.\<close>

definition thresholds_ok :: "thresholds \<Rightarrow> bool" where
  "thresholds_ok t \<longleftrightarrow> 0 < hashMaxListpackEntries t \<and> 0 < hashMaxListpackValue t \<and>
     0 < setMaxIntsetEntries t \<and> 0 < setMaxListpackEntries t \<and> 0 < setMaxListpackValue t \<and>
     0 < zsetMaxListpackEntries t \<and> 0 < zsetMaxListpackValue t \<and> 0 < listMaxListpackSize t"

lemma setEncodingThresholds_ok: "thresholds_ok (setEncodingThresholds t)"
  by (simp add: thresholds_ok_def setEncodingThresholds_def defaultEncodingThresholds_def Let_def)

lemma sharedInt_eq: "sharedInt n = \<lparr>ro_type = TypeString, ro_enc = EncInt, ro_ptr = GInt n\<rparr>"
proof (cases "n \<ge> 0 \<and> n < 10000")
  case True
  then have "nat n < 10000" "int (nat n) = n" by auto
  then have "sharedIntegers ! nat n = \<lparr>ro_type = TypeString, ro_enc = EncInt, ro_ptr = GInt n\<rparr>"
    unfolding sharedIntegers_def by (subst nth_map) (simp_all del: upt_conv_Cons upt_rec)
  then show ?thesis using True by (simp add: sharedInt_def)
qed (auto simp: sharedInt_def)

lemma getStringBytes_make: "getStringBytes (makeStringObject b) = Some b"
  by (cases b rule: isInt_cases) (simp_all add: makeStringObject_def sharedInt_eq getStringBytes_def)

section \<open>Properties\<close>

text \<open>C23. A string object gives back exactly the bytes it was made from, whichever of the three encodings
  \<open>MakeStringObject\<close> chose; it chooses the integer encoding exactly for the canonical decimal
  texts, and otherwise the embedded one exactly up to 44 bytes.\<close>

theorem string_object_roundtrip:
  "getStringBytes (makeStringObject b) = Some b \<and>
   (ro_enc (makeStringObject b) = EncInt \<longleftrightarrow> (\<exists>v. canon_int v \<and> formatInt64 v = b)) \<and>
   (ro_enc (makeStringObject b) = EncEmbstr \<longleftrightarrow> (\<nexists>v. canon_int v \<and> formatInt64 v = b) \<and> length b \<le> 44)"
proof (cases b rule: isInt_cases)
  case (int v)
  then show ?thesis using getStringBytes_make [of b] by (auto simp: makeStringObject_def sharedInt_eq)
next
  case (other v)
  then show ?thesis using getStringBytes_make [of b] by (auto simp: makeStringObject_def)
qed

end
