(* ===== verification/HashObj.thy ===== *)
theory HashObj
  imports RObject Listpack SimpleDict Scan "HOL-Library.List_Lexorder" "HOL-Library.Char_ord"
begin

text \<open>
  The hash object of \<^verbatim>\<open>internal/object/encoding.go\<close>, \<^verbatim>\<open>hash.go\<close> and \<^verbatim>\<open>hashex.go\<close>: a
  listpack of alternating fields and values, rewritten on update and removal and converted to a
  map-backed dict past the configured thresholds, with expiry times per field. The thresholds,
  a global of the server, are the argument \<open>t\<close>. The operations refine those of a finite map
  from fields to values in either encoding.
\<close>

section \<open>The object\<close>

record hash =
  h_listpack :: "listpack option"
  h_hashtable :: "gany simpleDict option"
  h_isListpack :: bool
  h_fieldExpire :: "(string \<times> int) list"

definition newHash :: hash where
  "newHash = \<lparr>h_listpack = Some newListpack, h_hashtable = None, h_isListpack = True, h_fieldExpire = []\<rparr>"

definition newHashFromDict :: "gany simpleDict \<Rightarrow> hash" where
  "newHashFromDict d = \<lparr>h_listpack = None, h_hashtable = Some d, h_isListpack = False, h_fieldExpire = []\<rparr>"

function hash_get_from :: "listpack \<Rightarrow> string \<Rightarrow> nat \<Rightarrow> gany option option" where
  "hash_get_from lp field i =
     (if i < lp_len lp then
        do { (val, ok) \<leftarrow> lp_get lp (int i);
             if \<not> ok then Some None
             else if val = GStr field then
               do { (value, ok) \<leftarrow> lp_get lp (int i + 1); Some (if \<not> ok then None else Some value) }
             else hash_get_from lp field (i + 2) }
      else Some None)"
  by pat_completeness auto
termination
  by (relation "measure (\<lambda>(lp, _, i). lp_len lp - i)") auto

declare hash_get_from.simps [simp del]

text \<open>A value and the flag \<^verbatim>\<open>true\<close> are \<open>Some\<close>, the flag \<^verbatim>\<open>false\<close> is \<open>None\<close>.\<close>

definition hash_get :: "hash \<Rightarrow> string \<Rightarrow> gany option option" where
  "hash_get h field =
     (if h_isListpack h then do { lp \<leftarrow> h_listpack h; hash_get_from lp field 0 }
      else do { d \<leftarrow> h_hashtable h; Some (sd_get d field) })"

definition hash_found :: "listpack \<Rightarrow> string \<Rightarrow> bool option" where
  "hash_found lp field =
     lp_range lp (\<lambda>found i val. if even i \<and> val = GStr field then Some (True, False) else Some (found, True)) False"

definition appendValue :: "listpack \<Rightarrow> gany \<Rightarrow> listpack" where
  "appendValue lp value =
     (case value of GBytes v \<Rightarrow> lp_appendStr lp v | GStr v \<Rightarrow> lp_appendStr lp v | _ \<Rightarrow> lp_appendStr lp [])"

definition rebuildListpackWithUpdate :: "listpack \<Rightarrow> string \<Rightarrow> gany \<Rightarrow> listpack option" where
  "rebuildListpackWithUpdate lp field value =
     lp_range lp (\<lambda>newLp i val.
       case val of
         GStr str \<Rightarrow>
           if even i then Some (lp_appendStr newLp str, True)
           else do { (prevVal, _) \<leftarrow> lp_get lp (int i - 1);
                     if prevVal = GStr field then Some (appendValue newLp value, True)
                     else Some (lp_appendStr newLp str, True) }
       | _ \<Rightarrow> Some (newLp, True)) newListpack"

definition hash_convertToHashtable :: "hash \<Rightarrow> hash option" where
  "hash_convertToHashtable h =
     do { lp \<leftarrow> h_listpack h;
          (_, newDict) \<leftarrow> lp_range lp (\<lambda>(field, d) i val.
            if even i then (case val of GStr str \<Rightarrow> Some ((str, d), True) | _ \<Rightarrow> Some ((field, d), True))
            else (case val of
                    GStr v \<Rightarrow> Some ((field, fst (sd_put d field (GBytes v))), True)
                  | GBytes v \<Rightarrow> Some ((field, fst (sd_put d field (GBytes v))), True)
                  | _ \<Rightarrow> Some ((field, d), True))) ([], makeSimple);
          Some (h\<lparr>h_listpack := None, h_hashtable := Some newDict, h_isListpack := False\<rparr>) }"

definition hash_maybeConvert :: "thresholds \<Rightarrow> hash \<Rightarrow> string \<Rightarrow> gany \<Rightarrow> hash option" where
  "hash_maybeConvert t h field value =
     do { lp \<leftarrow> h_listpack h;
          if int (lp_len lp div 2) > hashMaxListpackEntries t \<or>
             int (length field) > hashMaxListpackValue t \<or>
             elemLen value > hashMaxListpackValue t
          then hash_convertToHashtable h else Some h }"

definition hash_put :: "thresholds \<Rightarrow> hash \<Rightarrow> string \<Rightarrow> gany \<Rightarrow> (hash \<times> nat) option" where
  "hash_put t h field value =
     (if h_isListpack h then
        do { lp \<leftarrow> h_listpack h;
             found \<leftarrow> hash_found lp field;
             if found then
               do { lp' \<leftarrow> rebuildListpackWithUpdate lp field value;
                    h' \<leftarrow> hash_maybeConvert t (h\<lparr>h_listpack := Some lp'\<rparr>) field value;
                    Some (h', 0) }
             else
               do { h' \<leftarrow> hash_maybeConvert t
                      (h\<lparr>h_listpack := Some (appendValue (lp_appendStr lp field) value)\<rparr>) field value;
                    Some (h', 1) } }
      else do { d \<leftarrow> h_hashtable h;
                let (d', n) = sd_put d field value;
                Some (h\<lparr>h_hashtable := Some d'\<rparr>, n) })"

definition hash_putIfAbsent :: "thresholds \<Rightarrow> hash \<Rightarrow> string \<Rightarrow> gany \<Rightarrow> (hash \<times> nat) option" where
  "hash_putIfAbsent t h field value =
     (if h_isListpack h then
        do { lp \<leftarrow> h_listpack h;
             found \<leftarrow> hash_found lp field;
             if found then Some (h, 0)
             else
               do { h' \<leftarrow> hash_maybeConvert t
                      (h\<lparr>h_listpack := Some (appendValue (lp_appendStr lp field) value)\<rparr>) field value;
                    Some (h', 1) } }
      else do { d \<leftarrow> h_hashtable h;
                let (d', n) = sd_putIfAbsent d field value;
                Some (h\<lparr>h_hashtable := Some d'\<rparr>, n) })"

function hash_remove_from :: "listpack \<Rightarrow> string \<Rightarrow> nat \<Rightarrow> listpack \<times> bool \<Rightarrow> (listpack \<times> bool) option" where
  "hash_remove_from lp field i acc =
     (if i < lp_len lp then
        do { (val, ok) \<leftarrow> lp_get lp (int i);
             if \<not> ok then Some acc
             else case val of
               GStr str \<Rightarrow>
                 if str = field then hash_remove_from lp field (i + 2) (fst acc, True)
                 else do { (value, ok) \<leftarrow> lp_get lp (int i + 1);
                           hash_remove_from lp field (i + 2)
                             (if ok then
                                (case value of
                                   GStr v \<Rightarrow> lp_appendStr (lp_appendStr (fst acc) str) v
                                 | GInt v \<Rightarrow> lp_appendInt (lp_appendStr (fst acc) str) v
                                 | _ \<Rightarrow> lp_appendStr (fst acc) str)
                              else lp_appendStr (fst acc) str, snd acc) }
             | _ \<Rightarrow> hash_remove_from lp field (i + 2) acc }
      else Some acc)"
  by pat_completeness auto
termination
  by (relation "measure (\<lambda>(lp, _, i, _). lp_len lp - i)") auto

declare hash_remove_from.simps [simp del]

definition hash_remove :: "hash \<Rightarrow> string \<Rightarrow> (hash \<times> gany option) option" where
  "hash_remove h field =
     (if h_isListpack h then
        do { lp \<leftarrow> h_listpack h;
             (newLp, removed) \<leftarrow> hash_remove_from lp field 0 (newListpack, False);
             if \<not> removed then Some (h, None)
             else Some (h\<lparr>h_listpack := Some newLp\<rparr>, Some (GStr field)) }
      else do { d \<leftarrow> h_hashtable h;
                let (d', v) = sd_remove d field;
                Some (h\<lparr>h_hashtable := Some d'\<rparr>, v) })"

definition hash_len :: "hash \<Rightarrow> nat option" where
  "hash_len h =
     (if h_isListpack h then do { lp \<leftarrow> h_listpack h; Some (lp_len lp div 2) }
      else do { d \<leftarrow> h_hashtable h; Some (sd_len d) })"

definition hash_forEach :: "hash \<Rightarrow> ('s \<Rightarrow> string \<Rightarrow> gany \<Rightarrow> ('s \<times> bool) option) \<Rightarrow> 's \<Rightarrow> 's option" where
  "hash_forEach h fn s =
     (if h_isListpack h then
        do { lp \<leftarrow> h_listpack h;
             (_, s') \<leftarrow> lp_range lp (\<lambda>(field, s) i val.
               if even i then (case val of GStr str \<Rightarrow> Some ((str, s), True) | _ \<Rightarrow> Some ((field, s), True))
               else do { (s', go) \<leftarrow> fn s field val; Some ((field, s'), go) }) ([], s);
             Some s' }
      else do { d \<leftarrow> h_hashtable h; sd_forEach d fn s })"

definition hash_currentEncoding :: "hash \<Rightarrow> encoding" where
  "hash_currentEncoding h =
     (if h_isListpack h then (if h_fieldExpire h \<noteq> [] then EncListpackEx else EncListpack)
      else EncHashtable)"

definition hash_getAsDict :: "hash \<Rightarrow> (hash \<times> gany simpleDict) option" where
  "hash_getAsDict h =
     do { h' \<leftarrow> (if h_isListpack h then hash_convertToHashtable h else Some h);
          d \<leftarrow> h_hashtable h'; Some (h', d) }"

section \<open>Keys and scans\<close>

definition hash_keys :: "hash \<Rightarrow> string list option" where
  "hash_keys h = hash_forEach h (\<lambda>result field _. Some (result @ [field], True)) []"

text \<open>A negative limit panics in \<^verbatim>\<open>make\<close>.\<close>

definition hash_randomDistinctKeys :: "hash \<Rightarrow> int \<Rightarrow> string list option" where
  "hash_randomDistinctKeys h limit =
     do { n \<leftarrow> hash_len h;
          let sz = (if limit > int n then int n else limit);
          if sz < 0 then None
          else hash_forEach h (\<lambda>result field _.
            if int (length result) \<ge> sz then Some (result, False) else Some (result @ [field], True)) [] }"

definition hash_randomKeys :: "hash \<Rightarrow> int \<Rightarrow> string list option" where
  "hash_randomKeys h limit =
     (if limit < 0 then None
      else do { allKeys \<leftarrow> hash_keys h;
                if allKeys = [] then Some []
                else Some (map (\<lambda>i. allKeys ! (i mod length allKeys)) [0..<nat limit]) })"

definition val_str :: "gany \<Rightarrow> string" where
  "val_str v = (case v of GBytes b \<Rightarrow> b | GStr s \<Rightarrow> s | _ \<Rightarrow> [])"

function hash_scan_loop :: "hash \<Rightarrow> matcher \<Rightarrow> string list \<Rightarrow> int \<Rightarrow> int \<Rightarrow> string list \<Rightarrow> (string list \<times> int) option" where
  "hash_scan_loop h matchKey allKeys cnt i result =
     (if i < int (length allKeys) \<and> int (length result) < wrap64 (cnt * 2) then
        do { k \<leftarrow> gindex allKeys i;
             result' \<leftarrow> (if matchKey k then
                  do { v \<leftarrow> hash_get h k;
                       Some (case v of None \<Rightarrow> result | Some val \<Rightarrow> result @ [k, val_str val]) }
                else Some result);
             hash_scan_loop h matchKey allKeys cnt (i + 1) result' }
      else Some (result, if i \<ge> int (length allKeys) then 0 else i))"
  by pat_completeness auto
termination
  by (relation "measure (\<lambda>(_, _, allKeys, _, i, _). nat (int (length allKeys) - i))") auto

declare hash_scan_loop.simps [simp del]

definition hash_scan :: "(string \<Rightarrow> matcher option) \<Rightarrow> hash \<Rightarrow> int \<Rightarrow> int \<Rightarrow> string \<Rightarrow> (string list \<times> int) option" where
  "hash_scan regexp h cursor cnt pattern =
     do { keys \<leftarrow> hash_keys h;
          let allKeys = sort keys;
          if allKeys = [] then Some ([], 0)
          else case compilePattern regexp pattern of
            None \<Rightarrow> Some ([], -1)
          | Some _ \<Rightarrow> hash_scan_loop h (scan_match regexp pattern) allKeys cnt cursor [] }"

section \<open>Field expiry\<close>

definition setFieldExpire :: "hash \<Rightarrow> string \<Rightarrow> int \<Rightarrow> hash" where
  "setFieldExpire h field expireAtMs = h\<lparr>h_fieldExpire := gmap_set field expireAtMs (h_fieldExpire h)\<rparr>"

definition fieldExpire :: "hash \<Rightarrow> string \<Rightarrow> int option" where
  "fieldExpire h field = map_of (h_fieldExpire h) field"

definition persistField :: "hash \<Rightarrow> string \<Rightarrow> hash \<times> bool" where
  "persistField h field =
     (if map_of (h_fieldExpire h) field \<noteq> None
      then (h\<lparr>h_fieldExpire := gmap_delete field (h_fieldExpire h)\<rparr>, True) else (h, False))"

text \<open>The loop over the map of expiry times, from which it deletes the entries it removes.\<close>

fun purge_fields :: "(string \<times> int) list \<Rightarrow> int \<Rightarrow> hash \<Rightarrow> (hash \<times> string list) option" where
  "purge_fields [] nowMs h = Some (h, [])"
| "purge_fields ((field, exp) # rest) nowMs h =
     (if exp \<le> nowMs then
        do { (h1, _) \<leftarrow> hash_remove h field;
             (h2, expired) \<leftarrow> purge_fields rest nowMs
               (h1\<lparr>h_fieldExpire := gmap_delete field (h_fieldExpire h1)\<rparr>);
             Some (h2, field # expired) }
      else purge_fields rest nowMs h)"

definition purgeExpiredFields :: "hash \<Rightarrow> int \<Rightarrow> (hash \<times> string list) option" where
  "purgeExpiredFields h nowMs = purge_fields (h_fieldExpire h) nowMs h"

definition hasFieldExpiries :: "hash \<Rightarrow> bool" where
  "hasFieldExpiries h \<longleftrightarrow> h_fieldExpire h \<noteq> []"

definition fieldExpireCount :: "hash \<Rightarrow> nat" where
  "fieldExpireCount h = length (h_fieldExpire h)"

section \<open>Representation\<close>

text \<open>The elements of a listpack that holds the pairs \<open>kvs\<close>, and the pairs a hash holds.\<close>

definition hpairs :: "(string \<times> string) list \<Rightarrow> gany list" where
  "hpairs kvs = concat (map (\<lambda>(k, v). [GStr k, GStr v]) kvs)"

definition kvs_ok :: "(string \<times> string) list \<Rightarrow> bool" where
  "kvs_ok kvs \<longleftrightarrow> distinct (map fst kvs) \<and> (\<forall>(k, v) \<in> set kvs. go_str k \<and> go_str v)"

definition hash_entries :: "hash \<Rightarrow> (string \<times> string) list" where
  "hash_entries h =
     (case hash_forEach h (\<lambda>acc field v. Some (acc @ [(field, val_str v)], True)) [] of
        None \<Rightarrow> [] | Some es \<Rightarrow> es)"

definition hash_abs :: "hash \<Rightarrow> (string \<rightharpoonup> string)" where
  "hash_abs h = map_of (hash_entries h)"

definition lp_bounds :: "thresholds \<Rightarrow> (string \<times> string) list \<Rightarrow> bool" where
  "lp_bounds t kvs \<longleftrightarrow> int (length kvs) \<le> hashMaxListpackEntries t \<and>
     (\<forall>(k, v) \<in> set kvs. int (length k) \<le> hashMaxListpackValue t \<and> int (length v) \<le> hashMaxListpackValue t)"

definition hash_rep :: "hash \<Rightarrow> (string \<times> string) list \<Rightarrow> bool" where
  "hash_rep h kvs \<longleftrightarrow> h_isListpack h \<and> h_listpack h = Some (lp_of (hpairs kvs)) \<and> kvs_ok kvs"

definition hash_inv :: "thresholds \<Rightarrow> hash \<Rightarrow> bool" where
  "hash_inv t h \<longleftrightarrow>
     (if h_isListpack h then \<exists>kvs. hash_rep h kvs \<and> lp_bounds t kvs
      else \<exists>d. h_hashtable h = Some d \<and> sd_inv d)"

lemma hpairs_simps [simp]:
  "hpairs [] = []" "hpairs ((k, v) # kvs) = GStr k # GStr v # hpairs kvs"
  "hpairs (kvs @ kvs') = hpairs kvs @ hpairs kvs'" "length (hpairs kvs) = 2 * length kvs"
proof -
  show "length (hpairs kvs) = 2 * length kvs" by (induction kvs) (auto simp: hpairs_def)
qed (simp_all add: hpairs_def)

lemma hpairs_nth:
  assumes "j < length kvs"
  shows "hpairs kvs ! (2 * j) = GStr (fst (kvs ! j))" "hpairs kvs ! Suc (2 * j) = GStr (snd (kvs ! j))"
proof -
  have "hpairs kvs ! (2 * j) = GStr (fst (kvs ! j)) \<and> hpairs kvs ! Suc (2 * j) = GStr (snd (kvs ! j))"
    using assms
  proof (induction kvs arbitrary: j)
    case (Cons e kvs)
    obtain k v where "e = (k, v)" by (cases e)
    then show ?case using Cons by (cases j) auto
  qed simp
  then show "hpairs kvs ! (2 * j) = GStr (fst (kvs ! j))" "hpairs kvs ! Suc (2 * j) = GStr (snd (kvs ! j))" by auto
qed

lemma hpairs_ok [simp]: "kvs_ok kvs \<Longrightarrow> elems_ok (hpairs kvs)"
  by (induction kvs) (auto simp: kvs_ok_def)

lemma lp_get_pairs [simp]:
  assumes "kvs_ok kvs" "j < length kvs"
  shows "lp_get (lp_of (hpairs kvs)) (int (2 * j)) = Some (GStr (fst (kvs ! j)), True)"
    "lp_get (lp_of (hpairs kvs)) (int (2 * j) + 1) = Some (GStr (snd (kvs ! j)), True)"
proof -
  have "nat (int (2 * j) + 1) = Suc (2 * j)" by simp
  then show "lp_get (lp_of (hpairs kvs)) (int (2 * j)) = Some (GStr (fst (kvs ! j)), True)"
    "lp_get (lp_of (hpairs kvs)) (int (2 * j) + 1) = Some (GStr (snd (kvs ! j)), True)"
    using assms hpairs_nth [OF assms(2)] by (simp_all del: of_nat_mult)
qed

lemma kvs_ok_gmap_set [simp]:
  "kvs_ok kvs \<Longrightarrow> go_str k \<Longrightarrow> go_str v \<Longrightarrow> kvs_ok (gmap_set k v kvs)"
proof -
  have "set (gmap_set k v kvs) \<subseteq> insert (k, v) (set kvs)" by (induction k v kvs rule: gmap_set.induct) auto
  then show "kvs_ok kvs \<Longrightarrow> go_str k \<Longrightarrow> go_str v \<Longrightarrow> kvs_ok (gmap_set k v kvs)"
    unfolding kvs_ok_def using gmap_set_distinct by fastforce
qed

lemma kvs_ok_gmap_delete [simp]: "kvs_ok kvs \<Longrightarrow> kvs_ok (gmap_delete k kvs)"
  using gmap_delete_distinct [of kvs k] by (auto simp: kvs_ok_def gmap_delete_def)

lemma gmap_set_new: "k \<notin> fst ` set m \<Longrightarrow> gmap_set k v m = m @ [(k, v)]"
  by (induction k v m rule: gmap_set.induct) auto

section \<open>The listpack loops\<close>

lemma hash_get_from_eq:
  assumes "kvs_ok (pre @ kvs)"
  shows "hash_get_from (lp_of (hpairs (pre @ kvs))) k (2 * length pre) = Some (map_option GStr (map_of kvs k))"
  using assms
proof (induction kvs arbitrary: pre)
  case Nil
  then show ?case by (simp add: hash_get_from.simps [of _ _ "2 * length pre"])
next
  case (Cons e kvs)
  obtain k' v where e: "e = (k', v)" by (cases e)
  have "length pre < length (pre @ e # kvs)" by simp
  note G = lp_get_pairs [OF Cons.prems this]
  have "hash_get_from (lp_of (hpairs (pre @ e # kvs))) k (2 * length pre) =
      (if k' = k then Some (Some (GStr v)) else hash_get_from (lp_of (hpairs (pre @ e # kvs))) k (2 * length pre + 2))"
    unfolding hash_get_from.simps [of _ _ "2 * length pre"] G by (simp add: e)
  moreover have "hash_get_from (lp_of (hpairs (pre @ e # kvs))) k (2 * length pre + 2) = Some (map_option GStr (map_of kvs k))"
    using Cons.IH [of "pre @ [e]"] Cons.prems by simp
  ultimately show ?case by (simp add: e)
qed

lemma hash_found_eq:
  assumes "kvs_ok kvs"
  shows "hash_found (lp_of (hpairs kvs)) k = Some (k \<in> fst ` set kvs)"
proof -
  have "iter (\<lambda>found i val. if even i \<and> val = GStr k then Some (True, False) else Some (found, True)) i (hpairs kvs) False
      = Some (k \<in> fst ` set kvs)" if "even i" for i
    using that
  proof (induction kvs arbitrary: i)
    case (Cons e kvs)
    then show ?case by (cases e) auto
  qed simp
  then show ?thesis using assms by (simp add: hash_found_def)
qed

lemma appendValue_of [simp]: "appendValue (lp_of xs) val = lp_of (xs @ [GStr (val_str val)])"
  by (cases val) (simp_all add: appendValue_def val_str_def)

lemma rebuild_eq:
  assumes "kvs_ok kvs"
  shows "rebuildListpackWithUpdate (lp_of (hpairs kvs)) k value =
    Some (lp_of (hpairs (map (\<lambda>(k', v). (k', if k' = k then val_str value else v)) kvs)))"
proof -
  let ?f = "map (\<lambda>(k', v). (k', if k' = k then val_str value else v))"
  define fn where "fn = (\<lambda>newLp i val.
       case val of
         GStr str \<Rightarrow>
           if even i then Some (lp_appendStr newLp str, True)
           else do { (prevVal, _) \<leftarrow> lp_get (lp_of (hpairs kvs)) (int i - 1);
                     if prevVal = GStr k then Some (appendValue newLp value, True)
                     else Some (lp_appendStr newLp str, True) }
       | _ \<Rightarrow> Some (newLp, True))"
  have "iter fn (2 * length pre) (hpairs post) (lp_of acc) = Some (lp_of (acc @ hpairs (?f post)))"
    if "kvs = pre @ post" for pre post acc
    using that
  proof (induction post arbitrary: pre acc)
    case (Cons e post)
    obtain k' v where e: "e = (k', v)" by (cases e)
    have lt: "length pre < length kvs" "kvs ! length pre = e" using Cons.prems by simp_all
    have prev: "int (Suc (2 * length pre)) - 1 = int (2 * length pre)" by simp
    have "fn lp (Suc (2 * length pre)) (GStr v) =
        Some (if k' = k then appendValue lp value else lp_appendStr lp v, True)" for lp
      unfolding fn_def prev lp_get_pairs(1) [OF assms lt(1)] using lt(2) e by simp
    moreover have "fn lp (2 * length pre) (GStr k') = Some (lp_appendStr lp k', True)" for lp by (simp add: fn_def)
    moreover have "iter fn (2 * length (pre @ [e])) (hpairs post) (lp_of acc') = Some (lp_of (acc' @ hpairs (?f post)))" for acc'
      using Cons.IH [of "pre @ [e]"] Cons.prems by simp
    ultimately show ?case by (simp add: e)
  qed simp
  from this [of "[]" kvs "[]"] show ?thesis
    using assms by (simp add: rebuildListpackWithUpdate_def fn_def)
qed

lemma update_eq_gmap_set:
  "distinct (map fst kvs) \<Longrightarrow> k \<in> fst ` set kvs \<Longrightarrow> map (\<lambda>(k', v). (k', if k' = k then w else v)) kvs = gmap_set k w kvs"
proof (induction kvs)
  case (Cons e kvs)
  have "map (\<lambda>(k', v). (k', if k' = k then w else v)) kvs = kvs" if "k \<notin> fst ` set kvs"
    using that by (intro map_idI) force
  then show ?case using Cons by (cases e) auto
qed simp

lemma hash_remove_from_eq:
  assumes "kvs_ok (pre @ kvs)"
  shows "hash_remove_from (lp_of (hpairs (pre @ kvs))) k (2 * length pre) (lp_of acc, b) =
    Some (lp_of (acc @ hpairs (gmap_delete k kvs)), b \<or> k \<in> fst ` set kvs)"
  using assms
proof (induction kvs arbitrary: pre acc b)
  case Nil
  then show ?case by (simp add: hash_remove_from.simps [of _ _ "2 * length pre"] gmap_delete_def)
next
  case (Cons e kvs)
  obtain k' v where e: "e = (k', v)" by (cases e)
  let ?lp = "lp_of (hpairs (pre @ e # kvs))"
  have "length pre < length (pre @ e # kvs)" by simp
  note G = lp_get_pairs [OF Cons.prems this]
  have "hash_remove_from ?lp k (2 * length pre) (lp_of acc, b) =
      hash_remove_from ?lp k (2 * length pre + 2)
        (if k' = k then (lp_of acc, True) else (lp_of (acc @ [GStr k', GStr v]), b))"
    unfolding hash_remove_from.simps [of _ _ "2 * length pre"] G by (simp add: e)
  moreover have "hash_remove_from ?lp k (2 * length pre + 2) (lp_of acc', b') =
      Some (lp_of (acc' @ hpairs (gmap_delete k kvs)), b' \<or> k \<in> fst ` set kvs)" for acc' b'
    using Cons.IH [of "pre @ [e]"] Cons.prems by simp
  ultimately show ?case by (auto simp: e gmap_delete_def)
qed

lemma hash_forEach_lp:
  assumes "hash_rep h kvs"
  shows "hash_forEach h fn s = iter (\<lambda>s _ (k, v). fn s k (GStr v)) 0 kvs s"
proof -
  define f where "f = (\<lambda>(field :: string, s) (i :: nat) val.
      if even i then (case val of GStr str \<Rightarrow> Some ((str, s), True) | _ \<Rightarrow> Some ((field, s), True))
      else do { (s', go) \<leftarrow> fn s field val; Some ((field, s'), go) })"
  have "map_option snd (iter f i (hpairs kvs) (field, s)) = iter (\<lambda>s _ (k, v). fn s k (GStr v)) j kvs s"
    if "even i" for i j field s
    using that
  proof (induction kvs arbitrary: i j field s)
    case (Cons e kvs)
    obtain k v where e: "e = (k, v)" by (cases e)
    have "f (field, s) i (GStr k) = Some ((k, s), True)"
      "f (k, s) (Suc i) (GStr v) = do { (s', go) \<leftarrow> fn s k (GStr v); Some ((k, s'), go) }"
      using Cons.prems by (simp_all add: f_def)
    then show ?case using Cons.IH [of "Suc (Suc i)"] Cons.prems e
      by (cases "fn s k (GStr v)") (auto split: prod.split)
  qed simp
  note this [of 0 "[]" s 0]
  moreover have "hash_forEach h fn s = map_option snd (iter f 0 (hpairs kvs) ([], s))"
    using assms by (cases "iter f 0 (hpairs kvs) ([], s)") (auto simp: hash_forEach_def hash_rep_def f_def [symmetric])
  ultimately show ?thesis by simp
qed

lemma hash_entries_lp: "hash_rep h kvs \<Longrightarrow> hash_entries h = kvs"
proof -
  assume "hash_rep h kvs"
  have "iter (\<lambda>acc i (k, v). Some (acc @ [(k, val_str (GStr v))], True)) j kvs acc = Some (acc @ kvs)" for j acc
    by (induction kvs arbitrary: j acc) (auto simp: val_str_def)
  from this [of 0 "[]"] show ?thesis
    unfolding hash_entries_def hash_forEach_lp [OF \<open>hash_rep h kvs\<close>] by simp
qed

lemma hash_entries_ht:
  "\<not> h_isListpack h \<Longrightarrow> h_hashtable h = Some d \<Longrightarrow> hash_entries h = map (\<lambda>(k, v). (k, val_str v)) (sd_m d)"
proof -
  have "iter (\<lambda>acc i (k, v). Some (acc @ [(k, val_str v)], True)) j m acc =
      Some (acc @ map (\<lambda>(k, v). (k, val_str v)) m)" for j m and acc :: "(string \<times> string) list"
    by (induction m arbitrary: j acc) auto
  then show "\<not> h_isListpack h \<Longrightarrow> h_hashtable h = Some d \<Longrightarrow> hash_entries h = map (\<lambda>(k, v). (k, val_str v)) (sd_m d)"
    by (simp add: hash_entries_def hash_forEach_def sd_forEach_def split_beta)
qed

lemma hash_abs_lp: "hash_rep h kvs \<Longrightarrow> hash_abs h = map_of kvs"
  by (simp add: hash_abs_def hash_entries_lp)

lemma hash_abs_ht: "\<not> h_isListpack h \<Longrightarrow> h_hashtable h = Some d \<Longrightarrow> hash_abs h = map_option val_str \<circ> sd_abs d"
  by (simp add: hash_abs_def hash_entries_ht sd_abs_def map_of_map)

lemma hash_convert_eq:
  assumes "hash_rep h kvs"
  shows "hash_convertToHashtable h = Some (h\<lparr>h_listpack := None, h_isListpack := False,
    h_hashtable := Some \<lparr>sd_m = map (\<lambda>(k, v). (k, GBytes v)) kvs\<rparr>\<rparr>)"
proof -
  define f where "f = (\<lambda>(field :: string, d) (i :: nat) val.
      if even i then (case val of GStr str \<Rightarrow> Some ((str, d), True) | _ \<Rightarrow> Some ((field, d), True))
      else (case val of
              GStr v \<Rightarrow> Some ((field, fst (sd_put d field (GBytes v))), True)
            | GBytes v \<Rightarrow> Some ((field, fst (sd_put d field (GBytes v))), True)
            | _ \<Rightarrow> Some ((field, d), True)))"
  have "\<exists>x. iter f i (hpairs kvs) (field, \<lparr>sd_m = m\<rparr>) = Some (x, \<lparr>sd_m = m @ map (\<lambda>(k, v). (k, GBytes v)) kvs\<rparr>)"
    if "even i" "distinct (map fst m @ map fst kvs)" for i field m
    using that
  proof (induction kvs arbitrary: i field m)
    case (Cons e kvs)
    obtain k v where e: "e = (k, v)" by (cases e)
    have "fst (sd_put \<lparr>sd_m = m\<rparr> k (GBytes v)) = \<lparr>sd_m = m @ [(k, GBytes v)]\<rparr>"
      using Cons.prems(2) e by (simp add: sd_put_def Let_def gmap_set_new)
    then have "f (k, \<lparr>sd_m = m\<rparr>) (Suc i) (GStr v) = Some ((k, \<lparr>sd_m = m @ [(k, GBytes v)]\<rparr>), True)"
      using Cons.prems(1) by (simp add: f_def)
    moreover have "f (field, \<lparr>sd_m = m\<rparr>) i (GStr k) = Some ((k, \<lparr>sd_m = m\<rparr>), True)"
      using Cons.prems(1) by (simp add: f_def)
    ultimately show ?case
      using Cons.IH [of "Suc (Suc i)" "m @ [(k, GBytes v)]" k] Cons.prems e by auto
  qed simp
  from this [of 0 "[]" "[]"] obtain x where
    "iter f 0 (hpairs kvs) ([], makeSimple) = Some (x, \<lparr>sd_m = map (\<lambda>(k, v). (k, GBytes v)) kvs\<rparr>)"
    using assms by (auto simp: hash_rep_def kvs_ok_def makeSimple_def)
  then show ?thesis
    using assms by (simp add: hash_convertToHashtable_def hash_rep_def f_def [symmetric])
qed

lemma hash_convert_spec:
  assumes "hash_rep h kvs"
  shows "\<exists>h'. hash_convertToHashtable h = Some h' \<and> hash_inv t h' \<and> hash_abs h' = map_of kvs \<and>
    \<not> h_isListpack h' \<and> h_fieldExpire h' = h_fieldExpire h"
proof -
  let ?h = "h\<lparr>h_listpack := None, h_isListpack := False, h_hashtable := Some \<lparr>sd_m = map (\<lambda>(k, v). (k, GBytes v)) kvs\<rparr>\<rparr>"
  have "hash_abs ?h = map_of (map (\<lambda>(k, v). (k, val_str v)) (map (\<lambda>(k, v). (k, GBytes v)) kvs))"
    by (simp add: hash_abs_def hash_entries_ht)
  also have "map (\<lambda>(k, v). (k, val_str v)) (map (\<lambda>(k, v). (k, GBytes v)) kvs) = kvs"
    by (induction kvs) (auto simp: val_str_def)
  finally have "hash_abs ?h = map_of kvs" .
  moreover have "distinct (map fst (map (\<lambda>(k, v). (k, GBytes v)) kvs))"
    using assms by (simp add: hash_rep_def kvs_ok_def comp_def split_beta)
  then have "hash_inv t ?h" by (simp add: hash_inv_def sd_inv_def del: map_map)
  ultimately show ?thesis unfolding hash_convert_eq [OF assms] by simp
qed

text \<open>After a write: the pairs stay in a listpack inside the thresholds, or move to the dict.\<close>

lemma hash_maybeConvert_spec:
  assumes "kvs_ok kvs" "h_isListpack h" "lp_bounds t kvs0" "\<forall>(k, v) \<in> set kvs. (k, v) \<in> set kvs0 \<or> (k, v) = (field, val_str val)"
    "h' = h\<lparr>h_listpack := Some (lp_of (hpairs kvs))\<rparr>"
  shows "\<exists>h''. hash_maybeConvert t h' field val = Some h'' \<and> hash_inv t h'' \<and> hash_abs h'' = map_of kvs \<and>
    h_fieldExpire h'' = h_fieldExpire h"
proof -
  have rep: "hash_rep h' kvs" using assms by (simp add: hash_rep_def)
  have el: "elemLen val = int (length (val_str val))" by (cases val) (simp_all add: elemLen_def val_str_def)
  show ?thesis
  proof (cases "int (length kvs) > hashMaxListpackEntries t \<or> int (length field) > hashMaxListpackValue t \<or>
      int (length (val_str val)) > hashMaxListpackValue t")
    case True
    then show ?thesis
      using hash_convert_spec [OF rep, of t] rep assms(5) by (auto simp: hash_maybeConvert_def hash_rep_def el)
  next
    case False
    then have "lp_bounds t kvs" using assms(3,4) unfolding lp_bounds_def by fastforce
    then have "hash_inv t h'" using rep assms(2,5) by (auto simp: hash_inv_def)
    then show ?thesis
      using False rep assms(5) hash_abs_lp [OF rep] by (auto simp: hash_maybeConvert_def hash_rep_def el)
  qed
qed

section \<open>Refinement of a finite map\<close>

lemma hash_cases:
  assumes "hash_inv t h"
  obtains (lp) kvs where "h_isListpack h" "hash_rep h kvs" "lp_bounds t kvs" "hash_abs h = map_of kvs"
    "h_listpack h = Some (lp_of (hpairs kvs))" "kvs_ok kvs"
  | (ht) d where "\<not> h_isListpack h" "h_hashtable h = Some d" "sd_inv d" "hash_abs h = map_option val_str \<circ> sd_abs d"
proof (cases "h_isListpack h")
  case True
  then obtain kvs where "hash_rep h kvs" "lp_bounds t kvs" using assms by (auto simp: hash_inv_def)
  then show thesis using lp True hash_abs_lp by (simp add: hash_rep_def)
next
  case False
  then show thesis using assms ht hash_abs_ht by (auto simp: hash_inv_def)
qed

lemma hash_ht_update:
  assumes "\<not> h_isListpack h" "sd_inv d" "h' = h\<lparr>h_hashtable := Some d\<rparr>"
  shows "hash_inv t h'" "hash_abs h' = map_option val_str \<circ> sd_abs d" "h_fieldExpire h' = h_fieldExpire h"
  using assms hash_abs_ht [of h' d] by (auto simp: hash_inv_def)

lemma map_option_upd: "map_option f \<circ> m(k := v) = (map_option f \<circ> m)(k := map_option f v)"
  by auto

lemma hash_get_spec:
  assumes "hash_inv t h"
  shows "\<exists>r. hash_get h k = Some r \<and> map_option val_str r = hash_abs h k"
  using assms
proof (cases rule: hash_cases)
  case (lp kvs)
  then show ?thesis using hash_get_from_eq [of "[]" kvs k]
    by (simp add: hash_get_def option.map_comp comp_def val_str_def option.map_ident)
next
  case (ht d)
  then show ?thesis by (simp add: hash_get_def sd_get_def sd_abs_def)
qed

lemma set_gmap_set: "\<forall>(k', v') \<in> set (gmap_set k v m). (k', v') \<in> set m \<or> (k', v') = (k, v)"
  by (induction k v m rule: gmap_set.induct) auto

lemma hash_put_listpack:
  assumes "h_isListpack h" "h_listpack h = Some (lp_of (hpairs kvs))" "kvs_ok kvs" "lp_bounds t kvs" "go_str k" "go_str (val_str v)"
  shows "\<exists>h'. hash_maybeConvert t (h\<lparr>h_listpack := Some (lp_of (hpairs (gmap_set k (val_str v) kvs)))\<rparr>) k v = Some h' \<and>
    hash_inv t h' \<and> hash_abs h' = (map_of kvs)(k \<mapsto> val_str v) \<and> h_fieldExpire h' = h_fieldExpire h"
  using hash_maybeConvert_spec [OF kvs_ok_gmap_set [OF assms(3,5,6)] assms(1,4) set_gmap_set refl] by simp

lemma hash_put_spec:
  assumes "hash_inv t h" "go_str k" "go_str (val_str v)"
  shows "\<exists>h'. hash_put t h k v = Some (h', if k \<in> dom (hash_abs h) then 0 else 1) \<and> hash_inv t h' \<and>
    hash_abs h' = (hash_abs h)(k \<mapsto> val_str v) \<and> h_fieldExpire h' = h_fieldExpire h"
  using assms(1)
proof (cases rule: hash_cases)
  case (lp kvs)
  note P = hash_put_listpack [OF lp(1,5,6,3) assms(2,3)]
  have kd: "k \<in> fst ` set kvs \<longleftrightarrow> k \<in> dom (hash_abs h)" using lp(4) by (simp add: dom_map_of_conv_image_fst)
  show ?thesis
  proof (cases "k \<in> fst ` set kvs")
    case True
    then have "rebuildListpackWithUpdate (lp_of (hpairs kvs)) k v = Some (lp_of (hpairs (gmap_set k (val_str v) kvs)))"
      using rebuild_eq [OF lp(6)] update_eq_gmap_set [of kvs k] lp(6) by (simp add: kvs_ok_def)
    then show ?thesis using P True kd lp by (auto simp: hash_put_def hash_found_eq)
  next
    case False
    then have "appendValue (lp_appendStr (lp_of (hpairs kvs)) k) v = lp_of (hpairs (gmap_set k (val_str v) kvs))"
      by (simp add: gmap_set_new)
    then show ?thesis using P False kd lp by (auto simp: hash_put_def hash_found_eq simp del: lp_build)
  qed
next
  case (ht d)
  obtain d' where d': "sd_put d k v = (d', if k \<in> dom (sd_abs d) then 0 else 1)" "sd_inv d'" "sd_abs d' = (sd_abs d)(k \<mapsto> v)"
    using sd.put [OF ht(3) lessI, of k v] by (auto simp: simple_Dict_def)
  note U = hash_ht_update [OF ht(1) d'(2) refl]
  show ?thesis using ht d' U by (simp add: hash_put_def map_option_upd dom_def)
qed

lemma hash_putIfAbsent_spec:
  assumes "hash_inv t h" "go_str k" "go_str (val_str v)"
  shows "\<exists>h'. hash_putIfAbsent t h k v = Some (h', if k \<in> dom (hash_abs h) then 0 else 1) \<and> hash_inv t h' \<and>
    hash_abs h' = (if k \<in> dom (hash_abs h) then hash_abs h else (hash_abs h)(k \<mapsto> val_str v)) \<and>
    h_fieldExpire h' = h_fieldExpire h"
  using assms(1)
proof (cases rule: hash_cases)
  case (lp kvs)
  note P = hash_put_listpack [OF lp(1,5,6,3) assms(2,3)]
  have kd: "k \<in> fst ` set kvs \<longleftrightarrow> k \<in> dom (hash_abs h)" using lp(4) by (simp add: dom_map_of_conv_image_fst)
  show ?thesis
  proof (cases "k \<in> fst ` set kvs")
    case True
    then show ?thesis using assms(1) kd lp by (auto simp: hash_putIfAbsent_def hash_found_eq)
  next
    case False
    then have "appendValue (lp_appendStr (lp_of (hpairs kvs)) k) v = lp_of (hpairs (gmap_set k (val_str v) kvs))"
      by (simp add: gmap_set_new)
    then show ?thesis using P False kd lp by (auto simp: hash_putIfAbsent_def hash_found_eq simp del: lp_build)
  qed
next
  case (ht d)
  obtain d' where d': "sd_putIfAbsent d k v = (d', if k \<in> dom (sd_abs d) then 0 else 1)" "sd_inv d'"
      "sd_abs d' = (if k \<in> dom (sd_abs d) then sd_abs d else (sd_abs d)(k \<mapsto> v))"
    using sd.putIfAbsent [OF ht(3) lessI, of k v] by (auto simp: simple_Dict_def)
  note U = hash_ht_update [OF ht(1) d'(2) refl]
  show ?thesis using ht d' U by (auto simp: hash_putIfAbsent_def map_option_upd)
qed

lemma hash_remove_spec:
  assumes "hash_inv t h"
  shows "\<exists>h' r. hash_remove h k = Some (h', r) \<and> (r = None \<longleftrightarrow> k \<notin> dom (hash_abs h)) \<and> hash_inv t h' \<and>
    hash_abs h' = (hash_abs h)(k := None) \<and> h_fieldExpire h' = h_fieldExpire h"
  using assms
proof (cases rule: hash_cases)
  case (lp kvs)
  let ?h = "h\<lparr>h_listpack := Some (lp_of (hpairs (gmap_delete k kvs)))\<rparr>"
  have rep: "hash_rep ?h (gmap_delete k kvs)" using lp by (simp add: hash_rep_def)
  have "int (length (gmap_delete k kvs)) \<le> int (length kvs)" by (simp add: gmap_delete_def)
  moreover have "set (gmap_delete k kvs) \<subseteq> set kvs" by (auto simp: gmap_delete_def)
  ultimately have "lp_bounds t (gmap_delete k kvs)" using lp(3) unfolding lp_bounds_def by fastforce
  then have "hash_inv t ?h" using rep lp(1) by (auto simp: hash_inv_def)
  moreover have "hash_abs ?h = (hash_abs h)(k := None)" using hash_abs_lp [OF rep] lp(4) by simp
  moreover have "(hash_abs h)(k := None) = hash_abs h" if "k \<notin> dom (hash_abs h)" using that by auto
  moreover have "k \<in> fst ` set kvs \<longleftrightarrow> k \<in> dom (hash_abs h)" using lp(4) by (simp add: dom_map_of_conv_image_fst)
  ultimately show ?thesis
    using assms lp hash_remove_from_eq [of "[]" kvs k "[]" False]
    by (cases "k \<in> dom (hash_abs h)") (auto simp: hash_remove_def)
next
  case (ht d)
  obtain d' where d': "sd_remove d k = (d', sd_abs d k)" "sd_inv d'" "sd_abs d' = (sd_abs d)(k := None)"
    using sd.remove [OF ht(3), of k] by (auto simp: simple_Dict_def)
  note U = hash_ht_update [OF ht(1) d'(2) refl]
  show ?thesis using ht d' U by (simp add: hash_remove_def map_option_upd dom_def)
qed

lemma hash_entries_spec:
  assumes "hash_inv t h"
  shows "distinct (map fst (hash_entries h)) \<and> hash_len h = Some (length (hash_entries h)) \<and>
    hash_keys h = Some (map fst (hash_entries h))"
  using assms
proof (cases rule: hash_cases)
  case (lp kvs)
  then show ?thesis
    by (simp add: hash_entries_lp hash_len_def kvs_ok_def hash_keys_def hash_forEach_lp iter_keys)
next
  case (ht d)
  have "map fst (map (\<lambda>(k, v). (k, val_str v)) (sd_m d)) = map fst (sd_m d)" by (induction "sd_m d") auto
  then show ?thesis
    using ht by (simp add: hash_entries_ht hash_len_def sd_inv_def sd_len_def hash_keys_def hash_forEach_def
        sd_forEach_def iter_keys del: map_map)
qed

section \<open>Scans and expiry\<close>

definition scan_pair :: "matcher \<Rightarrow> (string \<rightharpoonup> string) \<Rightarrow> string list \<Rightarrow> nat \<Rightarrow> string list" where
  "scan_pair m f keys i =
     (if m (keys ! i) then (case f (keys ! i) of None \<Rightarrow> [] | Some v \<Rightarrow> [keys ! i, v]) else [])"

lemma hash_scan_loop_spec:
  assumes "hash_inv t h" "i \<le> length keys"
  shows "\<exists>c'. i \<le> c' \<and> c' \<le> length keys \<and> (i < length keys \<and> int (length res) < wrap64 (cnt * 2) \<longrightarrow> i < c') \<and>
    hash_scan_loop h m keys cnt (int i) res =
      Some (res @ concat (map (scan_pair m (hash_abs h) keys) [i..<c']), if c' = length keys then 0 else int c')"
  using assms(2)
proof (induction "length keys - i" arbitrary: i res)
  case 0
  then show ?case by (intro exI [of _ i]) (simp add: hash_scan_loop.simps [of _ _ _ _ "int i"])
next
  case (Suc n)
  have lt: "i < length keys" using Suc.hyps(2) by simp
  show ?case
  proof (cases "int (length res) < wrap64 (cnt * 2)")
    case False
    then show ?thesis using lt by (intro exI [of _ i]) (simp add: hash_scan_loop.simps [of _ _ _ _ "int i"])
  next
    case True
    let ?r = "res @ scan_pair m (hash_abs h) keys i"
    obtain r where r: "hash_get h (keys ! i) = Some r" "map_option val_str r = hash_abs h (keys ! i)"
      using hash_get_spec [OF assms(1)] by blast
    have unf: "hash_scan_loop h m keys cnt (int i) res = hash_scan_loop h m keys cnt (int (Suc i)) ?r"
      using True lt r(1) unfolding hash_scan_loop.simps [of _ _ _ _ "int i"] scan_pair_def r(2) [symmetric]
      by (cases r) (simp_all add: add.commute)
    have "n = length keys - Suc i" "Suc i \<le> length keys" using Suc.hyps(2) by auto
    then obtain c' where c': "Suc i \<le> c'" "c' \<le> length keys"
      "hash_scan_loop h m keys cnt (int (Suc i)) ?r =
        Some (?r @ concat (map (scan_pair m (hash_abs h) keys) [Suc i..<c']), if c' = length keys then 0 else int c')"
      using Suc.hyps(1) [of "Suc i" ?r] by blast
    then have "[i..<c'] = i # [Suc i..<c']" by (simp add: upt_conv_Cons)
    then show ?thesis using c' unf by (intro exI [of _ c']) (simp del: upt_Suc)
  qed
qed

definition hash_scan_ok :: "(string \<Rightarrow> matcher option) \<Rightarrow> thresholds \<Rightarrow> hash \<times> int \<times> string \<Rightarrow> nat \<Rightarrow> bool" where
  "hash_scan_ok regexp t = (\<lambda>(h, cnt, pat) c. hash_inv t h \<and> 1 \<le> cnt \<and> cnt < 2 ^ 62 \<and>
     compilePattern regexp pat \<noteq> None \<and> c < length (hash_entries h))"

interpretation hs: cursor_scan "\<lambda>(h, cnt, pat) c. hash_scan regexp h c cnt pat"
    "\<lambda>(h, cnt, pat). scan_pair (scan_match regexp pat) (hash_abs h) (sort (map fst (hash_entries h)))"
    "\<lambda>(h, cnt, pat). length (hash_entries h)" "hash_scan_ok regexp t" for regexp t
proof (unfold_locales, goal_cases)
  case (1 x c)
  obtain h cnt pat where x: "x = (h, cnt, pat)" by (cases x)
  have ok: "hash_inv t h" "1 \<le> cnt" "cnt < 2 ^ 62" "compilePattern regexp pat \<noteq> None" "c < length (hash_entries h)"
    using 1 x by (auto simp: hash_scan_ok_def)
  let ?keys = "sort (map fst (hash_entries h))"
  have w: "wrap64 (cnt * 2) = cnt * 2" using ok(2,3) by (intro wrap64_id) (simp add: int64_def)
  have "length ?keys = length (hash_entries h)" by simp
  then have ne: "?keys \<noteq> []" using ok(5) by (cases ?keys) auto
  obtain c' where c': "c \<le> c'" "c' \<le> length ?keys" "c < length ?keys \<and> 0 < wrap64 (cnt * 2) \<longrightarrow> c < c'"
    "hash_scan_loop h (scan_match regexp pat) ?keys cnt (int c) [] =
      Some (concat (map (scan_pair (scan_match regexp pat) (hash_abs h) ?keys) [c..<c']), if c' = length ?keys then 0 else int c')"
    using hash_scan_loop_spec [OF ok(1), of c ?keys "[]" cnt "scan_match regexp pat"] ok(5) by auto
  have "hash_scan regexp h (int c) cnt pat = hash_scan_loop h (scan_match regexp pat) ?keys cnt (int c) []"
    using hash_entries_spec [OF ok(1)] ne ok(4) by (auto simp: hash_scan_def Let_def)
  then show ?case
    using c' ok w unfolding x by (intro exI [of _ c']) (auto simp: hash_scan_ok_def)
qed

lemma purge_fields_spec:
  assumes "hash_inv t h"
  shows "\<exists>h'. purge_fields es now h = Some (h', map fst (filter (\<lambda>(f, e). e \<le> now) es)) \<and> hash_inv t h' \<and>
    hash_abs h' = hash_abs h |` (- fst ` set (filter (\<lambda>(f, e). e \<le> now) es)) \<and>
    h_fieldExpire h' = filter (\<lambda>(f, _). f \<notin> fst ` set (filter (\<lambda>(f, e). e \<le> now) es)) (h_fieldExpire h)"
  using assms
proof (induction es now h rule: purge_fields.induct)
  case (2 field e rest now h)
  show ?case
  proof (cases "e \<le> now")
    case True
    let ?dead = "fst ` set (filter (\<lambda>(f, e). e \<le> now) rest)"
    obtain h1 r where h1: "hash_remove h field = Some (h1, r)" "hash_inv t h1"
        "hash_abs h1 = (hash_abs h)(field := None)" "h_fieldExpire h1 = h_fieldExpire h"
      using hash_remove_spec [OF "2.prems"] by blast
    let ?h2 = "h1\<lparr>h_fieldExpire := gmap_delete field (h_fieldExpire h1)\<rparr>"
    have same: "hash_inv t ?h2" "hash_abs ?h2 = hash_abs h1"
      using h1(2) by (auto simp: hash_inv_def hash_rep_def hash_abs_def hash_entries_def hash_forEach_def)
    have IH: "\<exists>h'. purge_fields rest now ?h2 = Some (h', map fst (filter (\<lambda>(f, e). e \<le> now) rest)) \<and> hash_inv t h' \<and>
        hash_abs h' = hash_abs ?h2 |` (- ?dead) \<and>
        h_fieldExpire h' = filter (\<lambda>(f, _). f \<notin> ?dead) (h_fieldExpire ?h2)"
      using "2.IH"(1) [OF True h1(1) refl same(1)] .
    have "((hash_abs h)(field := None)) |` (- ?dead) = hash_abs h |` (- insert field ?dead)"
      by (auto simp: restrict_map_def fun_eq_iff)
    moreover have "filter (\<lambda>(f, _). f \<notin> ?dead) (gmap_delete field fs) = filter (\<lambda>(f, _). f \<notin> insert field ?dead) fs" for fs
      by (induction fs) (auto simp: gmap_delete_def)
    ultimately show ?thesis using True IH h1 same(2) by auto
  next
    case False
    then show ?thesis using "2.IH"(2) [OF False "2.prems"] by simp
  qed
qed (simp add: restrict_map_def)

lemma newHash_spec: "thresholds_ok t \<Longrightarrow> hash_inv t newHash" "hash_abs newHash = Map.empty"
proof -
  have rep: "hash_rep newHash []" by (simp add: newHash_def hash_rep_def kvs_ok_def)
  then show "thresholds_ok t \<Longrightarrow> hash_inv t newHash"
    by (auto simp: hash_inv_def hash_rep_def lp_bounds_def thresholds_ok_def intro: exI [of _ "[]"])
  show "hash_abs newHash = Map.empty" using hash_abs_lp [OF rep] by simp
qed

lemma hash_listpack_small: "hash_inv t h \<Longrightarrow> h_isListpack h \<Longrightarrow> int (card (dom (hash_abs h))) \<le> hashMaxListpackEntries t"
  by (auto simp: hash_inv_def hash_abs_lp hash_rep_def kvs_ok_def lp_bounds_def map_of_card)

lemma default_ok: "thresholds_ok defaultEncodingThresholds"
  by (simp add: thresholds_ok_def defaultEncodingThresholds_def)

section \<open>Properties\<close>

text \<open>C13. In either encoding a hash object behaves like a finite map from fields to values: \<open>Get\<close>, \<open>Len\<close>, \<open>Put\<close>,
  \<open>PutIfAbsent\<close> and \<open>Remove\<close> agree with the map, none of these five panics, the
  invariant is kept across the conversion from listpack to hashtable, expiry times are left
  alone, and a hash that is still a listpack never holds more fields than the threshold.\<close>

theorem hash_refines_map:
  assumes "hash_inv t h" "go_str k" "go_str (val_str v)"
  shows "(\<exists>r. hash_get h k = Some r \<and> map_option val_str r = hash_abs h k) \<and>
    hash_len h = Some (card (dom (hash_abs h))) \<and>
    (\<exists>h'. hash_put t h k v = Some (h', if k \<in> dom (hash_abs h) then 0 else 1) \<and> hash_inv t h' \<and>
       hash_abs h' = (hash_abs h)(k \<mapsto> val_str v) \<and> h_fieldExpire h' = h_fieldExpire h \<and>
       (h_isListpack h' \<longrightarrow> int (card (dom (hash_abs h'))) \<le> hashMaxListpackEntries t)) \<and>
    (\<exists>h'. hash_putIfAbsent t h k v = Some (h', if k \<in> dom (hash_abs h) then 0 else 1) \<and> hash_inv t h' \<and>
       hash_abs h' = (if k \<in> dom (hash_abs h) then hash_abs h else (hash_abs h)(k \<mapsto> val_str v))) \<and>
    (\<exists>h' r. hash_remove h k = Some (h', r) \<and> (r = None \<longleftrightarrow> k \<notin> dom (hash_abs h)) \<and> hash_inv t h' \<and>
       hash_abs h' = (hash_abs h)(k := None))"
proof (intro conjI)
  show "\<exists>r. hash_get h k = Some r \<and> map_option val_str r = hash_abs h k" using hash_get_spec [OF assms(1)] .
  show "hash_len h = Some (card (dom (hash_abs h)))"
    using hash_entries_spec [OF assms(1)] by (simp add: hash_abs_def map_of_card)
  show "\<exists>h'. hash_put t h k v = Some (h', if k \<in> dom (hash_abs h) then 0 else 1) \<and> hash_inv t h' \<and>
       hash_abs h' = (hash_abs h)(k \<mapsto> val_str v) \<and> h_fieldExpire h' = h_fieldExpire h \<and>
       (h_isListpack h' \<longrightarrow> int (card (dom (hash_abs h'))) \<le> hashMaxListpackEntries t)"
    using hash_put_spec [OF assms] hash_listpack_small by blast
  show "\<exists>h'. hash_putIfAbsent t h k v = Some (h', if k \<in> dom (hash_abs h) then 0 else 1) \<and> hash_inv t h' \<and>
       hash_abs h' = (if k \<in> dom (hash_abs h) then hash_abs h else (hash_abs h)(k \<mapsto> val_str v))"
    using hash_putIfAbsent_spec [OF assms] by blast
  show "\<exists>h' r. hash_remove h k = Some (h', r) \<and> (r = None \<longleftrightarrow> k \<notin> dom (hash_abs h)) \<and> hash_inv t h' \<and>
       hash_abs h' = (hash_abs h)(k := None)"
    using hash_remove_spec [OF assms(1)] by blast
qed

theorem hash_refines_map_witness:
  "\<exists>h'. hash_put defaultEncodingThresholds newHash ''f'' (GBytes ''v'') = Some (h', 1) \<and> hash_abs h' = [''f'' \<mapsto> ''v'']"
  using hash_refines_map [OF newHash_spec(1) [OF default_ok], of "''f''" "GBytes ''v''"] newHash_spec(2)
  by (auto simp: go_str_def val_str_def)

text \<open>A hash of two fields.\<close>

lemma two_fields:
  obtains h where "hash_inv defaultEncodingThresholds h" "hash_abs h = [''f'' \<mapsto> ''v'', ''gg'' \<mapsto> ''w'']"
    "h_fieldExpire h = []" "length (hash_entries h) = 2"
proof -
  let ?t = defaultEncodingThresholds
  obtain h1 where h1: "hash_inv ?t h1" "hash_abs h1 = [''f'' \<mapsto> ''v'']" "h_fieldExpire h1 = []"
    using hash_put_spec [OF newHash_spec(1) [OF default_ok], of "''f''" "GBytes ''v''"] newHash_spec(2)
    by (auto simp: go_str_def val_str_def newHash_def)
  then obtain h where h: "hash_inv ?t h" "hash_abs h = [''f'' \<mapsto> ''v'', ''gg'' \<mapsto> ''w'']" "h_fieldExpire h = []"
    using hash_put_spec [OF h1(1), of "''gg''" "GBytes ''w''"] by (auto simp: go_str_def val_str_def)
  have "length (hash_entries h) = card (dom (hash_abs h))"
    using hash_entries_spec [OF h(1)] by (simp add: hash_abs_def map_of_card)
  then show thesis using that h by (simp add: insert_commute)
qed

text \<open>C20. Following the cursors of \<open>Scan\<close> from 0 over an unchanged hash, with a count of at least 1 and below
  \<open>2 ^ 62\<close> and a pattern that compiles, ends after at most one call per field and yields every field that matches the
  pattern exactly once, each followed by its value.\<close>

theorem hash_full_scan:
  assumes "hash_inv t h" "1 \<le> cnt" "cnt < 2 ^ 62" "compilePattern regexp pat \<noteq> None" "length (hash_entries h) < fuel"
  shows "\<exists>ps. scan_loop (\<lambda>(h, cnt, pat) c. hash_scan regexp h c cnt pat) (h, cnt, pat) fuel 0 [] =
      Some (concat (map (\<lambda>(k, v). [k, v]) ps)) \<and>
    distinct (map fst ps) \<and> map_of ps = hash_abs h |` {k. scan_match regexp pat k}"
proof (cases "hash_entries h = []")
  case True
  then have "hash_scan regexp h 0 cnt pat = Some ([], 0)"
    using hash_entries_spec [OF assms(1)] by (simp add: hash_scan_def)
  then show ?thesis
    using True assms(5) by (cases fuel) (auto simp: hash_abs_def intro: exI [of _ "[]"])
next
  case False
  let ?m = "scan_match regexp pat" and ?keys = "sort (map fst (hash_entries h))"
  let ?ps = "map (\<lambda>k. (k, the (hash_abs h k))) (filter ?m ?keys)"
  have ds: "distinct ?keys" using hash_entries_spec [OF assms(1)] by simp
  have dom: "set ?keys = dom (hash_abs h)" by (simp add: hash_abs_def dom_map_of_conv_image_fst)
  have "concat (map (scan_pair ?m (hash_abs h) ?keys) [0..<length ?keys]) =
      concat (map (\<lambda>k. if ?m k then (case hash_abs h k of None \<Rightarrow> [] | Some v \<Rightarrow> [k, v]) else []) ?keys)"
    unfolding scan_pair_def by (rule concat_map_nth)
  also have "\<dots> = concat (map (\<lambda>(k, v). [k, v]) ?ps)"
  proof -
    have "concat (map (\<lambda>k. if ?m k then (case hash_abs h k of None \<Rightarrow> [] | Some v \<Rightarrow> [k, v]) else []) ks) =
        concat (map (\<lambda>(k, v). [k, v]) (map (\<lambda>k. (k, the (hash_abs h k))) (filter ?m ks)))"
      if "set ks \<subseteq> dom (hash_abs h)" for ks
      using that by (induction ks) auto
    then show ?thesis using dom by blast
  qed
  finally have "scan_loop (\<lambda>(h, cnt, pat) c. hash_scan regexp h c cnt pat) (h, cnt, pat) fuel 0 [] =
      Some (concat (map (\<lambda>(k, v). [k, v]) ?ps))"
    using hs.loop_complete [of regexp t "(h, cnt, pat)" fuel] assms False by (simp add: hash_scan_ok_def)
  moreover have "map_of ?ps = hash_abs h |` {k. ?m k}"
  proof
    fix k
    have "map_of (map (\<lambda>k. (k, the (hash_abs h k))) ks) k = (if k \<in> set ks then Some (the (hash_abs h k)) else None)" for ks
      by (induction ks) auto
    then show "map_of ?ps k = (hash_abs h |` {k. ?m k}) k" using dom by (auto simp: restrict_map_def)
  qed
  moreover have "distinct (map fst ?ps)" using ds by (simp add: comp_def)
  ultimately show ?thesis by blast
qed

theorem hash_full_scan_witness:
  "\<exists>h. hash_abs h = [''f'' \<mapsto> ''v'', ''gg'' \<mapsto> ''w''] \<and>
     scan_loop (\<lambda>(h, cnt, pat) c. hash_scan (\<lambda>_. Some (\<lambda>k. length k = 1)) h c cnt pat) (h, 1, ''?'') 3 0 [] = Some [''f'', ''v'']"
proof -
  let ?re = "\<lambda>_ :: string. Some (\<lambda>k :: string. length k = 1)"
  obtain h where h: "hash_inv defaultEncodingThresholds h" "hash_abs h = [''f'' \<mapsto> ''v'', ''gg'' \<mapsto> ''w'']"
      "length (hash_entries h) = 2" by (rule two_fields)
  have c: "compilePattern ?re ''?'' = Some (\<lambda>k. length k = 1)" by (simp add: compilePattern_def regex_src_mark)
  obtain ps where ps: "scan_loop (\<lambda>(h, cnt, pat) c. hash_scan ?re h c cnt pat) (h, 1, ''?'') 3 0 [] =
      Some (concat (map (\<lambda>(k, v). [k, v]) ps))" "distinct (map fst ps)" "map_of ps = hash_abs h |` {k. scan_match ?re ''?'' k}"
    using hash_full_scan [OF h(1), of 1 ?re "''?''" 3] h(3) c by auto
  have "map_of ps = [''f'' \<mapsto> ''v'']" unfolding ps(3) h(2)
    by (auto simp: scan_match_def compilePattern_def regex_src_mark restrict_map_def fun_eq_iff)
  then have "(k, v) \<in> set ps \<longleftrightarrow> (k, v) = (''f'', ''v'')" for k v
    using map_of_eq_Some_iff [OF ps(2), of k v] by (auto split: if_splits)
  then have "set ps = {(''f'', ''v'')}" by auto
  moreover have "length ps = card (set ps)" using ps(2) by (simp add: distinct_card distinct_map)
  ultimately have "set ps = {(''f'', ''v'')}" "length ps = Suc 0" by simp_all
  then have "ps = [(''f'', ''v'')]" by (cases ps) simp_all
  then show ?thesis using h(2) ps(1) by (intro exI [of _ h]) simp
qed

text \<open>C22. \<open>PurgeExpiredFields\<close> removes exactly the fields whose expiry time has come, from the data and
  from the expiry table, and reports them; every other field keeps its value and its expiry.\<close>

theorem purge_removes_expired:
  assumes "hash_inv t h" "distinct (map fst (h_fieldExpire h))"
  shows "\<exists>h' expired. purgeExpiredFields h now = Some (h', expired) \<and> hash_inv t h' \<and>
    set expired = {f. \<exists>e \<le> now. fieldExpire h f = Some e} \<and>
    (\<forall>f. hash_abs h' f = (if f \<in> set expired then None else hash_abs h f)) \<and>
    (\<forall>f. fieldExpire h' f = (if f \<in> set expired then None else fieldExpire h f))"
proof -
  let ?es = "h_fieldExpire h"
  let ?dead = "fst ` set (filter (\<lambda>(f, e). e \<le> now) ?es)"
  obtain h' where h': "purgeExpiredFields h now = Some (h', map fst (filter (\<lambda>(f, e). e \<le> now) ?es))" "hash_inv t h'"
      "hash_abs h' = hash_abs h |` (- ?dead)" "h_fieldExpire h' = filter (\<lambda>(f, _). f \<notin> ?dead) ?es"
    using purge_fields_spec [OF assms(1)] unfolding purgeExpiredFields_def by blast
  have dead: "?dead = {f. \<exists>e \<le> now. fieldExpire h f = Some e}"
    using assms(2) by (force simp: fieldExpire_def dest: map_of_SomeD)
  have "map_of (filter (\<lambda>(f, _). f \<notin> A) es) f = (if f \<in> A then None else map_of es f)" for f A and es :: "(string \<times> int) list"
    by (induction es) auto
  then have fe: "fieldExpire h' f = (if f \<in> ?dead then None else fieldExpire h f)" for f
    unfolding fieldExpire_def h'(4) by blast
  have "set (map fst (filter (\<lambda>(f, e). e \<le> now) ?es)) = ?dead" by simp
  with h'(1-3) fe dead show ?thesis
    by (intro exI [of _ h'] exI [of _ "map fst (filter (\<lambda>(f, e). e \<le> now) ?es)"] conjI)
      (auto simp: restrict_map_def simp del: set_filter)
qed

theorem purge_removes_expired_witness:
  "\<exists>h h' expired. hash_abs h = [''f'' \<mapsto> ''v'', ''gg'' \<mapsto> ''w''] \<and>
     purgeExpiredFields (setFieldExpire h ''f'' 5) 7 = Some (h', expired) \<and> set expired = {''f''} \<and>
     hash_abs h' = [''gg'' \<mapsto> ''w''] \<and> fieldExpire h' ''f'' = None"
proof -
  obtain h where h: "hash_inv defaultEncodingThresholds h" "hash_abs h = [''f'' \<mapsto> ''v'', ''gg'' \<mapsto> ''w'']"
      "h_fieldExpire h = []" by (rule two_fields)
  let ?h = "setFieldExpire h ''f'' 5"
  have fe: "h_fieldExpire ?h = [(''f'', 5)]" by (simp add: setFieldExpire_def h(3))
  have inv: "hash_inv defaultEncodingThresholds ?h"
    using h(1) by (auto simp: hash_inv_def hash_rep_def setFieldExpire_def)
  have abs: "hash_abs ?h = hash_abs h" by (simp add: hash_abs_def hash_entries_def hash_forEach_def setFieldExpire_def)
  obtain h' ex where h': "purgeExpiredFields ?h 7 = Some (h', ex)" "set ex = {f. \<exists>e \<le> 7. fieldExpire ?h f = Some e}"
      "\<forall>f. hash_abs h' f = (if f \<in> set ex then None else hash_abs ?h f)"
      "\<forall>f. fieldExpire h' f = (if f \<in> set ex then None else fieldExpire ?h f)"
    using purge_removes_expired [OF inv, of 7] fe by auto
  have ex: "set ex = {''f''}" unfolding h'(2) by (auto simp: fieldExpire_def fe split: if_splits)
  have "hash_abs h' = [''gg'' \<mapsto> ''w'']" using h'(3) by (auto simp: ex abs h(2))
  then show ?thesis using h(2) h'(1,4) ex by auto
qed

end
