(* ===== verification/SetObj.thy ===== *)
theory SetObj
  imports RObject Listpack Intset SimpleDict Scan "HOL-Library.List_Lexorder" "HOL-Library.Char_ord"
begin

text \<open>
  The set object of \<^verbatim>\<open>internal/object/encoding.go\<close>: an intset while all members are canonical
  integers, a listpack of member texts while it is small, a map-backed dict otherwise. A nil
  receiver is \<open>None\<close>. The operations refine those of a finite set of strings in every encoding;
  the random picks are driven by the linear congruential generator \<open>simpleRand\<close>, whose seed, a
  global of the server, is passed explicitly.
\<close>

section \<open>The object\<close>

record setobj =
  so_intset :: "intset option"
  so_listpack :: "listpack option"
  so_hashtable :: "gany simpleDict option"
  so_encoding :: string

definition newSet :: setobj where
  "newSet = \<lparr>so_intset = Some newIntset, so_listpack = None, so_hashtable = None, so_encoding = ''intset''\<rparr>"

definition set_convertToListpack :: "setobj \<Rightarrow> setobj option" where
  "set_convertToListpack s =
     do { newLp \<leftarrow> is_range (so_intset s) (\<lambda>lp v. Some (lp_appendStr lp (formatInt64 v), True)) newListpack;
          Some (s\<lparr>so_listpack := Some newLp, so_encoding := ''listpack'', so_intset := None\<rparr>) }"

definition set_convertToHashtable :: "setobj \<Rightarrow> setobj option" where
  "set_convertToHashtable s =
     do { lp \<leftarrow> so_listpack s;
          newDict \<leftarrow> lp_range lp (\<lambda>d i val.
            case val of GStr str \<Rightarrow> Some (fst (sd_put d str GNil), True) | _ \<Rightarrow> Some (d, True)) makeSimple;
          Some (s\<lparr>so_hashtable := Some newDict, so_encoding := ''hashtable'', so_listpack := None\<rparr>) }"

definition lp_has :: "listpack \<Rightarrow> string \<Rightarrow> bool option" where
  "lp_has lp member =
     lp_range lp (\<lambda>found i val. if val = GStr member then Some (True, False) else Some (found, True)) False"

definition ht_add :: "setobj \<Rightarrow> string \<Rightarrow> (setobj \<times> nat) option" where
  "ht_add s member =
     do { d \<leftarrow> so_hashtable s;
          let (d', n) = sd_put d member GNil;
          Some (s\<lparr>so_hashtable := Some d'\<rparr>, n) }"

text \<open>The listpack branch of \<open>Add\<close>, which the intset branch falls into after converting.\<close>

definition set_add_listpack :: "thresholds \<Rightarrow> setobj \<Rightarrow> string \<Rightarrow> (setobj \<times> nat) option" where
  "set_add_listpack t s member =
     do { lp \<leftarrow> so_listpack s;
          found \<leftarrow> lp_has lp member;
          if found then Some (s, 0)
          else if int (length member) > setMaxListpackValue t then
            do { s1 \<leftarrow> set_convertToHashtable s; ht_add s1 member }
          else
            (let lp1 = lp_appendStr lp member; s1 = s\<lparr>so_listpack := Some lp1\<rparr>
             in if int (lp_len lp1) > setMaxListpackEntries t
                then do { s2 \<leftarrow> set_convertToHashtable s1; Some (s2, 1) }
                else Some (s1, 1)) }"

definition set_add :: "thresholds \<Rightarrow> setobj option \<Rightarrow> string \<Rightarrow> (setobj option \<times> nat) option" where
  "set_add t so member =
     (case so of
        None \<Rightarrow> Some (None, 0)
      | Some s \<Rightarrow>
          map_option (\<lambda>(s', n). (Some s', n))
           (if so_encoding s = ''intset'' then
              (let (v, ok) = isInt member in
               if ok then
                 (let (is', added) = is_add (so_intset s) v; s1 = s\<lparr>so_intset := is'\<rparr> in
                  if added then
                    do { is1 \<leftarrow> is';
                         if int (is_len is1) > setMaxIntsetEntries t then
                           do { s2 \<leftarrow> set_convertToListpack s1;
                                lp \<leftarrow> so_listpack s2;
                                if int (lp_len lp) > setMaxListpackEntries t
                                then do { s3 \<leftarrow> set_convertToHashtable s2; Some (s3, 1) }
                                else Some (s2, 1) }
                         else Some (s1, 1) }
                  else Some (s1, 0))
               else do { s1 \<leftarrow> set_convertToListpack s; set_add_listpack t s1 member })
            else if so_encoding s = ''listpack'' then set_add_listpack t s member
            else ht_add s member))"

definition set_has :: "setobj option \<Rightarrow> string \<Rightarrow> bool option" where
  "set_has so member =
     (case so of
        None \<Rightarrow> Some False
      | Some s \<Rightarrow>
          if so_encoding s = ''intset'' then
            (let (v, ok) = isInt member in
             if ok then Some (is_contains (so_intset s) v) else Some False)
          else if so_encoding s = ''listpack'' then do { lp \<leftarrow> so_listpack s; lp_has lp member }
          else do { d \<leftarrow> so_hashtable s; Some (sd_get d member \<noteq> None) })"

definition set_remove :: "setobj option \<Rightarrow> string \<Rightarrow> (setobj option \<times> nat) option" where
  "set_remove so member =
     (case so of
        None \<Rightarrow> Some (None, 0)
      | Some s \<Rightarrow>
          if so_encoding s = ''intset'' then
            (let (v, ok) = isInt member in
             if ok then
               (let (is', removed) = is_remove (so_intset s) v
                in Some (Some (s\<lparr>so_intset := is'\<rparr>), if removed then 1 else 0))
             else Some (Some s, 0))
          else if so_encoding s = ''listpack'' then
            do { lp \<leftarrow> so_listpack s;
                 (newLp, removed) \<leftarrow> lp_range lp (\<lambda>(newLp, removed) i val.
                   case val of
                     GStr str \<Rightarrow> if str = member then Some ((newLp, True), True)
                                 else Some ((lp_appendStr newLp str, removed), True)
                   | _ \<Rightarrow> Some ((newLp, removed), True)) (newListpack, False);
                 if \<not> removed then Some (Some s, 0)
                 else Some (Some (s\<lparr>so_listpack := Some newLp\<rparr>), 1) }
          else
            do { d \<leftarrow> so_hashtable s;
                 let (d', v) = sd_remove d member;
                 Some (Some (s\<lparr>so_hashtable := Some d'\<rparr>), if v = None then 0 else 1) })"

definition set_len :: "setobj option \<Rightarrow> nat option" where
  "set_len so =
     (case so of
        None \<Rightarrow> Some 0
      | Some s \<Rightarrow>
          if so_encoding s = ''intset'' then do { is1 \<leftarrow> so_intset s; Some (is_len is1) }
          else if so_encoding s = ''listpack'' then do { lp \<leftarrow> so_listpack s; Some (lp_len lp) }
          else do { d \<leftarrow> so_hashtable s; Some (sd_len d) })"

definition set_forEach :: "setobj option \<Rightarrow> ('s \<Rightarrow> string \<Rightarrow> ('s \<times> bool) option) \<Rightarrow> 's \<Rightarrow> 's option" where
  "set_forEach so fn st =
     (case so of
        None \<Rightarrow> Some st
      | Some s \<Rightarrow>
          if so_encoding s = ''intset'' then is_range (so_intset s) (\<lambda>st v. fn st (formatInt64 v)) st
          else if so_encoding s = ''listpack'' then
            do { lp \<leftarrow> so_listpack s;
                 lp_range lp (\<lambda>st i val. case val of GStr str \<Rightarrow> fn st str | _ \<Rightarrow> Some (st, True)) st }
          else do { d \<leftarrow> so_hashtable s; sd_forEach d (\<lambda>st key val. fn st key) st })"

definition set_currentEncoding :: "setobj \<Rightarrow> encoding" where
  "set_currentEncoding s =
     (if so_encoding s = ''intset'' then EncIntset
      else if so_encoding s = ''listpack'' then EncListpack else EncHashtable)"

definition set_toSlice :: "setobj option \<Rightarrow> string list option" where
  "set_toSlice so =
     do { _ \<leftarrow> set_len so; set_forEach so (\<lambda>slice member. Some (slice @ [member], True)) [] }"

section \<open>Random members\<close>

definition simpleRand :: "nat \<Rightarrow> nat \<times> nat" where
  "simpleRand seed = (let seed' = (seed * 1103515245 + 12345) mod 2 ^ 32 in (seed', seed'))"

text \<open>\<open>x % uint32(n)\<close>: the conversion keeps 32 bits, and a zero divisor panics.\<close>

definition mod_u32 :: "nat \<Rightarrow> nat \<Rightarrow> nat option" where
  "mod_u32 x n = (if n mod 2 ^ 32 = 0 then None else Some (x mod (n mod 2 ^ 32)))"

definition swap :: "'a list \<Rightarrow> nat \<Rightarrow> nat \<Rightarrow> 'a list option" where
  "swap xs i j = (if i < length xs \<and> j < length xs then Some (xs[i := xs ! j, j := xs ! i]) else None)"

text \<open>The partial shuffle from position \<open>i\<close> on, with \<open>n\<close> rounds left.\<close>

fun shuffle_loop :: "nat \<Rightarrow> nat \<Rightarrow> string list \<Rightarrow> nat \<Rightarrow> (nat \<times> string list) option" where
  "shuffle_loop 0 i members seed = Some (seed, [])"
| "shuffle_loop (Suc n) i members seed =
     do { let (seed', r) = simpleRand seed;
          k \<leftarrow> mod_u32 r (length members - i);
          members' \<leftarrow> swap members i (i + k);
          (seed'', rest) \<leftarrow> shuffle_loop n (Suc i) members' seed';
          Some (seed'', members' ! i # rest) }"

definition randomDistinctMembers :: "setobj option \<Rightarrow> int \<Rightarrow> nat \<Rightarrow> (nat \<times> string list) option" where
  "randomDistinctMembers so limit seed =
     do { members \<leftarrow> set_toSlice so;
          let lim = (if limit > int (length members) then int (length members) else limit);
          if lim < 0 then None else shuffle_loop (nat lim) 0 members seed }"

fun random_picks :: "nat \<Rightarrow> string list \<Rightarrow> nat \<Rightarrow> (nat \<times> string list) option" where
  "random_picks 0 members seed = Some (seed, [])"
| "random_picks (Suc n) members seed =
     do { let (seed', r) = simpleRand seed;
          k \<leftarrow> mod_u32 r (length members);
          m \<leftarrow> gindex members (int k);
          (seed'', rest) \<leftarrow> random_picks n members seed';
          Some (seed'', m # rest) }"

definition randomMembers :: "setobj option \<Rightarrow> int \<Rightarrow> nat \<Rightarrow> (nat \<times> string list) option" where
  "randomMembers so limit seed =
     do { members \<leftarrow> set_toSlice so;
          if members = [] then Some (seed, [])
          else if limit < 0 then None else random_picks (nat limit) members seed }"

section \<open>Scan\<close>

function set_scan_loop :: "matcher \<Rightarrow> string list \<Rightarrow> int \<Rightarrow> int \<Rightarrow> string list \<Rightarrow> (string list \<times> int) option" where
  "set_scan_loop matchKey all cnt i result =
     (if i < int (length all) \<and> int (length result) < cnt then
        do { m \<leftarrow> gindex all i;
             set_scan_loop matchKey all cnt (i + 1) (if matchKey m then result @ [m] else result) }
      else Some (result, if i \<ge> int (length all) then 0 else i))"
  by pat_completeness auto
termination
  by (relation "measure (\<lambda>(_, all, _, i, _). nat (int (length all) - i))") auto

declare set_scan_loop.simps [simp del]

definition set_scan :: "(string \<Rightarrow> matcher option) \<Rightarrow> setobj option \<Rightarrow> int \<Rightarrow> int \<Rightarrow> string \<Rightarrow> (string list \<times> int) option" where
  "set_scan regexp so cursor cnt pattern =
     do { members \<leftarrow> set_toSlice so;
          let all = sort members;
          if all = [] then Some ([], 0)
          else case compilePattern regexp pattern of
            None \<Rightarrow> Some ([], -1)
          | Some _ \<Rightarrow> set_scan_loop (scan_match regexp pattern) all cnt cursor [] }"

section \<open>Representation\<close>

definition set_members :: "setobj \<Rightarrow> string list" where
  "set_members s =
     (case set_forEach (Some s) (\<lambda>slice member. Some (slice @ [member], True)) [] of None \<Rightarrow> [] | Some ms \<Rightarrow> ms)"

definition lp_rep :: "setobj \<Rightarrow> string list \<Rightarrow> bool" where
  "lp_rep s ms \<longleftrightarrow> so_encoding s = ''listpack'' \<and> so_listpack s = Some (lp_of (map GStr ms)) \<and> distinct ms \<and>
     (\<forall>m \<in> set ms. go_str m)"

definition is_rep :: "setobj \<Rightarrow> intset \<Rightarrow> bool" where
  "is_rep s i \<longleftrightarrow> so_encoding s = ''intset'' \<and> so_intset s = Some i \<and> intset_inv i \<and> (\<forall>v \<in> set (is_data i). canon_int v)"

definition ht_rep :: "setobj \<Rightarrow> gany simpleDict \<Rightarrow> bool" where
  "ht_rep s d \<longleftrightarrow> so_encoding s = ''hashtable'' \<and> so_hashtable s = Some d \<and> sd_inv d"

definition set_inv :: "thresholds \<Rightarrow> setobj \<Rightarrow> bool" where
  "set_inv t s \<longleftrightarrow>
     (\<exists>i. is_rep s i \<and> int (length (is_data i)) \<le> setMaxIntsetEntries t) \<or>
     (\<exists>ms. lp_rep s ms \<and> int (length ms) \<le> setMaxListpackEntries t) \<or>
     (\<exists>d. ht_rep s d)"

lemma iter_snoc: "iter (\<lambda>acc i x. Some (acc @ [f x], True)) j xs acc = Some (acc @ map f xs)"
  by (induction xs arbitrary: j acc) auto

lemma set_members_rep:
  "is_rep s i \<Longrightarrow> set_members s = map formatInt64 (is_data i)"
  "lp_rep s ms \<Longrightarrow> set_members s = ms"
  "ht_rep s d \<Longrightarrow> set_members s = map fst (sd_m d)"
proof -
  assume "is_rep s i"
  then show "set_members s = map formatInt64 (is_data i)"
    by (simp add: set_members_def set_forEach_def is_rep_def iter_snoc)
next
  assume lp: "lp_rep s ms"
  have "iter (\<lambda>st i val. case val of GStr str \<Rightarrow> Some (st @ [str], True) | _ \<Rightarrow> Some (st, True)) j (map GStr ms) acc =
      Some (acc @ ms)" for j acc
    by (induction ms arbitrary: j acc) auto
  moreover have "elems_ok (map GStr ms)" using lp by (auto simp: lp_rep_def elems_ok_def)
  ultimately show "set_members s = ms" using lp by (simp add: set_members_def set_forEach_def lp_rep_def)
next
  assume "ht_rep s d"
  then show "set_members s = map fst (sd_m d)"
    by (simp add: set_members_def set_forEach_def ht_rep_def sd_forEach_def iter_keys)
qed

lemma lp_rep_ok [simp]: "lp_rep s ms \<Longrightarrow> elems_ok (map GStr ms)"
  by (auto simp: lp_rep_def elems_ok_def)

lemma is_rep_mem: "is_rep s i \<Longrightarrow> m \<in> set (set_members s) \<longleftrightarrow> (\<exists>v \<in> set (is_data i). isInt m = (v, True))"
  by (auto simp: set_members_rep isInt_Some is_rep_def)

lemma set_inv_members:
  assumes "set_inv t s"
  shows "distinct (set_members s)" "set_len (Some s) = Some (length (set_members s))"
    "set_toSlice (Some s) = Some (set_members s)"
proof -
  have "distinct (set_members s) \<and> set_len (Some s) = Some (length (set_members s)) \<and>
      set_forEach (Some s) (\<lambda>slice member. Some (slice @ [member], True)) [] = Some (set_members s)"
    using assms unfolding set_inv_def
  proof (elim disjE exE conjE)
    fix i assume i: "is_rep s i"
    have "inj_on formatInt64 (set (is_data i))"
      using i formatInt64_inj by (auto simp: is_rep_def inj_on_def)
    then have "distinct (map formatInt64 (is_data i))"
      using i intset_distinct [of i] by (simp add: is_rep_def distinct_map)
    then show ?thesis
      using i set_members_rep(1) [OF i] by (simp add: is_rep_def set_len_def is_len_def set_forEach_def iter_snoc)
  next
    fix ms assume ms: "lp_rep s ms"
    have "iter (\<lambda>st i val. case val of GStr str \<Rightarrow> Some (st @ [str], True) | _ \<Rightarrow> Some (st, True)) j (map GStr ms) acc =
        Some (acc @ ms)" for j acc
      by (induction ms arbitrary: j acc) auto
    then show ?thesis
      using ms set_members_rep(2) [OF ms] lp_rep_ok [OF ms] by (simp add: lp_rep_def set_len_def set_forEach_def)
  next
    fix d assume d: "ht_rep s d"
    then show ?thesis
      using set_members_rep(3) [OF d]
      by (simp add: ht_rep_def set_len_def sd_len_def sd_inv_def set_forEach_def sd_forEach_def iter_keys)
  qed
  then show "distinct (set_members s)" "set_len (Some s) = Some (length (set_members s))"
    "set_toSlice (Some s) = Some (set_members s)"
    by (simp_all add: set_toSlice_def)
qed

section \<open>Conversions\<close>

lemma convertToListpack_spec:
  assumes "is_rep s i"
  shows "\<exists>s'. set_convertToListpack s = Some s' \<and> lp_rep s' (map formatInt64 (is_data i)) \<and> so_encoding s' = ''listpack''"
proof -
  have "iter (\<lambda>lp _ v. Some (lp_appendStr lp (formatInt64 v), True)) j vs (lp_of acc) =
      Some (lp_of (acc @ map (GStr \<circ> formatInt64) vs))" for j vs acc
    by (induction vs arbitrary: j acc) auto
  then have "set_convertToListpack s = Some (s\<lparr>so_listpack := Some (lp_of (map (GStr \<circ> formatInt64) (is_data i))),
      so_encoding := ''listpack'', so_intset := None\<rparr>)"
    using assms by (simp add: set_convertToListpack_def is_rep_def)
  moreover have "distinct (map formatInt64 (is_data i))"
    using set_members_rep(1) [OF assms] formatInt64_inj intset_distinct [of i] assms
    by (auto simp: is_rep_def distinct_map inj_on_def)
  moreover have "go_str (formatInt64 v)" if "canon_int v" for v
    using formatInt64_short [OF that] by (simp add: go_str_def)
  ultimately show ?thesis using assms by (auto simp: lp_rep_def is_rep_def)
qed

lemma convertToHashtable_spec:
  assumes "lp_rep s ms"
  shows "\<exists>s' d. set_convertToHashtable s = Some s' \<and> ht_rep s' d \<and> map fst (sd_m d) = ms"
proof -
  have "\<exists>m'. iter (\<lambda>d i val. case val of GStr str \<Rightarrow> Some (fst (sd_put d str GNil), True) | _ \<Rightarrow> Some (d, True))
      j (map GStr ms) \<lparr>sd_m = m\<rparr> = Some \<lparr>sd_m = m @ m'\<rparr> \<and> map fst m' = ms"
    if "distinct (map fst m @ ms)" for j m
    using that
  proof (induction ms arbitrary: j m)
    case (Cons x ms)
    have "map_of m x = None" using Cons.prems by (auto simp: map_of_eq_None_iff)
    moreover have "gmap_set x GNil m = m @ [(x, GNil)]"
      using Cons.prems by (induction x GNil m rule: gmap_set.induct) auto
    ultimately have "fst (sd_put \<lparr>sd_m = m\<rparr> x GNil) = \<lparr>sd_m = m @ [(x, GNil)]\<rparr>" by (simp add: sd_put_def)
    moreover obtain m' where "iter (\<lambda>d i val. case val of GStr str \<Rightarrow> Some (fst (sd_put d str GNil), True) | _ \<Rightarrow> Some (d, True))
      (Suc j) (map GStr ms) \<lparr>sd_m = m @ [(x, GNil)]\<rparr> = Some \<lparr>sd_m = (m @ [(x, GNil)]) @ m'\<rparr>" "map fst m' = ms"
      using Cons.IH [of "m @ [(x, GNil)]" "Suc j"] Cons.prems by auto
    ultimately show ?case by (intro exI [of _ "(x, GNil) # m'"]) simp
  qed (auto intro: exI [of _ "[]"])
  from this [of "[]" 0] obtain m' where
    "lp_range (lp_of (map GStr ms)) (\<lambda>d i val. case val of GStr str \<Rightarrow> Some (fst (sd_put d str GNil), True) | _ \<Rightarrow> Some (d, True))
      makeSimple = Some \<lparr>sd_m = m'\<rparr>" "map fst m' = ms"
    using assms by (auto simp: lp_rep_ok [OF assms] makeSimple_def lp_rep_def)
  then show ?thesis
    using assms by (auto simp: set_convertToHashtable_def lp_rep_def ht_rep_def sd_inv_def)
qed

lemma lp_has_spec: "lp_rep s ms \<Longrightarrow> lp_has (lp_of (map GStr ms)) m = Some (m \<in> set ms)"
proof -
  have "iter (\<lambda>found i val. if val = GStr m then Some (True, False) else Some (found, True)) j (map GStr ms) False
      = Some (m \<in> set ms)" for j
    by (induction ms arbitrary: j) auto
  then show "lp_rep s ms \<Longrightarrow> lp_has (lp_of (map GStr ms)) m = Some (m \<in> set ms)"
    by (simp add: lp_has_def)
qed

section \<open>Refinement of a finite set\<close>

lemma ht_add_spec:
  assumes "ht_rep s d"
  shows "\<exists>s'. ht_add s m = Some (s', if m \<in> set (map fst (sd_m d)) then 0 else 1) \<and> set_inv t s' \<and>
    set (set_members s') = insert m (set (map fst (sd_m d)))"
proof -
  have d: "sd_inv d" using assms by (simp add: ht_rep_def)
  obtain d' where d': "sd_put d m GNil = (d', if m \<in> dom (sd_abs d) then 0 else 1)" "sd_inv d'" "sd_abs d' = (sd_abs d)(m \<mapsto> GNil)"
    using sd.put [OF d lessI, of m GNil] by (auto simp: simple_Dict_def)
  have rep: "ht_rep (s\<lparr>so_hashtable := Some d'\<rparr>) d'" using assms d'(2) by (simp add: ht_rep_def)
  have "set (map fst (sd_m d')) = insert m (set (map fst (sd_m d)))"
    using arg_cong [OF d'(3), of dom] by (simp add: sd_abs_def dom_map_of_conv_image_fst)
  then show ?thesis
    using assms d' rep set_members_rep(3) [OF rep]
    by (auto simp: ht_add_def ht_rep_def set_inv_def sd_abs_def dom_map_of_conv_image_fst)
qed

lemma set_add_listpack_spec:
  assumes "lp_rep s ms" "go_str m" "int (length ms) \<le> setMaxListpackEntries t \<or> m \<notin> set ms"
  shows "\<exists>s'. set_add_listpack t s m = Some (s', if m \<in> set ms then 0 else 1) \<and> set_inv t s' \<and>
    set (set_members s') = insert m (set ms)"
proof (cases "m \<in> set ms")
  case True
  then have "set_inv t s" using assms by (auto simp: set_inv_def)
  then show ?thesis
    using True assms(1) lp_has_spec [OF assms(1)] set_members_rep(2) [OF assms(1)]
    by (auto simp: set_add_listpack_def lp_rep_def)
next
  case False
  obtain s1 d where s1: "set_convertToHashtable s = Some s1" "ht_rep s1 d" "map fst (sd_m d) = ms"
    using convertToHashtable_spec [OF assms(1)] by blast
  let ?s = "s\<lparr>so_listpack := Some (lp_of (map GStr (ms @ [m])))\<rparr>"
  have rep: "lp_rep ?s (ms @ [m])" using assms(1,2) False by (auto simp: lp_rep_def)
  obtain s2 d2 where s2: "set_convertToHashtable ?s = Some s2" "ht_rep s2 d2" "map fst (sd_m d2) = ms @ [m]"
    using convertToHashtable_spec [OF rep] by blast
  have "set_inv t s2" "set (set_members s2) = insert m (set ms)"
    using s2 set_members_rep(3) [OF s2(2)] by (auto simp: set_inv_def)
  moreover have "set_inv t ?s" if "int (Suc (length ms)) \<le> setMaxListpackEntries t"
    using rep that by (auto simp: set_inv_def intro!: exI [of _ "ms @ [m]"])
  ultimately show ?thesis
    using assms(1) False s1 s2 lp_has_spec [OF assms(1)] ht_add_spec [OF s1(2), of m t] set_members_rep(2) [OF rep]
    by (auto simp: set_add_listpack_def lp_rep_def Let_def)
qed

lemma is_add_rep:
  assumes "is_rep s i" "canon_int v"
  obtains i' where "is_add (Some i) v = (Some i', v \<notin> set (is_data i))" "is_rep (s\<lparr>so_intset := Some i'\<rparr>) i'"
    "set (is_data i') = insert v (set (is_data i))" "v \<in> set (is_data i) \<Longrightarrow> i' = i"
proof -
  obtain so b where a: "is_add (Some i) v = (so, b)" by fastforce
  have i: "intset_inv i" using assms(1) by (simp add: is_rep_def)
  obtain i' where "so = Some i'" "intset_inv i'" "set (is_data i') = insert v (set (is_data i))" "b \<longleftrightarrow> v \<notin> set (is_data i)"
    by (rule is_add_spec [OF i canon_int_int64 [OF assms(2)] a])
  moreover have "i' = i" if "v \<in> set (is_data i)"
    using a calculation(1) that is_find_mem [of i v] i by (auto simp: is_add_def intset_inv_def Let_def)
  ultimately show thesis using that [of i'] a assms by (auto simp: is_rep_def)
qed

lemma set_add_spec:
  assumes "set_inv t s" "go_str m"
  shows "\<exists>s'. set_add t (Some s) m = Some (Some s', if m \<in> set (set_members s) then 0 else 1) \<and> set_inv t s' \<and>
    set (set_members s') = insert m (set (set_members s))"
  using assms(1) unfolding set_inv_def [of t s]
proof (elim disjE exE conjE)
  fix ms assume ms: "lp_rep s ms" "int (length ms) \<le> setMaxListpackEntries t"
  then show ?thesis
    using set_add_listpack_spec [OF ms(1) assms(2)] set_members_rep(2) [OF ms(1)]
    by (fastforce simp: set_add_def lp_rep_def)
next
  fix d assume d: "ht_rep s d"
  then show ?thesis
    using ht_add_spec [OF d, of m t] set_members_rep(3) [OF d] by (fastforce simp: set_add_def ht_rep_def)
next
  fix i assume i: "is_rep s i" "int (length (is_data i)) \<le> setMaxIntsetEntries t"
  have mem: "m \<in> set (set_members s) \<longleftrightarrow> (\<exists>v \<in> set (is_data i). isInt m = (v, True))" by (rule is_rep_mem [OF i(1)])
  obtain lp where lp: "set_convertToListpack s = Some lp" "lp_rep lp (map formatInt64 (is_data i))"
    using convertToListpack_spec [OF i(1)] by blast
  show ?thesis
  proof (cases m rule: isInt_cases)
    case (other v)
    then have nm: "m \<notin> set (set_members s)" using mem by auto
    then show ?thesis
      using i(1) other(1) lp set_add_listpack_spec [OF lp(2) assms(2)] set_members_rep(1) [OF i(1)]
      by (auto simp: set_add_def is_rep_def)
  next
    case (int v)
    then have nm: "m \<in> set (set_members s) \<longleftrightarrow> v \<in> set (is_data i)" using mem by auto
    obtain i' where i': "is_add (Some i) v = (Some i', v \<notin> set (is_data i))" "is_rep (s\<lparr>so_intset := Some i'\<rparr>) i'"
        "set (is_data i') = insert v (set (is_data i))" "v \<in> set (is_data i) \<Longrightarrow> i' = i"
      using is_add_rep [OF i(1) int(1)] by metis
    let ?s1 = "s\<lparr>so_intset := Some i'\<rparr>"
    have m1: "set (set_members ?s1) = insert m (set (set_members s))"
      using set_members_rep(1) [OF i(1)] set_members_rep(1) [OF i'(2)] i'(3) int(2) by simp
    obtain s2 where s2: "set_convertToListpack ?s1 = Some s2" "lp_rep s2 (map formatInt64 (is_data i'))"
      using convertToListpack_spec [OF i'(2)] by blast
    obtain s3 d where s3: "set_convertToHashtable s2 = Some s3" "ht_rep s3 d" "map fst (sd_m d) = map formatInt64 (is_data i')"
      using convertToHashtable_spec [OF s2(2)] by blast
    have m23: "set_members s2 = set_members ?s1" "set_members s3 = set_members ?s1"
      using set_members_rep(1) [OF i'(2)] set_members_rep(2) [OF s2(2)] set_members_rep(3) [OF s3(2)] s3(3) by simp_all
    have inv1: "set_inv t ?s1" if "int (length (is_data i')) \<le> setMaxIntsetEntries t" using that i'(2) by (auto simp: set_inv_def)
    have inv2: "set_inv t s2" if "int (length (is_data i')) \<le> setMaxListpackEntries t"
      using that s2(2) by (auto simp: set_inv_def intro!: exI [of _ "map formatInt64 (is_data i')"])
    have inv3: "set_inv t s3" using s3(2) by (auto simp: set_inv_def)
    have enc: "so_encoding s = ''intset''" "so_intset s = Some i" using i(1) by (simp_all add: is_rep_def)
    show ?thesis
    proof (cases "v \<in> set (is_data i)")
      case True
      then show ?thesis
        using nm enc int(3) i'(1,4) i(2) inv1 m1 by (auto simp: set_add_def)
    next
      case False
      have "so_listpack s2 = Some (lp_of (map GStr (map formatInt64 (is_data i'))))" using s2(2) by (simp add: lp_rep_def)
      then show ?thesis
        using False nm enc int(3) i'(1) m1 m23 s2(1) s3(1) inv1 inv2 inv3
        by (cases "int (length (is_data i')) \<le> setMaxIntsetEntries t";
            cases "int (length (is_data i')) \<le> setMaxListpackEntries t")
          (auto simp: set_add_def is_len_def)
    qed
  qed
qed

lemma set_has_spec:
  assumes "set_inv t s"
  shows "set_has (Some s) m = Some (m \<in> set (set_members s))"
  using assms unfolding set_inv_def
proof (elim disjE exE conjE)
  fix i assume i: "is_rep s i"
  show ?thesis
    using i is_rep_mem [OF i, of m] by (cases "isInt m") (auto simp: set_has_def is_rep_def is_contains_spec)
next
  fix ms assume ms: "lp_rep s ms"
  then show ?thesis
    using lp_has_spec [OF ms] set_members_rep(2) [OF ms] by (simp add: set_has_def lp_rep_def)
next
  fix d assume d: "ht_rep s d"
  then show ?thesis
    using set_members_rep(3) [OF d] by (auto simp: set_has_def ht_rep_def sd_get_def map_of_eq_None_iff)
qed

lemma set_remove_spec:
  assumes "set_inv t s"
  shows "\<exists>s'. set_remove (Some s) m = Some (Some s', if m \<in> set (set_members s) then 1 else 0) \<and> set_inv t s' \<and>
    set (set_members s') = set (set_members s) - {m}"
  using assms unfolding set_inv_def [of t s]
proof (elim disjE exE conjE)
  fix i assume i: "is_rep s i" "int (length (is_data i)) \<le> setMaxIntsetEntries t"
  have mem: "m \<in> set (set_members s) \<longleftrightarrow> (\<exists>v \<in> set (is_data i). isInt m = (v, True))" by (rule is_rep_mem [OF i(1)])
  have enc: "so_encoding s = ''intset''" "so_intset s = Some i" "intset_inv i" "\<forall>v \<in> set (is_data i). canon_int v"
    using i(1) by (simp_all add: is_rep_def)
  show ?thesis
  proof (cases m rule: isInt_cases)
    case (other v)
    then show ?thesis using mem enc(1) assms by (auto simp: set_remove_def)
  next
    case (int v)
    obtain so b where r: "is_remove (Some i) v = (so, b)" by fastforce
    obtain i' where i': "so = Some i'" "intset_inv i'" "set (is_data i') = set (is_data i) - {v}" "b \<longleftrightarrow> v \<in> set (is_data i)"
      by (rule is_remove_spec [OF enc(3) r])
    have rep: "is_rep (s\<lparr>so_intset := Some i'\<rparr>) i'" using i' enc by (simp add: is_rep_def)
    have "length (is_data i') \<le> length (is_data i)"
      using distinct_card [OF intset_distinct [OF i'(2)]] distinct_card [OF intset_distinct [OF enc(3)]] i'(3)
        card_mono [of "set (is_data i)" "set (is_data i')"] by auto
    then have "set_inv t (s\<lparr>so_intset := Some i'\<rparr>)" using rep i(2) by (auto simp: set_inv_def)
    moreover have "formatInt64 ` (set (is_data i) - {v}) = formatInt64 ` set (is_data i) - {formatInt64 v}"
      using enc(4) int(1) formatInt64_inj by blast
    ultimately show ?thesis
      using enc(1,2) int mem r i' set_members_rep(1) [OF rep] set_members_rep(1) [OF i(1)] by (auto simp: set_remove_def)
  qed
next
  fix ms assume ms: "lp_rep s ms" "int (length ms) \<le> setMaxListpackEntries t"
  let ?f = "\<lambda>(newLp, removed) i val.
      case val of
        GStr str \<Rightarrow> if str = m then Some ((newLp, True), True) else Some ((lp_appendStr newLp str, removed), True)
      | _ \<Rightarrow> Some ((newLp, removed), True)"
  have "iter ?f j (map GStr ms) (lp_of acc, b) = Some (lp_of (acc @ map GStr (filter (\<lambda>x. x \<noteq> m) ms)), b \<or> m \<in> set ms)" for j acc b
    by (induction ms arbitrary: j acc b) auto
  from this [of 0 "[]" False] have r: "lp_range (lp_of (map GStr ms)) ?f (newListpack, False) =
      Some (lp_of (map GStr (filter (\<lambda>x. x \<noteq> m) ms)), m \<in> set ms)"
    using lp_rep_ok [OF ms(1)] by simp
  have rep: "lp_rep (s\<lparr>so_listpack := Some (lp_of (map GStr (filter (\<lambda>x. x \<noteq> m) ms)))\<rparr>) (filter (\<lambda>x. x \<noteq> m) ms)"
    using ms(1) by (auto simp: lp_rep_def)
  have "int (length (filter (\<lambda>x. x \<noteq> m) ms)) \<le> setMaxListpackEntries t"
    using ms(2) length_filter_le [of "\<lambda>x. x \<noteq> m" ms] by linarith
  then have "set_inv t (s\<lparr>so_listpack := Some (lp_of (map GStr (filter (\<lambda>x. x \<noteq> m) ms)))\<rparr>)"
    using rep by (auto simp: set_inv_def)
  then show ?thesis
    using ms(1) r assms set_members_rep(2) [OF rep] set_members_rep(2) [OF ms(1)]
    by (cases "m \<in> set ms") (auto simp: set_remove_def lp_rep_def)
next
  fix d assume d: "ht_rep s d"
  then have sd: "sd_inv d" by (simp add: ht_rep_def)
  obtain d' where d': "sd_remove d m = (d', sd_abs d m)" "sd_inv d'" "sd_abs d' = (sd_abs d)(m := None)"
    using sd.remove [OF sd, of m] by (auto simp: simple_Dict_def)
  have rep: "ht_rep (s\<lparr>so_hashtable := Some d'\<rparr>) d'" using d d'(2) by (simp add: ht_rep_def)
  have "set (map fst (sd_m d')) = set (map fst (sd_m d)) - {m}"
    using arg_cong [OF d'(3), of dom] by (simp add: sd_abs_def dom_map_of_conv_image_fst)
  then show ?thesis
    using d d' rep set_members_rep(3) [OF rep] set_members_rep(3) [OF d]
    by (auto simp: set_remove_def ht_rep_def set_inv_def sd_abs_def map_of_eq_None_iff)
qed

section \<open>Random picks and scans\<close>

lemma swap_Some:
  assumes "i < length xs" "j < length xs" "i \<le> j"
  shows "\<exists>ys. swap xs i j = Some ys \<and> mset ys = mset xs \<and> take i ys = take i xs"
  using assms mset_swap [of j xs i] by (auto simp: swap_def take_update_cancel)

lemma shuffle_loop_spec:
  assumes "i + n \<le> length ms" "length ms < 2 ^ 32"
  shows "\<exists>seed' ms'. shuffle_loop n i ms seed = Some (seed', take n (drop i ms')) \<and> mset ms' = mset ms \<and> take i ms' = take i ms"
  using assms
proof (induction n arbitrary: i ms seed)
  case (Suc n)
  obtain seed1 r where r: "simpleRand seed = (seed1, r)" by fastforce
  let ?k = "r mod ((length ms - i) mod 2 ^ 32)"
  have n0: "(length ms - i) mod 2 ^ 32 = length ms - i" "0 < length ms - i" using Suc.prems by auto
  then have k: "mod_u32 r (length ms - i) = Some ?k" "i + ?k < length ms"
    using mod_less_divisor [of "length ms - i" r] by (auto simp: mod_u32_def simp del: mod_less_divisor)
  obtain ms1 where ms1: "swap ms i (i + ?k) = Some ms1" "mset ms1 = mset ms" "take i ms1 = take i ms"
    using swap_Some [of i ms "i + ?k"] k(2) by auto
  have len: "length ms1 = length ms" using ms1(2) by (metis size_mset)
  obtain seed2 ms2 where ms2: "shuffle_loop n (Suc i) ms1 seed1 = Some (seed2, take n (drop (Suc i) ms2))"
      "mset ms2 = mset ms1" "take (Suc i) ms2 = take (Suc i) ms1"
    using Suc.IH [of "Suc i" ms1 seed1] Suc.prems len by auto
  have len2: "length ms2 = length ms1" using ms2(2) by (metis size_mset)
  have "ms2 ! i = ms1 ! i" using arg_cong [OF ms2(3), of "\<lambda>xs. xs ! i"] by simp
  then have "take (Suc n) (drop i ms2) = ms1 ! i # take n (drop (Suc i) ms2)"
    using Suc.prems len len2 by (simp add: Cons_nth_drop_Suc [symmetric])
  moreover have "take i ms2 = take i ms"
    using arg_cong [OF ms2(3), of "take i"] ms1(3) by simp
  ultimately show ?case using r k(1) ms1 ms2 by (intro exI [of _ seed2] exI [of _ ms2]) simp
qed auto

lemma random_picks_spec:
  assumes "ms \<noteq> []" "length ms < 2 ^ 32"
  shows "\<exists>seed' rs. random_picks n ms seed = Some (seed', rs) \<and> length rs = n \<and> set rs \<subseteq> set ms"
proof (induction n arbitrary: seed)
  case (Suc n)
  obtain seed1 r where r: "simpleRand seed = (seed1, r)" by fastforce
  let ?k = "r mod length ms"
  have lt: "?k < length ms" using assms(1) by simp
  then have "mod_u32 r (length ms) = Some ?k" using assms by (auto simp: mod_u32_def)
  then show ?case using r Suc [of seed1] gindex_nth [OF lt] lt by fastforce
qed simp

lemma set_scan_loop_spec:
  assumes "i \<le> length all"
  shows "\<exists>c'. i \<le> c' \<and> c' \<le> length all \<and> (i < length all \<and> int (length res) < cnt \<longrightarrow> i < c') \<and>
    set_scan_loop m all cnt (int i) res =
      Some (res @ concat (map (\<lambda>j. if m (all ! j) then [all ! j] else []) [i..<c']), if c' = length all then 0 else int c')"
  using assms
proof (induction "length all - i" arbitrary: i res)
  case 0
  then show ?case by (intro exI [of _ i]) (simp add: set_scan_loop.simps [of _ _ _ "int i"])
next
  case (Suc n)
  have lt: "i < length all" using Suc.hyps(2) by simp
  show ?case
  proof (cases "int (length res) < cnt")
    case False
    then show ?thesis using lt by (intro exI [of _ i]) (simp add: set_scan_loop.simps [of _ _ _ "int i"])
  next
    case True
    let ?r = "res @ (if m (all ! i) then [all ! i] else [])"
    have unf: "set_scan_loop m all cnt (int i) res = set_scan_loop m all cnt (int (Suc i)) ?r"
      using True lt by (simp add: set_scan_loop.simps [of _ _ _ "int i"] add.commute)
    have "n = length all - Suc i" "Suc i \<le> length all" using Suc.hyps(2) by auto
    then obtain c' where c': "Suc i \<le> c'" "c' \<le> length all"
      "set_scan_loop m all cnt (int (Suc i)) ?r =
        Some (?r @ concat (map (\<lambda>j. if m (all ! j) then [all ! j] else []) [Suc i..<c']), if c' = length all then 0 else int c')"
      using Suc.hyps(1) [of "Suc i" ?r] by blast
    then have "[i..<c'] = i # [Suc i..<c']" by (simp add: upt_conv_Cons)
    then show ?thesis using c' unf by (intro exI [of _ c']) (simp del: upt_Suc)
  qed
qed

definition set_scan_ok :: "(string \<Rightarrow> matcher option) \<Rightarrow> thresholds \<Rightarrow> setobj \<times> int \<times> string \<Rightarrow> nat \<Rightarrow> bool" where
  "set_scan_ok regexp t = (\<lambda>(s, cnt, pat) c. set_inv t s \<and> 1 \<le> cnt \<and> compilePattern regexp pat \<noteq> None \<and>
     c < length (set_members s))"

interpretation ss: cursor_scan "\<lambda>(s, cnt, pat) c. set_scan regexp (Some s) c cnt pat"
    "\<lambda>(s, cnt, pat) j. if scan_match regexp pat (sort (set_members s) ! j) then [sort (set_members s) ! j] else []"
    "\<lambda>(s, cnt, pat). length (set_members s)" "set_scan_ok regexp t" for regexp t
proof (unfold_locales, goal_cases)
  case (1 x c)
  obtain s cnt pat where x: "x = (s, cnt, pat)" by (cases x)
  have ok: "set_inv t s" "1 \<le> cnt" "compilePattern regexp pat \<noteq> None" "c < length (set_members s)"
    using 1 x by (auto simp: set_scan_ok_def)
  let ?all = "sort (set_members s)" and ?m = "scan_match regexp pat"
  have "length ?all = length (set_members s)" by simp
  then have ne: "?all \<noteq> []" using ok(4) by (cases ?all) auto
  obtain c' where c': "c \<le> c'" "c' \<le> length ?all" "c < c'"
    "set_scan_loop ?m ?all cnt (int c) [] =
      Some (concat (map (\<lambda>j. if ?m (?all ! j) then [?all ! j] else []) [c..<c']), if c' = length ?all then 0 else int c')"
    using set_scan_loop_spec [of c ?all "[]" cnt ?m] ok(2,4) by auto
  have "set_scan regexp (Some s) (int c) cnt pat = set_scan_loop ?m ?all cnt (int c) []"
    using set_inv_members(3) [OF ok(1)] ne ok(3) by (auto simp: set_scan_def Let_def)
  then show ?case
    using c' ok unfolding x by (intro exI [of _ c']) (auto simp: set_scan_ok_def)
qed

lemma newSet_spec: "thresholds_ok t \<Longrightarrow> set_inv t newSet" "set_members newSet = []"
proof -
  have rep: "is_rep newSet newIntset" by (simp add: is_rep_def newSet_def)
  then show "thresholds_ok t \<Longrightarrow> set_inv t newSet" by (auto simp: set_inv_def thresholds_ok_def)
  show "set_members newSet = []" using set_members_rep(1) [OF rep] by simp
qed

section \<open>Properties\<close>

text \<open>C14. In every encoding a set object behaves like a finite set of strings: \<open>Has\<close>, \<open>Len\<close>, \<open>Add\<close> and
  \<open>Remove\<close> agree with the set, none of these four panics, and the invariant, which
  bounds the two compact encodings by their thresholds, is kept across the conversions from
  intset to listpack to hashtable.\<close>

theorem set_refines_set:
  assumes "set_inv t s" "go_str m"
  shows "set_has (Some s) m = Some (m \<in> set (set_members s)) \<and>
    set_len (Some s) = Some (card (set (set_members s))) \<and>
    (\<exists>s'. set_add t (Some s) m = Some (Some s', if m \<in> set (set_members s) then 0 else 1) \<and> set_inv t s' \<and>
       set (set_members s') = insert m (set (set_members s))) \<and>
    (\<exists>s'. set_remove (Some s) m = Some (Some s', if m \<in> set (set_members s) then 1 else 0) \<and> set_inv t s' \<and>
       set (set_members s') = set (set_members s) - {m})"
proof (intro conjI)
  show "set_has (Some s) m = Some (m \<in> set (set_members s))" using set_has_spec [OF assms(1)] .
  show "set_len (Some s) = Some (card (set (set_members s)))"
    using set_inv_members [OF assms(1)] distinct_card by metis
qed (use set_add_spec [OF assms] set_remove_spec [OF assms(1)] in blast)+

theorem set_refines_set_witness:
  "\<exists>s'. set_add defaultEncodingThresholds (Some newSet) ''-17'' = Some (Some s', 1) \<and> set (set_members s') = {''-17''}"
proof -
  have "thresholds_ok defaultEncodingThresholds" by (simp add: thresholds_ok_def defaultEncodingThresholds_def)
  from set_refines_set [OF newSet_spec(1) [OF this], of "''-17''"] show ?thesis
    by (auto simp: newSet_spec(2) go_str_def)
qed

text \<open>\<open>RandomDistinctMembers\<close> never repeats a member: for a limit that is not negative its partial
  shuffle returns different members of the set, as many as asked for or all of them.\<close>

lemma random_distinct_members:
  assumes "set_inv t s" "0 \<le> limit" "length (set_members s) < 2 ^ 32"
  shows "\<exists>seed' rs. randomDistinctMembers (Some s) limit seed = Some (seed', rs) \<and> distinct rs \<and>
    set rs \<subseteq> set (set_members s) \<and> length rs = min (nat limit) (card (set (set_members s)))"
proof -
  let ?ms = "set_members s" and ?n = "min (nat limit) (length (set_members s))"
  note M = set_inv_members [OF assms(1)]
  obtain seed' ms' where r: "shuffle_loop ?n 0 ?ms seed = Some (seed', take ?n ms')" "mset ms' = mset ?ms"
    using shuffle_loop_spec [of 0 ?n ?ms seed] assms(3) by auto
  have "randomDistinctMembers (Some s) limit seed = Some (seed', take ?n ms')"
    using M(3) r(1) assms(2) by (auto simp: randomDistinctMembers_def Let_def min_def nat_le_iff)
  moreover have "distinct ms'" "set ms' = set ?ms" "length ms' = length ?ms"
    using M(1) r(2) mset_eq_imp_distinct_iff mset_eq_setD mset_eq_length by metis+
  ultimately show ?thesis
    using distinct_card [OF M(1)] set_take_subset [of ?n ms'] by (intro exI conjI) auto
qed

text \<open>C21. Following the cursors of \<open>SetScan\<close> from 0 over an unchanged set with a count of at least 1 and a pattern
  that compiles yields every member that matches the pattern exactly once, after at most one call per member.\<close>

theorem set_full_scan:
  assumes "set_inv t s" "1 \<le> cnt" "compilePattern regexp pat \<noteq> None" "length (set_members s) < fuel"
  shows "\<exists>ms. scan_loop (\<lambda>(s, cnt, pat) c. set_scan regexp (Some s) c cnt pat) (s, cnt, pat) fuel 0 [] = Some ms \<and>
    distinct ms \<and> set ms = {m \<in> set (set_members s). scan_match regexp pat m}"
proof (cases "set_members s = []")
  case True
  then have "set_scan regexp (Some s) 0 cnt pat = Some ([], 0)"
    using set_inv_members(3) [OF assms(1)] by (simp add: set_scan_def)
  then show ?thesis using True assms(4) by (cases fuel) auto
next
  case False
  let ?m = "scan_match regexp pat" and ?all = "sort (set_members s)"
  have "concat (map (\<lambda>j. if ?m (?all ! j) then [?all ! j] else []) [0..<length ?all]) = filter ?m ?all"
  proof -
    have "concat (map (\<lambda>x. if ?m x then [x] else []) xs) = filter ?m xs" for xs by (induction xs) auto
    then show ?thesis unfolding concat_map_nth [of "\<lambda>x. if ?m x then [x] else []"] by blast
  qed
  then have "scan_loop (\<lambda>(s, cnt, pat) c. set_scan regexp (Some s) c cnt pat) (s, cnt, pat) fuel 0 [] = Some (filter ?m ?all)"
    using ss.loop_complete [of regexp t "(s, cnt, pat)" fuel] assms False by (simp add: set_scan_ok_def)
  then show ?thesis using set_inv_members(1) [OF assms(1)] by auto
qed

theorem set_full_scan_witness:
  "\<exists>s ms. set (set_members s) = {''a'', ''17''} \<and>
     scan_loop (\<lambda>(s, cnt, pat) c. set_scan (\<lambda>_. Some (\<lambda>k. length k = 1)) (Some s) c cnt pat) (s, 1, ''?'') 3 0 [] = Some ms \<and>
     set ms = {''a''}"
proof -
  let ?t = defaultEncodingThresholds and ?re = "\<lambda>_ :: string. Some (\<lambda>k :: string. length k = 1)"
  have "thresholds_ok ?t" by (simp add: thresholds_ok_def defaultEncodingThresholds_def)
  then obtain s1 where s1: "set_inv ?t s1" "set (set_members s1) = {''17''}"
    using set_add_spec [OF newSet_spec(1), of ?t "''17''"] by (auto simp: newSet_spec(2) go_str_def)
  obtain s where s: "set_inv ?t s" "set (set_members s) = {''a'', ''17''}"
    using set_add_spec [OF s1(1), of "''a''"] s1(2) by (auto simp: go_str_def)
  then have "length (set_members s) = 2" using distinct_card [OF set_inv_members(1) [OF s(1)]] by simp
  moreover have c: "compilePattern ?re ''?'' = Some (\<lambda>k. length k = 1)" by (simp add: compilePattern_def regex_src_mark)
  ultimately obtain ms where
    "scan_loop (\<lambda>(s, cnt, pat) c. set_scan ?re (Some s) c cnt pat) (s, 1, ''?'') 3 0 [] = Some ms"
    "set ms = {m \<in> set (set_members s). scan_match ?re ''?'' m}"
    using set_full_scan [OF s(1), of 1 ?re "''?''" 3] by auto
  moreover have "{m \<in> set (set_members s). scan_match ?re ''?'' m} = {''a''}" by (auto simp: s(2) scan_match_def compilePattern_def regex_src_mark)
  ultimately show ?thesis using s(2) by (intro exI [of _ s] exI [of _ ms]) simp
qed

end
