(* ===== verification/ListApi.thy ===== *)
theory ListApi
  imports Prelude
begin

text \<open>
  The interface \<^verbatim>\<open>list.List\<close> of \<^verbatim>\<open>internal/datastruct/list/interface.go\<close>: the table of
  operations, the contract of an implementation over the sequence it stands for (locale
  \<open>list_impl\<close>), and what a client concludes from it: any program of calls within the bounds
  returns what the same calls return on a plain list. The contract covers the calls that satisfy
  \<open>ok\<close>. The implementations are interpreted in \<open>QuickList\<close>, \<open>LinkedList\<close> and \<open>ListObj\<close>.
\<close>

section \<open>The interface\<close>

text \<open>
  Each operation is \<open>None\<close> when it panics; a nil result of \<^verbatim>\<open>RemoveLast\<close> is an inner
  \<open>None\<close>. \<^verbatim>\<open>ForEach\<close> is polymorphic in what its callback changes, and is a law of its own
  with each implementation.
\<close>

record ('l, 'a) List =
  lAdd :: "'l \<Rightarrow> 'a \<Rightarrow> 'l option"
  lGet :: "'l \<Rightarrow> int \<Rightarrow> 'a option"
  lSet :: "'l \<Rightarrow> int \<Rightarrow> 'a \<Rightarrow> 'l option"
  lInsert :: "'l \<Rightarrow> int \<Rightarrow> 'a \<Rightarrow> 'l option"
  lRemove :: "'l \<Rightarrow> int \<Rightarrow> ('l \<times> 'a) option"
  lRemoveLast :: "'l \<Rightarrow> ('l \<times> 'a option) option"
  lRemoveAllByVal :: "('a \<Rightarrow> bool) \<Rightarrow> 'l \<Rightarrow> ('l \<times> nat) option"
  lRemoveByVal :: "('a \<Rightarrow> bool) \<Rightarrow> int \<Rightarrow> 'l \<Rightarrow> ('l \<times> nat) option"
  lReverseRemoveByVal :: "('a \<Rightarrow> bool) \<Rightarrow> int \<Rightarrow> 'l \<Rightarrow> ('l \<times> nat) option"
  lLen :: "'l \<Rightarrow> int"
  lContains :: "('a \<Rightarrow> bool) \<Rightarrow> 'l \<Rightarrow> bool option"
  lRange :: "'l \<Rightarrow> int \<Rightarrow> int \<Rightarrow> 'a list option"

section \<open>The sequence a list stands for\<close>

text \<open>The list without its first \<open>n\<close> elements that satisfy \<open>e\<close>.\<close>

fun remove_first :: "nat \<Rightarrow> ('a \<Rightarrow> bool) \<Rightarrow> 'a list \<Rightarrow> 'a list" where
  "remove_first n e [] = []"
| "remove_first n e (x # xs) =
     (if n = 0 then x # xs else if e x then remove_first (n - 1) e xs else x # remove_first n e xs)"

lemma remove_first_0 [simp]: "remove_first 0 e xs = xs"
  by (cases xs) auto

lemma remove_first_all: "length xs \<le> n \<Longrightarrow> remove_first n e xs = filter (\<lambda>x. \<not> e x) xs"
  by (induction xs arbitrary: n) auto

lemma remove_first_snoc: "remove_first n e (xs @ [x]) =
   remove_first n e xs @ (if e x \<and> length (filter e xs) < n then [] else [x])"
  by (induction xs arbitrary: n) auto

datatype 'a list_op =
    LAdd 'a
  | LGet int
  | LSet int 'a
  | LInsert int 'a
  | LRemove int
  | LRemoveLast
  | LRemoveAll "'a \<Rightarrow> bool"
  | LRemoveBy "'a \<Rightarrow> bool" int
  | LReverseRemoveBy "'a \<Rightarrow> bool" int
  | LLen
  | LContains "'a \<Rightarrow> bool"
  | LRange int int

datatype 'a list_res = LVal "'a option" | LNum int | LBool bool | LVals "'a list" | LUnit

fun list_step :: "('l, 'a) List \<Rightarrow> 'l \<Rightarrow> 'a list_op \<Rightarrow> ('l \<times> 'a list_res) option" where
  "list_step L l (LAdd v) = do { l' \<leftarrow> lAdd L l v; Some (l', LUnit) }"
| "list_step L l (LGet i) = do { v \<leftarrow> lGet L l i; Some (l, LVal (Some v)) }"
| "list_step L l (LSet i v) = do { l' \<leftarrow> lSet L l i v; Some (l', LUnit) }"
| "list_step L l (LInsert i v) = do { l' \<leftarrow> lInsert L l i v; Some (l', LUnit) }"
| "list_step L l (LRemove i) = do { (l', v) \<leftarrow> lRemove L l i; Some (l', LVal (Some v)) }"
| "list_step L l LRemoveLast = do { (l', v) \<leftarrow> lRemoveLast L l; Some (l', LVal v) }"
| "list_step L l (LRemoveAll e) = do { (l', n) \<leftarrow> lRemoveAllByVal L e l; Some (l', LNum (int n)) }"
| "list_step L l (LRemoveBy e cnt) = do { (l', n) \<leftarrow> lRemoveByVal L e cnt l; Some (l', LNum (int n)) }"
| "list_step L l (LReverseRemoveBy e cnt) =
     do { (l', n) \<leftarrow> lReverseRemoveByVal L e cnt l; Some (l', LNum (int n)) }"
| "list_step L l LLen = Some (l, LNum (lLen L l))"
| "list_step L l (LContains e) = do { b \<leftarrow> lContains L e l; Some (l, LBool b) }"
| "list_step L l (LRange start stop) = do { vs \<leftarrow> lRange L l start stop; Some (l, LVals vs) }"

fun list_run :: "('l, 'a) List \<Rightarrow> 'l \<Rightarrow> 'a list_op list \<Rightarrow> ('l \<times> 'a list_res list) option" where
  "list_run L l [] = Some (l, [])"
| "list_run L l (op # ops) =
     do { (l1, r) \<leftarrow> list_step L l op; (l2, rs) \<leftarrow> list_run L l1 ops; Some (l2, r # rs) }"

text \<open>
  The same calls on a sequence. A call is defined where the contract holds: inside the bounds,
  with a positive count, and removal of every match on a list that is not empty.
\<close>

fun seq_step :: "'a list \<Rightarrow> 'a list_op \<Rightarrow> ('a list \<times> 'a list_res) option" where
  "seq_step xs (LAdd v) = Some (xs @ [v], LUnit)"
| "seq_step xs (LGet i) = do { v \<leftarrow> gindex xs i; Some (xs, LVal (Some v)) }"
| "seq_step xs (LSet i v) = do { _ \<leftarrow> gindex xs i; Some (xs[nat i := v], LUnit) }"
| "seq_step xs (LInsert i v) =
     (if 0 \<le> i \<and> i \<le> int (length xs) then Some (list_insert (nat i) v xs, LUnit) else None)"
| "seq_step xs (LRemove i) = do { v \<leftarrow> gindex xs i; Some (list_remove (nat i) xs, LVal (Some v)) }"
| "seq_step xs LRemoveLast = Some (butlast xs, LVal (if xs = [] then None else Some (last xs)))"
| "seq_step xs (LRemoveAll e) =
     (if xs = [] then None
      else Some (filter (\<lambda>x. \<not> e x) xs, LNum (int (length (filter e xs)))))"
| "seq_step xs (LRemoveBy e cnt) =
     (if cnt \<le> 0 then None
      else Some (remove_first (nat cnt) e xs, LNum (min cnt (int (length (filter e xs))))))"
| "seq_step xs (LReverseRemoveBy e cnt) =
     (if cnt \<le> 0 then None
      else Some (rev (remove_first (nat cnt) e (rev xs)), LNum (min cnt (int (length (filter e xs))))))"
| "seq_step xs LLen = Some (xs, LNum (int (length xs)))"
| "seq_step xs (LContains e) = Some (xs, LBool (\<exists>x \<in> set xs. e x))"
| "seq_step xs (LRange start stop) =
     (if 0 \<le> start \<and> start < int (length xs) \<and> start \<le> stop \<and> stop \<le> int (length xs)
      then Some (xs, LVals (take (nat (stop - start)) (drop (nat start) xs))) else None)"

fun seq_run :: "'a list \<Rightarrow> 'a list_op list \<Rightarrow> ('a list \<times> 'a list_res list) option" where
  "seq_run xs [] = Some (xs, [])"
| "seq_run xs (op # ops) =
     do { (xs1, r) \<leftarrow> seq_step xs op; (xs2, rs) \<leftarrow> seq_run xs1 ops; Some (xs2, r # rs) }"

section \<open>The contract\<close>

locale list_impl =
  fixes L :: "('l, 'a) List"
    and inv :: "'l \<Rightarrow> bool"
    and abs :: "'l \<Rightarrow> 'a list"
    and ok :: "'a list_op \<Rightarrow> bool"
  assumes add: "inv l \<Longrightarrow> ok (LAdd v) \<Longrightarrow> \<exists>l'. lAdd L l v = Some l' \<and> inv l' \<and> abs l' = abs l @ [v]"
    and get: "inv l \<Longrightarrow> lGet L l i = gindex (abs l) i"
    and set: "inv l \<Longrightarrow> ok (LSet i v) \<Longrightarrow> 0 \<le> i \<Longrightarrow> i < int (length (abs l)) \<Longrightarrow>
      \<exists>l'. lSet L l i v = Some l' \<and> inv l' \<and> abs l' = (abs l)[nat i := v]"
    and insert: "inv l \<Longrightarrow> ok (LInsert i v) \<Longrightarrow> 0 \<le> i \<Longrightarrow> i \<le> int (length (abs l)) \<Longrightarrow>
      \<exists>l'. lInsert L l i v = Some l' \<and> inv l' \<and> abs l' = list_insert (nat i) v (abs l)"
    and remove: "inv l \<Longrightarrow> 0 \<le> i \<Longrightarrow> i < int (length (abs l)) \<Longrightarrow>
      \<exists>l'. lRemove L l i = Some (l', abs l ! nat i) \<and> inv l' \<and> abs l' = list_remove (nat i) (abs l)"
    and removeLast: "inv l \<Longrightarrow>
      \<exists>l'. lRemoveLast L l = Some (l', if abs l = [] then None else Some (last (abs l))) \<and> inv l' \<and>
           abs l' = butlast (abs l)"
    and removeAllByVal: "inv l \<Longrightarrow> abs l \<noteq> [] \<Longrightarrow>
      \<exists>l'. lRemoveAllByVal L e l = Some (l', length (filter e (abs l))) \<and> inv l' \<and>
           abs l' = filter (\<lambda>x. \<not> e x) (abs l)"
    and removeByVal: "inv l \<Longrightarrow> 0 < cnt \<Longrightarrow>
      \<exists>l'. lRemoveByVal L e cnt l = Some (l', min (nat cnt) (length (filter e (abs l)))) \<and> inv l' \<and>
           abs l' = remove_first (nat cnt) e (abs l)"
    and reverseRemoveByVal: "inv l \<Longrightarrow> 0 < cnt \<Longrightarrow>
      \<exists>l'. lReverseRemoveByVal L e cnt l = Some (l', min (nat cnt) (length (filter e (abs l)))) \<and> inv l' \<and>
           abs l' = rev (remove_first (nat cnt) e (rev (abs l)))"
    and len: "inv l \<Longrightarrow> lLen L l = int (length (abs l))"
    and contains: "inv l \<Longrightarrow> ok (LContains e) \<Longrightarrow> lContains L e l = Some (\<exists>x \<in> set (abs l). e x)"
    and range: "inv l \<Longrightarrow> 0 \<le> start \<Longrightarrow> start < int (length (abs l)) \<Longrightarrow> start \<le> stop \<Longrightarrow>
      stop \<le> int (length (abs l)) \<Longrightarrow>
      lRange L l start stop = Some (take (nat (stop - start)) (drop (nat start) (abs l)))"
begin

lemma step_refines:
  assumes "inv l" "ok op" "seq_step (abs l) op = Some (xs, r)"
  shows "\<exists>l'. list_step L l op = Some (l', r) \<and> inv l' \<and> abs l' = xs"
proof (cases op)
  case (LAdd v)
  then show ?thesis using add [OF assms(1), of v] assms(2,3) by auto
next
  case (LSet i v)
  then show ?thesis using set [OF assms(1), of i v] assms(2,3) by (auto simp: gindex_def split: if_splits)
next
  case (LInsert i v)
  then show ?thesis using insert [OF assms(1), of i v] assms(2,3) by (auto split: if_splits)
next
  case (LRemove i)
  then show ?thesis using remove [OF assms(1), of i] assms(2,3) by (auto simp: gindex_def split: if_splits)
next
  case LRemoveLast
  then show ?thesis using removeLast [OF assms(1)] assms(2,3) by auto
next
  case (LRemoveAll e)
  then show ?thesis using removeAllByVal [OF assms(1), of e] assms(2,3) by (auto split: if_splits)
next
  case (LRemoveBy e cnt)
  then show ?thesis using removeByVal [OF assms(1), of cnt e] assms(2,3) by (fastforce split: if_splits)
next
  case (LReverseRemoveBy e cnt)
  then show ?thesis using reverseRemoveByVal [OF assms(1), of cnt e] assms(2,3) by (fastforce split: if_splits)
next
  case (LRange start stop)
  then show ?thesis using range [OF assms(1), of start stop] assms by (auto split: if_splits)
qed (use assms get len contains in \<open>auto split: bind_splits\<close>)

text \<open>Every program that the sequence can run returns, without a panic, the results of the sequence.\<close>

lemma run_refines:
  assumes "inv l" "list_all ok ops" "seq_run (abs l) ops = Some (xs, rs)"
  shows "\<exists>l'. list_run L l ops = Some (l', rs) \<and> inv l' \<and> abs l' = xs"
  using assms
proof (induction ops arbitrary: l rs)
  case (Cons op ops)
  obtain xs1 r rs' where s: "seq_step (abs l) op = Some (xs1, r)" "seq_run xs1 ops = Some (xs, rs')" "rs = r # rs'"
    using Cons.prems(3) by (auto split: bind_splits)
  obtain l1 where "list_step L l op = Some (l1, r)" "inv l1" "abs l1 = xs1"
    using step_refines [OF Cons.prems(1) _ s(1)] Cons.prems(2) by auto
  then show ?case using Cons.IH [of l1 rs'] Cons.prems(2) s by auto
qed simp

end

end
