(* ===== verification/QuickList.thy ===== *)
theory QuickList
  imports ListApi
begin

text \<open>
  The paged list of \<^verbatim>\<open>internal/datastruct/list/quicklist.go\<close>. The doubly linked list of pages is
  the list \<open>ql_data\<close>; a page is a slice, its elements with its capacity. The capacity that
  \<^verbatim>\<open>append\<close> gives a slice it has to move is chosen by the Go runtime: it is the parameter
  \<open>grow\<close> (old capacity, needed length), on which nothing depends but where a page is full. An
  iterator is the position of its page, \<open>None\<close> for nil, and its offset, which the code lets run
  from -1 to one past the end. Every operation refines the operation on the flat list and panics
  exactly on the indices out of range.
\<close>

type_synonym 'a page = "'a list \<times> nat"
type_synonym iterator = "nat option \<times> int"

record 'a quickList =
  ql_data :: "'a page list"
  ql_size :: int

definition pageSize :: nat where
  "pageSize = 1024"

definition newQuickList :: "'a quickList" where
  "newQuickList = \<lparr>ql_data = [], ql_size = 0\<rparr>"

definition ql_add :: "'a quickList \<Rightarrow> 'a \<Rightarrow> 'a quickList" where
  "ql_add ql val =
     (let data = ql_data ql in
      if data = [] then \<lparr>ql_data = [([val], pageSize)], ql_size = ql_size ql + 1\<rparr>
      else let (backPage, c) = last data in
        if length backPage = c then \<lparr>ql_data = data @ [([val], pageSize)], ql_size = ql_size ql + 1\<rparr>
        else \<lparr>ql_data = butlast data @ [(backPage @ [val], c)], ql_size = ql_size ql + 1\<rparr>)"

section \<open>Iterators\<close>

fun find_front :: "'a page list \<Rightarrow> int \<Rightarrow> int \<Rightarrow> nat \<Rightarrow> iterator option" where
  "find_front [] index pageBeg n = None"
| "find_front ((page, _) # rest) index pageBeg n =
     (if pageBeg + int (length page) > index then Some (Some n, index - pageBeg)
      else find_front rest index (pageBeg + int (length page)) (Suc n))"

fun find_back :: "'a page list \<Rightarrow> int \<Rightarrow> int \<Rightarrow> nat \<Rightarrow> iterator option" where
  "find_back [] index pageBeg n = None"
| "find_back ((page, _) # rest) index pageBeg n =
     (let pageBeg' = pageBeg - int (length page) in
      if pageBeg' \<le> index then Some (Some (n - 1), index - pageBeg')
      else find_back rest index pageBeg' (n - 1))"

definition ql_find :: "'a quickList \<Rightarrow> int \<Rightarrow> iterator option" where
  "ql_find ql index =
     (if index < 0 \<or> index \<ge> ql_size ql then None
      else if index < go_div (ql_size ql) 2 then find_front (ql_data ql) index 0 0
      else find_back (rev (ql_data ql)) index (ql_size ql) (length (ql_data ql)))"

definition it_page :: "'a quickList \<Rightarrow> iterator \<Rightarrow> 'a list option" where
  "it_page ql it = do { p \<leftarrow> fst it; (page, _) \<leftarrow> gindex (ql_data ql) (int p); Some page }"

definition it_get :: "'a quickList \<Rightarrow> iterator \<Rightarrow> 'a option" where
  "it_get ql it = do { page \<leftarrow> it_page ql it; gindex page (snd it) }"

definition it_isBack :: "'a quickList \<Rightarrow> iterator \<Rightarrow> bool" where
  "it_isBack ql it \<longleftrightarrow> fst it = (if ql_data ql = [] then None else Some (length (ql_data ql) - 1))"

definition it_isFront :: "'a quickList \<Rightarrow> iterator \<Rightarrow> bool" where
  "it_isFront ql it \<longleftrightarrow> fst it = (if ql_data ql = [] then None else Some 0)"

definition it_next :: "'a quickList \<Rightarrow> iterator \<Rightarrow> (iterator \<times> bool) option" where
  "it_next ql it =
     do { page \<leftarrow> it_page ql it;
          if snd it < int (length page) - 1 then Some ((fst it, snd it + 1), True)
          else if it_isBack ql it then Some ((fst it, int (length page)), False)
          else Some ((map_option Suc (fst it), 0), True) }"

definition it_prev :: "'a quickList \<Rightarrow> iterator \<Rightarrow> (iterator \<times> bool) option" where
  "it_prev ql it =
     (if snd it > 0 then Some ((fst it, snd it - 1), True)
      else if it_isFront ql it then Some ((fst it, -1), False)
      else do { p \<leftarrow> fst it;
                prevPage \<leftarrow> it_page ql (Some (p - 1), 0);
                Some ((Some (p - 1), int (length prevPage) - 1), True) })"

definition it_atEnd :: "'a quickList \<Rightarrow> iterator \<Rightarrow> bool option" where
  "it_atEnd ql it =
     (if ql_data ql = [] then Some True
      else if \<not> it_isBack ql it then Some False
      else do { page \<leftarrow> it_page ql it; Some (snd it = int (length page)) })"

definition it_atBegin :: "'a quickList \<Rightarrow> iterator \<Rightarrow> bool" where
  "it_atBegin ql it \<longleftrightarrow> ql_data ql = [] \<or> it_isFront ql it \<and> snd it = -1"

definition set_page :: "'a quickList \<Rightarrow> nat \<Rightarrow> 'a page \<Rightarrow> 'a quickList" where
  "set_page ql p pg = ql\<lparr>ql_data := (ql_data ql)[p := pg]\<rparr>"

definition it_set :: "'a quickList \<Rightarrow> iterator \<Rightarrow> 'a \<Rightarrow> 'a quickList option" where
  "it_set ql it val =
     do { p \<leftarrow> fst it;
          (page, c) \<leftarrow> gindex (ql_data ql) (int p);
          _ \<leftarrow> gindex page (snd it);
          Some (set_page ql p (page[nat (snd it) := val], c)) }"

definition it_remove :: "'a quickList \<Rightarrow> iterator \<Rightarrow> ('a quickList \<times> iterator \<times> 'a) option" where
  "it_remove ql it =
     do { p \<leftarrow> fst it;
          (page0, c) \<leftarrow> gindex (ql_data ql) (int p);
          val \<leftarrow> gindex page0 (snd it);
          let page = list_remove (nat (snd it)) page0;
          (if page \<noteq> [] then
             (let ql1 = set_page ql p (page, c);
                  it1 = (if snd it = int (length page) \<and> \<not> it_isBack ql it then (Some (Suc p), 0) else it)
              in Some (ql1\<lparr>ql_size := ql_size ql - 1\<rparr>, it1, val))
           else
             (let data1 = list_remove p (ql_data ql); ql1 = ql\<lparr>ql_data := data1, ql_size := ql_size ql - 1\<rparr> in
              if it_isBack ql it then
                (if p \<noteq> 0 then
                   do { (prevPage, _) \<leftarrow> gindex (ql_data ql) (int p - 1);
                        Some (ql1, (Some (p - 1), int (length prevPage)), val) }
                 else Some (ql1, (None, 0), val))
              else Some (ql1, (Some p, 0), val))) }"

section \<open>Operations\<close>

definition ql_get :: "'a quickList \<Rightarrow> int \<Rightarrow> 'a option" where
  "ql_get ql index = do { it \<leftarrow> ql_find ql index; it_get ql it }"

definition ql_set :: "'a quickList \<Rightarrow> int \<Rightarrow> 'a \<Rightarrow> 'a quickList option" where
  "ql_set ql index val = do { it \<leftarrow> ql_find ql index; it_set ql it val }"

text \<open>
  \<^verbatim>\<open>append(page[:o+1], page[o:]...)\<close> followed by \<^verbatim>\<open>page[o] = val\<close>: the slice with \<open>val\<close>
  inserted, in place when the capacity allows it.
\<close>

definition insert_at :: "(nat \<Rightarrow> nat \<Rightarrow> nat) \<Rightarrow> 'a page \<Rightarrow> nat \<Rightarrow> 'a \<Rightarrow> 'a page" where
  "insert_at grow = (\<lambda>(page, c) off val.
     (list_insert off val page, if length page + 1 \<le> c then c else grow c (length page + 1)))"

definition ql_insert :: "(nat \<Rightarrow> nat \<Rightarrow> nat) \<Rightarrow> 'a quickList \<Rightarrow> int \<Rightarrow> 'a \<Rightarrow> 'a quickList option" where
  "ql_insert grow ql index val =
     (if index = ql_size ql then Some (ql_add ql val)
      else do { it \<leftarrow> ql_find ql index;
                p \<leftarrow> fst it;
                (page, c) \<leftarrow> gindex (ql_data ql) (int p);
                let off = nat (snd it);
                if length page < pageSize then
                  Some ((set_page ql p (insert_at grow (page, c) off val))\<lparr>ql_size := ql_size ql + 1\<rparr>)
                else
                  (let rest = drop (pageSize div 2) page;
                       nextPage = (rest, grow 0 (length rest));
                       half = (take (pageSize div 2) page, c);
                       (page', nextPage') =
                         (if off < pageSize div 2 then (insert_at grow half off val, nextPage)
                          else (half, insert_at grow nextPage (off - pageSize div 2) val))
                   in Some (ql\<lparr>ql_data := list_insert (Suc p) nextPage' ((ql_data ql)[p := page']),
                               ql_size := ql_size ql + 1\<rparr>)) })"

definition ql_remove :: "'a quickList \<Rightarrow> int \<Rightarrow> ('a quickList \<times> 'a) option" where
  "ql_remove ql index =
     do { it \<leftarrow> ql_find ql index; (ql', _, val) \<leftarrow> it_remove ql it; Some (ql', val) }"

definition ql_len :: "'a quickList \<Rightarrow> int" where
  "ql_len ql = ql_size ql"

text \<open>The result \<^verbatim>\<open>nil\<close> of an empty list is \<open>None\<close>.\<close>

definition ql_removeLast :: "'a quickList \<Rightarrow> ('a quickList \<times> 'a option) option" where
  "ql_removeLast ql =
     (if ql_len ql = 0 then Some (ql, None)
      else if ql_data ql = [] then None
      else let (lastPage, c) = last (ql_data ql) in
        if length lastPage = 1 then
          Some (\<lparr>ql_data = butlast (ql_data ql), ql_size = ql_size ql - 1\<rparr>, Some (hd lastPage))
        else do { val \<leftarrow> gindex lastPage (int (length lastPage) - 1);
                  Some (\<lparr>ql_data = butlast (ql_data ql) @ [(butlast lastPage, c)],
                         ql_size = ql_size ql - 1\<rparr>, Some val) })"

partial_function (option) removeAll_loop ::
  "('a \<Rightarrow> bool) \<Rightarrow> 'a quickList \<Rightarrow> iterator \<Rightarrow> nat \<Rightarrow> ('a quickList \<times> nat) option" where
  "removeAll_loop expected ql it removed =
     do { e \<leftarrow> it_atEnd ql it;
          if e then Some (ql, removed)
          else do { v \<leftarrow> it_get ql it;
                    if expected v then
                      do { (ql', it', _) \<leftarrow> it_remove ql it; removeAll_loop expected ql' it' (Suc removed) }
                    else do { (it', _) \<leftarrow> it_next ql it; removeAll_loop expected ql it' removed } } }"

definition ql_removeAllByVal :: "('a \<Rightarrow> bool) \<Rightarrow> 'a quickList \<Rightarrow> ('a quickList \<times> nat) option" where
  "ql_removeAllByVal expected ql = do { it \<leftarrow> ql_find ql 0; removeAll_loop expected ql it 0 }"

partial_function (option) removeBy_loop ::
  "('a \<Rightarrow> bool) \<Rightarrow> int \<Rightarrow> 'a quickList \<Rightarrow> iterator \<Rightarrow> nat \<Rightarrow> ('a quickList \<times> nat) option" where
  "removeBy_loop expected cnt ql it removed =
     do { e \<leftarrow> it_atEnd ql it;
          if e then Some (ql, removed)
          else do { v \<leftarrow> it_get ql it;
                    if expected v then
                      do { (ql', it', _) \<leftarrow> it_remove ql it;
                           if int (Suc removed) = cnt then Some (ql', Suc removed)
                           else removeBy_loop expected cnt ql' it' (Suc removed) }
                    else do { (it', _) \<leftarrow> it_next ql it; removeBy_loop expected cnt ql it' removed } } }"

definition ql_removeByVal :: "('a \<Rightarrow> bool) \<Rightarrow> int \<Rightarrow> 'a quickList \<Rightarrow> ('a quickList \<times> nat) option" where
  "ql_removeByVal expected cnt ql =
     (if ql_size ql = 0 then Some (ql, 0)
      else do { it \<leftarrow> ql_find ql 0; removeBy_loop expected cnt ql it 0 })"

partial_function (option) reverseRemove_loop ::
  "('a \<Rightarrow> bool) \<Rightarrow> int \<Rightarrow> 'a quickList \<Rightarrow> iterator \<Rightarrow> nat \<Rightarrow> ('a quickList \<times> nat) option" where
  "reverseRemove_loop expected cnt ql it removed =
     (if it_atBegin ql it then Some (ql, removed)
      else do { v \<leftarrow> it_get ql it;
                if expected v then
                  do { (ql', it', _) \<leftarrow> it_remove ql it;
                       if int (Suc removed) = cnt then Some (ql', Suc removed)
                       else do { (it'', _) \<leftarrow> it_prev ql' it';
                                 reverseRemove_loop expected cnt ql' it'' (Suc removed) } }
                else do { (it', _) \<leftarrow> it_prev ql it; reverseRemove_loop expected cnt ql it' removed } })"

definition ql_reverseRemoveByVal :: "('a \<Rightarrow> bool) \<Rightarrow> int \<Rightarrow> 'a quickList \<Rightarrow> ('a quickList \<times> nat) option" where
  "ql_reverseRemoveByVal expected cnt ql =
     (if ql_size ql = 0 then Some (ql, 0)
      else do { it \<leftarrow> ql_find ql (ql_size ql - 1); reverseRemove_loop expected cnt ql it 0 })"

partial_function (option) forEach_loop ::
  "('s \<Rightarrow> nat \<Rightarrow> 'a \<Rightarrow> ('s \<times> bool) option) \<Rightarrow> 'a quickList \<Rightarrow> iterator \<Rightarrow> nat \<Rightarrow> 's \<Rightarrow> 's option" where
  "forEach_loop consumer ql it i s =
     do { v \<leftarrow> it_get ql it;
          (s', goNext) \<leftarrow> consumer s i v;
          if \<not> goNext then Some s'
          else do { (it', more) \<leftarrow> it_next ql it;
                    if \<not> more then Some s' else forEach_loop consumer ql it' (Suc i) s' } }"

definition ql_forEach :: "('s \<Rightarrow> nat \<Rightarrow> 'a \<Rightarrow> ('s \<times> bool) option) \<Rightarrow> 'a quickList \<Rightarrow> 's \<Rightarrow> 's option" where
  "ql_forEach consumer ql s =
     (if ql_len ql = 0 then Some s
      else do { it \<leftarrow> ql_find ql 0; forEach_loop consumer ql it 0 s })"

definition ql_contains :: "('a \<Rightarrow> bool) \<Rightarrow> 'a quickList \<Rightarrow> bool option" where
  "ql_contains expected ql =
     ql_forEach (\<lambda>c i actual. Some (if expected actual then (True, False) else (c, True))) ql False"

fun range_loop :: "nat \<Rightarrow> 'a quickList \<Rightarrow> iterator \<Rightarrow> 'a list \<Rightarrow> 'a list option" where
  "range_loop 0 ql it acc = Some acc"
| "range_loop (Suc n) ql it acc =
     do { v \<leftarrow> it_get ql it; (it', _) \<leftarrow> it_next ql it; range_loop n ql it' (acc @ [v]) }"

definition ql_range :: "'a quickList \<Rightarrow> int \<Rightarrow> int \<Rightarrow> 'a list option" where
  "ql_range ql start stop =
     (if start < 0 \<or> start \<ge> ql_len ql then None
      else if stop < start \<or> stop > ql_len ql then None
      else do { it \<leftarrow> ql_find ql start; range_loop (nat (stop - start)) ql it [] })"

section \<open>The flat list and positions\<close>

abbreviation flat :: "'a page list \<Rightarrow> 'a list" where
  "flat ps \<equiv> concat (map fst ps)"

definition ql_flat :: "'a quickList \<Rightarrow> 'a list" where
  "ql_flat ql = flat (ql_data ql)"

definition ql_inv :: "'a quickList \<Rightarrow> bool" where
  "ql_inv ql \<longleftrightarrow> ql_size ql = int (length (ql_flat ql)) \<and> (\<forall>pg \<in> set (ql_data ql). fst pg \<noteq> [])"

text \<open>An iterator at position \<open>k\<close>: on an element, or behind the last one.\<close>

definition it_pos :: "'a quickList \<Rightarrow> iterator \<Rightarrow> nat \<Rightarrow> bool" where
  "it_pos ql it k \<longleftrightarrow> (\<exists>ps pg c qs off. ql_data ql = ps @ (pg, c) # qs \<and> it = (Some (length ps), int off) \<and>
     k = length (flat ps) + off \<and> (off < length pg \<or> off = length pg \<and> qs = []))"

lemma it_posI:
  "ql_data ql = ps @ (pg, c) # qs \<Longrightarrow> it = (Some (length ps), int off) \<Longrightarrow> k = length (flat ps) + off \<Longrightarrow>
   off < length pg \<or> off = length pg \<and> qs = [] \<Longrightarrow> it_pos ql it k"
  unfolding it_pos_def by blast

lemma it_posE:
  assumes "it_pos ql it k" "k < length (ql_flat ql)"
  obtains ps pg c qs off where "ql_data ql = ps @ (pg, c) # qs" "it = (Some (length ps), int off)"
    "k = length (flat ps) + off" "off < length pg"
  using assms by (fastforce simp: it_pos_def ql_flat_def)

lemma gindex_mid: "gindex (ps @ x # qs) (int (length ps)) = Some x"
  by (simp add: gindex_def)

lemma find_front_spec:
  assumes "beg \<le> index" "index < beg + int (length (flat pages))"
  shows "\<exists>ps pg c qs off. pages = ps @ (pg, c) # qs \<and> find_front pages index beg n = Some (Some (n + length ps), int off) \<and>
    off < length pg \<and> index - beg = int (length (flat ps) + off)"
  using assms
proof (induction pages arbitrary: beg n)
  case (Cons p pages)
  obtain pg c where p: "p = (pg, c)" by (cases p)
  show ?case
  proof (cases "beg + int (length pg) > index")
    case True
    then show ?thesis using Cons.prems(1) p
      by (intro exI [of _ "[]"] exI [of _ pg] exI [of _ c] exI [of _ pages] exI [of _ "nat (index - beg)"]) auto
  next
    case False
    then obtain ps pg' c' qs off where "pages = ps @ (pg', c') # qs"
        "find_front pages index (beg + int (length pg)) (Suc n) = Some (Some (Suc n + length ps), int off)"
        "off < length pg'" "index - (beg + int (length pg)) = int (length (flat ps) + off)"
      using Cons.IH [of "beg + int (length pg)" "Suc n"] Cons.prems(2) p by auto
    then show ?thesis using False p by (intro exI [of _ "p # ps"]) auto
  qed
qed simp

lemma find_back_spec:
  assumes "0 \<le> index" "index < int (length (flat pages))"
  shows "\<exists>ps pg c qs off. pages = ps @ (pg, c) # qs \<and>
    find_back (rev pages) index (int (length (flat pages))) (length pages) = Some (Some (length ps), int off) \<and>
    off < length pg \<and> index = int (length (flat ps) + off)"
  using assms
proof (induction pages rule: rev_induct)
  case (snoc p pages)
  obtain pg c where p: "p = (pg, c)" by (cases p)
  show ?case
  proof (cases "int (length (flat pages)) \<le> index")
    case True
    then show ?thesis using snoc.prems p
      by (intro exI [of _ pages] exI [of _ pg] exI [of _ c] exI [of _ "[]"] exI [of _ "nat (index - int (length (flat pages)))"])
        auto
  next
    case False
    then obtain ps pg' c' qs off where "pages = ps @ (pg', c') # qs"
        "find_back (rev pages) index (int (length (flat pages))) (length pages) = Some (Some (length ps), int off)"
        "off < length pg'" "index = int (length (flat ps) + off)"
      using snoc.IH snoc.prems(1) by auto
    then show ?thesis using False p
      by (intro exI [of _ ps] exI [of _ pg'] exI [of _ c'] exI [of _ "qs @ [p]"] exI [of _ off]) (auto simp: Let_def)
  qed
qed simp

lemma ql_find_spec:
  assumes "ql_inv ql" "0 \<le> index" "index < ql_size ql"
  shows "\<exists>it. ql_find ql index = Some it \<and> it_pos ql it (nat index)"
proof -
  have sz: "ql_size ql = int (length (flat (ql_data ql)))" using assms(1) by (simp add: ql_inv_def ql_flat_def)
  have "\<exists>ps pg c qs off. ql_data ql = ps @ (pg, c) # qs \<and> ql_find ql index = Some (Some (length ps), int off) \<and>
      off < length pg \<and> index = int (length (flat ps) + off)"
  proof (cases "index < go_div (ql_size ql) 2")
    case True
    then show ?thesis
      using assms(2,3) sz find_front_spec [of 0 index "ql_data ql" 0] by (auto simp: ql_find_def)
  next
    case False
    then show ?thesis
      using assms(2,3) sz find_back_spec [of index "ql_data ql"] by (auto simp: ql_find_def)
  qed
  then obtain ps pg c qs off where p: "ql_data ql = ps @ (pg, c) # qs" "ql_find ql index = Some (Some (length ps), int off)"
      "off < length pg" "index = int (length (flat ps) + off)" by blast
  then have "it_pos ql (Some (length ps), int off) (nat index)"
    by (intro it_posI [where ps = ps and pg = pg and c = c and qs = qs and off = off]) auto
  then show ?thesis using p(2) by blast
qed

lemma ql_find_None: "index < 0 \<or> ql_size ql \<le> index \<Longrightarrow> ql_find ql index = None"
  by (auto simp: ql_find_def)

section \<open>Moving and removing\<close>

lemma it_get_spec:
  assumes "it_pos ql it k" "k < length (ql_flat ql)"
  shows "it_get ql it = Some (ql_flat ql ! k)"
proof -
  obtain ps pg c qs off where "ql_data ql = ps @ (pg, c) # qs" "it = (Some (length ps), int off)"
      "k = length (flat ps) + off" "off < length pg"
    by (rule it_posE [OF assms])
  then show ?thesis
    by (simp add: it_get_def it_page_def gindex_mid ql_flat_def nth_append)
qed

lemma it_atEnd_spec:
  assumes "it_pos ql it k" "ql_inv ql"
  shows "it_atEnd ql it = Some (k = length (ql_flat ql))" "k \<le> length (ql_flat ql)"
proof -
  obtain ps pg c qs off where p: "ql_data ql = ps @ (pg, c) # qs" "it = (Some (length ps), int off)"
      "k = length (flat ps) + off" "off < length pg \<or> off = length pg \<and> qs = []"
    using assms(1) by (auto simp: it_pos_def)
  have "flat qs \<noteq> []" if "qs \<noteq> []" using that assms(2) p(1) by (cases qs) (auto simp: ql_inv_def)
  then show "it_atEnd ql it = Some (k = length (ql_flat ql))" "k \<le> length (ql_flat ql)"
    using p by (auto simp: it_atEnd_def it_isBack_def it_page_def gindex_mid ql_flat_def)
qed

lemma it_next_spec:
  assumes "it_pos ql it k" "k < length (ql_flat ql)" "ql_inv ql"
  shows "\<exists>it'. it_next ql it = Some (it', Suc k < length (ql_flat ql)) \<and> it_pos ql it' (Suc k)"
proof -
  obtain ps pg c qs off where p: "ql_data ql = ps @ (pg, c) # qs" "it = (Some (length ps), int off)"
      "k = length (flat ps) + off" "off < length pg"
    by (rule it_posE [OF assms(1,2)])
  have page: "it_page ql it = Some pg" using p by (simp add: it_page_def gindex_mid)
  consider "Suc off < length pg" | "Suc off = length pg" "qs = []" | q qs' where "Suc off = length pg" "qs = q # qs'"
    using p(4) by (cases qs; cases "Suc off = length pg") force+
  then show ?thesis
  proof cases
    case 1
    then have "it_pos ql (Some (length ps), int (Suc off)) (Suc k)"
      using p by (intro it_posI [where ps = ps]) auto
    then show ?thesis using 1 p page by (auto simp: it_next_def ql_flat_def add.commute)
  next
    case 2
    then have "it_pos ql (Some (length ps), int (length pg)) (Suc k)"
      using p by (intro it_posI [where ps = ps]) auto
    then show ?thesis using 2 p page by (auto simp: it_next_def it_isBack_def ql_flat_def)
  next
    case (3 q qs')
    have ne: "fst q \<noteq> []" using assms(3) p(1) 3 by (auto simp: ql_inv_def)
    then have "it_pos ql (Some (Suc (length ps)), 0) (Suc k)"
      using p 3 by (intro it_posI [where ps = "ps @ [(pg, c)]" and pg = "fst q" and c = "snd q" and qs = qs' and off = 0]) auto
    then show ?thesis using 3 p page ne by (auto simp: it_next_def it_isBack_def ql_flat_def)
  qed
qed

lemma it_prev_spec:
  assumes "it_pos ql it k" "ql_inv ql" "0 < k"
  shows "\<exists>it'. it_prev ql it = Some (it', True) \<and> it_pos ql it' (k - 1)"
proof -
  obtain ps pg c qs off where p: "ql_data ql = ps @ (pg, c) # qs" "it = (Some (length ps), int off)"
      "k = length (flat ps) + off" "off < length pg \<or> off = length pg \<and> qs = []"
    using assms(1) by (auto simp: it_pos_def)
  show ?thesis
  proof (cases "0 < off")
    case True
    then have "it_pos ql (Some (length ps), int (off - 1)) (k - 1)"
      using p by (intro it_posI [where ps = ps and pg = pg and c = c and qs = qs and off = "off - 1"]) auto
    then show ?thesis using True p(2) by (auto simp: it_prev_def of_nat_diff)
  next
    case False
    then have "flat ps \<noteq> []" using p(3) assms(3) by auto
    then obtain ps' pg' c' where ps: "ps = ps' @ [(pg', c')]" by (cases ps rule: rev_cases) auto
    obtain x xs where pg': "pg' = x # xs" using assms(2) p(1) ps by (cases pg') (auto simp: ql_inv_def)
    have "it_pos ql (Some (length ps'), int (length xs)) (k - 1)"
      by (rule it_posI [where ps = ps' and pg = pg' and c = c' and qs = "(pg, c) # qs" and off = "length xs"])
        (use p(1,3) ps False pg' in auto)
    moreover have "it_page ql (Some (length ps'), 0) = Some pg'"
      using p(1) ps by (simp add: it_page_def gindex_mid)
    ultimately show ?thesis using False p(1,2) ps pg' by (simp add: it_prev_def it_isFront_def)
  qed
qed

lemma it_prev_begin:
  assumes "it_pos ql it 0" "ql_inv ql"
  shows "it_prev ql it = Some ((Some 0, -1), False)" "it_atBegin ql (Some 0, -1)"
proof -
  obtain ps pg c qs off where p: "ql_data ql = ps @ (pg, c) # qs" "it = (Some (length ps), int off)"
      "0 = length (flat ps) + off" using assms(1) by (auto simp: it_pos_def)
  then have "ps = []" using assms(2) by (cases ps) (auto simp: ql_inv_def)
  then show "it_prev ql it = Some ((Some 0, -1), False)" "it_atBegin ql (Some 0, -1)"
    using p by (auto simp: it_prev_def it_isFront_def it_atBegin_def)
qed

lemma it_pos_not_begin: "it_pos ql it k \<Longrightarrow> \<not> it_atBegin ql it"
  by (auto simp: it_pos_def it_atBegin_def)

lemma list_remove_append: "list_remove (length xs + i) (xs @ ys) = xs @ list_remove i ys"
  by (simp add: list_remove_def)

lemma list_remove_left: "i < length xs \<Longrightarrow> list_remove i (xs @ ys) = list_remove i xs @ ys"
  by (simp add: list_remove_def)

lemma it_remove_spec:
  assumes "it_pos ql it k" "k < length (ql_flat ql)" "ql_inv ql"
  shows "\<exists>ql' it'. it_remove ql it = Some (ql', it', ql_flat ql ! k) \<and> ql_inv ql' \<and>
    ql_flat ql' = list_remove k (ql_flat ql) \<and> (it_pos ql' it' k \<or> ql_data ql' = [] \<and> it' = (None, 0))"
proof -
  obtain ps pg c qs off where p: "ql_data ql = ps @ (pg, c) # qs" "it = (Some (length ps), int off)"
      "k = length (flat ps) + off" "off < length pg"
    by (rule it_posE [OF assms(1,2)])
  let ?pg = "list_remove off pg"
  have fl: "ql_flat ql ! k = pg ! off" using p by (simp add: ql_flat_def nth_append)
  have rm: "list_remove k (ql_flat ql) = flat ps @ ?pg @ flat qs"
    using p by (simp add: ql_flat_def list_remove_append list_remove_left)
  have sz: "ql_size ql - 1 = int (length (flat ps @ ?pg @ flat qs))"
    using assms(3) p by (auto simp: ql_inv_def ql_flat_def)
  have ne: "\<forall>q \<in> set ps \<union> set qs. fst q \<noteq> []" using assms(3) p(1) by (auto simp: ql_inv_def)
  have start: "gindex (ql_data ql) (int (length ps)) = Some (pg, c)" "gindex pg (int off) = Some (pg ! off)"
    using p by (simp_all add: gindex_mid)
  show ?thesis
  proof (cases "?pg = []")
    case False
    let ?ql = "ql\<lparr>ql_data := ps @ (?pg, c) # qs, ql_size := ql_size ql - 1\<rparr>"
    have inv: "ql_inv ?ql" "ql_flat ?ql = list_remove k (ql_flat ql)"
      using sz ne False rm by (auto simp: ql_inv_def ql_flat_def)
    have sp: "(set_page ql (length ps) (?pg, c))\<lparr>ql_size := ql_size ql - 1\<rparr> = ?ql"
      using p(1) by (simp add: set_page_def)
    show ?thesis
    proof (cases "off = length ?pg \<and> qs \<noteq> []")
      case True
      then obtain q qs' where qs: "qs = q # qs'" by (cases qs) auto
      have "it_pos ?ql (Some (Suc (length ps)), 0) k"
        using True p(3) ne qs by (intro it_posI [where ps = "ps @ [(?pg, c)]" and pg = "fst q" and c = "snd q" and qs = qs' and off = 0]) auto
      then show ?thesis
        using True p(1,2) False inv fl start sp by (auto simp: it_remove_def it_isBack_def)
    next
      case F: False
      then have "it_pos ?ql it k"
        using p(2-4) by (intro it_posI [where ps = ps and pg = ?pg and c = c and qs = qs and off = off]) auto
      then show ?thesis
        using F p(1,2) False inv fl start sp by (auto simp: it_remove_def it_isBack_def)
    qed
  next
    case True
    then have one: "length pg = 1" "off = 0" using p(4) length_list_remove [OF p(4)] by auto
    let ?ql = "ql\<lparr>ql_data := ps @ qs, ql_size := ql_size ql - 1\<rparr>"
    have inv: "ql_inv ?ql" "ql_flat ?ql = list_remove k (ql_flat ql)"
      using sz ne True rm by (auto simp: ql_inv_def ql_flat_def)
    have lr: "list_remove (length ps) (ql_data ql) = ps @ qs" using p(1) by (simp add: list_remove_def)
    consider q qs' where "qs = q # qs'" | "qs = []" "ps = []" | ps' pg' c' where "qs = []" "ps = ps' @ [(pg', c')]"
      by (cases qs; cases ps rule: rev_cases) auto
    then show ?thesis
    proof cases
      case (1 q qs')
      then have "it_pos ?ql (Some (length ps), 0) k"
        using p(3) one ne by (intro it_posI [where ps = ps and pg = "fst q" and c = "snd q" and qs = qs' and off = 0]) auto
      then show ?thesis using 1 p(1,2) True inv fl start lr one by (auto simp: it_remove_def it_isBack_def)
    next
      case 2
      then show ?thesis using p(1,2) True inv fl start lr one by (auto simp: it_remove_def it_isBack_def)
    next
      case (3 ps' pg' c')
      then have "it_pos ?ql (Some (length ps'), int (length pg')) k"
        using p(3) one by (intro it_posI [where ps = ps' and pg = pg' and c = c' and qs = "[]" and off = "length pg'"]) auto
      moreover have "gindex (ql_data ql) (int (length ps) - 1) = Some (pg', c')"
        using p(1) 3 by (simp add: gindex_def nth_append)
      ultimately show ?thesis
        using 3 p(1,2) True inv fl start lr one by (auto simp: it_remove_def it_isBack_def)
    qed
  qed
qed

section \<open>Removal by value\<close>

text \<open>
  The budget of a removal loop that has removed \<open>r\<close> of \<open>cnt\<close>: the loops compare for equality after
  an increment, so a count that is not positive never stops them.
\<close>

definition budget :: "int \<Rightarrow> nat \<Rightarrow> nat \<Rightarrow> nat" where
  "budget cnt r rest = (if int r < cnt then nat cnt - r else rest)"

definition it_at :: "'a quickList \<Rightarrow> iterator \<Rightarrow> nat \<Rightarrow> bool" where
  "it_at ql it k \<longleftrightarrow> it_pos ql it k \<or> ql_data ql = [] \<and> it = (None, 0) \<and> k = 0"

lemma it_at_end:
  assumes "it_at ql it k" "ql_inv ql"
  shows "it_atEnd ql it = Some (k = length (ql_flat ql))" "k \<le> length (ql_flat ql)"
  using assms it_atEnd_spec [of ql it k] by (auto simp: it_at_def it_atEnd_def ql_flat_def)

lemma it_at_pos: "it_at ql it k \<Longrightarrow> k < length (ql_flat ql) \<Longrightarrow> it_pos ql it k"
  by (auto simp: it_at_def ql_flat_def)

lemma it_remove_at:
  assumes "it_at ql it k" "k < length (ql_flat ql)" "ql_inv ql"
  obtains ql' it' where "it_remove ql it = Some (ql', it', ql_flat ql ! k)" "ql_inv ql'"
    "ql_flat ql' = take k (ql_flat ql) @ drop (Suc k) (ql_flat ql)" "it_at ql' it' k"
proof -
  obtain ql' it' where r: "it_remove ql it = Some (ql', it', ql_flat ql ! k)" "ql_inv ql'"
      "ql_flat ql' = list_remove k (ql_flat ql)" "it_pos ql' it' k \<or> ql_data ql' = [] \<and> it' = (None, 0)"
    using it_remove_spec [OF it_at_pos [OF assms(1,2)] assms(2,3)] by blast
  moreover have "k = 0" if "ql_data ql' = []"
  proof -
    have "take k (ql_flat ql) = []" using that r(3) by (simp add: ql_flat_def list_remove_def)
    then show ?thesis using assms(2) by (simp only: take_eq_Nil) auto
  qed
  ultimately show thesis using that by (auto simp: it_at_def list_remove_def)
qed

lemma removeBy_loop_spec:
  assumes "it_at ql it k" "ql_inv ql" "n = budget cnt r (length (ql_flat ql) - k)"
  shows "\<exists>ql'. removeBy_loop e cnt ql it r = Some (ql', r + min n (length (filter e (drop k (ql_flat ql))))) \<and>
    ql_inv ql' \<and> ql_flat ql' = take k (ql_flat ql) @ remove_first n e (drop k (ql_flat ql))"
  using assms
proof (induction "length (ql_flat ql) - k" arbitrary: ql it k r n)
  case 0
  then have "k = length (ql_flat ql)" using it_at_end [of ql it k] by simp
  then show ?case using 0 it_at_end(1) [of ql it k] by (subst removeBy_loop.simps) simp
next
  case (Suc m)
  then have lt: "k < length (ql_flat ql)" by simp
  let ?v = "ql_flat ql ! k"
  have d: "drop k (ql_flat ql) = ?v # drop (Suc k) (ql_flat ql)" using lt by (rule Cons_nth_drop_Suc [symmetric])
  have n: "0 < n" using Suc.prems(3) lt by (auto simp: budget_def)
  have go: "it_atEnd ql it = Some False" "it_get ql it = Some ?v"
    using it_at_end [OF Suc.prems(1,2)] lt it_get_spec [OF it_at_pos [OF Suc.prems(1) lt] lt] by auto
  show ?case
  proof (cases "e ?v")
    case True
    obtain ql1 it1 where r: "it_remove ql it = Some (ql1, it1, ?v)" "ql_inv ql1"
        "ql_flat ql1 = take k (ql_flat ql) @ drop (Suc k) (ql_flat ql)" "it_at ql1 it1 k"
      by (rule it_remove_at [OF Suc.prems(1) lt Suc.prems(2)])
    have tk: "take k (ql_flat ql1) = take k (ql_flat ql)" "drop k (ql_flat ql1) = drop (Suc k) (ql_flat ql)"
      using lt r(3) by auto
    show ?thesis
    proof (cases "int (Suc r) = cnt")
      case stop: True
      then have "n = 1" using Suc.prems(3) by (auto simp: budget_def)
      then show ?thesis using stop True r go d lt n by (subst removeBy_loop.simps) auto
    next
      case False
      have n1: "n - 1 = budget cnt (Suc r) (length (ql_flat ql1) - k)"
        using False Suc.prems(3) r(3) lt by (auto simp: budget_def split: if_splits)
      have m: "m = length (ql_flat ql1) - k" using Suc.hyps(2) r(3) lt by auto
      obtain ql' where "removeBy_loop e cnt ql1 it1 (Suc r) = Some (ql', Suc r + min (n - 1) (length (filter e (drop (Suc k) (ql_flat ql)))))"
          "ql_inv ql'" "ql_flat ql' = take k (ql_flat ql) @ remove_first (n - 1) e (drop (Suc k) (ql_flat ql))"
        using Suc.hyps(1) [OF m r(4,2) n1] unfolding tk by blast
      then show ?thesis using False True r go d n by (subst removeBy_loop.simps) auto
    qed
  next
    case False
    obtain it1 where nx: "it_next ql it = Some (it1, Suc k < length (ql_flat ql))" "it_pos ql it1 (Suc k)"
      using it_next_spec [OF it_at_pos [OF Suc.prems(1) lt] lt Suc.prems(2)] by blast
    then have at: "it_at ql it1 (Suc k)" by (simp add: it_at_def)
    let ?n = "budget cnt r (length (ql_flat ql) - Suc k)"
    have rf: "remove_first ?n e (drop (Suc k) (ql_flat ql)) = remove_first n e (drop (Suc k) (ql_flat ql))"
      using Suc.prems(3) by (auto simp: budget_def remove_first_all)
    have mn: "min ?n (length (filter e (drop (Suc k) (ql_flat ql)))) = min n (length (filter e (drop (Suc k) (ql_flat ql))))"
      using Suc.prems(3) length_filter_le [of e "drop (Suc k) (ql_flat ql)"] by (auto simp: budget_def min_def)
    have m: "m = length (ql_flat ql) - Suc k" using Suc.hyps(2) by simp
    obtain ql' where "removeBy_loop e cnt ql it1 r = Some (ql', r + min n (length (filter e (drop (Suc k) (ql_flat ql)))))"
        "ql_inv ql'" "ql_flat ql' = take (Suc k) (ql_flat ql) @ remove_first n e (drop (Suc k) (ql_flat ql))"
      using Suc.hyps(1) [OF m at Suc.prems(2) refl, of r] unfolding rf mn by blast
    then show ?thesis using False nx go d n lt by (subst removeBy_loop.simps) (auto simp: take_Suc_conv_app_nth)
  qed
qed

text \<open>Removal of every match is removal with a count that never stops the loop.\<close>

lemma removeAll_removeBy:
  assumes "it_at ql it k" "ql_inv ql"
  shows "removeAll_loop e ql it r = removeBy_loop e 0 ql it r"
  using assms
proof (induction "length (ql_flat ql) - k" arbitrary: ql it k r)
  case 0
  then have "it_atEnd ql it = Some True" using it_at_end [of ql it k] by simp
  then show ?case by (simp add: removeAll_loop.simps [of e ql] removeBy_loop.simps [of e 0 ql])
next
  case (Suc m)
  then have lt: "k < length (ql_flat ql)" by simp
  obtain ql1 it1 where r: "it_remove ql it = Some (ql1, it1, ql_flat ql ! k)" "ql_inv ql1"
      "ql_flat ql1 = take k (ql_flat ql) @ drop (Suc k) (ql_flat ql)" "it_at ql1 it1 k"
    by (rule it_remove_at [OF Suc.prems(1) lt Suc.prems(2)])
  obtain it2 where nx: "it_next ql it = Some (it2, Suc k < length (ql_flat ql))" "it_at ql it2 (Suc k)"
    using it_next_spec [OF it_at_pos [OF Suc.prems(1) lt] lt Suc.prems(2)] by (auto simp: it_at_def)
  have "m = length (ql_flat ql1) - k" "m = length (ql_flat ql) - Suc k" using Suc.hyps(2) lt r(3) by auto
  then have "removeAll_loop e ql1 it1 (Suc r) = removeBy_loop e 0 ql1 it1 (Suc r)"
      "removeAll_loop e ql it2 r = removeBy_loop e 0 ql it2 r"
    using Suc.hyps(1) r(2,4) nx(2) Suc.prems(2) by blast+
  moreover have "it_get ql it = Some (ql_flat ql ! k)" by (rule it_get_spec [OF it_at_pos [OF Suc.prems(1) lt] lt])
  ultimately show ?case
    using r(1) nx(1) it_at_end(1) [OF Suc.prems] lt by (simp add: removeAll_loop.simps [of e ql it] removeBy_loop.simps [of e 0 ql it])
qed

text \<open>Backwards, \<open>it_rev ql it k\<close> says that the first \<open>k\<close> elements are still to be visited.\<close>

definition it_rev :: "'a quickList \<Rightarrow> iterator \<Rightarrow> nat \<Rightarrow> bool" where
  "it_rev ql it k \<longleftrightarrow> (if k = 0 then it_atBegin ql it else it_pos ql it (k - 1))"

lemma it_prev_at:
  assumes "it_at ql it k" "ql_inv ql"
  obtains it' b where "it_prev ql it = Some (it', b)" "it_rev ql it' k"
proof (cases "it_pos ql it k")
  case True
  then show thesis
    using that it_prev_begin [of ql it] it_prev_spec [of ql it k] assms(2) by (cases "k = 0") (auto simp: it_rev_def)
next
  case False
  then show thesis
    using that assms(1) by (auto simp: it_at_def it_rev_def it_prev_def it_isFront_def it_atBegin_def)
qed

lemma reverseRemove_loop_spec:
  assumes "it_rev ql it k" "k \<le> length (ql_flat ql)" "ql_inv ql" "n = budget cnt r k"
  shows "\<exists>ql'. reverseRemove_loop e cnt ql it r = Some (ql', r + min n (length (filter e (take k (ql_flat ql))))) \<and>
    ql_inv ql' \<and> ql_flat ql' = rev (remove_first n e (rev (take k (ql_flat ql)))) @ drop k (ql_flat ql)"
  using assms
proof (induction k arbitrary: ql it r n)
  case 0
  then show ?case by (subst reverseRemove_loop.simps) (auto simp: it_rev_def)
next
  case (Suc k)
  have pos: "it_pos ql it k" and lt: "k < length (ql_flat ql)" and n: "0 < n"
    using Suc.prems by (auto simp: it_rev_def budget_def)
  let ?v = "ql_flat ql ! k" and ?xs = "take k (ql_flat ql)"
  have tk: "take (Suc k) (ql_flat ql) = ?xs @ [?v]" using lt by (rule take_Suc_conv_app_nth)
  have dk: "drop k (ql_flat ql) = ?v # drop (Suc k) (ql_flat ql)" using lt by (rule Cons_nth_drop_Suc [symmetric])
  have at: "it_at ql it k" using pos by (simp add: it_at_def)
  have go: "\<not> it_atBegin ql it" "it_get ql it = Some ?v"
    using it_pos_not_begin [OF pos] it_get_spec [OF pos lt] by auto
  show ?case
  proof (cases "e ?v")
    case True
    obtain ql1 it1 where r: "it_remove ql it = Some (ql1, it1, ?v)" "ql_inv ql1"
        "ql_flat ql1 = ?xs @ drop (Suc k) (ql_flat ql)" "it_at ql1 it1 k"
      by (rule it_remove_at [OF at lt Suc.prems(3)])
    have tk1: "take k (ql_flat ql1) = ?xs" "drop k (ql_flat ql1) = drop (Suc k) (ql_flat ql)" "k \<le> length (ql_flat ql1)"
      using lt r(3) by auto
    show ?thesis
    proof (cases "int (Suc r) = cnt")
      case stop: True
      then have "n = 1" using Suc.prems(4) by (auto simp: budget_def)
      then show ?thesis using stop True r go tk by (subst reverseRemove_loop.simps) auto
    next
      case False
      have n1: "n - 1 = budget cnt (Suc r) k"
        using False Suc.prems(4) by (auto simp: budget_def split: if_splits)
      obtain it2 b where p: "it_prev ql1 it1 = Some (it2, b)" "it_rev ql1 it2 k" by (rule it_prev_at [OF r(4,2)])
      obtain ql' where "reverseRemove_loop e cnt ql1 it2 (Suc r) = Some (ql', Suc r + min (n - 1) (length (filter e ?xs)))"
          "ql_inv ql'" "ql_flat ql' = rev (remove_first (n - 1) e (rev ?xs)) @ drop (Suc k) (ql_flat ql)"
        using Suc.IH [OF p(2) tk1(3) r(2) n1] unfolding tk1 by blast
      then show ?thesis using False True r go tk n p by (subst reverseRemove_loop.simps) auto
    qed
  next
    case False
    obtain it1 b where p: "it_prev ql it = Some (it1, b)" "it_rev ql it1 k" by (rule it_prev_at [OF at Suc.prems(3)])
    let ?n = "budget cnt r k"
    have rf: "remove_first ?n e (rev ?xs) = remove_first n e (rev ?xs)"
      using Suc.prems(4) by (auto simp: budget_def remove_first_all)
    have mn: "min ?n (length (filter e ?xs)) = min n (length (filter e ?xs))"
      using Suc.prems(4) length_filter_le [of e ?xs] lt by (auto simp: budget_def min_def)
    obtain ql' where "reverseRemove_loop e cnt ql it1 r = Some (ql', r + min n (length (filter e ?xs)))"
        "ql_inv ql'" "ql_flat ql' = rev (remove_first n e (rev ?xs)) @ ?v # drop (Suc k) (ql_flat ql)"
      using Suc.IH [OF p(2) less_imp_le [OF lt] Suc.prems(3) refl, of r] unfolding rf mn dk by blast
    then show ?thesis using False p go tk n by (subst reverseRemove_loop.simps) auto
  qed
qed

section \<open>The operations on the flat list\<close>

lemma newQuickList_inv: "ql_inv newQuickList" "ql_flat newQuickList = []"
  by (simp_all add: newQuickList_def ql_inv_def ql_flat_def)

lemma ql_add_spec: "ql_inv ql \<Longrightarrow> ql_inv (ql_add ql v) \<and> ql_flat (ql_add ql v) = ql_flat ql @ [v]"
  by (cases "ql_data ql" rule: rev_cases)
    (auto simp: ql_add_def ql_inv_def ql_flat_def Let_def split: prod.splits)

lemma ql_get_spec: "ql_inv ql \<Longrightarrow> ql_get ql i = gindex (ql_flat ql) i"
  using ql_find_spec [of ql i] it_get_spec [of ql _ "nat i"]
  by (cases "0 \<le> i \<and> i < ql_size ql") (auto simp: ql_get_def gindex_def ql_inv_def ql_find_def)

lemma ql_set_spec:
  assumes "ql_inv ql" "0 \<le> i" "i < int (length (ql_flat ql))"
  shows "\<exists>ql'. ql_set ql i v = Some ql' \<and> ql_inv ql' \<and> ql_flat ql' = (ql_flat ql)[nat i := v]"
proof -
  obtain it where it: "ql_find ql i = Some it" "it_pos ql it (nat i)"
    using ql_find_spec [of ql i] assms by (auto simp: ql_inv_def)
  obtain ps pg c qs off where p: "ql_data ql = ps @ (pg, c) # qs" "it = (Some (length ps), int off)"
      "nat i = length (flat ps) + off" "off < length pg"
    by (rule it_posE [OF it(2)]) (use assms in auto)
  have s: "it_set ql it v = Some (ql\<lparr>ql_data := ps @ (pg[off := v], c) # qs\<rparr>)"
    using p by (simp add: it_set_def gindex_mid set_page_def)
  show ?thesis
    using it s p assms(1) by (auto simp: ql_set_def ql_inv_def ql_flat_def list_update_append)
qed

lemma ql_remove_spec:
  assumes "ql_inv ql" "0 \<le> i" "i < int (length (ql_flat ql))"
  shows "\<exists>ql'. ql_remove ql i = Some (ql', ql_flat ql ! nat i) \<and> ql_inv ql' \<and> ql_flat ql' = list_remove (nat i) (ql_flat ql)"
proof -
  obtain it where it: "ql_find ql i = Some it" "it_pos ql it (nat i)"
    using ql_find_spec [of ql i] assms by (auto simp: ql_inv_def)
  have lt: "nat i < length (ql_flat ql)" using assms(2,3) by linarith
  then show ?thesis using it(1) it_remove_spec [OF it(2) lt assms(1)] by (auto simp: ql_remove_def)
qed

lemma list_insert_append: "list_insert (length xs + i) v (xs @ ys) = xs @ list_insert i v ys"
  by (simp add: list_insert_def)

lemma list_insert_left: "i \<le> length xs \<Longrightarrow> list_insert i v (xs @ ys) = list_insert i v xs @ ys"
  by (simp add: list_insert_def)

lemma list_insert_split:
  "i < k \<Longrightarrow> k \<le> length xs \<Longrightarrow> list_insert i v (take k xs) @ drop k xs = list_insert i v xs"
  "k \<le> i \<Longrightarrow> i \<le> length xs \<Longrightarrow> take k xs @ list_insert (i - k) v (drop k xs) = list_insert i v xs"
proof -
  assume "i < k" "k \<le> length xs"
  then show "list_insert i v (take k xs) @ drop k xs = list_insert i v xs"
    using list_insert_left [of i "take k xs" v "drop k xs"] by simp
next
  assume "k \<le> i" "i \<le> length xs"
  then show "take k xs @ list_insert (i - k) v (drop k xs) = list_insert i v xs"
    using list_insert_append [of "take k xs" "i - k" v "drop k xs"] by simp
qed

lemma fst_insert_at [simp]: "fst (insert_at grow pg off v) = list_insert off v (fst pg)"
  by (simp add: insert_at_def split_beta)

lemma ql_insert_inner:
  assumes "ql_inv ql" "0 \<le> i" "i < int (length (ql_flat ql))"
  shows "\<exists>ql'. ql_insert grow ql i v = Some ql' \<and> ql_inv ql' \<and> ql_flat ql' = list_insert (nat i) v (ql_flat ql)"
proof -
  obtain it where it: "ql_find ql i = Some it" "it_pos ql it (nat i)"
    using ql_find_spec [of ql i] assms by (auto simp: ql_inv_def)
  obtain ps pg c qs off where p: "ql_data ql = ps @ (pg, c) # qs" "it = (Some (length ps), int off)"
      "nat i = length (flat ps) + off" "off < length pg"
    by (rule it_posE [OF it(2)]) (use assms in auto)
  have fl: "list_insert (nat i) v (ql_flat ql) = flat ps @ list_insert off v pg @ flat qs"
    using p by (simp add: ql_flat_def list_insert_append list_insert_left)
  have ne: "i \<noteq> ql_size ql" using assms by (simp add: ql_inv_def)
  have inv: "ql_size ql = int (length (flat ps @ pg @ flat qs))" "\<forall>q \<in> set ps \<union> set qs. fst q \<noteq> []"
    using assms(1) p(1) by (auto simp: ql_inv_def ql_flat_def)
  have two: ?thesis if "ql_insert grow ql i v = Some (ql\<lparr>ql_data := ps @ pg1 # pg2 # qs, ql_size := ql_size ql + 1\<rparr>)"
      "fst pg1 @ fst pg2 = list_insert off v pg" "fst pg1 \<noteq> []" "fst pg2 \<noteq> []" for pg1 pg2
    using that inv fl length_list_insert [of off v pg] arg_cong [OF that(2), of length]
    by (auto simp: ql_inv_def ql_flat_def simp flip: append_assoc that(2))
  have at: "list_insert (Suc (length ps)) pg2 ((ql_data ql)[length ps := pg1]) = ps @ pg1 # pg2 # qs" for pg1 pg2
    using p(1) by (simp add: list_insert_def)
  let ?k = "pageSize div 2"
  consider "length pg < pageSize" | "pageSize \<le> length pg" "off < ?k" | "pageSize \<le> length pg" "?k \<le> off" by linarith
  then show ?thesis
  proof cases
    case 1
    then show ?thesis
      using it p inv ne fl
      by (auto simp: ql_insert_def gindex_mid set_page_def ql_inv_def ql_flat_def list_insert_def insert_at_def Let_def)
  next
    case 2
    then have k: "?k < length pg" "?k \<le> length pg" by (auto simp: pageSize_def)
    show ?thesis
      by (rule two [of "insert_at grow (take ?k pg, c) off v" "(drop ?k pg, grow 0 (length pg - ?k))"])
        (use 2 k it(1) p(1,2) ne list_insert_split(1) [of off ?k pg v] in
          \<open>simp_all add: ql_insert_def gindex_mid at Let_def, simp_all add: list_insert_def\<close>)
  next
    case 3
    then have k: "0 < ?k" "pg \<noteq> []" by (auto simp: pageSize_def)
    show ?thesis
      by (rule two [of "(take ?k pg, c)" "insert_at grow (drop ?k pg, grow 0 (length pg - ?k)) (off - ?k) v"])
        (use 3 k it(1) p(1,2,4) ne list_insert_split(2) [of ?k off pg v] in
          \<open>simp_all add: ql_insert_def gindex_mid at Let_def, simp_all add: list_insert_def\<close>)
  qed
qed

lemma ql_insert_spec:
  assumes "ql_inv ql" "0 \<le> i" "i \<le> int (length (ql_flat ql))"
  shows "\<exists>ql'. ql_insert grow ql i v = Some ql' \<and> ql_inv ql' \<and> ql_flat ql' = list_insert (nat i) v (ql_flat ql)"
proof (cases "i = int (length (ql_flat ql))")
  case True
  then have "i = ql_size ql" using assms(1) by (simp add: ql_inv_def)
  then show ?thesis using True ql_add_spec [OF assms(1), of v] by (simp add: ql_insert_def list_insert_def)
qed (use ql_insert_inner [OF assms(1,2)] assms(3) in auto)

lemma ql_removeLast_spec:
  assumes "ql_inv ql"
  shows "\<exists>ql'. ql_removeLast ql = Some (ql', if ql_flat ql = [] then None else Some (last (ql_flat ql))) \<and>
    ql_inv ql' \<and> ql_flat ql' = butlast (ql_flat ql)"
proof (cases "ql_data ql" rule: rev_cases)
  case Nil
  then show ?thesis using assms by (auto simp: ql_removeLast_def ql_len_def ql_inv_def ql_flat_def)
next
  case (snoc ps q)
  obtain pg c where q: "q = (pg, c)" by (cases q)
  then obtain xs x where "pg = xs @ [x]" using assms snoc by (cases pg rule: rev_cases) (auto simp: ql_inv_def)
  then show ?thesis
    using assms snoc q gindex_mid [of xs x "[]"]
    by (cases "xs = []") (auto simp: ql_removeLast_def ql_len_def ql_inv_def ql_flat_def butlast_append)
qed

lemma ql_start:
  assumes "ql_inv ql" "ql_flat ql \<noteq> []"
  obtains it where "ql_find ql 0 = Some it" "it_pos ql it 0"
  using ql_find_spec [OF assms(1), of 0] assms that by (auto simp: ql_inv_def)

lemma ql_removeByVal_spec:
  assumes "ql_inv ql"
  shows "\<exists>ql'. ql_removeByVal e cnt ql =
      Some (ql', min (budget cnt 0 (length (ql_flat ql))) (length (filter e (ql_flat ql)))) \<and> ql_inv ql' \<and>
    ql_flat ql' = remove_first (budget cnt 0 (length (ql_flat ql))) e (ql_flat ql)"
proof (cases "ql_flat ql = []")
  case True
  then show ?thesis using assms by (auto simp: ql_removeByVal_def ql_inv_def)
next
  case False
  then obtain it where it: "ql_find ql 0 = Some it" "it_pos ql it 0" by (rule ql_start [OF assms])
  moreover have "ql_size ql \<noteq> 0" using False assms by (simp add: ql_inv_def)
  ultimately show ?thesis
    using removeBy_loop_spec [of ql it 0 _ cnt 0 e] assms by (simp add: ql_removeByVal_def it_at_def)
qed

lemma ql_removeAllByVal_spec:
  assumes "ql_inv ql" "ql_flat ql \<noteq> []"
  shows "\<exists>ql'. ql_removeAllByVal e ql = Some (ql', length (filter e (ql_flat ql))) \<and> ql_inv ql' \<and>
    ql_flat ql' = filter (\<lambda>x. \<not> e x) (ql_flat ql)"
proof -
  obtain it where it: "ql_find ql 0 = Some it" "it_pos ql it 0" using ql_start [OF assms] by blast
  then have at: "it_at ql it 0" by (simp add: it_at_def)
  show ?thesis
    using removeBy_loop_spec [OF at assms(1) refl, where cnt = 0 and r = 0 and e = e] it(1) removeAll_removeBy [OF at assms(1)]
    by (simp add: ql_removeAllByVal_def budget_def remove_first_all min_absorb2)
qed

lemma ql_reverseRemoveByVal_spec:
  assumes "ql_inv ql"
  shows "\<exists>ql'. ql_reverseRemoveByVal e cnt ql =
      Some (ql', min (budget cnt 0 (length (ql_flat ql))) (length (filter e (ql_flat ql)))) \<and> ql_inv ql' \<and>
    ql_flat ql' = rev (remove_first (budget cnt 0 (length (ql_flat ql))) e (rev (ql_flat ql)))"
proof (cases "ql_flat ql = []")
  case True
  then show ?thesis using assms by (auto simp: ql_reverseRemoveByVal_def ql_inv_def)
next
  case False
  let ?n = "length (ql_flat ql)"
  have sz: "ql_size ql = int ?n" "0 < ?n" using False assms by (auto simp: ql_inv_def)
  then obtain it where it: "ql_find ql (ql_size ql - 1) = Some it" "it_pos ql it (nat (ql_size ql - 1))"
    using ql_find_spec [OF assms, of "ql_size ql - 1"] by auto
  then have "it_rev ql it ?n" using sz by (simp add: it_rev_def nat_diff_distrib)
  then show ?thesis
    using reverseRemove_loop_spec [of ql it ?n _ cnt 0 e] it(1) sz assms by (simp add: ql_reverseRemoveByVal_def)
qed

lemma forEach_loop_spec:
  assumes "it_pos ql it k" "k < length (ql_flat ql)" "ql_inv ql"
  shows "forEach_loop f ql it i s = iter f i (drop k (ql_flat ql)) s"
  using assms
proof (induction "length (ql_flat ql) - k" arbitrary: it k i s)
  case (Suc m)
  obtain it' where nx: "it_next ql it = Some (it', Suc k < length (ql_flat ql))" "it_pos ql it' (Suc k)"
    using it_next_spec [OF Suc.prems] by blast
  have d: "drop k (ql_flat ql) = ql_flat ql ! k # drop (Suc k) (ql_flat ql)"
    using Suc.prems(2) by (rule Cons_nth_drop_Suc [symmetric])
  have IH: "forEach_loop f ql it' (Suc i) s' = iter f (Suc i) (drop (Suc k) (ql_flat ql)) s'"
    if "Suc k < length (ql_flat ql)" for s'
    using Suc.hyps(1) [of "Suc k" it'] Suc.hyps(2) nx(2) that Suc.prems(3) by auto
  show ?case
    using it_get_spec [OF Suc.prems(1,2)] nx(1) d IH
    by (cases "f s i (ql_flat ql ! k)"; cases "Suc k < length (ql_flat ql)")
      (subst forEach_loop.simps, auto simp: split_beta)+
qed simp

lemma ql_forEach_spec: "ql_inv ql \<Longrightarrow> ql_forEach f ql s = iter f 0 (ql_flat ql) s"
proof (cases "ql_flat ql = []")
  case False
  assume inv: "ql_inv ql"
  then obtain it where it: "ql_find ql 0 = Some it" "it_pos ql it 0" using False ql_start by blast
  then show ?thesis
    using forEach_loop_spec [OF it(2) _ inv, of f 0 s] False inv by (simp add: ql_forEach_def ql_len_def ql_inv_def)
qed (simp add: ql_forEach_def ql_len_def ql_inv_def)

lemma range_loop_spec:
  "it_pos ql it k \<Longrightarrow> k + n \<le> length (ql_flat ql) \<Longrightarrow> ql_inv ql \<Longrightarrow>
   range_loop n ql it acc = Some (acc @ take n (drop k (ql_flat ql)))"
proof (induction n arbitrary: it k acc)
  case (Suc n)
  then have lt: "k < length (ql_flat ql)" by simp
  obtain it' where "it_next ql it = Some (it', Suc k < length (ql_flat ql))" "it_pos ql it' (Suc k)"
    using it_next_spec [OF Suc.prems(1) lt Suc.prems(3)] by blast
  then show ?case
    using Suc.IH [of it' "Suc k"] Suc.prems it_get_spec [OF Suc.prems(1) lt] lt by (simp flip: Cons_nth_drop_Suc)
qed simp

lemma ql_range_spec:
  assumes "ql_inv ql" "0 \<le> start" "start < int (length (ql_flat ql))" "start \<le> stop" "stop \<le> int (length (ql_flat ql))"
  shows "ql_range ql start stop = Some (take (nat (stop - start)) (drop (nat start) (ql_flat ql)))"
proof -
  obtain it where "ql_find ql start = Some it" "it_pos ql it (nat start)"
    using ql_find_spec [of ql start] assms by (auto simp: ql_inv_def)
  then show ?thesis
    using range_loop_spec [of ql it "nat start" "nat (stop - start)" "[]"] assms
    by (simp add: ql_range_def ql_len_def ql_inv_def nat_diff_distrib)
qed

section \<open>The contract of lists\<close>

definition quick_List :: "(nat \<Rightarrow> nat \<Rightarrow> nat) \<Rightarrow> ('a quickList, 'a) List" where
  "quick_List grow = \<lparr>lAdd = (\<lambda>ql v. Some (ql_add ql v)), lGet = ql_get, lSet = ql_set, lInsert = ql_insert grow,
     lRemove = ql_remove, lRemoveLast = ql_removeLast, lRemoveAllByVal = ql_removeAllByVal,
     lRemoveByVal = ql_removeByVal, lReverseRemoveByVal = ql_reverseRemoveByVal, lLen = ql_len,
     lContains = ql_contains, lRange = ql_range\<rparr>"

lemma ql_contains_spec: "ql_inv ql \<Longrightarrow> ql_contains e ql = Some (\<exists>x \<in> set (ql_flat ql). e x)"
  by (simp add: ql_contains_def ql_forEach_spec iter_search)

lemma ql_len_spec: "ql_inv ql \<Longrightarrow> ql_len ql = int (length (ql_flat ql))"
  by (simp add: ql_len_def ql_inv_def)

lemma ql_removeByVal_pos:
  assumes "ql_inv ql" "0 < cnt"
  shows "\<exists>ql'. ql_removeByVal e cnt ql = Some (ql', min (nat cnt) (length (filter e (ql_flat ql)))) \<and> ql_inv ql' \<and>
      ql_flat ql' = remove_first (nat cnt) e (ql_flat ql)"
    "\<exists>ql'. ql_reverseRemoveByVal e cnt ql = Some (ql', min (nat cnt) (length (filter e (ql_flat ql)))) \<and> ql_inv ql' \<and>
      ql_flat ql' = rev (remove_first (nat cnt) e (rev (ql_flat ql)))"
  using ql_removeByVal_spec [OF assms(1), of e cnt] ql_reverseRemoveByVal_spec [OF assms(1), of e cnt] assms(2)
  by (simp_all add: budget_def)

interpretation ql: list_impl "quick_List grow" ql_inv ql_flat "\<lambda>_. True" for grow
  by unfold_locales
    (simp_all only: quick_List_def List.select_convs ql_add_spec ql_get_spec ql_set_spec ql_insert_spec ql_remove_spec
      ql_removeLast_spec ql_removeAllByVal_spec ql_removeByVal_pos ql_contains_spec ql_range_spec ql_len_spec simp_thms
      option.inject)

section \<open>Properties\<close>

text \<open>C15. Any program of list calls that a plain sequence can run (indices in range, positive counts)
  runs on a fresh quicklist without a panic, whatever capacities the runtime gives its pages,
  returns the same results, and leaves a quicklist without empty pages that holds the sequence.\<close>

theorem quicklist_refines_seq:
  assumes "seq_run [] ops = Some (xs, rs)"
  shows "\<exists>ql. list_run (quick_List grow) newQuickList ops = Some (ql, rs) \<and> ql_flat ql = xs \<and>
    ql_size ql = int (length xs) \<and> (\<forall>pg \<in> set (ql_data ql). fst pg \<noteq> [])"
proof -
  obtain ql where "list_run (quick_List grow) newQuickList ops = Some (ql, rs)" "ql_inv ql" "ql_flat ql = xs"
    using ql.run_refines [OF newQuickList_inv(1), unfolded newQuickList_inv(2), OF _ assms] by (auto simp: list.pred_True)
  then show ?thesis by (auto simp: ql_inv_def)
qed

theorem quicklist_refines_seq_witness:
  "\<exists>ql. list_run (quick_List (\<lambda>c n. 2 * n)) newQuickList
      [LAdd 1, LAdd (2 :: int), LInsert 1 7, LAdd 2, LReverseRemoveBy (\<lambda>x. x = 2) 1, LSet 0 5, LRange 0 3, LRemove 1]
     = Some (ql, [LUnit, LUnit, LUnit, LUnit, LNum 1, LUnit, LVals [5, 7, 2], LVal (Some 7)]) \<and> ql_flat ql = [5, 2]"
proof -
  let ?ops = "[LAdd 1, LAdd (2 :: int), LInsert 1 7, LAdd 2, LReverseRemoveBy (\<lambda>x. x = 2) 1, LSet 0 5, LRange 0 3, LRemove 1]"
  have "seq_run [] ?ops = Some ([5, 2], [LUnit, LUnit, LUnit, LUnit, LNum 1, LUnit, LVals [5, 7, 2], LVal (Some 7)])"
    by (simp add: gindex_def list_insert_def list_remove_def eval_nat_numeral)
  then show ?thesis using quicklist_refines_seq [of ?ops _ _ "\<lambda>c n. 2 * n"] by blast
qed

text \<open>\<open>Get\<close>, \<open>Set\<close>, \<open>Insert\<close> and \<open>Remove\<close> of a quicklist panic exactly where the index is out of range (for
  \<open>Set\<close> also the length itself, which its comment allows), and removal of every match panics exactly on the empty list; the removals with a count that is not positive remove every match; and the
  visit of \<^verbatim>\<open>ForEach\<close> is the visit of the sequence, stopping where its callback stops.\<close>

lemma quicklist_bounds:
  fixes f :: "'s \<Rightarrow> nat \<Rightarrow> 'a \<Rightarrow> ('s \<times> bool) option"
  assumes "ql_inv ql"
  shows "(ql_get ql i = None \<longleftrightarrow> i < 0 \<or> int (length (ql_flat ql)) \<le> i) \<and>
    (ql_set ql i v = None \<longleftrightarrow> i < 0 \<or> int (length (ql_flat ql)) \<le> i) \<and>
    (ql_insert grow ql i v = None \<longleftrightarrow> i < 0 \<or> int (length (ql_flat ql)) < i) \<and>
    (ql_remove ql i = None \<longleftrightarrow> i < 0 \<or> int (length (ql_flat ql)) \<le> i) \<and>
    (ql_removeAllByVal e ql = None \<longleftrightarrow> ql_flat ql = []) \<and>
    (cnt \<le> 0 \<longrightarrow> map_option (ql_flat \<circ> fst) (ql_removeByVal e cnt ql) = Some (filter (\<lambda>x. \<not> e x) (ql_flat ql))) \<and>
    ql_forEach f ql s = iter f 0 (ql_flat ql) s"
proof (intro conjI impI)
  have sz: "ql_size ql = int (length (ql_flat ql))" using assms by (simp add: ql_inv_def)
  have out: "ql_find ql i = None" if "i < 0 \<or> int (length (ql_flat ql)) \<le> i" using that sz by (simp add: ql_find_def)
  show "ql_get ql i = None \<longleftrightarrow> i < 0 \<or> int (length (ql_flat ql)) \<le> i"
    using ql_get_spec [OF assms] by (auto simp: gindex_def)
  show "ql_set ql i v = None \<longleftrightarrow> i < 0 \<or> int (length (ql_flat ql)) \<le> i"
    using ql_set_spec [OF assms, of i v] out by (fastforce simp: ql_set_def)
  show "ql_insert grow ql i v = None \<longleftrightarrow> i < 0 \<or> int (length (ql_flat ql)) < i"
    using ql_insert_spec [OF assms, of i grow v] out sz by (fastforce simp: ql_insert_def)
  show "ql_remove ql i = None \<longleftrightarrow> i < 0 \<or> int (length (ql_flat ql)) \<le> i"
    using ql_remove_spec [OF assms, of i] out by (fastforce simp: ql_remove_def)
  show "ql_removeAllByVal e ql = None \<longleftrightarrow> ql_flat ql = []"
    using ql_removeAllByVal_spec [OF assms, of e] sz by (auto simp: ql_removeAllByVal_def ql_find_def)
  show "map_option (ql_flat \<circ> fst) (ql_removeByVal e cnt ql) = Some (filter (\<lambda>x. \<not> e x) (ql_flat ql))" if "cnt \<le> 0"
    using that ql_removeByVal_spec [OF assms, of e cnt] by (auto simp: budget_def remove_first_all)
  show "ql_forEach f ql s = iter f 0 (ql_flat ql) s" by (rule ql_forEach_spec [OF assms])
qed

end
