(* ===== verification/LinkedList.thy ===== *)
theory LinkedList
  imports ListApi
begin

text \<open>
  The doubly linked list of \<^verbatim>\<open>internal/datastruct/list/linked.go\<close>, with its pointers: the nodes
  live in a store from addresses to nodes, \<open>ll_fresh\<close> is the address of the next allocation, nil
  is \<open>None\<close>, and dereferencing nil panics (\<open>None\<close> of the result). Loops that follow pointers may
  run forever on a store with a cycle, so they are partial functions; the invariant (a chain of
  distinct addresses, linked in both directions) makes every one of them return.
\<close>

record 'a node =
  n_val :: 'a
  n_prev :: "nat option"
  n_next :: "nat option"

record 'a linkedList =
  ll_first :: "nat option"
  ll_last :: "nat option"
  ll_size :: int
  ll_store :: "nat \<rightharpoonup> 'a node"
  ll_fresh :: nat

definition ll_empty :: "'a linkedList" where
  "ll_empty = \<lparr>ll_first = None, ll_last = None, ll_size = 0, ll_store = Map.empty, ll_fresh = 0\<rparr>"

text \<open>Dereferencing a pointer, and assigning to a field of the node it points to.\<close>

definition deref :: "'a linkedList \<Rightarrow> nat option \<Rightarrow> 'a node option" where
  "deref ll p = do { a \<leftarrow> p; ll_store ll a }"

definition assign :: "'a linkedList \<Rightarrow> nat option \<Rightarrow> ('a node \<Rightarrow> 'a node) \<Rightarrow> 'a linkedList option" where
  "assign ll p f = do { a \<leftarrow> p; n \<leftarrow> ll_store ll a; Some (ll\<lparr>ll_store := (ll_store ll)(a \<mapsto> f n)\<rparr>) }"

definition alloc :: "'a linkedList \<Rightarrow> 'a node \<Rightarrow> 'a linkedList \<times> nat" where
  "alloc ll n = (ll\<lparr>ll_store := (ll_store ll)(ll_fresh ll \<mapsto> n), ll_fresh := Suc (ll_fresh ll)\<rparr>, ll_fresh ll)"

section \<open>Operations\<close>

definition ll_add :: "'a linkedList \<Rightarrow> 'a \<Rightarrow> 'a linkedList option" where
  "ll_add ll val =
     (let (ll1, n) = alloc ll \<lparr>n_val = val, n_prev = None, n_next = None\<rparr> in
      if ll_last ll = None then
        Some (ll1\<lparr>ll_first := Some n, ll_last := Some n, ll_size := ll_size ll + 1\<rparr>)
      else do { ll2 \<leftarrow> assign ll1 (Some n) (n_prev_update (\<lambda>_. ll_last ll));
                ll3 \<leftarrow> assign ll2 (ll_last ll) (n_next_update (\<lambda>_. Some n));
                Some (ll3\<lparr>ll_last := Some n, ll_size := ll_size ll + 1\<rparr>) })"

fun walk_next :: "'a linkedList \<Rightarrow> nat \<Rightarrow> nat option \<Rightarrow> nat option option" where
  "walk_next ll 0 p = Some p"
| "walk_next ll (Suc i) p = do { n \<leftarrow> deref ll p; walk_next ll i (n_next n) }"

fun walk_prev :: "'a linkedList \<Rightarrow> nat \<Rightarrow> nat option \<Rightarrow> nat option option" where
  "walk_prev ll 0 p = Some p"
| "walk_prev ll (Suc i) p = do { n \<leftarrow> deref ll p; walk_prev ll i (n_prev n) }"

definition ll_find :: "'a linkedList \<Rightarrow> int \<Rightarrow> nat option option" where
  "ll_find ll index =
     (if index < go_div (ll_size ll) 2 then walk_next ll (nat index) (ll_first ll)
      else walk_prev ll (nat (ll_size ll - 1 - index)) (ll_last ll))"

definition ll_get :: "'a linkedList \<Rightarrow> int \<Rightarrow> 'a option" where
  "ll_get ll index =
     (if index < 0 \<or> index \<ge> ll_size ll then None
      else do { p \<leftarrow> ll_find ll index; n \<leftarrow> deref ll p; Some (n_val n) })"

definition ll_set :: "'a linkedList \<Rightarrow> int \<Rightarrow> 'a \<Rightarrow> 'a linkedList option" where
  "ll_set ll index val =
     (if index < 0 \<or> index > ll_size ll then None
      else do { p \<leftarrow> ll_find ll index; assign ll p (n_val_update (\<lambda>_. val)) })"

definition ll_insert :: "'a linkedList \<Rightarrow> int \<Rightarrow> 'a \<Rightarrow> 'a linkedList option" where
  "ll_insert ll index val =
     (if index < 0 \<or> index > ll_size ll then None
      else if index = ll_size ll then ll_add ll val
      else do { p \<leftarrow> ll_find ll index;
                pivot \<leftarrow> deref ll p;
                let (ll1, n) = alloc ll \<lparr>n_val = val, n_prev = n_prev pivot, n_next = p\<rparr>;
                ll2 \<leftarrow> (if n_prev pivot = None then Some (ll1\<lparr>ll_first := Some n\<rparr>)
                        else assign ll1 (n_prev pivot) (n_next_update (\<lambda>_. Some n)));
                ll3 \<leftarrow> assign ll2 p (n_prev_update (\<lambda>_. Some n));
                Some (ll3\<lparr>ll_size := ll_size ll + 1\<rparr>) })"

definition ll_removeNode :: "'a linkedList \<Rightarrow> nat option \<Rightarrow> 'a linkedList option" where
  "ll_removeNode ll p =
     do { n \<leftarrow> deref ll p;
          ll1 \<leftarrow> (if n_prev n = None then Some (ll\<lparr>ll_first := n_next n\<rparr>)
                  else assign ll (n_prev n) (n_next_update (\<lambda>_. n_next n)));
          ll2 \<leftarrow> (if n_next n = None then Some (ll1\<lparr>ll_last := n_prev n\<rparr>)
                  else assign ll1 (n_next n) (n_prev_update (\<lambda>_. n_prev n)));
          ll3 \<leftarrow> assign ll2 p (\<lambda>m. m\<lparr>n_prev := None, n_next := None\<rparr>);
          Some (ll3\<lparr>ll_size := ll_size ll - 1\<rparr>) }"

definition ll_remove :: "'a linkedList \<Rightarrow> int \<Rightarrow> ('a linkedList \<times> 'a) option" where
  "ll_remove ll index =
     (if index < 0 \<or> index \<ge> ll_size ll then None
      else do { p \<leftarrow> ll_find ll index;
                ll' \<leftarrow> ll_removeNode ll p;
                n \<leftarrow> deref ll' p;
                Some (ll', n_val n) })"

definition ll_removeLast :: "'a linkedList \<Rightarrow> ('a linkedList \<times> 'a option) option" where
  "ll_removeLast ll =
     (if ll_last ll = None then Some (ll, None)
      else do { ll' \<leftarrow> ll_removeNode ll (ll_last ll);
                n \<leftarrow> deref ll' (ll_last ll);
                Some (ll', Some (n_val n)) })"

partial_function (option) ll_removeAll_loop ::
  "('a \<Rightarrow> bool) \<Rightarrow> 'a linkedList \<Rightarrow> nat option \<Rightarrow> nat \<Rightarrow> ('a linkedList \<times> nat) option" where
  "ll_removeAll_loop expected ll p removed =
     (if p = None then Some (ll, removed)
      else do { n \<leftarrow> deref ll p;
                if expected (n_val n) then
                  do { ll' \<leftarrow> ll_removeNode ll p; ll_removeAll_loop expected ll' (n_next n) (Suc removed) }
                else ll_removeAll_loop expected ll (n_next n) removed })"

definition ll_removeAllByVal :: "('a \<Rightarrow> bool) \<Rightarrow> 'a linkedList \<Rightarrow> ('a linkedList \<times> nat) option" where
  "ll_removeAllByVal expected ll = ll_removeAll_loop expected ll (ll_first ll) 0"

partial_function (option) ll_removeBy_loop ::
  "('a \<Rightarrow> bool) \<Rightarrow> int \<Rightarrow> 'a linkedList \<Rightarrow> nat option \<Rightarrow> nat \<Rightarrow> ('a linkedList \<times> nat) option" where
  "ll_removeBy_loop expected cnt ll p removed =
     (if p = None then Some (ll, removed)
      else do { n \<leftarrow> deref ll p;
                (ll', removed') \<leftarrow>
                  (if expected (n_val n) then do { ll' \<leftarrow> ll_removeNode ll p; Some (ll', Suc removed) }
                   else Some (ll, removed));
                if int removed' = cnt then Some (ll', removed')
                else ll_removeBy_loop expected cnt ll' (n_next n) removed' })"

definition ll_removeByVal :: "('a \<Rightarrow> bool) \<Rightarrow> int \<Rightarrow> 'a linkedList \<Rightarrow> ('a linkedList \<times> nat) option" where
  "ll_removeByVal expected cnt ll = ll_removeBy_loop expected cnt ll (ll_first ll) 0"

partial_function (option) ll_reverseRemove_loop ::
  "('a \<Rightarrow> bool) \<Rightarrow> int \<Rightarrow> 'a linkedList \<Rightarrow> nat option \<Rightarrow> nat \<Rightarrow> ('a linkedList \<times> nat) option" where
  "ll_reverseRemove_loop expected cnt ll p removed =
     (if p = None then Some (ll, removed)
      else do { n \<leftarrow> deref ll p;
                (ll', removed') \<leftarrow>
                  (if expected (n_val n) then do { ll' \<leftarrow> ll_removeNode ll p; Some (ll', Suc removed) }
                   else Some (ll, removed));
                if int removed' = cnt then Some (ll', removed')
                else ll_reverseRemove_loop expected cnt ll' (n_prev n) removed' })"

definition ll_reverseRemoveByVal :: "('a \<Rightarrow> bool) \<Rightarrow> int \<Rightarrow> 'a linkedList \<Rightarrow> ('a linkedList \<times> nat) option" where
  "ll_reverseRemoveByVal expected cnt ll = ll_reverseRemove_loop expected cnt ll (ll_last ll) 0"

definition ll_len :: "'a linkedList \<Rightarrow> int" where
  "ll_len ll = ll_size ll"

partial_function (option) ll_forEach_loop ::
  "('s \<Rightarrow> nat \<Rightarrow> 'a \<Rightarrow> ('s \<times> bool) option) \<Rightarrow> 'a linkedList \<Rightarrow> nat option \<Rightarrow> nat \<Rightarrow> 's \<Rightarrow> 's option" where
  "ll_forEach_loop consumer ll p i s =
     (if p = None then Some s
      else do { n \<leftarrow> deref ll p;
                (s', goNext) \<leftarrow> consumer s i (n_val n);
                if \<not> goNext then Some s' else ll_forEach_loop consumer ll (n_next n) (Suc i) s' })"

definition ll_forEach :: "('s \<Rightarrow> nat \<Rightarrow> 'a \<Rightarrow> ('s \<times> bool) option) \<Rightarrow> 'a linkedList \<Rightarrow> 's \<Rightarrow> 's option" where
  "ll_forEach consumer ll s = ll_forEach_loop consumer ll (ll_first ll) 0 s"

definition ll_contains :: "('a \<Rightarrow> bool) \<Rightarrow> 'a linkedList \<Rightarrow> bool option" where
  "ll_contains expected ll =
     ll_forEach (\<lambda>c i actual. Some (if expected actual then (True, False) else (c, True))) ll False"

text \<open>The slice that \<^verbatim>\<open>Range\<close> fills starts with nil in every slot.\<close>

partial_function (option) ll_range_loop ::
  "int \<Rightarrow> int \<Rightarrow> 'a linkedList \<Rightarrow> nat option \<Rightarrow> int \<Rightarrow> nat \<Rightarrow> 'a option list \<Rightarrow> 'a option list option" where
  "ll_range_loop start stop ll p i sliceIndex xs =
     (if p = None then Some xs
      else do { n \<leftarrow> deref ll p;
                if start \<le> i \<and> i < stop then
                  (if sliceIndex < length xs then
                     ll_range_loop start stop ll (n_next n) (i + 1) (Suc sliceIndex) (xs[sliceIndex := Some (n_val n)])
                   else None)
                else if stop \<le> i then Some xs
                else ll_range_loop start stop ll (n_next n) (i + 1) sliceIndex xs })"

definition ll_range :: "'a linkedList \<Rightarrow> int \<Rightarrow> int \<Rightarrow> 'a option list option" where
  "ll_range ll start stop =
     (if start < 0 \<or> start \<ge> ll_size ll then None
      else if stop < start \<or> stop > ll_size ll then None
      else ll_range_loop start stop ll (ll_first ll) 0 0 (replicate (nat (stop - start)) None))"

fun ll_add_all :: "'a linkedList \<Rightarrow> 'a list \<Rightarrow> 'a linkedList option" where
  "ll_add_all ll [] = Some ll"
| "ll_add_all ll (v # vs) = do { ll' \<leftarrow> ll_add ll v; ll_add_all ll' vs }"

definition ll_make :: "'a list \<Rightarrow> 'a linkedList option" where
  "ll_make vals = ll_add_all ll_empty vals"

section \<open>Chains of nodes\<close>

text \<open>
  A segment of the chain as its addresses with their values, between the pointers \<open>pr\<close> before it
  and \<open>nx\<close> behind it.
\<close>

fun hd_ptr :: "(nat \<times> 'a) list \<Rightarrow> nat option \<Rightarrow> nat option" where
  "hd_ptr [] nx = nx"
| "hd_ptr ((a, _) # _) nx = Some a"

definition last_ptr :: "(nat \<times> 'a) list \<Rightarrow> nat option \<Rightarrow> nat option" where
  "last_ptr ps pr = (if ps = [] then pr else Some (fst (last ps)))"

fun seg :: "(nat \<rightharpoonup> 'a node) \<Rightarrow> nat option \<Rightarrow> (nat \<times> 'a) list \<Rightarrow> nat option \<Rightarrow> bool" where
  "seg st pr [] nx \<longleftrightarrow> True"
| "seg st pr ((a, v) # ps) nx \<longleftrightarrow>
     st a = Some \<lparr>n_val = v, n_prev = pr, n_next = hd_ptr ps nx\<rparr> \<and> seg st (Some a) ps nx"

definition dll :: "'a linkedList \<Rightarrow> (nat \<times> 'a) list \<Rightarrow> bool" where
  "dll ll ps \<longleftrightarrow> seg (ll_store ll) None ps None \<and> ll_first ll = hd_ptr ps None \<and> ll_last ll = last_ptr ps None \<and>
     ll_size ll = int (length ps) \<and> distinct (map fst ps) \<and> (\<forall>a \<in> fst ` set ps. a < ll_fresh ll)"

fun collect :: "'a linkedList \<Rightarrow> nat \<Rightarrow> nat option \<Rightarrow> 'a list" where
  "collect ll 0 p = []"
| "collect ll (Suc k) p = (case deref ll p of None \<Rightarrow> [] | Some n \<Rightarrow> n_val n # collect ll k (n_next n))"

definition ll_vals :: "'a linkedList \<Rightarrow> 'a list" where
  "ll_vals ll = collect ll (nat (ll_size ll)) (ll_first ll)"

definition ll_inv :: "'a linkedList \<Rightarrow> bool" where
  "ll_inv ll \<longleftrightarrow> (\<exists>ps. dll ll ps)"

lemma hd_ptr_simps [simp]:
  "hd_ptr (p # ps) nx = Some (fst p)" "hd_ptr (ps @ qs) nx = hd_ptr ps (hd_ptr qs nx)"
  "hd_ptr ps (Some a) \<noteq> None" "hd_ptr ps None = None \<longleftrightarrow> ps = []"
  by (cases p; cases ps; auto)+

lemma last_ptr_simps [simp]:
  "last_ptr [] pr = pr" "last_ptr (ps @ qs) pr = last_ptr qs (last_ptr ps pr)" 
  "last_ptr (p # ps) pr = last_ptr ps (Some (fst p))"
  "last_ptr ps (Some a) \<noteq> None" "last_ptr ps None = None \<longleftrightarrow> ps = []"
  by (auto simp: last_ptr_def)

lemma seg_append [simp]:
  "seg st pr (ps @ qs) nx \<longleftrightarrow> seg st pr ps (hd_ptr qs nx) \<and> seg st (last_ptr ps pr) qs nx"
  by (induction ps arbitrary: pr) (simp_all add: split_paired_all conj_assoc)

lemma seg_frame [simp]: "a \<notin> fst ` set ps \<Longrightarrow> seg (st(a \<mapsto> n)) pr ps nx \<longleftrightarrow> seg st pr ps nx"
  by (induction ps arbitrary: pr) auto

lemma seg_collect: "seg (ll_store ll) pr ps nx \<Longrightarrow> collect ll (length ps) (hd_ptr ps nx) = map snd ps"
  by (induction ps arbitrary: pr) (auto simp: deref_def)

lemma dll_vals: "dll ll ps \<Longrightarrow> ll_vals ll = map snd ps"
  by (auto simp: dll_def ll_vals_def seg_collect)

lemma dll_inv: "dll ll ps \<Longrightarrow> ll_inv ll"
  by (auto simp: ll_inv_def)

lemma dll_fresh:
  assumes "dll ll ps"
  shows "ll_fresh ll \<notin> fst ` set ps" "\<forall>a \<in> fst ` set ps. a < Suc (ll_fresh ll)"
  using assms unfolding dll_def by (metis less_irrefl) (use assms in \<open>auto simp: dll_def less_SucI\<close>)

lemma dll_deref: "dll ll (ps @ (a, v) # qs) \<Longrightarrow>
   deref ll (Some a) = Some \<lparr>n_val = v, n_prev = last_ptr ps None, n_next = hd_ptr qs None\<rparr>"
  by (auto simp: dll_def deref_def)

lemma walk_next_spec:
  "seg (ll_store ll) pr (ps @ qs) nx \<Longrightarrow> walk_next ll (length ps) (hd_ptr (ps @ qs) nx) = Some (hd_ptr qs nx)"
  by (induction ps arbitrary: pr) (auto simp: deref_def)

lemma walk_prev_spec:
  "seg (ll_store ll) pr (ps @ qs) nx \<Longrightarrow> walk_prev ll (length qs) (last_ptr (ps @ qs) pr) = Some (last_ptr ps pr)"
  by (induction qs arbitrary: nx rule: rev_induct) (auto simp: deref_def)

lemma dll_split:
  assumes "dll ll ps" "0 \<le> i" "i < int (length ps)"
  obtains ps1 a v ps2 where "ps = ps1 @ (a, v) # ps2" "i = int (length ps1)" "ll_find ll i = Some (Some a)"
proof -
  obtain a v where av: "ps ! nat i = (a, v)" by (cases "ps ! nat i")
  have i: "nat i < length ps" using assms(2,3) by linarith
  have ps: "ps = take (nat i) ps @ (a, v) # drop (Suc (nat i)) ps" using id_take_nth_drop [OF i] av by simp
  have s: "seg (ll_store ll) None (take (nat i) ps @ (a, v) # drop (Suc (nat i)) ps) None"
    using assms(1) ps by (simp only: dll_def)
  have "ll_find ll i = Some (Some a)"
  proof (cases "i < go_div (ll_size ll) 2")
    case True
    then show ?thesis
      using walk_next_spec [OF s] assms(1) i ps by (simp add: ll_find_def dll_def)
  next
    case False
    have "seg (ll_store ll) None ((take (nat i) ps @ [(a, v)]) @ drop (Suc (nat i)) ps) None" using s by simp
    moreover have "nat (int (length ps) - 1 - i) = length ps - Suc (nat i)" using assms(2,3) by linarith
    ultimately show ?thesis
      using walk_prev_spec [of ll None "take (nat i) ps @ [(a, v)]" "drop (Suc (nat i)) ps" None] False assms(1) ps
      by (simp add: ll_find_def dll_def)
  qed
  then show thesis using that [OF ps] assms(2) i by simp
qed

section \<open>The operations on a chain\<close>

lemma ll_empty_dll: "dll ll_empty []"
  by (simp add: ll_empty_def dll_def)

lemma ll_add_dll:
  assumes "dll ll ps"
  shows "\<exists>ll'. ll_add ll v = Some ll' \<and> dll ll' (ps @ [(ll_fresh ll, v)])"
proof (cases ps rule: rev_cases)
  case Nil
  then show ?thesis using assms by (auto simp: ll_add_def dll_def alloc_def)
next
  case (snoc ps' p)
  then show ?thesis using assms dll_fresh [OF assms]
    by (cases p) (simp add: ll_add_def dll_def alloc_def assign_def)
qed

lemma ll_removeNode_dll:
  assumes "dll ll (ps @ (a, v) # qs)"
  shows "\<exists>ll'. ll_removeNode ll (Some a) = Some ll' \<and> dll ll' (ps @ qs) \<and>
    deref ll' (Some a) = Some \<lparr>n_val = v, n_prev = None, n_next = None\<rparr>"
proof (cases ps rule: rev_cases)
  case Nil
  then show ?thesis using assms
    by (cases qs) (auto simp: ll_removeNode_def dll_def deref_def assign_def)
next
  case (snoc ps' p)
  then show ?thesis using assms
    by (cases p; cases qs) (auto simp: ll_removeNode_def dll_def deref_def assign_def)
qed

lemma ll_insert_dll:
  assumes "dll ll (ps @ (a, w) # qs)" "ll_find ll i = Some (Some a)" "i = int (length ps)"
  shows "\<exists>ll'. ll_insert ll i v = Some ll' \<and> dll ll' (ps @ (ll_fresh ll, v) # (a, w) # qs)"
proof -
  note fr = dll_fresh [OF assms(1)]
  show ?thesis
  proof (cases ps rule: rev_cases)
    case Nil
    then show ?thesis using assms fr by (simp add: ll_insert_def dll_def deref_def assign_def alloc_def)
  next
    case (snoc ps' p)
    then show ?thesis using assms fr by (cases p) (simp add: ll_insert_def dll_def deref_def assign_def alloc_def image_Un)
  qed
qed

lemma ll_set_dll:
  assumes "dll ll (ps @ (a, w) # qs)" "ll_find ll i = Some (Some a)" "i = int (length ps)"
  shows "\<exists>ll'. ll_set ll i v = Some ll' \<and> dll ll' (ps @ (a, v) # qs)"
  using assms by (auto simp: ll_set_def dll_def assign_def)

text \<open>The loops, from the position between the visited part \<open>ps\<close> and the rest \<open>qs\<close>.\<close>

lemma ll_removeAll_loop_dll:
  "dll ll (ps @ qs) \<Longrightarrow> \<exists>ll' rs. ll_removeAll_loop e ll (hd_ptr qs None) r = Some (ll', r + length (filter e (map snd qs))) \<and>
    dll ll' (ps @ rs) \<and> map snd rs = filter (\<lambda>x. \<not> e x) (map snd qs)"
proof (induction qs arbitrary: ll ps r)
  case Nil
  then show ?case by (subst ll_removeAll_loop.simps) auto
next
  case (Cons q qs)
  obtain a v where q: "q = (a, v)" by (cases q)
  have d: "deref ll (Some a) = Some \<lparr>n_val = v, n_prev = last_ptr ps None, n_next = hd_ptr qs None\<rparr>"
    using dll_deref [of ll ps a v qs] Cons.prems q by simp
  show ?case
  proof (cases "e v")
    case True
    obtain ll1 where r: "ll_removeNode ll (Some a) = Some ll1" "dll ll1 (ps @ qs)"
      using ll_removeNode_dll [of ll ps a v qs] Cons.prems q by blast
    then show ?thesis using True q d Cons.IH [OF r(2), of "Suc r"] by (subst ll_removeAll_loop.simps) simp
  next
    case False
    have "dll ll ((ps @ [q]) @ qs)" using Cons.prems by simp
    from Cons.IH [OF this, of r] obtain ll' rs where
      "ll_removeAll_loop e ll (hd_ptr qs None) r = Some (ll', r + length (filter e (map snd qs)))"
      "dll ll' (ps @ q # rs)" "map snd rs = filter (\<lambda>x. \<not> e x) (map snd qs)" by auto
    then show ?thesis using False q d by (subst ll_removeAll_loop.simps) (auto intro!: exI [of _ "q # rs"])
  qed
qed

lemma ll_removeBy_loop_dll:
  "dll ll (ps @ qs) \<Longrightarrow> int r < cnt \<Longrightarrow>
   \<exists>ll' rs. ll_removeBy_loop e cnt ll (hd_ptr qs None) r = Some (ll', r + min (nat cnt - r) (length (filter e (map snd qs)))) \<and>
    dll ll' (ps @ rs) \<and> map snd rs = remove_first (nat cnt - r) e (map snd qs)"
proof (induction qs arbitrary: ll ps r)
  case Nil
  then show ?case by (subst ll_removeBy_loop.simps) auto
next
  case (Cons q qs)
  obtain a v where q: "q = (a, v)" by (cases q)
  have d: "deref ll (Some a) = Some \<lparr>n_val = v, n_prev = last_ptr ps None, n_next = hd_ptr qs None\<rparr>"
    using dll_deref [of ll ps a v qs] Cons.prems(1) q by simp
  have n: "nat cnt - r = Suc (nat cnt - Suc r)" using Cons.prems(2) by linarith
  show ?case
  proof (cases "e v")
    case True
    obtain ll1 where r: "ll_removeNode ll (Some a) = Some ll1" "dll ll1 (ps @ qs)"
      using ll_removeNode_dll [of ll ps a v qs] Cons.prems(1) q by blast
    show ?thesis
    proof (cases "int (Suc r) = cnt")
      case stop: True
      then have "nat cnt = Suc r" by linarith
      then show ?thesis using stop True q d r by (subst ll_removeBy_loop.simps) auto
    next
      case False
      then have "int (Suc r) < cnt" using Cons.prems(2) by linarith
      then show ?thesis using False True q d n r(1) Cons.IH [OF r(2), of "Suc r"] by (subst ll_removeBy_loop.simps) auto
    qed
  next
    case False
    have "dll ll ((ps @ [q]) @ qs)" using Cons.prems(1) by simp
    from Cons.IH [OF this Cons.prems(2)] obtain ll' rs where
      "ll_removeBy_loop e cnt ll (hd_ptr qs None) r = Some (ll', r + min (nat cnt - r) (length (filter e (map snd qs))))"
      "dll ll' (ps @ q # rs)" "map snd rs = remove_first (nat cnt - r) e (map snd qs)" by auto
    then show ?thesis using False q d n Cons.prems(2) by (subst ll_removeBy_loop.simps) (auto intro!: exI [of _ "q # rs"])
  qed
qed

lemma ll_reverseRemove_loop_dll:
  "dll ll (ps @ qs) \<Longrightarrow> int r < cnt \<Longrightarrow>
   \<exists>ll' rs. ll_reverseRemove_loop e cnt ll (last_ptr ps None) r =
      Some (ll', r + min (nat cnt - r) (length (filter e (map snd ps)))) \<and>
    dll ll' (rs @ qs) \<and> map snd rs = rev (remove_first (nat cnt - r) e (rev (map snd ps)))"
proof (induction ps arbitrary: ll qs r rule: rev_induct)
  case Nil
  then show ?case by (subst ll_reverseRemove_loop.simps) auto
next
  case (snoc p ps)
  obtain a v where p: "p = (a, v)" by (cases p)
  have pr: "dll ll (ps @ (a, v) # qs)" using snoc.prems(1) p by simp
  have d: "deref ll (Some a) = Some \<lparr>n_val = v, n_prev = last_ptr ps None, n_next = hd_ptr qs None\<rparr>"
    by (rule dll_deref [OF pr])
  have n: "nat cnt - r = Suc (nat cnt - Suc r)" using snoc.prems(2) by linarith
  show ?case
  proof (cases "e v")
    case True
    obtain ll1 where r: "ll_removeNode ll (Some a) = Some ll1" "dll ll1 (ps @ qs)"
      using ll_removeNode_dll [OF pr] by blast
    show ?thesis
    proof (cases "int (Suc r) = cnt")
      case stop: True
      then have "nat cnt = Suc r" by linarith
      then show ?thesis using stop True p d r by (subst ll_reverseRemove_loop.simps) auto
    next
      case False
      then have "int (Suc r) < cnt" using snoc.prems(2) by linarith
      then show ?thesis using False True p d n r(1) snoc.IH [OF r(2), of "Suc r"] by (subst ll_reverseRemove_loop.simps) auto
    qed
  next
    case False
    from snoc.IH [OF pr snoc.prems(2)] obtain ll' rs where
      "ll_reverseRemove_loop e cnt ll (last_ptr ps None) r = Some (ll', r + min (nat cnt - r) (length (filter e (map snd ps))))"
      "dll ll' ((rs @ [p]) @ qs)" "map snd rs = rev (remove_first (nat cnt - r) e (rev (map snd ps)))" using p by auto
    then show ?thesis using False p d n snoc.prems(2) by (subst ll_reverseRemove_loop.simps) (auto intro!: exI [of _ "rs @ [p]"])
  qed
qed

lemma ll_forEach_loop_dll:
  "dll ll (ps @ qs) \<Longrightarrow> ll_forEach_loop f ll (hd_ptr qs None) i s = iter f i (map snd qs) s"
proof (induction qs arbitrary: ps i s)
  case Nil
  then show ?case by (subst ll_forEach_loop.simps) simp
next
  case (Cons q qs)
  obtain a v where q: "q = (a, v)" by (cases q)
  have "deref ll (Some a) = Some \<lparr>n_val = v, n_prev = last_ptr ps None, n_next = hd_ptr qs None\<rparr>"
    using dll_deref [of ll ps a v qs] Cons.prems q by simp
  moreover have "ll_forEach_loop f ll (hd_ptr qs None) (Suc i) s' = iter f (Suc i) (map snd qs) s'" for s'
    using Cons.IH [of "ps @ [q]"] Cons.prems by simp
  ultimately show ?case using q by (cases "f s i v") (subst ll_forEach_loop.simps, auto)+
qed

lemma replicate_fill: "j < k \<Longrightarrow> length xs = j \<Longrightarrow>
   (map Some xs @ replicate (k - j) None)[j := Some v] = map Some (xs @ [v]) @ replicate (k - Suc j) None"
  by (simp add: list_update_append Suc_diff_Suc [symmetric])

lemma ll_range_loop_dll:
  assumes "dll ll (ps @ qs)" "0 \<le> start" "start \<le> stop" "stop \<le> int (length (ps @ qs))"
    "xs = take (nat (stop - start)) (drop (nat start) (map snd ps))"
  shows "ll_range_loop start stop ll (hd_ptr qs None) (int (length ps)) (length xs)
      (map Some xs @ replicate (nat (stop - start) - length xs) None) =
    Some (map Some (take (nat (stop - start)) (drop (nat start) (map snd (ps @ qs)))))"
  using assms
proof (induction qs arbitrary: ps xs)
  case Nil
  then have "length xs = nat (stop - start)" by (simp add: nat_diff_distrib)
  then show ?case using Nil by (subst ll_range_loop.simps) simp
next
  case (Cons q qs)
  obtain a v where q: "q = (a, v)" by (cases q)
  have d: "deref ll (Some a) = Some \<lparr>n_val = v, n_prev = last_ptr ps None, n_next = hd_ptr qs None\<rparr>"
    using dll_deref [of ll ps a v qs] Cons.prems(1) q by simp
  let ?i = "int (length ps)" and ?k = "nat (stop - start)"
  let ?xs = "take ?k (drop (nat start) (map snd (ps @ [q])))"
  have IH: "ll_range_loop start stop ll (hd_ptr qs None) (?i + 1) (length ?xs) (map Some ?xs @ replicate (?k - length ?xs) None) =
      Some (map Some (take ?k (drop (nat start) (map snd (ps @ q # qs)))))"
  proof -
    have "dll ll ((ps @ [q]) @ qs)" "stop \<le> int (length ((ps @ [q]) @ qs))" using Cons.prems(1,4) by simp_all
    moreover have "int (length (ps @ [q])) = ?i + 1" "(ps @ [q]) @ qs = ps @ q # qs" by simp_all
    ultimately show ?thesis using Cons.IH [of "ps @ [q]" ?xs] Cons.prems(2,3) by (simp only:)
  qed
  consider "?i < start" | "start \<le> ?i" "?i < stop" | "stop \<le> ?i" using Cons.prems(3) by linarith
  then show ?case
  proof cases
    case 1
    then have "xs = []" "?xs = []" using Cons.prems(5) by auto
    then show ?thesis using 1 IH q d Cons.prems(3) by (subst ll_range_loop.simps) simp
  next
    case 2
    then have "xs = drop (nat start) (map snd ps)" "length xs = length ps - nat start" "length ps - nat start < ?k"
      using Cons.prems(2,5) by auto
    then have "?xs = xs @ [v]" "length xs < ?k" using 2 q Cons.prems(2) by auto
    then show ?thesis using 2 IH q d replicate_fill [of "length xs" ?k xs v] by (subst ll_range_loop.simps) simp
  next
    case 3
    then have "length xs = ?k" "take ?k (drop (nat start) (map snd (ps @ q # qs))) = xs"
      using Cons.prems(2,3,5) by (auto simp: nat_diff_distrib)
    then show ?thesis using 3 q d by (subst ll_range_loop.simps) simp
  qed
qed

section \<open>The contract of lists\<close>

lemma ll_invE: assumes "ll_inv ll" obtains ps where "dll ll ps" "ll_vals ll = map snd ps"
  using assms dll_vals by (auto simp: ll_inv_def)

lemma dllI: "dll ll ps \<Longrightarrow> ll_inv ll \<and> ll_vals ll = map snd ps"
  using dll_inv dll_vals by blast

definition linked_List :: "('a linkedList, 'a) List" where
  "linked_List = \<lparr>lAdd = ll_add, lGet = ll_get, lSet = ll_set, lInsert = ll_insert, lRemove = ll_remove,
     lRemoveLast = ll_removeLast, lRemoveAllByVal = ll_removeAllByVal, lRemoveByVal = ll_removeByVal,
     lReverseRemoveByVal = ll_reverseRemoveByVal, lLen = ll_len, lContains = ll_contains,
     lRange = (\<lambda>ll start stop. Option.bind (ll_range ll start stop) those)\<rparr>"

lemma those_Some [simp]: "those (map Some xs) = Some xs"
  by (induction xs) auto

lemma ll_add_spec: "ll_inv ll \<Longrightarrow> \<exists>ll'. ll_add ll v = Some ll' \<and> ll_inv ll' \<and> ll_vals ll' = ll_vals ll @ [v]"
  by (erule ll_invE) (metis (no_types, lifting) dllI list.simps(8,9) ll_add_dll map_append snd_conv)

lemma ll_at:
  assumes "ll_inv ll" "0 \<le> i" "i < int (length (ll_vals ll))"
  obtains ps a v qs where "dll ll (ps @ (a, v) # qs)" "ll_vals ll = map snd ps @ v # map snd qs" "i = int (length ps)"
    "ll_find ll i = Some (Some a)"
proof -
  obtain ps where ps: "dll ll ps" "ll_vals ll = map snd ps" using assms(1) by (rule ll_invE)
  obtain ps1 a v ps2 where "ps = ps1 @ (a, v) # ps2" "i = int (length ps1)" "ll_find ll i = Some (Some a)"
    by (rule dll_split [OF ps(1) assms(2)]) (use assms(3) ps(2) in auto)
  then show thesis using that [of ps1 a v ps2] ps by simp
qed

lemma ll_size_vals: "ll_inv ll \<Longrightarrow> ll_size ll = int (length (ll_vals ll))"
  by (erule ll_invE) (simp add: dll_def)

lemma ll_get_spec: "ll_inv ll \<Longrightarrow> ll_get ll i = gindex (ll_vals ll) i"
proof (cases "0 \<le> i \<and> i < int (length (ll_vals ll))")
  case True
  assume inv: "ll_inv ll"
  obtain ps a v qs where "dll ll (ps @ (a, v) # qs)" "ll_vals ll = map snd ps @ v # map snd qs" "i = int (length ps)"
      "ll_find ll i = Some (Some a)" by (rule ll_at [OF inv]) (use True in auto)
  then show ?thesis
    using dll_deref [of ll ps a v qs] ll_size_vals [OF inv] by (simp add: ll_get_def gindex_def nth_append)
qed (auto simp: ll_get_def gindex_def ll_size_vals)

lemma ll_set_spec:
  assumes "ll_inv ll" "0 \<le> i" "i < int (length (ll_vals ll))"
  shows "\<exists>ll'. ll_set ll i v = Some ll' \<and> ll_inv ll' \<and> ll_vals ll' = (ll_vals ll)[nat i := v]"
proof -
  obtain ps a w qs where p: "dll ll (ps @ (a, w) # qs)" "ll_vals ll = map snd ps @ w # map snd qs" "i = int (length ps)"
      "ll_find ll i = Some (Some a)" by (rule ll_at [OF assms])
  obtain ll' where "ll_set ll i v = Some ll'" "dll ll' (ps @ (a, v) # qs)"
    using ll_set_dll [OF p(1,4,3)] by blast
  then show ?thesis using p(2,3) dllI [of ll' "ps @ (a, v) # qs"] by (auto simp: list_update_append)
qed

lemma ll_insert_spec:
  assumes "ll_inv ll" "0 \<le> i" "i \<le> int (length (ll_vals ll))"
  shows "\<exists>ll'. ll_insert ll i v = Some ll' \<and> ll_inv ll' \<and> ll_vals ll' = list_insert (nat i) v (ll_vals ll)"
proof (cases "i = int (length (ll_vals ll))")
  case True
  then show ?thesis
    using ll_add_spec [OF assms(1), of v] ll_size_vals [OF assms(1)] by (simp add: ll_insert_def list_insert_def)
next
  case False
  then have lt: "i < int (length (ll_vals ll))" using assms(3) by simp
  obtain ps a w qs where p: "dll ll (ps @ (a, w) # qs)" "ll_vals ll = map snd ps @ w # map snd qs" "i = int (length ps)"
      "ll_find ll i = Some (Some a)" by (rule ll_at [OF assms(1,2) lt])
  obtain ll' where "ll_insert ll i v = Some ll'" "dll ll' (ps @ (ll_fresh ll, v) # (a, w) # qs)"
    using ll_insert_dll [OF p(1,4,3)] by blast
  then show ?thesis using p(2,3) dllI [of ll' "ps @ (ll_fresh ll, v) # (a, w) # qs"] by (auto simp: list_insert_def)
qed

lemma ll_remove_spec:
  assumes "ll_inv ll" "0 \<le> i" "i < int (length (ll_vals ll))"
  shows "\<exists>ll'. ll_remove ll i = Some (ll', ll_vals ll ! nat i) \<and> ll_inv ll' \<and> ll_vals ll' = list_remove (nat i) (ll_vals ll)"
proof -
  obtain ps a w qs where p: "dll ll (ps @ (a, w) # qs)" "ll_vals ll = map snd ps @ w # map snd qs" "i = int (length ps)"
      "ll_find ll i = Some (Some a)" by (rule ll_at [OF assms])
  obtain ll' where "ll_removeNode ll (Some a) = Some ll'" "dll ll' (ps @ qs)"
      "deref ll' (Some a) = Some \<lparr>n_val = w, n_prev = None, n_next = None\<rparr>"
    using ll_removeNode_dll [OF p(1)] by blast
  then show ?thesis
    using p(2-4) dllI [of ll' "ps @ qs"] ll_size_vals [OF assms(1)]
    by (auto simp: ll_remove_def list_remove_def nth_append)
qed

lemma ll_removeLast_spec:
  assumes "ll_inv ll"
  shows "\<exists>ll'. ll_removeLast ll = Some (ll', if ll_vals ll = [] then None else Some (last (ll_vals ll))) \<and>
    ll_inv ll' \<and> ll_vals ll' = butlast (ll_vals ll)"
proof -
  obtain ps where ps: "dll ll ps" "ll_vals ll = map snd ps" using assms by (rule ll_invE)
  show ?thesis
  proof (cases ps rule: rev_cases)
    case Nil
    then show ?thesis using ps assms by (auto simp: ll_removeLast_def dll_def)
  next
    case (snoc ps' p)
    obtain a v where "p = (a, v)" by (cases p)
    then have d: "dll ll (ps' @ (a, v) # [])" using ps snoc by simp
    then obtain ll' where "ll_removeNode ll (Some a) = Some ll'" "dll ll' ps'"
        "deref ll' (Some a) = Some \<lparr>n_val = v, n_prev = None, n_next = None\<rparr>"
      using ll_removeNode_dll [OF d] by auto
    moreover have "ll_last ll = Some a" using d by (simp add: dll_def)
    ultimately show ?thesis using ps snoc \<open>p = (a, v)\<close> dllI [of ll' ps'] by (auto simp: ll_removeLast_def)
  qed
qed

lemma ll_removeAllByVal_spec:
  assumes "ll_inv ll"
  shows "\<exists>ll'. ll_removeAllByVal e ll = Some (ll', length (filter e (ll_vals ll))) \<and> ll_inv ll' \<and>
    ll_vals ll' = filter (\<lambda>x. \<not> e x) (ll_vals ll)"
proof -
  obtain ps where ps: "dll ll ps" "ll_vals ll = map snd ps" using assms by (rule ll_invE)
  then show ?thesis
    using ll_removeAll_loop_dll [of ll "[]" ps e 0] dllI by (fastforce simp: ll_removeAllByVal_def dll_def)
qed

lemma ll_removeByVal_spec:
  assumes "ll_inv ll" "0 < cnt"
  shows "\<exists>ll'. ll_removeByVal e cnt ll = Some (ll', min (nat cnt) (length (filter e (ll_vals ll)))) \<and> ll_inv ll' \<and>
      ll_vals ll' = remove_first (nat cnt) e (ll_vals ll)"
    "\<exists>ll'. ll_reverseRemoveByVal e cnt ll = Some (ll', min (nat cnt) (length (filter e (ll_vals ll)))) \<and> ll_inv ll' \<and>
      ll_vals ll' = rev (remove_first (nat cnt) e (rev (ll_vals ll)))"
proof -
  obtain ps where ps: "dll ll ps" "ll_vals ll = map snd ps" using assms(1) by (rule ll_invE)
  have "ll_first ll = hd_ptr ps None" "ll_last ll = last_ptr ps None" using ps(1) by (auto simp: dll_def)
  moreover obtain ll1 rs1 where
      "ll_removeBy_loop e cnt ll (hd_ptr ps None) 0 = Some (ll1, min (nat cnt) (length (filter e (map snd ps))))"
      "dll ll1 rs1" "map snd rs1 = remove_first (nat cnt) e (map snd ps)"
    using ll_removeBy_loop_dll [of ll "[]" ps 0 cnt e] ps(1) assms(2) by auto
  moreover obtain ll2 rs2 where
      "ll_reverseRemove_loop e cnt ll (last_ptr ps None) 0 = Some (ll2, min (nat cnt) (length (filter e (map snd ps))))"
      "dll ll2 rs2" "map snd rs2 = rev (remove_first (nat cnt) e (rev (map snd ps)))"
    using ll_reverseRemove_loop_dll [of ll ps "[]" 0 cnt e] ps(1) assms(2) by auto
  ultimately show "\<exists>ll'. ll_removeByVal e cnt ll = Some (ll', min (nat cnt) (length (filter e (ll_vals ll)))) \<and> ll_inv ll' \<and>
      ll_vals ll' = remove_first (nat cnt) e (ll_vals ll)"
    "\<exists>ll'. ll_reverseRemoveByVal e cnt ll = Some (ll', min (nat cnt) (length (filter e (ll_vals ll)))) \<and> ll_inv ll' \<and>
      ll_vals ll' = rev (remove_first (nat cnt) e (rev (ll_vals ll)))"
    using dllI [of ll1 rs1] dllI [of ll2 rs2] ps(2) by (auto simp: ll_removeByVal_def ll_reverseRemoveByVal_def)
qed

lemma ll_forEach_spec: "ll_inv ll \<Longrightarrow> ll_forEach f ll s = iter f 0 (ll_vals ll) s"
  by (erule ll_invE) (use ll_forEach_loop_dll [of ll "[]" _ f 0 s] in \<open>simp add: ll_forEach_def dll_def\<close>)

lemma ll_contains_spec: "ll_inv ll \<Longrightarrow> ll_contains e ll = Some (\<exists>x \<in> set (ll_vals ll). e x)"
  by (simp add: ll_contains_def ll_forEach_spec iter_search)

lemma ll_range_spec:
  assumes "ll_inv ll" "0 \<le> start" "start < int (length (ll_vals ll))" "start \<le> stop" "stop \<le> int (length (ll_vals ll))"
  shows "Option.bind (ll_range ll start stop) those = Some (take (nat (stop - start)) (drop (nat start) (ll_vals ll)))"
proof -
  obtain ps where ps: "dll ll ps" "ll_vals ll = map snd ps" using assms(1) by (rule ll_invE)
  have "ll_range ll start stop = Some (map Some (take (nat (stop - start)) (drop (nat start) (ll_vals ll))))"
    using ll_range_loop_dll [of ll "[]" ps start stop "[]"] ps assms ll_size_vals [OF assms(1)]
    by (simp add: ll_range_def dll_def)
  then show ?thesis by simp
qed

lemma ll_len_spec: "ll_inv ll \<Longrightarrow> ll_len ll = int (length (ll_vals ll))"
  by (simp add: ll_len_def ll_size_vals)

interpretation ll: list_impl linked_List ll_inv ll_vals "\<lambda>_. True"
  by unfold_locales
    (simp_all only: linked_List_def List.select_convs ll_add_spec ll_get_spec ll_set_spec ll_insert_spec ll_remove_spec
      ll_removeLast_spec ll_removeAllByVal_spec ll_removeByVal_spec ll_contains_spec ll_range_spec ll_len_spec simp_thms)

lemma ll_empty_inv: "ll_inv ll_empty" "ll_vals ll_empty = []"
  by (simp_all add: dllI [OF ll_empty_dll])

section \<open>Properties\<close>

text \<open>\<^verbatim>\<open>Make\<close> builds a well-formed doubly linked list of its arguments: the chain of next pointers
  from the first node and the chain of previous pointers from the last node visit the same
  nodes, \<open>i\<close> steps from one end is \<open>length - 1 - i\<close> steps from the other, and \<^verbatim>\<open>ForEach\<close> visits
  the values in order until its callback stops.\<close>

lemma linked_make:
  fixes f :: "'s \<Rightarrow> nat \<Rightarrow> 'a \<Rightarrow> ('s \<times> bool) option"
  shows "\<exists>ll. ll_make vs = Some ll \<and> ll_vals ll = vs \<and> ll_size ll = int (length vs) \<and>
    ll_forEach f ll s = iter f 0 vs s \<and>
    (\<forall>i < length vs. walk_next ll i (ll_first ll) = walk_prev ll (length vs - 1 - i) (ll_last ll))"
proof -
  have "\<exists>ll'. ll_add_all ll vs = Some ll' \<and> ll_inv ll' \<and> ll_vals ll' = ll_vals ll @ vs" if "ll_inv ll" for ll :: "'a linkedList"
    using that
  proof (induction vs arbitrary: ll)
    case (Cons v vs)
    obtain ll1 where "ll_add ll v = Some ll1" "ll_inv ll1" "ll_vals ll1 = ll_vals ll @ [v]"
      using ll_add_spec [OF Cons.prems, of v] by blast
    then show ?case using Cons.IH [of ll1] by auto
  qed simp
  from this [OF ll_empty_inv(1)] obtain ll where ll: "ll_make vs = Some ll" "ll_inv ll" "ll_vals ll = vs"
    by (auto simp: ll_make_def ll_empty_inv)
  obtain ps where ps: "dll ll ps" "vs = map snd ps" using ll(2,3) by (metis ll_invE)
  have "walk_next ll i (ll_first ll) = walk_prev ll (length vs - 1 - i) (ll_last ll)" if "i < length vs" for i
  proof -
    have i: "i < length ps" using that ps(2) by simp
    have s: "seg (ll_store ll) None (take i ps @ drop i ps) None" "seg (ll_store ll) None (take (Suc i) ps @ drop (Suc i) ps) None"
      using ps(1) by (simp_all only: dll_def append_take_drop_id)
    have "walk_next ll i (ll_first ll) = Some (hd_ptr (drop i ps) None)"
      using walk_next_spec [OF s(1)] i ps(1) by (simp add: dll_def min_def del: hd_ptr_simps(2))
    moreover have "walk_prev ll (length ps - Suc i) (ll_last ll) = Some (last_ptr (take (Suc i) ps) None)"
      using walk_prev_spec [OF s(2)] ps(1) by (simp add: dll_def del: last_ptr_simps(2))
    ultimately show ?thesis
      using i ps(2) by (simp add: take_Suc_conv_app_nth flip: Cons_nth_drop_Suc)
  qed
  then show ?thesis using ll ll_size_vals [OF ll(2)] ll_forEach_spec [OF ll(2), of f s] by auto
qed

text \<open>\<^verbatim>\<open>Set\<close> accepts the index one past the end, as its bound check allows \<open>index = size\<close>: it then
  overwrites the last element, and on an empty list it panics.\<close>

lemma linked_set_past_end:
  assumes "ll_inv ll"
  shows "(ll_vals ll \<noteq> [] \<longrightarrow> map_option ll_vals (ll_set ll (ll_size ll) v) = Some (butlast (ll_vals ll) @ [v])) \<and>
    (ll_vals ll = [] \<longrightarrow> ll_set ll (ll_size ll) v = None)"
proof -
  obtain ps where ps: "dll ll ps" "ll_vals ll = map snd ps" using assms by (rule ll_invE)
  have fnd: "ll_find ll (ll_size ll) = Some (ll_last ll)"
  proof -
    have "int (length ps) div 2 \<le> int (length ps)" by simp
    then have "\<not> ll_size ll < go_div (ll_size ll) 2" using ps(1) by (simp add: dll_def go_div_def sgn_if)
    then show ?thesis by (simp add: ll_find_def)
  qed
  show ?thesis
  proof (cases ps rule: rev_cases)
    case Nil
    then show ?thesis using ps fnd by (simp add: ll_set_def assign_def dll_def)
  next
    case (snoc ps' p)
    obtain a w where "p = (a, w)" by (cases p)
    then obtain ll' where "ll_set ll (ll_size ll) v = Some ll'" "dll ll' (ps' @ [(a, v)])"
      using ps snoc fnd by (auto simp: ll_set_def assign_def dll_def)
    then show ?thesis using ps snoc dll_vals [of ll' "ps' @ [(a, v)]"] by auto
  qed
qed

end
