(* ===== verification/ListObj.thy ===== *)
theory ListObj
  imports RObject Listpack QuickList
begin

text \<open>
  The list object of \<^verbatim>\<open>internal/object/encoding.go\<close> (\<^verbatim>\<open>List\<close>): a listpack while it is short, a
  quicklist afterwards. Every write to the listpack rebuilds it, element by element. A loop
  \<^verbatim>\<open>for i := 0; i < n; i++\<close> is \<open>iter\<close> over \<open>[0..<n]\<close>, whose callback returns false to break. The
  object implements the list contract for values that are byte strings; \<open>grow\<close> is the capacity
  parameter of the quicklist.
\<close>

record listobj =
  lo_listpack :: "listpack option"
  lo_quicklist :: "gany quickList option"
  lo_isListpack :: bool

definition newList :: listobj where
  "newList = \<lparr>lo_listpack = Some newListpack, lo_quicklist = None, lo_isListpack = True\<rparr>"

definition lo_appendVal :: "listpack \<Rightarrow> gany \<Rightarrow> listpack" where
  "lo_appendVal lp val = (case val of
     GBytes v \<Rightarrow> lp_appendStr lp v | GStr v \<Rightarrow> lp_appendStr lp v | GInt v \<Rightarrow> lp_appendInt lp v | _ \<Rightarrow> lp_appendStr lp [])"

definition listpackToBytes :: "gany \<Rightarrow> gany" where
  "listpackToBytes val = (case val of GStr v \<Rightarrow> GBytes v | GInt v \<Rightarrow> GBytes (formatInt64 v) | _ \<Rightarrow> val)"

definition lo_convertToQuicklist :: "listobj \<Rightarrow> listobj option" where
  "lo_convertToQuicklist l =
     do { lp \<leftarrow> lo_listpack l;
          newQL \<leftarrow> lp_range lp (\<lambda>ql i val. Some (case val of
              GStr v \<Rightarrow> ql_add ql (GBytes v) | GInt v \<Rightarrow> ql_add ql (GBytes (formatInt64 v)) | _ \<Rightarrow> ql, True)) newQuickList;
          Some (l\<lparr>lo_quicklist := Some newQL, lo_isListpack := False, lo_listpack := None\<rparr>) }"

text \<open>The check at the end of \<^verbatim>\<open>Add\<close> and \<^verbatim>\<open>Insert\<close>, on the new listpack.\<close>

definition lo_convertIfLong :: "thresholds \<Rightarrow> listobj \<Rightarrow> listpack \<Rightarrow> listobj option" where
  "lo_convertIfLong t l lp =
     (let l' = l\<lparr>lo_listpack := Some lp\<rparr> in
      if int (lp_len lp) > listMaxListpackSize t then lo_convertToQuicklist l' else Some l')"

definition lo_add :: "thresholds \<Rightarrow> listobj \<Rightarrow> gany \<Rightarrow> listobj option" where
  "lo_add t l val =
     (if lo_isListpack l then
        do { lp \<leftarrow> lo_listpack l;
             lo_convertIfLong t l (case val of
               GBytes v \<Rightarrow> lp_appendStr lp v | GStr v \<Rightarrow> lp_appendStr lp v | _ \<Rightarrow> lp_appendStr lp []) }
      else do { ql \<leftarrow> lo_quicklist l; Some (l\<lparr>lo_quicklist := Some (ql_add ql val)\<rparr>) })"

definition lo_get :: "listobj \<Rightarrow> int \<Rightarrow> (gany \<times> bool) option" where
  "lo_get l index =
     (if lo_isListpack l then
        do { lp \<leftarrow> lo_listpack l;
             (val, ok) \<leftarrow> lp_get lp index;
             if \<not> ok then Some (GNil, False) else Some (listpackToBytes val, True) }
      else do { ql \<leftarrow> lo_quicklist l;
                if index < 0 \<or> index \<ge> ql_len ql then Some (GNil, False)
                else do { val \<leftarrow> ql_get ql index; Some (val, True) } })"

definition lo_len :: "listobj \<Rightarrow> int option" where
  "lo_len l = (if lo_isListpack l then map_option (\<lambda>lp. int (lp_len lp)) (lo_listpack l)
     else map_option ql_len (lo_quicklist l))"

definition lo_forEach :: "('s \<Rightarrow> nat \<Rightarrow> gany \<Rightarrow> ('s \<times> bool) option) \<Rightarrow> listobj \<Rightarrow> 's \<Rightarrow> 's option" where
  "lo_forEach fn l s =
     (if lo_isListpack l then do { lp \<leftarrow> lo_listpack l; lp_range lp (\<lambda>s i val. fn s i (listpackToBytes val)) s }
      else do { ql \<leftarrow> lo_quicklist l; ql_forEach (\<lambda>s i val. fn s i val) ql s })"

definition lo_currentEncoding :: "listobj \<Rightarrow> encoding" where
  "lo_currentEncoding l = (if lo_isListpack l then EncListpack else EncQuicklist)"

definition lo_insert :: "thresholds \<Rightarrow> (nat \<Rightarrow> nat \<Rightarrow> nat) \<Rightarrow> listobj \<Rightarrow> int \<Rightarrow> gany \<Rightarrow> listobj option" where
  "lo_insert t grow l index val =
     (if lo_isListpack l then
        do { lp \<leftarrow> lo_listpack l;
             if index = int (lp_len lp) then lo_add t l val
             else do { newLp \<leftarrow> iter (\<lambda>newLp _ i.
                          let newLp1 = (if int i = index then lo_appendVal newLp val else newLp) in
                          do { (elem, ok) \<leftarrow> lp_get lp (int i);
                               Some (if ok then lo_appendVal newLp1 elem else newLp1, True) }) 0 [0..<lp_len lp] newListpack;
                       lo_convertIfLong t l newLp } }
      else do { ql \<leftarrow> lo_quicklist l;
                ql' \<leftarrow> ql_insert grow ql index val;
                Some (l\<lparr>lo_quicklist := Some ql'\<rparr>) })"

text \<open>The result nil of the removals is \<open>GNil\<close>.\<close>

definition lo_remove_at :: "listpack \<Rightarrow> int \<Rightarrow> (listpack \<times> gany) option" where
  "lo_remove_at lp index =
     iter (\<lambda>st _ i. case st of (newLp, removed) \<Rightarrow>
       do { (elem, ok) \<leftarrow> lp_get lp (int i);
            Some (if \<not> ok then ((newLp, removed), False)
                  else if int i = index then ((newLp, listpackToBytes elem), True)
                  else ((lo_appendVal newLp elem, removed), True)) }) 0 [0..<lp_len lp] (newListpack, GNil)"

definition lo_remove :: "listobj \<Rightarrow> int \<Rightarrow> (listobj \<times> gany) option" where
  "lo_remove l index =
     (if lo_isListpack l then
        do { lp \<leftarrow> lo_listpack l;
             if index < 0 \<or> index \<ge> int (lp_len lp) then Some (l, GNil)
             else do { (newLp, removed) \<leftarrow> lo_remove_at lp index;
                       Some (l\<lparr>lo_listpack := Some newLp\<rparr>, removed) } }
      else do { ql \<leftarrow> lo_quicklist l;
                (ql', val) \<leftarrow> ql_remove ql index;
                Some (l\<lparr>lo_quicklist := Some ql'\<rparr>, val) })"

definition lo_removeLast :: "listobj \<Rightarrow> (listobj \<times> gany) option" where
  "lo_removeLast l =
     (if lo_isListpack l then
        do { lp \<leftarrow> lo_listpack l;
             if lp_len lp = 0 then Some (l, GNil)
             else do { (newLp, removed) \<leftarrow> lo_remove_at lp (int (lp_len lp) - 1);
                       Some (l\<lparr>lo_listpack := Some newLp\<rparr>, removed) } }
      else do { ql \<leftarrow> lo_quicklist l;
                (ql', val) \<leftarrow> ql_removeLast ql;
                Some (l\<lparr>lo_quicklist := Some ql'\<rparr>, case val of None \<Rightarrow> GNil | Some v \<Rightarrow> v) })"

definition lo_set :: "listobj \<Rightarrow> int \<Rightarrow> gany \<Rightarrow> listobj option" where
  "lo_set l index val =
     (if lo_isListpack l then
        do { lp \<leftarrow> lo_listpack l;
             newLp \<leftarrow> iter (\<lambda>newLp _ i.
                do { (elem, ok) \<leftarrow> lp_get lp (int i);
                     Some (if \<not> ok then (newLp, False)
                           else (lo_appendVal newLp (if int i = index then val else elem), True)) }) 0 [0..<lp_len lp] newListpack;
             Some (l\<lparr>lo_listpack := Some newLp\<rparr>) }
      else do { ql \<leftarrow> lo_quicklist l;
                ql' \<leftarrow> ql_set ql index val;
                Some (l\<lparr>lo_quicklist := Some ql'\<rparr>) })"

definition lo_range :: "listobj \<Rightarrow> int \<Rightarrow> int \<Rightarrow> gany list option" where
  "lo_range l start stop =
     (if lo_isListpack l then
        do { lp \<leftarrow> lo_listpack l;
             let start' = (if start < 0 then 0 else start);
             let stop' = (if stop > int (lp_len lp) then int (lp_len lp) else stop);
             if start' \<ge> stop' then Some []
             else iter (\<lambda>result _ i.
                do { (elem, ok) \<leftarrow> lp_get lp (int i);
                     Some (if ok then result @ [listpackToBytes elem] else result, True) }) 0 [nat start'..<nat stop'] [] }
      else do { ql \<leftarrow> lo_quicklist l; ql_range ql start stop })"

definition lo_removeAllByVal :: "(gany \<Rightarrow> bool) \<Rightarrow> listobj \<Rightarrow> (listobj \<times> nat) option" where
  "lo_removeAllByVal expected l =
     (if lo_isListpack l then
        do { lp \<leftarrow> lo_listpack l;
             (newLp, removed) \<leftarrow> iter (\<lambda>st _ i. case st of (newLp, removed) \<Rightarrow>
                do { (elem, ok) \<leftarrow> lp_get lp (int i);
                     Some (if \<not> ok then ((newLp, removed), False)
                           else if expected (listpackToBytes elem) then ((newLp, Suc removed), True)
                           else ((lo_appendVal newLp elem, removed), True)) }) 0 [0..<lp_len lp] (newListpack, 0);
             Some (l\<lparr>lo_listpack := Some newLp\<rparr>, removed) }
      else do { ql \<leftarrow> lo_quicklist l;
                (ql', removed) \<leftarrow> ql_removeAllByVal expected ql;
                Some (l\<lparr>lo_quicklist := Some ql'\<rparr>, removed) })"

definition lo_removeByVal :: "(gany \<Rightarrow> bool) \<Rightarrow> int \<Rightarrow> listobj \<Rightarrow> (listobj \<times> nat) option" where
  "lo_removeByVal expected cnt l =
     (if lo_isListpack l then
        do { lp \<leftarrow> lo_listpack l;
             (newLp, removed) \<leftarrow> iter (\<lambda>st _ i. case st of (newLp, removed) \<Rightarrow>
                do { (elem, ok) \<leftarrow> lp_get lp (int i);
                     Some (if \<not> ok then ((newLp, removed), False)
                           else if int removed < cnt \<and> expected (listpackToBytes elem) then ((newLp, Suc removed), True)
                           else ((lo_appendVal newLp elem, removed), True)) }) 0 [0..<lp_len lp] (newListpack, 0);
             Some (l\<lparr>lo_listpack := Some newLp\<rparr>, removed) }
      else do { ql \<leftarrow> lo_quicklist l;
                (ql', removed) \<leftarrow> ql_removeByVal expected cnt ql;
                Some (l\<lparr>lo_quicklist := Some ql'\<rparr>, removed) })"

text \<open>
  The two loops of \<^verbatim>\<open>ReverseRemoveByVal\<close>: the first collects, from the right, the positions to
  remove; the second copies the others.
\<close>

fun rev_marks :: "(gany \<Rightarrow> bool) \<Rightarrow> int \<Rightarrow> listpack \<Rightarrow> nat \<Rightarrow> nat list \<Rightarrow> nat \<Rightarrow> (nat list \<times> nat) option" where
  "rev_marks expected cnt lp 0 toRemove removed = Some (toRemove, removed)"
| "rev_marks expected cnt lp (Suc i) toRemove removed =
     (if int removed < cnt then
        do { (elem, ok) \<leftarrow> lp_get lp (int i);
             if ok \<and> expected (listpackToBytes elem) then rev_marks expected cnt lp i (i # toRemove) (Suc removed)
             else rev_marks expected cnt lp i toRemove removed }
      else Some (toRemove, removed))"

definition lo_reverseRemoveByVal :: "(gany \<Rightarrow> bool) \<Rightarrow> int \<Rightarrow> listobj \<Rightarrow> (listobj \<times> nat) option" where
  "lo_reverseRemoveByVal expected cnt l =
     (if lo_isListpack l then
        do { lp \<leftarrow> lo_listpack l;
             (toRemove, removed) \<leftarrow> rev_marks expected cnt lp (lp_len lp) [] 0;
             newLp \<leftarrow> iter (\<lambda>newLp _ i.
                if i \<in> set toRemove then Some (newLp, True)
                else do { (elem, ok) \<leftarrow> lp_get lp (int i);
                          Some (if ok then lo_appendVal newLp elem else newLp, True) }) 0 [0..<lp_len lp] newListpack;
             Some (l\<lparr>lo_listpack := Some newLp\<rparr>, removed) }
      else do { ql \<leftarrow> lo_quicklist l;
                (ql', removed) \<leftarrow> ql_reverseRemoveByVal expected cnt ql;
                Some (l\<lparr>lo_quicklist := Some ql'\<rparr>, removed) })"

definition lo_getAsQuickList :: "listobj \<Rightarrow> (listobj \<times> gany quickList) option" where
  "lo_getAsQuickList l =
     do { l' \<leftarrow> (if lo_isListpack l then lo_convertToQuicklist l else Some l);
          ql \<leftarrow> lo_quicklist l';
          Some (l', ql) }"

section \<open>Representation\<close>

definition bytes_of :: "gany \<Rightarrow> bytes" where
  "bytes_of val = (case val of GBytes b \<Rightarrow> b | _ \<Rightarrow> [])"

definition lo_vals :: "listobj \<Rightarrow> bytes list" where
  "lo_vals l = (case lo_forEach (\<lambda>acc i val. Some (acc @ [bytes_of val], True)) l [] of None \<Rightarrow> [] | Some vs \<Rightarrow> vs)"

definition lo_lp :: "listobj \<Rightarrow> bytes list \<Rightarrow> bool" where
  "lo_lp l vs \<longleftrightarrow> lo_isListpack l \<and> lo_listpack l = Some (lp_of (map GStr vs)) \<and> (\<forall>v \<in> set vs. go_str v)"

definition lo_ql :: "listobj \<Rightarrow> gany quickList \<Rightarrow> bytes list \<Rightarrow> bool" where
  "lo_ql l ql vs \<longleftrightarrow> \<not> lo_isListpack l \<and> lo_quicklist l = Some ql \<and> ql_inv ql \<and> ql_flat ql = map GBytes vs"

definition lo_inv :: "thresholds \<Rightarrow> listobj \<Rightarrow> bool" where
  "lo_inv t l \<longleftrightarrow> (\<exists>vs. lo_lp l vs \<and> int (length vs) \<le> listMaxListpackSize t) \<or> (\<exists>ql vs. lo_ql l ql vs)"

lemma iter_snoc_map: "iter (\<lambda>acc i x. Some (acc @ [f x], True)) j xs acc = Some (acc @ map f xs)"
  by (induction xs arbitrary: j acc) auto

lemma iter_upt:
  assumes "\<And>s i. i < length xs \<Longrightarrow> g s i = f s i (xs ! i)"
  shows "k \<le> length xs \<Longrightarrow> iter (\<lambda>s _ i. g s i) j [k..<length xs] s = iter f k (drop k xs) s"
proof (induction "length xs - k" arbitrary: k j s)
  case (Suc m)
  then have k: "k < length xs" by simp
  have "iter (\<lambda>s _ i. g s i) (Suc j) [Suc k..<length xs] s' = iter f (Suc k) (drop (Suc k) xs) s'" for s'
    using Suc.hyps k by (intro Suc.hyps(1)) auto
  then show ?case
    using k assms [OF k] by (cases "f s k (xs ! k)") (auto simp: upt_conv_Cons simp flip: Cons_nth_drop_Suc)
qed simp

lemma lp_strs_ok [simp]: "\<forall>v \<in> set vs. go_str v \<Longrightarrow> elems_ok (map GStr vs)"
  by (auto simp: elems_ok_def)

lemma lo_vals_lp: "lo_lp l vs \<Longrightarrow> lo_vals l = vs"
  by (simp add: lo_vals_def lo_lp_def lo_forEach_def iter_snoc_map listpackToBytes_def bytes_of_def comp_def)

lemma lo_vals_ql: "lo_ql l ql vs \<Longrightarrow> lo_vals l = vs"
  by (simp add: lo_vals_def lo_ql_def lo_forEach_def ql_forEach_spec iter_snoc_map bytes_of_def comp_def)

lemma lo_cases [consumes 1, case_names lp ql]:
  assumes "lo_inv t l"
  obtains vs where "lo_lp l vs" "lo_vals l = vs" "int (length vs) \<le> listMaxListpackSize t"
  | ql vs where "lo_ql l ql vs" "lo_vals l = vs"
  using assms lo_vals_lp lo_vals_ql by (auto simp: lo_inv_def)

lemma lo_lpI: "lo_lp l vs \<Longrightarrow> int (length vs) \<le> listMaxListpackSize t \<Longrightarrow> lo_inv t l \<and> lo_vals l = vs"
  using lo_vals_lp by (auto simp: lo_inv_def)

lemma lo_qlI: "lo_ql l ql vs \<Longrightarrow> lo_inv t l \<and> lo_vals l = vs"
  using lo_vals_ql by (auto simp: lo_inv_def)

lemma lo_ql_update:
  "lo_ql l ql vs \<Longrightarrow> ql_inv ql' \<Longrightarrow> ql_flat ql' = map GBytes ws \<Longrightarrow>
   lo_inv t (l\<lparr>lo_quicklist := Some ql'\<rparr>) \<and> lo_vals (l\<lparr>lo_quicklist := Some ql'\<rparr>) = ws"
  by (rule lo_qlI) (simp add: lo_ql_def)

lemma lo_lp_update:
  "lo_lp l vs \<Longrightarrow> \<forall>w \<in> set ws. go_str w \<Longrightarrow> int (length ws) \<le> listMaxListpackSize t \<Longrightarrow>
   lo_inv t (l\<lparr>lo_listpack := Some (lp_of (map GStr ws))\<rparr>) \<and> lo_vals (l\<lparr>lo_listpack := Some (lp_of (map GStr ws))\<rparr>) = ws"
  by (rule lo_lpI) (simp_all add: lo_lp_def)

lemma appendVal_strs [simp]:
  "lo_appendVal (lp_of (map GStr vs)) (GStr s) = lp_of (map GStr (vs @ [s]))"
  "lo_appendVal (lp_of (map GStr vs)) (GBytes s) = lp_of (map GStr (vs @ [s]))"
  by (simp_all add: lo_appendVal_def)

lemma listpackToBytes_str [simp]: "listpackToBytes (GStr s) = GBytes s"
  by (simp add: listpackToBytes_def)

text \<open>A loop over the positions of a listpack is a loop over its strings.\<close>

lemma lp_loop:
  assumes "\<forall>v \<in> set vs. go_str v" "\<And>s i. i < length vs \<Longrightarrow> g s i = f s i (vs ! i)"
  shows "iter (\<lambda>s _ i. g s i) j [0..<length vs] s = iter f 0 vs s"
  using iter_upt [of vs g f 0 j s] assms(2) by simp

lemma lp_get_strs [simp]:
  "\<forall>v \<in> set vs. go_str v \<Longrightarrow> i < length vs \<Longrightarrow> lp_get (lp_of (map GStr vs)) (int i) = Some (GStr (vs ! i), True)"
  by simp

section \<open>Conversion\<close>

lemma convertToQuicklist_spec:
  assumes "lo_lp l vs"
  shows "\<exists>l' ql. lo_convertToQuicklist l = Some l' \<and> lo_ql l' ql vs"
proof -
  have "\<exists>ql'. iter (\<lambda>ql i val. Some (case val of GStr v \<Rightarrow> ql_add ql (GBytes v) | GInt v \<Rightarrow> ql_add ql (GBytes (formatInt64 v)) | _ \<Rightarrow> ql, True))
      j (map GStr vs) ql = Some ql' \<and> ql_inv ql' \<and> ql_flat ql' = ql_flat ql @ map GBytes vs" if "ql_inv ql" for j ql
    using that
  proof (induction vs arbitrary: j ql)
    case (Cons v vs)
    show ?case using Cons.IH [of "ql_add ql (GBytes v)" "Suc j"] ql_add_spec [OF Cons.prems, of "GBytes v"] by auto
  qed simp
  from this [OF newQuickList_inv(1), of 0] show ?thesis
    using assms by (auto simp: lo_convertToQuicklist_def lo_lp_def lo_ql_def newQuickList_inv)
qed

lemma convertIfLong_spec:
  assumes "lo_isListpack l" "\<forall>v \<in> set vs. go_str v"
  shows "\<exists>l'. lo_convertIfLong t l (lp_of (map GStr vs)) = Some l' \<and> lo_inv t l' \<and> lo_vals l' = vs"
proof -
  let ?l = "l\<lparr>lo_listpack := Some (lp_of (map GStr vs))\<rparr>"
  have lp: "lo_lp ?l vs" using assms by (simp add: lo_lp_def)
  show ?thesis
  proof (cases "int (length vs) > listMaxListpackSize t")
    case True
    then show ?thesis using convertToQuicklist_spec [OF lp] lo_qlI by (fastforce simp: lo_convertIfLong_def)
  next
    case False
    then show ?thesis using lo_lpI [OF lp, of t] by (simp add: lo_convertIfLong_def)
  qed
qed

section \<open>The operations\<close>

lemma newList_spec: "thresholds_ok t \<Longrightarrow> lo_inv t newList" "lo_vals newList = []"
proof -
  have "lo_lp newList []" by (simp add: lo_lp_def newList_def)
  then show "thresholds_ok t \<Longrightarrow> lo_inv t newList" "lo_vals newList = []"
    using lo_lpI [of newList "[]" t] lo_vals_lp by (auto simp: thresholds_ok_def)
qed

lemma lo_add_spec:
  assumes "lo_inv t l" "go_str b"
  shows "\<exists>l'. lo_add t l (GBytes b) = Some l' \<and> lo_inv t l' \<and> lo_vals l' = lo_vals l @ [b]"
  using assms(1)
proof (cases rule: lo_cases)
  case (lp vs)
  then show ?thesis
    using convertIfLong_spec [of l "vs @ [b]" t] assms(2) by (auto simp: lo_add_def lo_lp_def)
next
  case (ql ql vs)
  then show ?thesis
    using ql_add_spec [of ql "GBytes b"] lo_ql_update [OF ql(1), of "ql_add ql (GBytes b)" "vs @ [b]" t]
    by (simp add: lo_add_def lo_ql_def)
qed

lemma lo_get_spec:
  assumes "lo_inv t l"
  shows "lo_get l i = Some (case gindex (lo_vals l) i of None \<Rightarrow> (GNil, False) | Some b \<Rightarrow> (GBytes b, True))"
  using assms
proof (cases rule: lo_cases)
  case (lp vs)
  then show ?thesis
    by (cases "0 \<le> i \<and> i < int (length vs)") (auto simp: lo_get_def lo_lp_def gindex_def)
next
  case (ql ql vs)
  then show ?thesis by (auto simp: lo_get_def lo_ql_def ql_len_spec ql_get_spec gindex_def)
qed

lemma lo_len_spec: "lo_inv t l \<Longrightarrow> lo_len l = Some (int (length (lo_vals l)))"
  by (cases rule: lo_cases, assumption) (auto simp: lo_len_def lo_lp_def lo_ql_def ql_len_spec)

lemma lo_forEach_spec:
  assumes "lo_inv t l"
  shows "lo_forEach fn l s = iter fn 0 (map GBytes (lo_vals l)) s"
  using assms
proof (cases rule: lo_cases)
  case (lp vs)
  have "iter (\<lambda>s i val. fn s i (listpackToBytes val)) j (map GStr vs) s = iter fn j (map GBytes vs) s" for j s
    by (induction vs arbitrary: j s) (auto intro!: Option.bind_cong)
  then show ?thesis using lp by (simp add: lo_forEach_def lo_lp_def)
next
  case (ql ql vs)
  then show ?thesis by (simp add: lo_forEach_def lo_ql_def ql_forEach_spec)
qed

text \<open>What the rebuilding loops copy.\<close>

lemma insert_loop:
  "iter (\<lambda>lp i v. Some (lo_appendVal (if int i = index then lo_appendVal lp (GBytes b) else lp) (GStr v), True)) k vs (lp_of (map GStr acc))
   = Some (lp_of (map GStr (acc @ (if int k \<le> index \<and> index < int (k + length vs) then list_insert (nat index - k) b vs else vs))))"
proof (induction vs arbitrary: k acc)
  case (Cons v vs)
  consider "int k = index" | "index < int k" | "int k < index" by linarith
  then show ?case
  proof cases
    case 1
    then show ?thesis
      using Cons.IH [of "Suc k" "acc @ [b, v]"] by (auto simp: list_insert_def simp flip: map_append)
  next
    case 2
    then show ?thesis using Cons.IH [of "Suc k" "acc @ [v]"] by auto
  next
    case 3
    then have "nat index - k = Suc (nat index - Suc k)" by linarith
    then show ?thesis using 3 Cons.IH [of "Suc k" "acc @ [v]"] by (auto simp: list_insert_def)
  qed
qed auto

lemma remove_loop:
  "iter (\<lambda>(lp, r) i v. Some (if int i = index then ((lp, GBytes v), True) else ((lo_appendVal lp (GStr v), r), True))) k vs (lp_of (map GStr acc), r)
   = Some (if int k \<le> index \<and> index < int (k + length vs)
       then (lp_of (map GStr (acc @ list_remove (nat index - k) vs)), GBytes (vs ! (nat index - k)))
       else (lp_of (map GStr (acc @ vs)), r))"
proof (induction vs arbitrary: k acc r)
  case (Cons v vs)
  consider "int k = index" | "index < int k" | "int k < index" by linarith
  then show ?case
  proof cases
    case 1
    then show ?thesis using Cons.IH [of "Suc k" acc "GBytes v"] by (auto simp: list_remove_def)
  next
    case 2
    then show ?thesis using Cons.IH [of "Suc k" "acc @ [v]" r] by auto
  next
    case 3
    then have "nat index - k = Suc (nat index - Suc k)" by linarith
    then show ?thesis using 3 Cons.IH [of "Suc k" "acc @ [v]" r] by (auto simp: list_remove_def)
  qed
qed auto

lemma set_loop:
  "iter (\<lambda>lp i v. Some (lo_appendVal lp (if int i = index then GBytes b else GStr v), True)) k vs (lp_of (map GStr acc))
   = Some (lp_of (map GStr (acc @ (if int k \<le> index then vs[nat index - k := b] else vs))))"
proof (induction vs arbitrary: k acc)
  case (Cons v vs)
  consider "int k = index" | "index < int k" | "int k < index" by linarith
  then show ?case
  proof cases
    case 1
    then show ?thesis using Cons.IH [of "Suc k" "acc @ [b]"] by auto
  next
    case 2
    then show ?thesis using Cons.IH [of "Suc k" "acc @ [v]"] by auto
  next
    case 3
    then have "nat index - k = Suc (nat index - Suc k)" by linarith
    then show ?thesis using 3 Cons.IH [of "Suc k" "acc @ [v]"] by auto
  qed
qed simp

lemma removeBy_copy:
  "r \<le> n \<Longrightarrow> iter (\<lambda>(lp, r) i v. Some (if r < n \<and> e v then ((lp, Suc r), True) else ((lo_appendVal lp (GStr v), r), True))) k vs (lp_of (map GStr acc), r)
   = Some (lp_of (map GStr (acc @ remove_first (n - r) e vs)), r + min (n - r) (length (filter e vs)))"
proof (induction vs arbitrary: k acc r)
  case (Cons v vs)
  consider "r = n" | "r < n" "e v" | "r < n" "\<not> e v" using Cons.prems by linarith
  then show ?case
  proof cases
    case 1
    then show ?thesis using Cons.IH [of r "Suc k" "acc @ [v]"] by simp
  next
    case 2
    then have "n - r = Suc (n - Suc r)" by linarith
    then show ?thesis using 2 Cons.IH [of "Suc r" "Suc k" acc] by simp
  next
    case 3
    then show ?thesis using Cons.IH [of r "Suc k" "acc @ [v]"] by simp
  qed
qed simp

lemma removeAll_copy:
  "iter (\<lambda>(lp, r) i v. Some (if e v then ((lp, Suc r), True) else ((lo_appendVal lp (GStr v), r), True))) k vs (lp_of (map GStr acc), r)
   = Some (lp_of (map GStr (acc @ filter (\<lambda>v. \<not> e v) vs)), r + length (filter e vs))"
proof (induction vs arbitrary: k acc r)
  case (Cons v vs)
  then show ?case using Cons.IH [of "Suc k" acc "Suc r"] Cons.IH [of "Suc k" "acc @ [v]" r] by (cases "e v") simp_all
qed simp

lemma copy_unmarked:
  "iter (\<lambda>lp _ i. Some (if i \<in> S then lp else lo_appendVal lp (GStr (vs ! i)), True)) j js (lp_of (map GStr acc))
   = Some (lp_of (map GStr (acc @ map ((!) vs) (filter (\<lambda>i. i \<notin> S) js))))"
proof (induction js arbitrary: j acc)
  case (Cons i js)
  then show ?case using Cons.IH [of "Suc j" acc] Cons.IH [of "Suc j" "acc @ [vs ! i]"] by (cases "i \<in> S") simp_all
qed simp

lemma rev_marks_spec:
  assumes "\<forall>v \<in> set vs. go_str v" "n \<le> length vs" "int r \<le> cnt"
  shows "\<exists>marks. rev_marks (\<lambda>g. e (bytes_of g)) cnt (lp_of (map GStr vs)) n tr r = Some (marks @ tr, r + length marks) \<and>
    set marks \<subseteq> {..<n} \<and> length marks = min (nat cnt - r) (length (filter e (take n vs))) \<and>
    map ((!) vs) (filter (\<lambda>i. i \<notin> set marks) [0..<n]) = rev (remove_first (nat cnt - r) e (rev (take n vs)))"
  using assms(2,3)
proof (induction n arbitrary: tr r)
  case (Suc n)
  have tk: "take (Suc n) vs = take n vs @ [vs ! n]" using Suc.prems(1) by (simp add: take_Suc_conv_app_nth)
  have get: "lp_get (lp_of (map GStr vs)) (int n) = Some (GStr (vs ! n), True)" using assms(1) Suc.prems(1) by simp
  have all: "map ((!) vs) [0..<n] = take n vs" using Suc.prems(1) by (intro nth_equalityI) auto
  consider "int r = cnt" | "int r < cnt" "e (vs ! n)" | "int r < cnt" "\<not> e (vs ! n)" using Suc.prems(2) by linarith
  then show ?case
  proof cases
    case 1
    then show ?thesis using tk all by (intro exI [of _ "[]"]) auto
  next
    case 2
    then have n: "nat cnt - r = Suc (nat cnt - Suc r)" "int (Suc r) \<le> cnt" by linarith+
    obtain marks where m: "rev_marks (\<lambda>g. e (bytes_of g)) cnt (lp_of (map GStr vs)) n (n # tr) (Suc r) = Some (marks @ n # tr, Suc r + length marks)"
        "set marks \<subseteq> {..<n}" "length marks = min (nat cnt - Suc r) (length (filter e (take n vs)))"
        "map ((!) vs) (filter (\<lambda>i. i \<notin> set marks) [0..<n]) = rev (remove_first (nat cnt - Suc r) e (rev (take n vs)))"
      using Suc.IH [of "Suc r" "n # tr"] Suc.prems(1) n(2) by auto
    have "filter (\<lambda>i. i \<notin> set (marks @ [n])) [0..<Suc n] = filter (\<lambda>i. i \<notin> set marks) [0..<n]"
      by (auto intro: filter_cong)
    then show ?thesis
      using 2 n get m tk by (intro exI [of _ "marks @ [n]"]) (auto simp: bytes_of_def)
  next
    case 3
    obtain marks where m: "rev_marks (\<lambda>g. e (bytes_of g)) cnt (lp_of (map GStr vs)) n tr r = Some (marks @ tr, r + length marks)"
        "set marks \<subseteq> {..<n}" "length marks = min (nat cnt - r) (length (filter e (take n vs)))"
        "map ((!) vs) (filter (\<lambda>i. i \<notin> set marks) [0..<n]) = rev (remove_first (nat cnt - r) e (rev (take n vs)))"
      using Suc.IH [of r tr] Suc.prems by auto
    have "n \<notin> set marks" using m(2) by auto
    then show ?thesis using 3 get m tk by (intro exI [of _ marks]) (auto simp: bytes_of_def)
  qed
qed simp

lemma set_remove_first: "set (remove_first n e xs) \<subseteq> set xs" "length (remove_first n e xs) \<le> length xs"
  by (induction xs arbitrary: n) (auto intro: le_SucI)

lemma lo_insert_spec:
  assumes "lo_inv t l" "go_str b" "0 \<le> i" "i \<le> int (length (lo_vals l))"
  shows "\<exists>l'. lo_insert t grow l i (GBytes b) = Some l' \<and> lo_inv t l' \<and> lo_vals l' = list_insert (nat i) b (lo_vals l)"
  using assms(1)
proof (cases rule: lo_cases)
  case (lp vs)
  show ?thesis
  proof (cases "i = int (length vs)")
    case True
    then show ?thesis
      using lp lo_add_spec [OF assms(1,2)] by (auto simp: lo_insert_def lo_lp_def list_insert_def)
  next
    case False
    then have i: "i < int (length vs)" using assms(4) lp(2) by simp
    have ok: "\<forall>v \<in> set vs. go_str v" using lp(1) by (simp add: lo_lp_def)
    have "iter (\<lambda>newLp _ j. let newLp1 = (if int j = i then lo_appendVal newLp (GBytes b) else newLp) in
             do { (elem, ok) \<leftarrow> lp_get (lp_of (map GStr vs)) (int j);
                  Some (if ok then lo_appendVal newLp1 elem else newLp1, True) }) 0 [0..<length vs] (lp_of [])
        = Some (lp_of (map GStr (list_insert (nat i) b vs)))"
      using lp_loop [OF ok, where f = "\<lambda>lp j v. Some (lo_appendVal (if int j = i then lo_appendVal lp (GBytes b) else lp) (GStr v), True)"]
        insert_loop [of i b 0 vs "[]"] assms(3) i ok by (simp add: Let_def)
    moreover have "\<forall>v \<in> set (list_insert (nat i) b vs). go_str v" using ok assms(2) by simp
    ultimately show ?thesis
      using False lp convertIfLong_spec [of l "list_insert (nat i) b vs" t] by (auto simp: lo_insert_def lo_lp_def)
  qed
next
  case (ql ql vs)
  then have "ql_inv ql" "i \<le> int (length (ql_flat ql))" "ql_flat ql = map GBytes vs" using assms(4) by (auto simp: lo_ql_def)
  then obtain ql' where "ql_insert grow ql i (GBytes b) = Some ql'" "ql_inv ql'"
      "ql_flat ql' = list_insert (nat i) (GBytes b) (map GBytes vs)"
    using ql_insert_spec [of ql i grow "GBytes b"] assms(3) by auto
  moreover have "list_insert (nat i) (GBytes b) (map GBytes vs) = map GBytes (list_insert (nat i) b vs)"
    by (simp add: list_insert_def take_map drop_map)
  ultimately show ?thesis
    using ql lo_ql_update [OF ql(1), of ql' "list_insert (nat i) b vs" t] by (simp add: lo_insert_def lo_ql_def)
qed

lemma lo_remove_at_spec:
  assumes "\<forall>v \<in> set vs. go_str v" "0 \<le> i" "i < int (length vs)"
  shows "lo_remove_at (lp_of (map GStr vs)) i = Some (lp_of (map GStr (list_remove (nat i) vs)), GBytes (vs ! nat i))"
proof -
  let ?f = "\<lambda>(lp, r) j v. Some (if int j = i then ((lp, GBytes v), True) else ((lo_appendVal lp (GStr v), r), True))"
  have "lo_remove_at (lp_of (map GStr vs)) i = iter ?f 0 vs (lp_of [], GNil)"
    unfolding lo_remove_at_def lp_build length_map by (rule lp_loop [OF assms(1)]) (use assms(1) in \<open>auto split: prod.splits\<close>)
  then show ?thesis using remove_loop [of i 0 vs "[]" GNil] assms by simp
qed

lemma lo_remove_spec:
  assumes "lo_inv t l" "0 \<le> i" "i < int (length (lo_vals l))"
  shows "\<exists>l'. lo_remove l i = Some (l', GBytes (lo_vals l ! nat i)) \<and> lo_inv t l' \<and> lo_vals l' = list_remove (nat i) (lo_vals l)"
  using assms(1)
proof (cases rule: lo_cases)
  case (lp vs)
  have rm: "set (list_remove (nat i) vs) \<subseteq> set vs" by (auto simp: list_remove_def dest: in_set_takeD in_set_dropD)
  moreover have "length (list_remove (nat i) vs) \<le> length vs" by (simp add: list_remove_def)
  ultimately show ?thesis
    using lp assms(2,3) lo_remove_at_spec [of vs i] lo_lp_update [OF lp(1), of "list_remove (nat i) vs" t]
    by (auto simp: lo_remove_def lo_lp_def)
next
  case (ql ql vs)
  then have "ql_inv ql" "i < int (length (ql_flat ql))" "ql_flat ql = map GBytes vs" using assms(3) by (auto simp: lo_ql_def)
  then obtain ql' where "ql_remove ql i = Some (ql', GBytes (vs ! nat i))" "ql_inv ql'"
      "ql_flat ql' = list_remove (nat i) (map GBytes vs)"
    using ql_remove_spec [of ql i] assms(2) by (auto simp: nat_less_iff)
  moreover have "list_remove (nat i) (map GBytes vs) = map GBytes (list_remove (nat i) vs)"
    by (simp add: list_remove_def take_map drop_map)
  ultimately show ?thesis
    using ql lo_ql_update [OF ql(1), of ql' "list_remove (nat i) vs" t] by (simp add: lo_remove_def lo_ql_def)
qed

lemma lo_removeLast_spec:
  assumes "lo_inv t l"
  shows "\<exists>l'. lo_removeLast l = Some (l', if lo_vals l = [] then GNil else GBytes (last (lo_vals l))) \<and> lo_inv t l' \<and>
    lo_vals l' = butlast (lo_vals l)"
  using assms
proof (cases rule: lo_cases)
  case (lp vs)
  have len: "int (length (butlast vs)) \<le> listMaxListpackSize t" using lp(3) by simp
  show ?thesis
  proof (cases vs rule: rev_cases)
    case Nil
    then show ?thesis using lp assms by (auto simp: lo_removeLast_def lo_lp_def)
  next
    case (snoc ws v)
    then have "list_remove (length ws) vs = ws" "vs ! length ws = v" by (simp_all add: list_remove_def)
    then show ?thesis
      using lp len snoc lo_remove_at_spec [of vs "int (length ws)"] lo_lp_update [OF lp(1), of ws t]
      by (auto simp: lo_removeLast_def lo_lp_def)
  qed
next
  case (ql ql vs)
  then obtain ql' where "ql_removeLast ql = Some (ql', if vs = [] then None else Some (GBytes (last vs)))" "ql_inv ql'"
      "ql_flat ql' = map GBytes (butlast vs)"
    using ql_removeLast_spec [of ql] by (auto simp: lo_ql_def last_map map_butlast)
  then show ?thesis
    using ql lo_ql_update [OF ql(1), of ql' "butlast vs" t] by (auto simp: lo_removeLast_def lo_ql_def)
qed

lemma lo_set_spec:
  assumes "lo_inv t l" "go_str b" "0 \<le> i" "i < int (length (lo_vals l))"
  shows "\<exists>l'. lo_set l i (GBytes b) = Some l' \<and> lo_inv t l' \<and> lo_vals l' = (lo_vals l)[nat i := b]"
  using assms(1)
proof (cases rule: lo_cases)
  case (lp vs)
  have ok: "\<forall>v \<in> set vs. go_str v" using lp(1) by (simp add: lo_lp_def)
  have "iter (\<lambda>newLp _ j. do { (elem, ok) \<leftarrow> lp_get (lp_of (map GStr vs)) (int j);
          Some (if \<not> ok then (newLp, False) else (lo_appendVal newLp (if int j = i then GBytes b else elem), True)) })
        0 [0..<length vs] (lp_of []) = Some (lp_of (map GStr (vs[nat i := b])))"
    using lp_loop [OF ok, where f = "\<lambda>lp j v. Some (lo_appendVal lp (if int j = i then GBytes b else GStr v), True)"]
      set_loop [of i b 0 vs "[]"] assms(3) ok by simp
  moreover have "\<forall>v \<in> set (vs[nat i := b]). go_str v" using ok assms(2) set_update_subset_insert by fastforce
  ultimately show ?thesis
    using lp lo_lp_update [OF lp(1), of "vs[nat i := b]" t] by (auto simp: lo_set_def lo_lp_def)
next
  case (ql ql vs)
  then obtain ql' where "ql_set ql i (GBytes b) = Some ql'" "ql_inv ql'" "ql_flat ql' = map GBytes (vs[nat i := b])"
    using ql_set_spec [of ql i "GBytes b"] assms(3,4) by (auto simp: lo_ql_def map_update)
  then show ?thesis
    using ql lo_ql_update [OF ql(1), of ql' "vs[nat i := b]" t] by (auto simp: lo_set_def lo_ql_def)
qed

lemma map_nth_upt: "b \<le> length xs \<Longrightarrow> map ((!) xs) [a..<b] = take (b - a) (drop a xs)"
  by (intro nth_equalityI) auto

lemma lo_range_spec:
  assumes "lo_inv t l" "0 \<le> start" "start < int (length (lo_vals l))" "start \<le> stop" "stop \<le> int (length (lo_vals l))"
  shows "lo_range l start stop = Some (map GBytes (take (nat (stop - start)) (drop (nat start) (lo_vals l))))"
  using assms(1)
proof (cases rule: lo_cases)
  case (lp vs)
  have ok: "\<forall>v \<in> set vs. go_str v" using lp(1) by (simp add: lo_lp_def)
  have st: "nat stop \<le> length vs" using assms(5) lp(2) by simp
  have "iter (\<lambda>result _ i. do { (elem, ok) \<leftarrow> lp_get (lp_of (map GStr vs)) (int i);
          Some (if ok then result @ [listpackToBytes elem] else result, True) }) 0 [nat start..<nat stop] []
      = iter (\<lambda>result _ i. Some (result @ [GBytes (vs ! i)], True)) 0 [nat start..<nat stop] []"
    using st ok by (intro iter_cong_pure) auto
  also have "\<dots> = Some (map GBytes (map ((!) vs) [nat start..<nat stop]))" by (simp add: iter_snoc_map)
  also have "map ((!) vs) [nat start..<nat stop] = take (nat (stop - start)) (drop (nat start) vs)"
    using map_nth_upt [OF st, of "nat start"] assms(2,4) by (simp add: nat_diff_distrib)
  finally show ?thesis
    using lp assms by (auto simp: lo_range_def lo_lp_def Let_def)
next
  case (ql ql vs)
  then show ?thesis using ql_range_spec [of ql start stop] assms by (simp add: lo_range_def lo_ql_def take_map drop_map)
qed

lemma filter_bytes: "filter (\<lambda>g. P (bytes_of g)) (map GBytes vs) = map GBytes (filter P vs)"
  by (simp add: filter_map comp_def bytes_of_def)

lemma remove_first_bytes: "remove_first n (\<lambda>g. e (bytes_of g)) (map GBytes vs) = map GBytes (remove_first n e vs)"
  by (induction vs arbitrary: n) (auto simp: bytes_of_def)

lemma lo_removeAllByVal_spec:
  assumes "lo_inv t l" "lo_vals l \<noteq> []"
  shows "\<exists>l'. lo_removeAllByVal (\<lambda>g. e (bytes_of g)) l = Some (l', length (filter e (lo_vals l))) \<and> lo_inv t l' \<and>
    lo_vals l' = filter (\<lambda>v. \<not> e v) (lo_vals l)"
  using assms(1)
proof (cases rule: lo_cases)
  case (lp vs)
  have ok: "\<forall>v \<in> set vs. go_str v" using lp(1) by (simp add: lo_lp_def)
  let ?f = "\<lambda>(lp, r) i v. Some (if e v then ((lp, Suc r), True) else ((lo_appendVal lp (GStr v), r), True))"
  have "iter (\<lambda>st _ i. case st of (newLp, removed) \<Rightarrow> do { (elem, ok) \<leftarrow> lp_get (lp_of (map GStr vs)) (int i);
          Some (if \<not> ok then ((newLp, removed), False) else if e (bytes_of (listpackToBytes elem)) then ((newLp, Suc removed), True)
                else ((lo_appendVal newLp elem, removed), True)) }) 0 [0..<length vs] (lp_of [], 0) = iter ?f 0 vs (lp_of [], 0)"
    by (rule lp_loop [OF ok]) (use ok in \<open>auto simp: bytes_of_def split: prod.splits\<close>)
  also have "\<dots> = Some (lp_of (map GStr (filter (\<lambda>v. \<not> e v) vs)), length (filter e vs))"
    using removeAll_copy [of e 0 vs "[]" 0] by simp
  finally show ?thesis
    using lp ok lo_lp_update [OF lp(1), of "filter (\<lambda>v. \<not> e v) vs" t] length_filter_le [of "\<lambda>v. \<not> e v" vs]
    by (auto simp: lo_removeAllByVal_def lo_lp_def)
next
  case (ql ql vs)
  then obtain ql' where "ql_removeAllByVal (\<lambda>g. e (bytes_of g)) ql = Some (ql', length (filter e vs))" "ql_inv ql'"
      "ql_flat ql' = map GBytes (filter (\<lambda>v. \<not> e v) vs)"
    using ql_removeAllByVal_spec [of ql "\<lambda>g. e (bytes_of g)"] assms(2)
      filter_bytes [of e vs] filter_bytes [of "\<lambda>v. \<not> e v" vs] by (auto simp: lo_ql_def)
  then show ?thesis
    using ql lo_ql_update [OF ql(1), of ql' "filter (\<lambda>v. \<not> e v) vs" t] by (auto simp: lo_removeAllByVal_def lo_ql_def)
qed

lemma lo_removeByVal_spec:
  assumes "lo_inv t l" "0 < cnt"
  shows "\<exists>l'. lo_removeByVal (\<lambda>g. e (bytes_of g)) cnt l = Some (l', min (nat cnt) (length (filter e (lo_vals l)))) \<and> lo_inv t l' \<and>
    lo_vals l' = remove_first (nat cnt) e (lo_vals l)"
  using assms(1)
proof (cases rule: lo_cases)
  case (lp vs)
  have ok: "\<forall>v \<in> set vs. go_str v" using lp(1) by (simp add: lo_lp_def)
  let ?f = "\<lambda>(lp, r) i v. Some (if r < nat cnt \<and> e v then ((lp, Suc r), True) else ((lo_appendVal lp (GStr v), r), True))"
  have "iter (\<lambda>st _ i. case st of (newLp, removed) \<Rightarrow> do { (elem, ok) \<leftarrow> lp_get (lp_of (map GStr vs)) (int i);
          Some (if \<not> ok then ((newLp, removed), False)
                else if int removed < cnt \<and> e (bytes_of (listpackToBytes elem)) then ((newLp, Suc removed), True)
                else ((lo_appendVal newLp elem, removed), True)) }) 0 [0..<length vs] (lp_of [], 0) = iter ?f 0 vs (lp_of [], 0)"
    by (rule lp_loop [OF ok]) (use ok assms(2) in \<open>auto simp: bytes_of_def split: prod.splits\<close>)
  also have "\<dots> = Some (lp_of (map GStr (remove_first (nat cnt) e vs)), min (nat cnt) (length (filter e vs)))"
    using removeBy_copy [of 0 "nat cnt" e 0 vs "[]"] by simp
  finally show ?thesis
    using lp ok lo_lp_update [OF lp(1), of "remove_first (nat cnt) e vs" t] set_remove_first [of "nat cnt" e vs]
    by (auto simp: lo_removeByVal_def lo_lp_def)
next
  case (ql ql vs)
  then obtain ql' where "ql_removeByVal (\<lambda>g. e (bytes_of g)) cnt ql = Some (ql', min (nat cnt) (length (filter e vs)))" "ql_inv ql'"
      "ql_flat ql' = map GBytes (remove_first (nat cnt) e vs)"
    using ql_removeByVal_pos(1) [of ql cnt "\<lambda>g. e (bytes_of g)"] assms(2) filter_bytes [of e vs]
    by (auto simp: lo_ql_def remove_first_bytes)
  then show ?thesis
    using ql lo_ql_update [OF ql(1), of ql' "remove_first (nat cnt) e vs" t] by (auto simp: lo_removeByVal_def lo_ql_def)
qed

lemma lo_reverseRemoveByVal_spec:
  assumes "lo_inv t l" "0 < cnt"
  shows "\<exists>l'. lo_reverseRemoveByVal (\<lambda>g. e (bytes_of g)) cnt l = Some (l', min (nat cnt) (length (filter e (lo_vals l)))) \<and>
    lo_inv t l' \<and> lo_vals l' = rev (remove_first (nat cnt) e (rev (lo_vals l)))"
  using assms(1)
proof (cases rule: lo_cases)
  case (lp vs)
  let ?ws = "rev (remove_first (nat cnt) e (rev vs))"
  have ok: "\<forall>v \<in> set vs. go_str v" using lp(1) by (simp add: lo_lp_def)
  obtain marks where m: "rev_marks (\<lambda>g. e (bytes_of g)) cnt (lp_of (map GStr vs)) (length vs) [] 0 = Some (marks, length marks)"
      "length marks = min (nat cnt) (length (filter e vs))" "map ((!) vs) (filter (\<lambda>i. i \<notin> set marks) [0..<length vs]) = ?ws"
    using rev_marks_spec [OF ok order_refl, of 0 cnt e "[]"] assms(2) by auto
  have "iter (\<lambda>newLp _ i. if i \<in> set marks then Some (newLp, True)
          else do { (elem, ok) \<leftarrow> lp_get (lp_of (map GStr vs)) (int i); Some (if ok then lo_appendVal newLp elem else newLp, True) })
        0 [0..<length vs] (lp_of [])
      = iter (\<lambda>lp _ i. Some (if i \<in> set marks then lp else lo_appendVal lp (GStr (vs ! i)), True)) 0 [0..<length vs] (lp_of [])"
    using ok by (intro iter_cong_pure) auto
  also have "\<dots> = Some (lp_of (map GStr ?ws))" using copy_unmarked [of "set marks" vs 0 "[0..<length vs]" "[]"] m(3) by simp
  finally show ?thesis
    using lp ok m lo_lp_update [OF lp(1), of ?ws t] set_remove_first [of "nat cnt" e "rev vs"]
    by (auto simp: lo_reverseRemoveByVal_def lo_lp_def)
next
  case (ql ql vs)
  then obtain ql' where "ql_reverseRemoveByVal (\<lambda>g. e (bytes_of g)) cnt ql = Some (ql', min (nat cnt) (length (filter e vs)))" "ql_inv ql'"
      "ql_flat ql' = map GBytes (rev (remove_first (nat cnt) e (rev vs)))"
    using ql_removeByVal_pos(2) [of ql cnt "\<lambda>g. e (bytes_of g)"] assms(2) filter_bytes [of e vs]
    by (auto simp: lo_ql_def rev_map remove_first_bytes)
  then show ?thesis
    using ql lo_ql_update [OF ql(1), of ql' "rev (remove_first (nat cnt) e (rev vs))" t]
    by (auto simp: lo_reverseRemoveByVal_def lo_ql_def)
qed

section \<open>The contract of lists\<close>

text \<open>
  The object as a list of byte strings. It has no \<^verbatim>\<open>Contains\<close>, so that call is outside its contract,
  as are values longer than a Go string can be.
\<close>

definition obj_List :: "thresholds \<Rightarrow> (nat \<Rightarrow> nat \<Rightarrow> nat) \<Rightarrow> (listobj, bytes) List" where
  "obj_List t grow = \<lparr>lAdd = (\<lambda>l b. lo_add t l (GBytes b)),
     lGet = (\<lambda>l i. do { (v, ok) \<leftarrow> lo_get l i; if ok then Some (bytes_of v) else None }),
     lSet = (\<lambda>l i b. lo_set l i (GBytes b)), lInsert = (\<lambda>l i b. lo_insert t grow l i (GBytes b)),
     lRemove = (\<lambda>l i. do { (l', v) \<leftarrow> lo_remove l i; Some (l', bytes_of v) }),
     lRemoveLast = (\<lambda>l. do { (l', v) \<leftarrow> lo_removeLast l; Some (l', if v = GNil then None else Some (bytes_of v)) }),
     lRemoveAllByVal = (\<lambda>e. lo_removeAllByVal (\<lambda>g. e (bytes_of g))),
     lRemoveByVal = (\<lambda>e. lo_removeByVal (\<lambda>g. e (bytes_of g))),
     lReverseRemoveByVal = (\<lambda>e. lo_reverseRemoveByVal (\<lambda>g. e (bytes_of g))),
     lLen = (\<lambda>l. case lo_len l of None \<Rightarrow> 0 | Some n \<Rightarrow> n),
     lContains = (\<lambda>e l. None),
     lRange = (\<lambda>l start stop. map_option (map bytes_of) (lo_range l start stop))\<rparr>"

fun obj_ok :: "bytes list_op \<Rightarrow> bool" where
  "obj_ok (LAdd b) = go_str b"
| "obj_ok (LSet i b) = go_str b"
| "obj_ok (LInsert i b) = go_str b"
| "obj_ok (LContains e) = False"
| "obj_ok _ = True"

interpretation lo: list_impl "obj_List t grow" "lo_inv t" lo_vals obj_ok for t grow
proof unfold_locales
  fix l i assume inv: "lo_inv t l"
  show "lGet (obj_List t grow) l i = gindex (lo_vals l) i"
    using lo_get_spec [OF inv, of i] by (simp add: obj_List_def bytes_of_def split: option.splits)
  show "lLen (obj_List t grow) l = int (length (lo_vals l))" using lo_len_spec [OF inv] by (simp add: obj_List_def)
  show "\<exists>l'. lRemoveLast (obj_List t grow) l = Some (l', if lo_vals l = [] then None else Some (last (lo_vals l))) \<and>
      lo_inv t l' \<and> lo_vals l' = butlast (lo_vals l)"
    using lo_removeLast_spec [OF inv] by (auto simp: obj_List_def bytes_of_def)
next
  fix l and i :: int assume "lo_inv t l" "0 \<le> i" "i < int (length (lo_vals l))"
  then show "\<exists>l'. lRemove (obj_List t grow) l i = Some (l', lo_vals l ! nat i) \<and> lo_inv t l' \<and>
      lo_vals l' = list_remove (nat i) (lo_vals l)"
    using lo_remove_spec [of t l i] by (auto simp: obj_List_def bytes_of_def)
next
  fix l and start stop :: int
  assume "lo_inv t l" "0 \<le> start" "start < int (length (lo_vals l))" "start \<le> stop" "stop \<le> int (length (lo_vals l))"
  then show "lRange (obj_List t grow) l start stop = Some (take (nat (stop - start)) (drop (nat start) (lo_vals l)))"
    using lo_range_spec [of t l start stop] by (simp add: obj_List_def bytes_of_def comp_def)
qed (simp_all add: obj_List_def lo_add_spec lo_set_spec lo_insert_spec lo_removeAllByVal_spec lo_removeByVal_spec lo_reverseRemoveByVal_spec)

section \<open>Properties\<close>

text \<open>C24. Across the change of its encoding a list object behaves like a sequence of byte strings inside the bounds: any
  program of its calls that the sequence can run (indices in range, positive counts of removals) returns the results of the sequence without a
  panic, and an object that is still a listpack is not longer than the threshold.\<close>

theorem list_object_refines_seq:
  assumes "thresholds_ok t" "list_all obj_ok ops" "seq_run [] ops = Some (xs, rs)"
  shows "\<exists>l. list_run (obj_List t grow) newList ops = Some (l, rs) \<and> lo_vals l = xs \<and>
    (lo_currentEncoding l = EncListpack \<longrightarrow> int (length xs) \<le> listMaxListpackSize t)"
proof -
  obtain l where "list_run (obj_List t grow) newList ops = Some (l, rs)" "lo_inv t l" "lo_vals l = xs"
    using lo.run_refines [OF newList_spec(1) [OF assms(1)] assms(2), unfolded newList_spec(2), OF assms(3)] by blast
  moreover have "int (length (lo_vals l)) \<le> listMaxListpackSize t" if "lo_isListpack l" "lo_inv t l" for l
    using that(2) by (cases rule: lo_cases) (use that(1) in \<open>auto simp: lo_ql_def\<close>)
  ultimately show ?thesis by (auto simp: lo_currentEncoding_def split: if_splits)
qed

theorem list_object_refines_seq_witness:
  "\<exists>l. list_run (obj_List (defaultEncodingThresholds\<lparr>listMaxListpackSize := 2\<rparr>) (\<lambda>c n. n)) newList
      [LAdd ''a'', LInsert 0 ''b'', LAdd ''c'', LRemoveBy (\<lambda>x. x = ''a'') 1, LRange 0 2]
     = Some (l, [LUnit, LUnit, LUnit, LNum 1, LVals [''b'', ''c'']]) \<and> lo_vals l = [''b'', ''c'']"
proof -
  let ?ops = "[LAdd ''a'', LInsert 0 ''b'', LAdd ''c'', LRemoveBy (\<lambda>x. x = ''a'') 1, LRange 0 2]"
  let ?t = "defaultEncodingThresholds\<lparr>listMaxListpackSize := 2\<rparr>"
  have "seq_run [] ?ops = Some ([''b'', ''c''], [LUnit, LUnit, LUnit, LNum 1, LVals [''b'', ''c'']])"
    by (simp add: list_insert_def)
  moreover have "thresholds_ok ?t" by (simp add: thresholds_ok_def defaultEncodingThresholds_def)
  moreover have "list_all obj_ok ?ops" by (simp add: go_str_def)
  ultimately show ?thesis using list_object_refines_seq [of ?t ?ops _ _ "\<lambda>c n. n"] by blast
qed

text \<open>C25. A removal by value whose count is not positive depends on the encoding: a listpack keeps every
  element, the quicklist of the same elements loses every match.\<close>

theorem removeByVal_count_depends_on_encoding:
  assumes "lo_lp l vs" "cnt \<le> 0" "lo_convertToQuicklist l = Some q"
  shows "map_option (lo_vals \<circ> fst) (lo_removeByVal (\<lambda>g. e (bytes_of g)) cnt l) = Some vs \<and>
    map_option (lo_vals \<circ> fst) (lo_removeByVal (\<lambda>g. e (bytes_of g)) cnt q) = Some (filter (\<lambda>v. \<not> e v) vs)"
proof
  have ok: "\<forall>v \<in> set vs. go_str v" using assms(1) by (simp add: lo_lp_def)
  let ?f = "\<lambda>(lp, r) i v. Some (if r < nat cnt \<and> e v then ((lp, Suc r), True) else ((lo_appendVal lp (GStr v), r), True))"
  have "iter (\<lambda>st _ i. case st of (newLp, removed) \<Rightarrow> do { (elem, ok) \<leftarrow> lp_get (lp_of (map GStr vs)) (int i);
          Some (if \<not> ok then ((newLp, removed), False)
                else if int removed < cnt \<and> e (bytes_of (listpackToBytes elem)) then ((newLp, Suc removed), True)
                else ((lo_appendVal newLp elem, removed), True)) }) 0 [0..<length vs] (lp_of [], 0) = iter ?f 0 vs (lp_of [], 0)"
    by (rule lp_loop [OF ok]) (use ok assms(2) in \<open>auto split: prod.splits\<close>)
  also have "\<dots> = Some (lp_of (map GStr vs), 0)"
    using removeBy_copy [of 0 "nat cnt" e 0 vs "[]"] assms(2) by simp
  finally show "map_option (lo_vals \<circ> fst) (lo_removeByVal (\<lambda>g. e (bytes_of g)) cnt l) = Some vs"
    using assms(1) lo_vals_lp [of "l\<lparr>lo_listpack := Some (lp_of (map GStr vs))\<rparr>" vs]
    by (auto simp: lo_removeByVal_def lo_lp_def)
next
  obtain ql where ql: "lo_ql q ql vs" using convertToQuicklist_spec [OF assms(1)] assms(3) by auto
  then obtain ql' n where "ql_removeByVal (\<lambda>g. e (bytes_of g)) cnt ql = Some (ql', n)" "ql_inv ql'"
      "ql_flat ql' = map GBytes (filter (\<lambda>v. \<not> e v) vs)"
    using ql_removeByVal_spec [of ql "\<lambda>g. e (bytes_of g)" cnt] assms(2) filter_bytes [of "\<lambda>v. \<not> e v" vs]
    by (auto simp: lo_ql_def budget_def remove_first_all)
  then show "map_option (lo_vals \<circ> fst) (lo_removeByVal (\<lambda>g. e (bytes_of g)) cnt q) = Some (filter (\<lambda>v. \<not> e v) vs)"
    using ql lo_ql_update [OF ql, of ql' "filter (\<lambda>v. \<not> e v) vs"] by (auto simp: lo_removeByVal_def lo_ql_def)
qed

theorem removeByVal_count_depends_on_encoding_witness:
  "\<exists>l q. lo_convertToQuicklist l = Some q \<and>
     map_option (lo_vals \<circ> fst) (lo_removeByVal (\<lambda>g. bytes_of g = ''a'') 0 l) = Some [''a'', ''b''] \<and>
     map_option (lo_vals \<circ> fst) (lo_removeByVal (\<lambda>g. bytes_of g = ''a'') 0 q) = Some [''b'']"
proof -
  let ?l = "\<lparr>lo_listpack = Some (lp_of (map GStr [''a'', ''b''])), lo_quicklist = None, lo_isListpack = True\<rparr>"
  have l: "lo_lp ?l [''a'', ''b'']" by (simp add: lo_lp_def go_str_def)
  then obtain q where "lo_convertToQuicklist ?l = Some q" using convertToQuicklist_spec by blast
  then show ?thesis using removeByVal_count_depends_on_encoding [OF l, of 0 q "\<lambda>v. v = ''a''"] by auto
qed

end
