(* ===== verification/Border.thy ===== *)
theory Border
  imports Prelude "HOL-Library.Char_ord" "HOL-Library.List_Lexorder"
begin

text \<open>
  The borders of sorted-set ranges, \<^verbatim>\<open>internal/datastruct/sortedset/border.go\<close>. A score is a value of
  a linearly ordered type \<open>'s\<close>: \<^verbatim>\<open>float64\<close> without NaN, where both zeros are one value. Members
  are compared byte by byte, as Go compares strings. The zero value \<open>Value\<close> of a border
  that is infinite is 0, or the empty string. Parsing a float is the parameter \<open>parseFloat\<close>,
  \<open>None\<close> for an error.
\<close>

record 's element =
  el_member :: string
  el_score :: 's

record 's scoreBorder =
  sb_inf :: int
  sb_value :: 's
  sb_exclude :: bool

record lexBorder =
  lb_inf :: int
  lb_value :: string
  lb_exclude :: bool

datatype 's border = ScoreB "'s scoreBorder" | LexB lexBorder

definition scoreNegativeInf :: int where "scoreNegativeInf = -1"
definition scorePositiveInf :: int where "scorePositiveInf = 1"
definition lexNegativeInf :: int where "lexNegativeInf = 45"
definition lexPositiveInf :: int where "lexPositiveInf = 43"

definition sb_greater :: "'s::linorder scoreBorder \<Rightarrow> 's element \<Rightarrow> bool" where
  "sb_greater b e =
     (if sb_inf b = scoreNegativeInf then False
      else if sb_inf b = scorePositiveInf then True
      else if sb_exclude b then sb_value b > el_score e else sb_value b \<ge> el_score e)"

definition sb_less :: "'s::linorder scoreBorder \<Rightarrow> 's element \<Rightarrow> bool" where
  "sb_less b e =
     (if sb_inf b = scoreNegativeInf then True
      else if sb_inf b = scorePositiveInf then False
      else if sb_exclude b then sb_value b < el_score e else sb_value b \<le> el_score e)"

definition lb_greater :: "lexBorder \<Rightarrow> 's element \<Rightarrow> bool" where
  "lb_greater b e =
     (if lb_inf b = lexNegativeInf then False
      else if lb_inf b = lexPositiveInf then True
      else if lb_exclude b then lb_value b > el_member e else lb_value b \<ge> el_member e)"

definition lb_less :: "lexBorder \<Rightarrow> 's element \<Rightarrow> bool" where
  "lb_less b e =
     (if lb_inf b = lexNegativeInf then True
      else if lb_inf b = lexPositiveInf then False
      else if lb_exclude b then lb_value b < el_member e else lb_value b \<le> el_member e)"

fun b_greater :: "'s::linorder border \<Rightarrow> 's element \<Rightarrow> bool" where
  "b_greater (ScoreB b) e = sb_greater b e"
| "b_greater (LexB b) e = lb_greater b e"

fun b_less :: "'s::linorder border \<Rightarrow> 's element \<Rightarrow> bool" where
  "b_less (ScoreB b) e = sb_less b e"
| "b_less (LexB b) e = lb_less b e"

text \<open>The type assertion on \<open>max\<close> panics for borders of different kinds.\<close>

fun isIntersected :: "'s::linorder border \<Rightarrow> 's border \<Rightarrow> bool option" where
  "isIntersected (ScoreB b) (ScoreB m) =
     Some (sb_value b > sb_value m \<or> sb_value b = sb_value m \<and> (sb_exclude b \<or> sb_exclude m))"
| "isIntersected (LexB b) (LexB m) =
     Some (lb_inf b = 43 \<or> lb_value b > lb_value m \<or> lb_value b = lb_value m \<and> (lb_exclude b \<or> lb_exclude m))"
| "isIntersected _ _ = None"

definition scorePositiveInfBorder :: "'s::zero scoreBorder" where
  "scorePositiveInfBorder = \<lparr>sb_inf = scorePositiveInf, sb_value = 0, sb_exclude = False\<rparr>"

definition scoreNegativeInfBorder :: "'s::zero scoreBorder" where
  "scoreNegativeInfBorder = \<lparr>sb_inf = scoreNegativeInf, sb_value = 0, sb_exclude = False\<rparr>"

definition lexPositiveInfBorder :: lexBorder where
  "lexPositiveInfBorder = \<lparr>lb_inf = lexPositiveInf, lb_value = [], lb_exclude = False\<rparr>"

definition lexNegativeInfBorder :: lexBorder where
  "lexNegativeInfBorder = \<lparr>lb_inf = lexNegativeInf, lb_value = [], lb_exclude = False\<rparr>"

text \<open>An error is the inner \<open>None\<close>; \<^verbatim>\<open>s[0]\<close> panics on the empty string.\<close>

definition parseScoreBorder :: "(string \<Rightarrow> 's option) \<Rightarrow> string \<Rightarrow> 's::{linorder,zero} border option option" where
  "parseScoreBorder parseFloat s =
     (if s = ''inf'' \<or> s = ''+inf'' then Some (Some (ScoreB scorePositiveInfBorder))
      else if s = ''-inf'' then Some (Some (ScoreB scoreNegativeInfBorder))
      else do { c \<leftarrow> gindex s 0;
                if c = CHR ''('' then
                  Some (map_option (\<lambda>v. ScoreB \<lparr>sb_inf = 0, sb_value = v, sb_exclude = True\<rparr>) (parseFloat (tl s)))
                else
                  Some (map_option (\<lambda>v. ScoreB \<lparr>sb_inf = 0, sb_value = v, sb_exclude = False\<rparr>) (parseFloat s)) })"

definition parseLexBorder :: "string \<Rightarrow> 's::linorder border option option" where
  "parseLexBorder s =
     (if s = ''+'' then Some (Some (LexB lexPositiveInfBorder))
      else if s = ''-'' then Some (Some (LexB lexNegativeInfBorder))
      else do { c \<leftarrow> gindex s 0;
                if c = CHR ''('' then Some (Some (LexB \<lparr>lb_inf = 0, lb_value = tl s, lb_exclude = True\<rparr>))
                else if c = CHR ''['' then Some (Some (LexB \<lparr>lb_inf = 0, lb_value = tl s, lb_exclude = False\<rparr>))
                else Some None })"

end
