(* ===== verification/SkipList.thy ===== *)
theory SkipList
  imports Border
begin

text \<open>
  The skip list of \<^verbatim>\<open>internal/datastruct/sortedset/skiplist.go\<close>, with its pointers. The nodes live in
  a store from addresses to nodes; nil is \<open>None\<close>; dereferencing nil and indexing a level a
  node does not have panics (\<open>None\<close> of the result). The random number that \<^verbatim>\<open>insert\<close> draws is an
  argument. The arrays \<^verbatim>\<open>update\<close> and \<^verbatim>\<open>rank\<close> of a descent are one list of pairs, level 0 first. A
  walk along one level may run forever on a store with a cycle, so it is a partial function;
  the invariant makes every walk end.
\<close>

definition maxLevel :: nat where
  "maxLevel = 16"

record level =
  lv_forward :: "nat option"
  lv_span :: int

record 's slnode =
  sn_elem :: "'s element"
  sn_backward :: "nat option"
  sn_level :: "level list"

type_synonym 's heap = "nat \<rightharpoonup> 's slnode"

record 's skiplist =
  sl_header :: nat
  sl_tail :: "nat option"
  sl_length :: int
  sl_level :: nat
  sl_heap :: "'s heap"
  sl_fresh :: nat

definition makeNode :: "nat \<Rightarrow> 's \<Rightarrow> string \<Rightarrow> 's slnode" where
  "makeNode level score member =
     \<lparr>sn_elem = \<lparr>el_member = member, el_score = score\<rparr>, sn_backward = None,
      sn_level = replicate level \<lparr>lv_forward = None, lv_span = 0\<rparr>\<rparr>"

definition makeSkiplist :: "'s::zero skiplist" where
  "makeSkiplist = \<lparr>sl_header = 0, sl_tail = None, sl_length = 0, sl_level = 1,
     sl_heap = [0 \<mapsto> makeNode maxLevel 0 []], sl_fresh = 1\<rparr>"

text \<open>\<^verbatim>\<open>bits.Len64\<close>, the number of bits of a number.\<close>

fun len64 :: "nat \<Rightarrow> nat" where
  "len64 n = (if n = 0 then 0 else Suc (len64 (n div 2)))"

declare len64.simps [simp del]

definition randomLevel :: "nat \<Rightarrow> nat" where
  "randomLevel r = (let total = 2 ^ maxLevel - 1; k = r mod total in maxLevel - len64 (k + 1) + 1)"

section \<open>The store\<close>

text \<open>Reading a level of a node, and assigning to it.\<close>

definition get_level :: "'s heap \<Rightarrow> nat \<Rightarrow> nat \<Rightarrow> level option" where
  "get_level h a i = do { n \<leftarrow> h a; if i < length (sn_level n) then Some (sn_level n ! i) else None }"

definition set_level :: "'s heap \<Rightarrow> nat \<Rightarrow> nat \<Rightarrow> (level \<Rightarrow> level) \<Rightarrow> 's heap option" where
  "set_level h a i f =
     do { n \<leftarrow> h a;
          if i < length (sn_level n) then Some (h(a \<mapsto> n\<lparr>sn_level := (sn_level n)[i := f (sn_level n ! i)]\<rparr>)) else None }"

definition set_backward :: "'s heap \<Rightarrow> nat \<Rightarrow> nat option \<Rightarrow> 's heap option" where
  "set_backward h a p = do { n \<leftarrow> h a; Some (h(a \<mapsto> n\<lparr>sn_backward := p\<rparr>)) }"

text \<open>A loop over levels whose body may panic.\<close>

fun foldo :: "('a \<Rightarrow> 's \<Rightarrow> 's option) \<Rightarrow> 'a list \<Rightarrow> 's \<Rightarrow> 's option" where
  "foldo f [] s = Some s"
| "foldo f (x # xs) s = do { s' \<leftarrow> f x s; foldo f xs s' }"

section \<open>Descents\<close>

text \<open>
  The inner loop at level \<open>i\<close>: move forward while the condition holds of the next node and of the rank it
  would have. The outer loop runs it from the top level down and records where each level stopped.
\<close>

partial_function (option) advance ::
  "('s element \<Rightarrow> int \<Rightarrow> bool) \<Rightarrow> 's heap \<Rightarrow> nat \<Rightarrow> nat \<Rightarrow> int \<Rightarrow> (nat \<times> int) option" where
  "advance c h i n rank =
     do { l \<leftarrow> get_level h n i;
          (case lv_forward l of
             None \<Rightarrow> Some (n, rank)
           | Some f \<Rightarrow>
               do { fn \<leftarrow> h f;
                    if c (sn_elem fn) (rank + lv_span l) then advance c h i f (rank + lv_span l) else Some (n, rank) }) }"

fun descend :: "('s element \<Rightarrow> int \<Rightarrow> bool) \<Rightarrow> 's heap \<Rightarrow> nat \<Rightarrow> nat \<Rightarrow> int \<Rightarrow> (nat \<times> int) list \<Rightarrow> (nat \<times> int) list option" where
  "descend c h 0 n rank upd = Some upd"
| "descend c h (Suc i) n rank upd =
     do { (n', rank') \<leftarrow> advance c h i n rank; descend c h i n' rank' ((n', rank') # upd) }"

definition el_less :: "'s::linorder \<Rightarrow> string \<Rightarrow> 's element \<Rightarrow> bool" where
  "el_less score member e \<longleftrightarrow> el_score e < score \<or> el_score e = score \<and> el_member e < member"

definition el_le :: "'s::linorder \<Rightarrow> string \<Rightarrow> 's element \<Rightarrow> bool" where
  "el_le score member e \<longleftrightarrow> el_score e < score \<or> el_score e = score \<and> el_member e \<le> member"

section \<open>Insertion and removal\<close>

text \<open>The body of the loop that links the new node \<open>n\<close> at level \<open>i\<close>.\<close>

definition link_level :: "(nat \<times> int) list \<Rightarrow> nat \<Rightarrow> nat \<Rightarrow> 's heap \<Rightarrow> 's heap option" where
  "link_level upd n i h =
     (let (u, rank) = upd ! i; rank0 = snd (upd ! 0) in
      do { l \<leftarrow> get_level h u i;
           h1 \<leftarrow> set_level h n i (\<lambda>_. \<lparr>lv_forward = lv_forward l, lv_span = lv_span l - (rank0 - rank)\<rparr>);
           set_level h1 u i (\<lambda>_. \<lparr>lv_forward = Some n, lv_span = (rank0 - rank) + 1\<rparr>) })"

text \<open>The part of \<^verbatim>\<open>insert\<close> that extends the level, makes the node and links it forward.\<close>

definition insert_heap :: "'s skiplist \<Rightarrow> (nat \<times> int) list \<Rightarrow> nat \<Rightarrow> string \<Rightarrow> 's \<Rightarrow> 's heap option" where
  "insert_heap sl upd level member score =
     do { h0 \<leftarrow> foldo (\<lambda>i h. set_level h (sl_header sl) i (lv_span_update (\<lambda>_. sl_length sl)))
                  [sl_level sl..<level] (sl_heap sl);
          h1 \<leftarrow> foldo (link_level upd (sl_fresh sl)) [0..<level] (h0(sl_fresh sl \<mapsto> makeNode level score member));
          foldo (\<lambda>i h. set_level h (fst (upd ! i)) i (\<lambda>l. l\<lparr>lv_span := lv_span l + 1\<rparr>)) [level..<sl_level sl] h1 }"

definition sl_insert :: "nat \<Rightarrow> 's::linorder skiplist \<Rightarrow> string \<Rightarrow> 's \<Rightarrow> 's skiplist option" where
  "sl_insert r sl member score =
     do { upd0 \<leftarrow> descend (\<lambda>e _. el_less score member e) (sl_heap sl) (sl_level sl) (sl_header sl) 0 [];
          let level = randomLevel r;
          let upd = upd0 @ replicate (level - sl_level sl) (sl_header sl, 0);
          let n = sl_fresh sl;
          h2 \<leftarrow> insert_heap sl upd level member score;
          h3 \<leftarrow> set_backward h2 n (if fst (upd ! 0) = sl_header sl then None else Some (fst (upd ! 0)));
          l0 \<leftarrow> get_level h3 n 0;
          (h4, tail) \<leftarrow> (case lv_forward l0 of
                          Some f \<Rightarrow> do { h4 \<leftarrow> set_backward h3 f (Some n); Some (h4, sl_tail sl) }
                        | None \<Rightarrow> Some (h3, Some n));
          Some \<lparr>sl_header = sl_header sl, sl_tail = tail, sl_length = sl_length sl + 1,
                sl_level = max level (sl_level sl), sl_heap = h4, sl_fresh = Suc n\<rparr> }"

text \<open>The body of the first loop of \<^verbatim>\<open>removeNode\<close>, and the loop that lowers the level of the list.\<close>

definition unlink_level :: "(nat \<times> int) list \<Rightarrow> nat \<Rightarrow> nat \<Rightarrow> 's heap \<Rightarrow> 's heap option" where
  "unlink_level upd n i h =
     (let u = fst (upd ! i) in
      do { l \<leftarrow> get_level h u i;
           if lv_forward l = Some n then
             do { ln \<leftarrow> get_level h n i;
                  set_level h u i (\<lambda>_. \<lparr>lv_forward = lv_forward ln, lv_span = lv_span l + (lv_span ln - 1)\<rparr>) }
           else set_level h u i (\<lambda>_. l\<lparr>lv_span := lv_span l - 1\<rparr>) })"

fun shrink :: "'s heap \<Rightarrow> nat \<Rightarrow> nat \<Rightarrow> nat option" where
  "shrink h hdr 0 = Some 0"
| "shrink h hdr (Suc 0) = Some (Suc 0)"
| "shrink h hdr (Suc (Suc k)) =
     do { l \<leftarrow> get_level h hdr (Suc k); if lv_forward l = None then shrink h hdr (Suc k) else Some (Suc (Suc k)) }"

definition sl_removeNode :: "'s skiplist \<Rightarrow> nat \<Rightarrow> (nat \<times> int) list \<Rightarrow> 's skiplist option" where
  "sl_removeNode sl n upd =
     do { h1 \<leftarrow> foldo (unlink_level upd n) [0..<sl_level sl] (sl_heap sl);
          l0 \<leftarrow> get_level h1 n 0;
          nd \<leftarrow> h1 n;
          (h2, tail) \<leftarrow> (case lv_forward l0 of
                          Some f \<Rightarrow> do { h2 \<leftarrow> set_backward h1 f (sn_backward nd); Some (h2, sl_tail sl) }
                        | None \<Rightarrow> Some (h1, sn_backward nd));
          level \<leftarrow> shrink h2 (sl_header sl) (sl_level sl);
          Some (sl\<lparr>sl_heap := h2, sl_tail := tail, sl_level := level, sl_length := sl_length sl - 1\<rparr>) }"

definition sl_remove :: "'s::linorder skiplist \<Rightarrow> string \<Rightarrow> 's \<Rightarrow> ('s skiplist \<times> bool) option" where
  "sl_remove sl member score =
     do { upd \<leftarrow> descend (\<lambda>e _. el_less score member e) (sl_heap sl) (sl_level sl) (sl_header sl) 0 [];
          l0 \<leftarrow> get_level (sl_heap sl) (fst (upd ! 0)) 0;
          (case lv_forward l0 of
             None \<Rightarrow> Some (sl, False)
           | Some n \<Rightarrow>
               do { nd \<leftarrow> sl_heap sl n;
                    if score = el_score (sn_elem nd) \<and> el_member (sn_elem nd) = member then
                      do { sl' \<leftarrow> sl_removeNode sl n upd; Some (sl', True) }
                    else Some (sl, False) }) }"

section \<open>Ranks\<close>

fun getRank_loop :: "'s::linorder heap \<Rightarrow> string \<Rightarrow> 's \<Rightarrow> nat \<Rightarrow> nat \<Rightarrow> int \<Rightarrow> int option" where
  "getRank_loop h member score 0 x rank = Some 0"
| "getRank_loop h member score (Suc i) x rank =
     do { (x', rank') \<leftarrow> advance (\<lambda>e _. el_le score member e) h i x rank;
          nd \<leftarrow> h x';
          if el_member (sn_elem nd) = member then Some rank' else getRank_loop h member score i x' rank' }"

definition sl_getRank :: "'s::linorder skiplist \<Rightarrow> string \<Rightarrow> 's \<Rightarrow> int option" where
  "sl_getRank sl member score = getRank_loop (sl_heap sl) member score (sl_level sl) (sl_header sl) 0"

fun getByRank_loop :: "'s heap \<Rightarrow> int \<Rightarrow> nat \<Rightarrow> nat \<Rightarrow> int \<Rightarrow> nat option option" where
  "getByRank_loop h rank 0 n i = Some None"
| "getByRank_loop h rank (Suc level) n i =
     do { (n', i') \<leftarrow> advance (\<lambda>e r. r \<le> rank) h level n i;
          if i' = rank then Some (Some n') else getByRank_loop h rank level n' i' }"

definition sl_getByRank :: "'s skiplist \<Rightarrow> int \<Rightarrow> nat option option" where
  "sl_getByRank sl rank = getByRank_loop (sl_heap sl) rank (sl_level sl) (sl_header sl) 0"

section \<open>Ranges\<close>

definition sl_hasInRange :: "'s::linorder skiplist \<Rightarrow> 's border \<Rightarrow> 's border \<Rightarrow> bool option" where
  "sl_hasInRange sl lo hi =
     do { x \<leftarrow> isIntersected lo hi;
          if x then Some False
          else case sl_tail sl of
            None \<Rightarrow> Some False
          | Some t \<Rightarrow>
              do { tn \<leftarrow> sl_heap sl t;
                   if \<not> b_less lo (sn_elem tn) then Some False
                   else do { l0 \<leftarrow> get_level (sl_heap sl) (sl_header sl) 0;
                             (case lv_forward l0 of
                                None \<Rightarrow> Some False
                              | Some f \<Rightarrow> do { fn \<leftarrow> sl_heap sl f; Some (b_greater hi (sn_elem fn)) }) } } }"

definition sl_getFirstInRange :: "'s::linorder skiplist \<Rightarrow> 's border \<Rightarrow> 's border \<Rightarrow> nat option option" where
  "sl_getFirstInRange sl lo hi =
     do { r \<leftarrow> sl_hasInRange sl lo hi;
          if \<not> r then Some None
          else do { upd \<leftarrow> descend (\<lambda>e _. \<not> b_less lo e) (sl_heap sl) (sl_level sl) (sl_header sl) 0 [];
                    l0 \<leftarrow> get_level (sl_heap sl) (fst (upd ! 0)) 0;
                    f \<leftarrow> lv_forward l0;
                    fn \<leftarrow> sl_heap sl f;
                    Some (if \<not> b_greater hi (sn_elem fn) then None else Some f) } }"

definition sl_getLastInRange :: "'s::linorder skiplist \<Rightarrow> 's border \<Rightarrow> 's border \<Rightarrow> nat option option" where
  "sl_getLastInRange sl lo hi =
     do { r \<leftarrow> sl_hasInRange sl lo hi;
          if \<not> r then Some None
          else do { upd \<leftarrow> descend (\<lambda>e _. b_greater hi e) (sl_heap sl) (sl_level sl) (sl_header sl) 0 [];
                    nd \<leftarrow> sl_heap sl (fst (upd ! 0));
                    Some (if \<not> b_less lo (sn_elem nd) then None else Some (fst (upd ! 0))) } }"

partial_function (option) removeRange_loop ::
  "'s::linorder border \<Rightarrow> int \<Rightarrow> (nat \<times> int) list \<Rightarrow> 's skiplist \<Rightarrow> nat option \<Rightarrow> 's element list \<Rightarrow> ('s skiplist \<times> 's element list) option" where
  "removeRange_loop hi limit upd sl p removed =
     (case p of
        None \<Rightarrow> Some (sl, removed)
      | Some n \<Rightarrow>
          do { nd \<leftarrow> sl_heap sl n;
               if \<not> b_greater hi (sn_elem nd) then Some (sl, removed)
               else do { l0 \<leftarrow> get_level (sl_heap sl) n 0;
                         let removed' = removed @ [sn_elem nd];
                         sl' \<leftarrow> sl_removeNode sl n upd;
                         if limit > 0 \<and> int (length removed') = limit then Some (sl', removed')
                         else removeRange_loop hi limit upd sl' (lv_forward l0) removed' } })"

definition sl_removeRange :: "'s::linorder skiplist \<Rightarrow> 's border \<Rightarrow> 's border \<Rightarrow> int \<Rightarrow> ('s skiplist \<times> 's element list) option" where
  "sl_removeRange sl lo hi limit =
     do { upd \<leftarrow> descend (\<lambda>e _. \<not> b_less lo e) (sl_heap sl) (sl_level sl) (sl_header sl) 0 [];
          l0 \<leftarrow> get_level (sl_heap sl) (fst (upd ! 0)) 0;
          removeRange_loop hi limit upd sl (lv_forward l0) [] }"

partial_function (option) removeRank_loop ::
  "int \<Rightarrow> (nat \<times> int) list \<Rightarrow> 's skiplist \<Rightarrow> nat option \<Rightarrow> int \<Rightarrow> 's element list \<Rightarrow> ('s skiplist \<times> 's element list) option" where
  "removeRank_loop stop upd sl p i removed =
     (case p of
        None \<Rightarrow> Some (sl, removed)
      | Some n \<Rightarrow>
          if i < stop then
            do { l0 \<leftarrow> get_level (sl_heap sl) n 0;
                 nd \<leftarrow> sl_heap sl n;
                 sl' \<leftarrow> sl_removeNode sl n upd;
                 removeRank_loop stop upd sl' (lv_forward l0) (i + 1) (removed @ [sn_elem nd]) }
          else Some (sl, removed))"

definition sl_removeRangeByRank :: "'s skiplist \<Rightarrow> int \<Rightarrow> int \<Rightarrow> ('s skiplist \<times> 's element list) option" where
  "sl_removeRangeByRank sl start stop =
     do { upd \<leftarrow> descend (\<lambda>e r. r < start) (sl_heap sl) (sl_level sl) (sl_header sl) 0 [];
          let (u, i) = upd ! 0;
          l0 \<leftarrow> get_level (sl_heap sl) u 0;
          removeRank_loop stop upd sl (lv_forward l0) (i + 1) [] }"

section \<open>Levels and chains\<close>

text \<open>
  All that matters of a store: the map of each level, and of each node its element, its backward
  pointer and its height.
\<close>

definition lev :: "'s heap \<Rightarrow> nat \<Rightarrow> nat \<Rightarrow> level option" where
  "lev h i = (\<lambda>a. get_level h a i)"

definition info :: "'s heap \<Rightarrow> nat \<Rightarrow> ('s element \<times> nat option \<times> nat) option" where
  "info h a = map_option (\<lambda>n. (sn_elem n, sn_backward n, length (sn_level n))) (h a)"

lemma info_lev: "info h a = Some (e, b, k) \<Longrightarrow> i < k \<Longrightarrow> \<exists>l. lev h i a = Some l"
  by (auto simp: info_def lev_def get_level_def)

lemma info_node: "info h a = Some (e, b, k) \<Longrightarrow> \<exists>nd. h a = Some nd \<and> sn_elem nd = e \<and> sn_backward nd = b"
  by (auto simp: info_def)

lemma set_level_lev:
  assumes "lev h i a = Some l"
  shows "\<exists>h'. set_level h a i f = Some h' \<and> lev h' = (lev h)(i := (lev h i)(a \<mapsto> f l)) \<and> info h' = info h"
proof -
  obtain n where n: "h a = Some n" "i < length (sn_level n)" "sn_level n ! i = l"
    using assms by (auto simp: lev_def get_level_def bind_eq_Some_conv split: if_splits)
  let ?h = "h(a \<mapsto> n\<lparr>sn_level := (sn_level n)[i := f (sn_level n ! i)]\<rparr>)"
  have "set_level h a i f = Some ?h" using n by (simp add: set_level_def)
  moreover have "lev ?h = (lev h)(i := (lev h i)(a \<mapsto> f l))"
    using n by (auto simp: fun_eq_iff lev_def get_level_def)
  moreover have "info ?h = info h" using n by (auto simp: fun_eq_iff info_def)
  ultimately show ?thesis by blast
qed

lemma set_backward_info:
  assumes "info h a = Some (e, b, k)"
  shows "\<exists>h'. set_backward h a p = Some h' \<and> lev h' = lev h \<and> info h' = (info h)(a \<mapsto> (e, p, k))"
proof -
  obtain n where n: "h a = Some n" "sn_elem n = e" "length (sn_level n) = k" using assms by (auto simp: info_def)
  let ?h = "h(a \<mapsto> n\<lparr>sn_backward := p\<rparr>)"
  have "set_backward h a p = Some ?h" using n by (simp add: set_backward_def)
  moreover have "lev ?h = lev h" using n by (auto simp: fun_eq_iff lev_def get_level_def)
  moreover have "info ?h = (info h)(a \<mapsto> (e, p, k))" using n by (auto simp: fun_eq_iff info_def)
  ultimately show ?thesis by blast
qed

text \<open>A loop over levels whose body changes only its own level.\<close>

lemma foldo_levels:
  assumes "\<And>i h. i \<in> set is \<Longrightarrow> lev h i = L i \<Longrightarrow> info h = I \<Longrightarrow>
      \<exists>h'. f i h = Some h' \<and> lev h' = (lev h)(i := M i) \<and> info h' = I"
    and "distinct is" "info h = I" "\<And>i. i \<in> set is \<Longrightarrow> lev h i = L i"
  shows "\<exists>h'. foldo f is h = Some h' \<and> info h' = I \<and> lev h' = (\<lambda>i. if i \<in> set is then M i else lev h i)"
  using assms
proof (induction "is" arbitrary: h)
  case (Cons i js)
  obtain h1 where h1: "f i h = Some h1" "lev h1 = (lev h)(i := M i)" "info h1 = I"
    using Cons.prems(1) [of i h] Cons.prems(3,4) by (metis list.set_intros(1))
  have "\<exists>h'. foldo f js h1 = Some h' \<and> info h' = I \<and> lev h' = (\<lambda>i. if i \<in> set js then M i else lev h1 i)"
    using Cons.prems(1,2,4) h1(2,3) by (intro Cons.IH) auto
  then show ?case using h1 Cons.prems(2) by (auto simp: fun_eq_iff)
qed simp

text \<open>
  A chain of one level: addresses with their positions, then the pointer \<open>np\<close> behind it and the
  position \<open>ne\<close> that its last span reaches.
\<close>

fun nxt :: "(nat \<times> nat) list \<Rightarrow> nat option \<Rightarrow> nat option" where
  "nxt [] np = np"
| "nxt ((b, _) # _) np = Some b"

fun nxp :: "(nat \<times> nat) list \<Rightarrow> nat \<Rightarrow> nat" where
  "nxp [] ne = ne"
| "nxp ((_, q) # _) ne = q"

fun lseg :: "(nat \<rightharpoonup> level) \<Rightarrow> (nat \<times> nat) list \<Rightarrow> nat option \<Rightarrow> nat \<Rightarrow> bool" where
  "lseg m [] np ne \<longleftrightarrow> True"
| "lseg m ((a, p) # r) np ne \<longleftrightarrow>
     m a = Some \<lparr>lv_forward = nxt r np, lv_span = int (nxp r ne) - int p\<rparr> \<and> lseg m r np ne"

definition shift :: "(nat \<times> nat) list \<Rightarrow> (nat \<times> nat) list" where
  "shift = map (\<lambda>(a, p). (a, Suc p))"

lemma nxt_append [simp]: "nxt (xs @ ys) np = nxt xs (nxt ys np)"
  by (cases xs rule: list.exhaust) auto

lemma nxp_append [simp]: "nxp (xs @ ys) ne = nxp xs (nxp ys ne)"
  by (cases xs rule: list.exhaust) auto

lemma lseg_append [simp]: "lseg m (xs @ ys) np ne \<longleftrightarrow> lseg m xs (nxt ys np) (nxp ys ne) \<and> lseg m ys np ne"
proof (induction xs)
  case (Cons x xs)
  then show ?case by (cases x) simp
qed simp

lemma lseg_frame [simp]: "a \<notin> fst ` set xs \<Longrightarrow> lseg (m(a := l)) xs np ne \<longleftrightarrow> lseg m xs np ne"
  by (induction xs) auto

lemma shift_simps [simp]:
  "shift [] = []" "shift ((a, p) # r) = (a, Suc p) # shift r" "fst ` set (shift r) = fst ` set r"
  "nxt (shift r) np = nxt r np" "nxp (shift r) (Suc ne) = Suc (nxp r ne)" "map fst (shift r) = map fst r"
  by (auto simp: shift_def image_iff split_beta) (cases r; auto)+

lemma lseg_shift [simp]: "lseg m (shift r) np (Suc ne) \<longleftrightarrow> lseg m r np ne"
proof (induction r)
  case (Cons x r)
  then show ?case by (cases x) simp
qed simp

text \<open>The four changes of a chain: a node linked or unlinked, and a position passed over.\<close>

lemma lseg_link:
  assumes "lseg m (A @ (u, p) # B) None ne" "distinct (map fst (A @ (u, p) # B))" "n \<notin> fst ` set (A @ (u, p) # B)" "m u = Some l"
  shows "lseg (m(n \<mapsto> \<lparr>lv_forward = lv_forward l, lv_span = lv_span l - (int k - int p)\<rparr>,
      u \<mapsto> \<lparr>lv_forward = Some n, lv_span = (int k - int p) + 1\<rparr>)) (A @ (u, p) # (n, Suc k) # shift B) None (Suc ne)"
  using assms by (auto simp: image_Un)

lemma lseg_bump:
  assumes "lseg m (A @ (u, p) # B) None ne" "distinct (map fst (A @ (u, p) # B))" "m u = Some l"
  shows "lseg (m(u \<mapsto> l\<lparr>lv_span := lv_span l + 1\<rparr>)) (A @ (u, p) # shift B) None (Suc ne)"
  using assms by (auto simp: image_Un)

lemma lseg_unlink:
  assumes "lseg m (A @ (u, p) # (n, Suc k) # shift B) None (Suc ne)" "distinct (map fst (A @ (u, p) # (n, Suc k) # B))"
    "m u = Some l" "m n = Some ln"
  shows "lseg (m(u \<mapsto> \<lparr>lv_forward = lv_forward ln, lv_span = lv_span l + (lv_span ln - 1)\<rparr>)) (A @ (u, p) # B) None ne"
  using assms by (auto simp: image_Un)

lemma lseg_drop:
  assumes "lseg m (A @ (u, p) # shift B) None (Suc ne)" "distinct (map fst (A @ (u, p) # B))" "m u = Some l"
  shows "lseg (m(u \<mapsto> l\<lparr>lv_span := lv_span l - 1\<rparr>)) (A @ (u, p) # B) None ne"
  using assms by (auto simp: image_Un)

section \<open>The invariant\<close>

text \<open>
  A skip list holds towers: the address, the element and the height of each node, in order. The
  towers that reach level \<open>i\<close>, with their positions from \<open>k\<close> on, are the chain of that level.
\<close>

type_synonym 's tower = "nat \<times> 's element \<times> nat"

abbreviation tw_el :: "'s tower \<Rightarrow> 's element" where "tw_el x \<equiv> fst (snd x)"
abbreviation tw_ht :: "'s tower \<Rightarrow> nat" where "tw_ht x \<equiv> snd (snd x)"

fun lv :: "nat \<Rightarrow> nat \<Rightarrow> 's tower list \<Rightarrow> (nat \<times> nat) list" where
  "lv i k [] = []"
| "lv i k (x # xs) = (if i < tw_ht x then [(fst x, k)] else []) @ lv i (Suc k) xs"

fun backs :: "(nat \<Rightarrow> ('s element \<times> nat option \<times> nat) option) \<Rightarrow> nat option \<Rightarrow> 's tower list \<Rightarrow> bool" where
  "backs I pr [] \<longleftrightarrow> True"
| "backs I pr (x # xs) \<longleftrightarrow> I (fst x) = Some (tw_el x, pr, tw_ht x) \<and> backs I (Some (fst x)) xs"

definition lastp :: "'s tower list \<Rightarrow> nat option \<Rightarrow> nat option" where
  "lastp xs pr = (if xs = [] then pr else Some (fst (last xs)))"

definition headp :: "'s tower list \<Rightarrow> nat option" where
  "headp xs = (case xs of [] \<Rightarrow> None | x # _ \<Rightarrow> Some (fst x))"

definition towers :: "'s skiplist \<Rightarrow> 's tower list \<Rightarrow> bool" where
  "towers sl xs \<longleftrightarrow>
     distinct (sl_header sl # map fst xs) \<and> (\<forall>a \<in> set (sl_header sl # map fst xs). a < sl_fresh sl) \<and>
     (\<exists>e. info (sl_heap sl) (sl_header sl) = Some (e, None, maxLevel) \<and> el_member e = []) \<and>
     backs (info (sl_heap sl)) None xs \<and>
     (\<forall>x \<in> set xs. 1 \<le> tw_ht x \<and> tw_ht x \<le> sl_level sl) \<and> 1 \<le> sl_level sl \<and> sl_level sl \<le> maxLevel \<and>
     (\<forall>i < sl_level sl. lseg (lev (sl_heap sl) i) ((sl_header sl, 0) # lv i 1 xs) None (length xs)) \<and>
     (\<forall>i. sl_level sl \<le> i \<and> i < maxLevel \<longrightarrow> (\<exists>s. lev (sl_heap sl) i (sl_header sl) = Some \<lparr>lv_forward = None, lv_span = s\<rparr>)) \<and>
     sl_tail sl = lastp xs None \<and> sl_length sl = int (length xs)"

lemma lv_append [simp]: "lv i k (xs @ ys) = lv i k xs @ lv i (k + length xs) ys"
  by (induction xs arbitrary: k) auto

lemma lv_Suc: "lv i (Suc k) xs = shift (lv i k xs)"
  by (induction xs arbitrary: k) (auto simp: shift_def)

lemma lv_fst: "fst ` set (lv i k xs) \<subseteq> fst ` set xs"
  by (induction xs arbitrary: k) auto

lemma lv_distinct: "distinct (map fst xs) \<Longrightarrow> distinct (map fst (lv i k xs))"
proof (induction xs arbitrary: k)
  case (Cons x xs)
  then show ?case using lv_fst [of i "Suc k" xs] by auto
qed simp

lemma lv_high: "\<forall>x \<in> set xs. tw_ht x \<le> i \<Longrightarrow> lv i k xs = []"
  by (induction xs arbitrary: k) auto

lemma lv_mono: "set (lv (Suc i) k xs) \<subseteq> set (lv i k xs)"
  by (induction xs arbitrary: k) auto

lemma lv_mem: "(a, q) \<in> set (lv i k xs) \<Longrightarrow> \<exists>j < length xs. q = k + j \<and> a = fst (xs ! j) \<and> i < tw_ht (xs ! j)"
proof (induction xs arbitrary: k)
  case (Cons x xs)
  then consider "i < tw_ht x" "a = fst x" "q = k" | "(a, q) \<in> set (lv i (Suc k) xs)" by (auto split: if_splits)
  then show ?case
  proof cases
    case 2
    then obtain j where "j < length xs" "q = Suc k + j" "a = fst (xs ! j)" "i < tw_ht (xs ! j)" using Cons.IH by blast
    then show ?thesis by (intro exI [of _ "Suc j"]) auto
  qed (intro exI [of _ 0], auto)
qed simp

lemma lv_0: "\<forall>x \<in> set xs. 1 \<le> tw_ht x \<Longrightarrow> nxt (lv 0 k xs) np = (if xs = [] then np else headp xs)"
  by (cases xs) (auto simp: headp_def)

lemma lv_0_last: "\<forall>x \<in> set xs. 1 \<le> tw_ht x \<Longrightarrow>
   last ((a, p) # lv 0 (Suc p) xs) = (if xs = [] then (a, p) else (fst (last xs), p + length xs))"
  by (induction xs arbitrary: a p) auto

lemma backs_append [simp]: "backs I pr (xs @ ys) \<longleftrightarrow> backs I pr xs \<and> backs I (lastp xs pr) ys"
  by (induction xs arbitrary: pr) (auto simp: lastp_def)

lemma backs_frame [simp]: "a \<notin> fst ` set xs \<Longrightarrow> backs (I(a \<mapsto> v)) pr xs \<longleftrightarrow> backs I pr xs"
  by (induction xs arbitrary: pr) auto

lemma backs_nth: "backs I pr xs \<Longrightarrow> j < length xs \<Longrightarrow> \<exists>b. I (fst (xs ! j)) = Some (tw_el (xs ! j), b, tw_ht (xs ! j))"
  by (induction xs arbitrary: pr j) (auto simp: less_Suc_eq_0_disj)

lemma towersD:
  assumes "towers sl xs"
  shows "distinct (sl_header sl # map fst xs)" "\<forall>a \<in> set (sl_header sl # map fst xs). a < sl_fresh sl"
    "\<exists>e. info (sl_heap sl) (sl_header sl) = Some (e, None, maxLevel) \<and> el_member e = []"
    "backs (info (sl_heap sl)) None xs" "\<forall>x \<in> set xs. 1 \<le> tw_ht x \<and> tw_ht x \<le> sl_level sl"
    "1 \<le> sl_level sl" "sl_level sl \<le> maxLevel" "sl_tail sl = lastp xs None" "sl_length sl = int (length xs)"
  by (insert assms [unfolded towers_def]) (elim conjE, assumption)+

lemma towers_make: "towers makeSkiplist []"
  by (auto simp: towers_def makeSkiplist_def info_def makeNode_def maxLevel_def lastp_def lev_def get_level_def)

section \<open>Searching\<close>

text \<open>
  A condition that holds of the first towers \<open>xs\<close> and their ranks and of none of the others: every
  descent ends, at each level, at the last of \<open>xs\<close> that reaches the level.
\<close>

definition cut :: "('s element \<Rightarrow> int \<Rightarrow> bool) \<Rightarrow> 's tower list \<Rightarrow> 's tower list \<Rightarrow> bool" where
  "cut c xs ys \<longleftrightarrow> (\<forall>j < length xs. c (tw_el (xs ! j)) (int (Suc j))) \<and>
     (\<forall>j < length ys. \<not> c (tw_el (ys ! j)) (int (Suc (length xs + j))))"

definition stop_at :: "'s skiplist \<Rightarrow> 's tower list \<Rightarrow> nat \<Rightarrow> nat \<times> nat" where
  "stop_at sl xs i = last ((sl_header sl, 0) # lv i 1 xs)"

lemma advance_spec:
  assumes "lseg (lev h i) ((a, p) # A @ B) None ne"
    and "\<And>b q. (b, q) \<in> set A \<Longrightarrow> \<exists>e bk k. info h b = Some (e, bk, k) \<and> c e (int q)"
    and "\<And>b q. (b, q) \<in> set B \<Longrightarrow> \<exists>e bk k. info h b = Some (e, bk, k) \<and> \<not> c e (int q)"
  shows "advance c h i a (int p) = Some (fst (last ((a, p) # A)), int (snd (last ((a, p) # A))))"
  using assms
proof (induction A arbitrary: a p)
  case Nil
  then have l: "get_level h a i = Some \<lparr>lv_forward = nxt B None, lv_span = int (nxp B ne) - int p\<rparr>" by (simp add: lev_def)
  show ?case
  proof (cases B)
    case Nil
    then show ?thesis using l by (subst advance.simps) simp
  next
    case (Cons x B')
    obtain b q where "x = (b, q)" by (cases x)
    moreover obtain e bk k where "info h b = Some (e, bk, k)" "\<not> c e (int q)"
      using Nil.prems(3) [of b q] Cons \<open>x = (b, q)\<close> by auto
    ultimately show ?thesis using l Cons info_node [of h b] by (subst advance.simps) auto
  qed
next
  case (Cons x A)
  obtain b q where x: "x = (b, q)" by (cases x)
  have l: "get_level h a i = Some \<lparr>lv_forward = Some b, lv_span = int q - int p\<rparr>" using Cons.prems(1) x by (simp add: lev_def)
  obtain e bk k where e: "info h b = Some (e, bk, k)" "c e (int q)" using Cons.prems(2) [of b q] x by auto
  have "advance c h i b (int q) = Some (fst (last ((b, q) # A)), int (snd (last ((b, q) # A))))"
    using Cons.prems x by (intro Cons.IH) auto
  then show ?case using l e x info_node [OF e(1)] by (subst advance.simps) auto
qed

lemma towers_mem:
  assumes "towers sl xs" "(a, q) \<in> set (lv i 1 xs)"
  shows "\<exists>e bk k. info (sl_heap sl) a = Some (e, bk, k) \<and> (\<exists>j < length xs. q = Suc j \<and> e = tw_el (xs ! j))"
proof -
  obtain j where "j < length xs" "q = 1 + j" "a = fst (xs ! j)" using lv_mem [OF assms(2)] by blast
  then show ?thesis using backs_nth [of "info (sl_heap sl)" None xs j] assms(1) by (auto simp: towers_def)
qed

lemma advance_towers:
  assumes "towers sl (xs @ ys)" "cut c xs ys" "i < sl_level sl" "(a, p) \<in> set ((sl_header sl, 0) # lv i 1 xs)"
  shows "advance c (sl_heap sl) i a (int p) = Some (fst (stop_at sl xs i), int (snd (stop_at sl xs i)))"
proof -
  let ?A = "(sl_header sl, 0) # lv i 1 xs" and ?B = "lv i (Suc (length xs)) ys"
  obtain A1 A2 where A: "?A = A1 @ (a, p) # A2" using assms(4) split_list by fast
  have "lseg (lev (sl_heap sl) i) (?A @ ?B) None (length (xs @ ys))" using assms(1,3) by (simp add: towers_def)
  then have "lseg (lev (sl_heap sl) i) ((a, p) # A2 @ ?B) None (length (xs @ ys))" unfolding A by simp
  moreover have "\<exists>e bk k. info (sl_heap sl) b = Some (e, bk, k) \<and> c e (int q)" if "(b, q) \<in> set A2" for b q
  proof -
    have "(b, q) \<in> set (lv i 1 xs)" using A that by (cases A1) auto
    then obtain j where j: "j < length xs" "q = Suc j" "b = fst (xs ! j)" using lv_mem by fastforce
    obtain bk k where "info (sl_heap sl) b = Some (tw_el ((xs @ ys) ! j), bk, k)"
      using backs_nth [of "info (sl_heap sl)" None "xs @ ys" j] assms(1) j by (auto simp: towers_def nth_append)
    then show ?thesis using assms(2) j by (auto simp: cut_def nth_append)
  qed
  moreover have "\<exists>e bk k. info (sl_heap sl) b = Some (e, bk, k) \<and> \<not> c e (int q)" if mem: "(b, q) \<in> set ?B" for b q
  proof -
    obtain j where j: "j < length ys" "q = Suc (length xs) + j" "b = fst (ys ! j)" using lv_mem [OF mem] by blast
    obtain bk k where "info (sl_heap sl) b = Some (tw_el (ys ! j), bk, k)"
      using backs_nth [of "info (sl_heap sl)" None "xs @ ys" "length xs + j"] assms(1) j by (auto simp: towers_def nth_append)
    then show ?thesis using assms(2) j by (auto simp: cut_def)
  qed
  ultimately have "advance c (sl_heap sl) i a (int p) = Some (fst (last ((a, p) # A2)), int (snd (last ((a, p) # A2))))"
    by (rule advance_spec)
  moreover have "last ((a, p) # A2) = stop_at sl xs i" unfolding stop_at_def A by simp
  ultimately show ?thesis by simp
qed

lemma stop_at_mem: "stop_at sl xs i \<in> set ((sl_header sl, 0) # lv i 1 xs)"
  unfolding stop_at_def by (rule last_in_set) simp

lemma descend_towers:
  assumes "towers sl (xs @ ys)" "cut c xs ys" "k \<le> sl_level sl"
    "(a, p) = (sl_header sl, 0) \<or> (a, p) = stop_at sl xs k"
  shows "descend c (sl_heap sl) k a (int p) upd =
    Some (map (\<lambda>i. (fst (stop_at sl xs i), int (snd (stop_at sl xs i)))) [0..<k] @ upd)"
  using assms(3,4)
proof (induction k arbitrary: a p upd)
  case (Suc k)
  have "(a, p) \<in> set ((sl_header sl, 0) # lv k 1 xs)"
    using Suc.prems(2) stop_at_mem [of sl xs "Suc k"] lv_mono [of k 1 xs] by auto
  then have "advance c (sl_heap sl) k a (int p) = Some (fst (stop_at sl xs k), int (snd (stop_at sl xs k)))"
    using advance_towers [OF assms(1,2)] Suc.prems(1) by simp
  then show ?case using Suc.IH [of "fst (stop_at sl xs k)" "snd (stop_at sl xs k)"] Suc.prems(1) by simp
qed simp

text \<open>The array that a descent from the header leaves, extended by the header at the levels above.\<close>

definition stops :: "'s skiplist \<Rightarrow> 's tower list \<Rightarrow> nat \<Rightarrow> (nat \<times> int) list" where
  "stops sl xs k = map (\<lambda>i. (fst (stop_at sl xs i), int (snd (stop_at sl xs i)))) [0..<k]"

lemma descend_stops:
  assumes "towers sl (xs @ ys)" "cut c xs ys"
  shows "descend c (sl_heap sl) (sl_level sl) (sl_header sl) 0 [] = Some (stops sl xs (sl_level sl))"
  using descend_towers [OF assms order_refl, of "sl_header sl" 0 "[]"] by (simp add: stops_def)

lemma stops_nth [simp]: "i < k \<Longrightarrow> stops sl xs k ! i = (fst (stop_at sl xs i), int (snd (stop_at sl xs i)))"
  by (simp add: stops_def)

lemma stop_at_high: "\<forall>x \<in> set xs. tw_ht x \<le> i \<Longrightarrow> stop_at sl xs i = (sl_header sl, 0)"
  by (simp add: stop_at_def lv_high)

lemma stops_extend:
  assumes "\<forall>x \<in> set xs. tw_ht x \<le> k"
  shows "stops sl xs k @ replicate (n - k) (sl_header sl, 0) = stops sl xs (max n k)"
proof (rule nth_equalityI)
  fix i assume i: "i < length (stops sl xs k @ replicate (n - k) (sl_header sl, 0))"
  show "(stops sl xs k @ replicate (n - k) (sl_header sl, 0)) ! i = stops sl xs (max n k) ! i"
  proof (cases "i < k")
    case False
    then have "\<forall>x \<in> set xs. tw_ht x \<le> i" "i < n" using assms i by (auto simp: stops_def)
    then show ?thesis using False i stop_at_high [of xs i sl] by (simp add: stops_def nth_append)
  qed (use i in \<open>simp add: stops_def nth_append\<close>)
qed (simp add: stops_def)

lemma stop_at_0:
  "\<forall>x \<in> set xs. 1 \<le> tw_ht x \<Longrightarrow> stop_at sl xs 0 = (if xs = [] then sl_header sl else fst (last xs), length xs)"
  using lv_0_last [of xs "sl_header sl" 0] by (auto simp: stop_at_def)

lemma stop_at_split: "\<exists>A. (sl_header sl, 0) # lv i 1 xs = A @ [stop_at sl xs i]"
  unfolding stop_at_def by (metis append_butlast_last_id list.distinct(1))

section \<open>Insertion\<close>

lemma len64_le: "n < 2 ^ k \<Longrightarrow> len64 n \<le> k"
proof (induction k arbitrary: n)
  case (Suc k)
  then show ?case by (cases "n = 0") (simp_all add: len64.simps [of 0] len64.simps [of n])
qed (simp add: len64.simps)

lemma len64_pos: "0 < n \<Longrightarrow> 1 \<le> len64 n"
  by (simp add: len64.simps [of n])

lemma randomLevel_bounds: "1 \<le> randomLevel r \<and> randomLevel r \<le> maxLevel"
proof -
  have "r mod 65535 < 65535" by simp
  then have "r mod 65535 + 1 < 2 ^ 16" by simp
  then have "len64 (r mod 65535 + 1) \<le> 16" "1 \<le> len64 (r mod 65535 + 1)" using len64_le len64_pos by auto
  then show ?thesis by (auto simp: randomLevel_def maxLevel_def)
qed

definition linked :: "'s heap \<Rightarrow> nat \<Rightarrow> nat \<Rightarrow> 's tower list \<Rightarrow> bool" where
  "linked h hdr k xs \<longleftrightarrow> (\<forall>i < k. lseg (lev h i) ((hdr, 0) # lv i 1 xs) None (length xs)) \<and>
     (\<forall>i. k \<le> i \<and> i < maxLevel \<longrightarrow> (\<exists>s. lev h i hdr = Some \<lparr>lv_forward = None, lv_span = s\<rparr>))"

lemma towers_linked: "towers sl xs \<Longrightarrow> linked (sl_heap sl) (sl_header sl) (sl_level sl) xs"
  by (simp add: towers_def linked_def)

lemma extend_levels:
  assumes "towers sl xs" "level \<le> maxLevel"
  shows "\<exists>h. foldo (\<lambda>i h. set_level h (sl_header sl) i (lv_span_update (\<lambda>_. sl_length sl))) [sl_level sl..<level] (sl_heap sl) = Some h \<and>
    info h = info (sl_heap sl) \<and> linked h (sl_header sl) (max level (sl_level sl)) xs"
proof -
  let ?H = "sl_header sl" and ?h = "sl_heap sl" and ?is = "[sl_level sl..<level]"
  let ?M = "\<lambda>i. (lev ?h i)(?H \<mapsto> \<lparr>lv_forward = None, lv_span = int (length xs)\<rparr>)"
  have hi: "\<exists>s. lev ?h i ?H = Some \<lparr>lv_forward = None, lv_span = s\<rparr>" if "sl_level sl \<le> i" "i < maxLevel" for i
    using that assms(1) by (auto simp: towers_def)
  have "\<exists>h. foldo (\<lambda>i h. set_level h ?H i (lv_span_update (\<lambda>_. sl_length sl))) ?is ?h = Some h \<and>
      info h = info ?h \<and> lev h = (\<lambda>i. if i \<in> set ?is then ?M i else lev ?h i)"
  proof (rule foldo_levels [where L = "lev ?h" and I = "info ?h"])
    fix i h assume i: "i \<in> set ?is" and h: "lev h i = lev ?h i" "info h = info ?h"
    then obtain s where "lev h i ?H = Some \<lparr>lv_forward = None, lv_span = s\<rparr>" using hi [of i] assms(2) by auto
    from set_level_lev [OF this, of "lv_span_update (\<lambda>_. sl_length sl)"]
    show "\<exists>h'. set_level h ?H i (lv_span_update (\<lambda>_. sl_length sl)) = Some h' \<and> lev h' = (lev h)(i := ?M i) \<and> info h' = info ?h"
      using assms(1) h by (simp add: towers_def)
  qed simp_all
  then obtain h where h: "foldo (\<lambda>i h. set_level h ?H i (lv_span_update (\<lambda>_. sl_length sl))) ?is ?h = Some h"
      "info h = info ?h" "lev h = (\<lambda>i. if i \<in> set ?is then ?M i else lev ?h i)" by blast
  have "lv i 1 xs = []" if "sl_level sl \<le> i" for i
    using that assms(1) by (intro lv_high) (auto simp: towers_def)
  then have "linked h ?H (max level (sl_level sl)) xs"
    using assms(1) hi unfolding linked_def h(3) by (auto simp: towers_def max_def)
  then show ?thesis using h(1,2) by blast
qed

lemma stop_parts:
  assumes "towers sl (xs @ ys)"
  obtains A where "\<And>zs. (sl_header sl, 0) # lv i 1 (xs @ zs) = A @ stop_at sl xs i # lv i (Suc (length xs)) zs"
    "distinct (map fst (A @ stop_at sl xs i # lv i (Suc (length xs)) ys))"
    "fst ` set (A @ stop_at sl xs i # lv i (Suc (length xs)) ys) \<subseteq> insert (sl_header sl) (fst ` set (xs @ ys))"
proof -
  obtain A where A: "(sl_header sl, 0) # lv i 1 xs = A @ [stop_at sl xs i]" using stop_at_split by blast
  have eq: "(sl_header sl, 0) # lv i 1 (xs @ zs) = A @ stop_at sl xs i # lv i (Suc (length xs)) zs" for zs
    using A by simp
  have "distinct (map fst ((sl_header sl, 0) # lv i 1 (xs @ ys)))"
    using assms lv_fst [of i 1 "xs @ ys"] lv_distinct [of "xs @ ys" i 1] by (auto simp: towers_def)
  moreover have "fst ` set ((sl_header sl, 0) # lv i 1 (xs @ ys)) \<subseteq> insert (sl_header sl) (fst ` set (xs @ ys))"
    using lv_fst [of i 1 "xs @ ys"] by auto
  ultimately show thesis using that eq by metis
qed

text \<open>What the linking and the passing loops leave at each level.\<close>

lemma link_level_lev:
  assumes "lev h i u = Some l" "i < k" "upd ! i = (u, int p)" "upd ! 0 = (u0, int m)" "lev h i n = Some ln" "n \<noteq> u"
  shows "\<exists>h'. link_level upd n i h = Some h' \<and> info h' = info h \<and>
    lev h' = (lev h)(i := (lev h i)(n \<mapsto> \<lparr>lv_forward = lv_forward l, lv_span = lv_span l - (int m - int p)\<rparr>,
      u \<mapsto> \<lparr>lv_forward = Some n, lv_span = (int m - int p) + 1\<rparr>))"
proof -
  let ?f = "\<lambda>_. \<lparr>lv_forward = lv_forward l, lv_span = lv_span l - (int m - int p)\<rparr>"
  obtain h1 where h1: "set_level h n i ?f = Some h1" "lev h1 = (lev h)(i := (lev h i)(n \<mapsto> ?f ln))" "info h1 = info h"
    using set_level_lev [OF assms(5)] by blast
  have "lev h1 i u = Some l" using h1(2) assms(1,6) by simp
  from set_level_lev [OF this, of "\<lambda>_. \<lparr>lv_forward = Some n, lv_span = (int m - int p) + 1\<rparr>"]
  show ?thesis using h1 assms(1,3,4) by (auto simp: link_level_def lev_def [of h] Let_def)
qed

lemma level_chain:
  assumes "towers sl (xs @ ys)" "linked h (sl_header sl) k (xs @ ys)" "i < k"
  obtains A where "\<And>zs. (sl_header sl, 0) # lv i 1 (xs @ zs) = A @ stop_at sl xs i # lv i (Suc (length xs)) zs"
    "distinct (map fst (A @ stop_at sl xs i # lv i (Suc (length xs)) ys))"
    "fst ` set (A @ stop_at sl xs i # lv i (Suc (length xs)) ys) \<subseteq> insert (sl_header sl) (fst ` set (xs @ ys))"
    "lseg (lev h i) (A @ stop_at sl xs i # lv i (Suc (length xs)) ys) None (length (xs @ ys))"
proof -
  obtain A where A: "\<And>zs. (sl_header sl, 0) # lv i 1 (xs @ zs) = A @ stop_at sl xs i # lv i (Suc (length xs)) zs"
      "distinct (map fst (A @ stop_at sl xs i # lv i (Suc (length xs)) ys))"
      "fst ` set (A @ stop_at sl xs i # lv i (Suc (length xs)) ys) \<subseteq> insert (sl_header sl) (fst ` set (xs @ ys))"
    using stop_parts [OF assms(1)] by blast
  have "lseg (lev h i) (A @ stop_at sl xs i # lv i (Suc (length xs)) ys) None (length (xs @ ys))"
    using assms(2,3) unfolding linked_def A(1) [symmetric] by blast
  then show thesis using that A by blast
qed

lemma insert_heap_towers:
  fixes member :: string and score :: "'s"
  assumes "towers sl (xs @ ys)" "1 \<le> level" "level \<le> maxLevel" "el = \<lparr>el_member = member, el_score = score\<rparr>"
  shows "\<exists>h. insert_heap sl (stops sl xs (max level (sl_level sl))) level member score = Some h \<and>
    info h = (info (sl_heap sl))(sl_fresh sl \<mapsto> (el, None, level)) \<and>
    linked h (sl_header sl) (max level (sl_level sl)) (xs @ (sl_fresh sl, el, level) # ys)"
proof -
  let ?n = "sl_fresh sl" and ?m = "length xs" and ?K = "max level (sl_level sl)" and ?H = "sl_header sl"
  let ?upd = "stops sl xs ?K" and ?nd = "makeNode level score member"
  let ?u = "\<lambda>i. fst (stop_at sl xs i)" and ?p = "\<lambda>i. snd (stop_at sl xs i)"
  obtain h0 where h0: "foldo (\<lambda>i h. set_level h ?H i (lv_span_update (\<lambda>_. sl_length sl))) [sl_level sl..<level] (sl_heap sl) = Some h0"
      "info h0 = info (sl_heap sl)" "linked h0 ?H ?K (xs @ ys)" using extend_levels [OF assms(1,3)] by blast
  have nf: "?n \<notin> insert ?H (fst ` set (xs @ ys))" using assms(1) by (auto simp: towers_def)
  then have hn: "?H \<noteq> ?n" by auto
  define h where "h = h0(?n \<mapsto> ?nd)"
  have ln: "lev h i = (lev h0 i)(?n := if i < level then Some \<lparr>lv_forward = None, lv_span = 0\<rparr> else None)" for i
    by (auto simp: h_def fun_eq_iff lev_def get_level_def makeNode_def)
  have inf: "info h = (info (sl_heap sl))(?n \<mapsto> (el, None, level))"
    unfolding h0(2) [symmetric] by (auto simp: h_def fun_eq_iff info_def makeNode_def assms(4))
  have "?n \<notin> fst ` set ((?H, 0) # lv i 1 (xs @ ys))" for i
    using nf lv_fst [of i 1 "xs @ ys"] by (auto simp del: lv_append)
  then have lk: "linked h ?H ?K (xs @ ys)" using h0(3) hn unfolding linked_def ln by (simp del: lv_append lseg.simps)
  have u: "\<exists>l. lev h i (?u i) = Some l" "?n \<noteq> ?u i" if iK: "i < ?K" for i
  proof -
    obtain A where A: "fst ` set (A @ stop_at sl xs i # lv i (Suc ?m) ys) \<subseteq> insert ?H (fst ` set (xs @ ys))"
        "lseg (lev h i) (A @ stop_at sl xs i # lv i (Suc ?m) ys) None (length (xs @ ys))"
      using level_chain [OF assms(1) lk iK] by metis
    then show "\<exists>l. lev h i (?u i) = Some l" "?n \<noteq> ?u i" using nf by (cases "stop_at sl xs i"; auto)+
  qed
  define l where "l = (\<lambda>i. the (lev h i (?u i)))"
  have l: "lev h i (?u i) = Some (l i)" if "i < ?K" for i using u(1) [OF that] by (auto simp: l_def)
  have upd: "?upd ! i = (?u i, int (?p i))" if "i < ?K" for i using that by simp
  have upd0: "?upd ! 0 = (?u 0, int ?m)" using assms(1,2) upd [of 0] stop_at_0 [of xs sl] by (auto simp: towers_def)
  let ?M1 = "\<lambda>i. (lev h i)(?n \<mapsto> \<lparr>lv_forward = lv_forward (l i), lv_span = lv_span (l i) - (int ?m - int (?p i))\<rparr>,
      ?u i \<mapsto> \<lparr>lv_forward = Some ?n, lv_span = (int ?m - int (?p i)) + 1\<rparr>)"
  obtain h1 where h1: "foldo (link_level ?upd ?n) [0..<level] h = Some h1" "info h1 = info h"
      "lev h1 = (\<lambda>i. if i \<in> set [0..<level] then ?M1 i else lev h i)"
  proof -
    have "\<exists>h1. foldo (link_level ?upd ?n) [0..<level] h = Some h1 \<and> info h1 = info h \<and>
        lev h1 = (\<lambda>i. if i \<in> set [0..<level] then ?M1 i else lev h i)"
    proof (rule foldo_levels [where L = "lev h" and I = "info h"])
      fix i h' assume i: "i \<in> set [0..<level]" and h': "lev h' i = lev h i" "info h' = info h"
      have a: "lev h' i (?u i) = Some (l i)" using l [of i] h'(1) i by simp
      have b: "lev h' i ?n = Some \<lparr>lv_forward = None, lv_span = 0\<rparr>" using ln [of i] h'(1) i by simp
      from link_level_lev [OF a _ _ upd0 b, of level "?p i"] upd [of i] u(2) [of i] i h'
      show "\<exists>h''. link_level ?upd ?n i h' = Some h'' \<and> lev h'' = (lev h')(i := ?M1 i) \<and> info h'' = info h" by auto
    qed simp_all
    then show thesis using that by blast
  qed
  let ?M2 = "\<lambda>i. (lev h i)(?u i \<mapsto> (l i)\<lparr>lv_span := lv_span (l i) + 1\<rparr>)"
  obtain h2 where h2: "foldo (\<lambda>i h. set_level h (fst (?upd ! i)) i (\<lambda>l. l\<lparr>lv_span := lv_span l + 1\<rparr>)) [level..<sl_level sl] h1 = Some h2"
      "info h2 = info h" "lev h2 = (\<lambda>i. if i \<in> set [level..<sl_level sl] then ?M2 i else lev h1 i)"
  proof -
    have "\<exists>h2. foldo (\<lambda>i h. set_level h (fst (?upd ! i)) i (\<lambda>l. l\<lparr>lv_span := lv_span l + 1\<rparr>)) [level..<sl_level sl] h1 = Some h2 \<and>
        info h2 = info h \<and> lev h2 = (\<lambda>i. if i \<in> set [level..<sl_level sl] then ?M2 i else lev h1 i)"
    proof (rule foldo_levels [where L = "lev h" and I = "info h"])
      fix i h' assume i: "i \<in> set [level..<sl_level sl]" and h': "lev h' i = lev h i" "info h' = info h"
      then have "lev h' i (?u i) = Some (l i)" using l [of i] by auto
      from set_level_lev [OF this, of "\<lambda>l. l\<lparr>lv_span := lv_span l + 1\<rparr>"] upd [of i] i h'
      show "\<exists>h''. set_level h' (fst (?upd ! i)) i (\<lambda>l. l\<lparr>lv_span := lv_span l + 1\<rparr>) = Some h'' \<and> lev h'' = (lev h')(i := ?M2 i) \<and> info h'' = info h"
        by auto
    qed (use h1 in auto)
    then show thesis using that by blast
  qed
  have "lseg (lev h2 i) ((?H, 0) # lv i 1 (xs @ (?n, el, level) # ys)) None (Suc (length (xs @ ys)))" if i: "i < ?K" for i
  proof -
    obtain A where A: "\<And>zs. (?H, 0) # lv i 1 (xs @ zs) = A @ stop_at sl xs i # lv i (Suc ?m) zs"
        "distinct (map fst (A @ stop_at sl xs i # lv i (Suc ?m) ys))"
        "fst ` set (A @ stop_at sl xs i # lv i (Suc ?m) ys) \<subseteq> insert ?H (fst ` set (xs @ ys))"
        "lseg (lev h i) (A @ stop_at sl xs i # lv i (Suc ?m) ys) None (length (xs @ ys))"
      using level_chain [OF assms(1) lk i] by metis
    have n: "?n \<notin> fst ` set (A @ stop_at sl xs i # lv i (Suc ?m) ys)" using A(3) nf by blast
    note [simp] = prod.collapse
    have st: "lseg (lev h i) (A @ (?u i, ?p i) # lv i (Suc ?m) ys) None (length (xs @ ys))"
        "distinct (map fst (A @ (?u i, ?p i) # lv i (Suc ?m) ys))" "?n \<notin> fst ` set (A @ (?u i, ?p i) # lv i (Suc ?m) ys)"
      using A(2,4) n by (simp_all del: lseg_append)
    show ?thesis
    proof (cases "i < level")
      case True
      have "lev h2 i = ?M1 i" using True by (simp add: h2(3) h1(3))
      then show ?thesis
        using True lseg_link [OF st l [OF i], of ?m] unfolding A(1) lv.simps lv_Suc [of _ "Suc ?m"] by (simp del: lseg_append)
    next
      case False
      then have "lev h2 i = ?M2 i" using i by (simp add: h2(3) less_max_iff_disj)
      then show ?thesis
        using False lseg_bump [OF st(1,2) l [OF i]] unfolding A(1) lv.simps lv_Suc [of _ "Suc ?m"] by (simp del: lseg_append)
    qed
  qed
  moreover have "\<exists>s. lev h2 i ?H = Some \<lparr>lv_forward = None, lv_span = s\<rparr>" if "?K \<le> i" "i < maxLevel" for i
    using that lk by (auto simp: h2(3) h1(3) linked_def)
  ultimately have "linked h2 ?H ?K (xs @ (?n, el, level) # ys)" by (simp add: linked_def)
  then show ?thesis using h0(1) h1(1) h2(1,2) inf by (simp add: insert_heap_def h_def)
qed

lemma dropWhile_none: "sorted_wrt (\<lambda>x y. P y \<longrightarrow> P x) zs \<Longrightarrow> \<forall>y \<in> set (dropWhile P zs). \<not> P y"
proof (induction zs)
  case (Cons z zs)
  have p: "\<forall>y \<in> set zs. P y \<longrightarrow> P z" "sorted_wrt (\<lambda>x y. P y \<longrightarrow> P x) zs" using Cons.prems by simp_all
  show ?case
  proof (cases "P z")
    case True
    then have "dropWhile P (z # zs) = dropWhile P zs" by simp
    then show ?thesis using Cons.IH [OF p(2)] by (simp only:)
  next
    case False
    then have "\<forall>y \<in> set (z # zs). \<not> P y" using p(1) by auto
    then show ?thesis using False by simp
  qed
qed simp

lemma cut_takeWhile:
  assumes "sorted_wrt (\<lambda>x y. P (tw_el y) \<longrightarrow> P (tw_el x)) zs"
  shows "cut (\<lambda>e _. P e) (takeWhile (\<lambda>x. P (tw_el x)) zs) (dropWhile (\<lambda>x. P (tw_el x)) zs)"
  unfolding cut_def
proof (intro conjI allI impI)
  let ?P = "\<lambda>x. P (tw_el x)"
  show "P (tw_el (takeWhile ?P zs ! j))" if "j < length (takeWhile ?P zs)" for j
    using nth_mem [OF that] set_takeWhileD by fast
  show "\<not> P (tw_el (dropWhile ?P zs ! j))" if "j < length (dropWhile ?P zs)" for j
    using dropWhile_none [of ?P zs] assms nth_mem [OF that] by blast
qed

lemma sl_insert_towers:
  assumes "towers sl (xs @ ys)" "cut (\<lambda>e _. el_less score member e) xs ys"
  shows "\<exists>sl'. sl_insert r sl member score = Some sl' \<and> sl_header sl' = sl_header sl \<and>
    towers sl' (xs @ (sl_fresh sl, \<lparr>el_member = member, el_score = score\<rparr>, randomLevel r) # ys)"
proof -
  let ?lv = "randomLevel r" and ?n = "sl_fresh sl" and ?H = "sl_header sl" and ?K = "max (randomLevel r) (sl_level sl)"
  let ?el = "\<lparr>el_member = member, el_score = score\<rparr>" and ?upd = "stops sl xs (max (randomLevel r) (sl_level sl))"
  note lb = randomLevel_bounds [of r]
  have ht: "\<forall>x \<in> set xs. 1 \<le> tw_ht x \<and> tw_ht x \<le> sl_level sl" "\<forall>x \<in> set ys. 1 \<le> tw_ht x"
    using assms(1) by (auto simp: towers_def)
  have upd: "stops sl xs (sl_level sl) @ replicate (?lv - sl_level sl) (?H, 0) = ?upd" using ht(1) by (intro stops_extend) simp
  obtain h2 where h2: "insert_heap sl ?upd ?lv member score = Some h2" "info h2 = (info (sl_heap sl))(?n \<mapsto> (?el, None, ?lv))"
      "linked h2 ?H ?K (xs @ (?n, ?el, ?lv) # ys)"
    using insert_heap_towers [OF assms(1) lb [THEN conjunct1] lb [THEN conjunct2] refl] by blast
  let ?pr = "lastp xs None"
  have u0: "(if fst (?upd ! 0) = ?H then None else Some (fst (?upd ! 0))) = ?pr"
  proof -
    have "fst (?upd ! 0) = (if xs = [] then ?H else fst (last xs))" using ht(1) lb stop_at_0 [of xs sl] by auto
    moreover have "?H \<notin> fst ` set xs" using assms(1) by (simp add: towers_def)
    then have "fst (last xs) \<noteq> ?H" if "xs \<noteq> []" using imageI [OF last_in_set [OF that], of fst] by metis
    ultimately show ?thesis by (simp add: lastp_def)
  qed
  obtain h3 where h3: "set_backward h2 ?n ?pr = Some h3" "lev h3 = lev h2" "info h3 = (info (sl_heap sl))(?n \<mapsto> (?el, ?pr, ?lv))"
    using set_backward_info [of h2 ?n ?el None ?lv ?pr] h2(2) by auto
  have l0: "\<exists>l. get_level h3 ?n 0 = Some l \<and> lv_forward l = headp ys"
  proof -
    have "lseg (lev h2 0) ((?H, 0) # lv 0 1 xs @ (?n, Suc (length xs)) # lv 0 (Suc (Suc (length xs))) ys) None (length (xs @ (?n, ?el, ?lv) # ys))"
    proof -
      have "0 < ?K" using lb by linarith
      from h2(3) [unfolded linked_def, THEN conjunct1, rule_format, OF this] show ?thesis using lb by simp
    qed
    then show ?thesis
      using lv_0 [of ys "Suc (Suc (length xs))" None] ht(2) h3(2) by (auto simp: lev_def fun_eq_iff headp_def split: list.splits)
  qed
  have nf: "?n \<notin> insert ?H (fst ` set (xs @ ys))" using assms(1) by (auto simp: towers_def)
  note d = assms(1) [unfolded towers_def, THEN conjunct1]
  have bk: "backs (info (sl_heap sl)) None xs" "backs (info (sl_heap sl)) ?pr ys" using assms(1) by (auto simp: towers_def)
  obtain h4 tl where h4: "(case headp ys of Some f \<Rightarrow> do { h4 \<leftarrow> set_backward h3 f (Some ?n); Some (h4, sl_tail sl) }
        | None \<Rightarrow> Some (h3, Some ?n)) = Some (h4, tl)" "lev h4 = lev h2" "tl = lastp (xs @ (?n, ?el, ?lv) # ys) None"
      "backs (info h4) None (xs @ (?n, ?el, ?lv) # ys)" "info h4 ?H = info (sl_heap sl) ?H"
  proof (cases ys)
    case Nil
    have "info h3 ?H = info (sl_heap sl) ?H" "backs (info h3) None (xs @ [(?n, ?el, ?lv)])"
      using bk nf Nil unfolding h3(3) by simp_all
    moreover have "headp ys = None" "Some ?n = lastp (xs @ (?n, ?el, ?lv) # ys) None" using Nil by (simp_all add: headp_def lastp_def)
    ultimately show thesis by (intro that [of h3 "Some ?n"]) (simp_all add: h3(2) Nil)
  next
    case (Cons y zs)
    have dist: "fst y \<notin> fst ` set xs" "fst y \<notin> fst ` set zs" "fst y \<noteq> ?H" "fst y \<noteq> ?n"
      using d Cons nf by auto
    obtain h' where h': "set_backward h3 (fst y) (Some ?n) = Some h'" "lev h' = lev h3"
        "info h' = (info h3)(fst y \<mapsto> (tw_el y, Some ?n, tw_ht y))"
      using set_backward_info [of h3 "fst y" "tw_el y" ?pr "tw_ht y" "Some ?n"] bk(2) Cons h3(3) dist by auto
    have "sl_tail sl = lastp (xs @ (?n, ?el, ?lv) # ys) None" using assms(1) Cons by (simp add: towers_def lastp_def)
    moreover have "backs (info h') None (xs @ (?n, ?el, ?lv) # ys)"
      using bk Cons dist nf unfolding h'(3) h3(3) by (simp add: image_Un lastp_def)
    ultimately show thesis using that [of h' "sl_tail sl"] h' h3 Cons dist nf by (simp add: headp_def)
  qed
  let ?sl = "\<lparr>sl_header = ?H, sl_tail = tl, sl_length = sl_length sl + 1, sl_level = ?K, sl_heap = h4, sl_fresh = Suc ?n\<rparr>"
  have "towers ?sl (xs @ (?n, ?el, ?lv) # ys)"
  proof -
    have "linked h4 ?H ?K (xs @ (?n, ?el, ?lv) # ys)" using h2(3) h4(2) by (simp add: linked_def)
    moreover have "\<forall>x \<in> set (xs @ (?n, ?el, ?lv) # ys). 1 \<le> tw_ht x \<and> tw_ht x \<le> ?K"
      using assms(1) lb by (auto simp: towers_def le_max_iff_disj)
    moreover have "distinct (?H # map fst (xs @ (?n, ?el, ?lv) # ys))" using assms(1) nf by (auto simp: towers_def)
    moreover have "\<forall>a \<in> set (?H # map fst (xs @ (?n, ?el, ?lv) # ys)). a < Suc ?n" using assms(1) by (auto simp: towers_def less_SucI)
    moreover have "1 \<le> ?K" "?K \<le> maxLevel" using assms(1) lb by (auto simp: towers_def le_max_iff_disj)
    ultimately show ?thesis using assms(1) h4(3,4,5) by (simp add: towers_def linked_def)
  qed
  moreover have "sl_insert r sl member score = Some ?sl"
    using descend_stops [OF assms] l0 h4(1) h2(1) h3(1) u0 by (auto simp: sl_insert_def upd Let_def)
  ultimately show ?thesis by (intro exI [of _ ?sl]) simp
qed

section \<open>Removal\<close>

lemma shrink_spec:
  assumes "\<And>i. i < k \<Longrightarrow> lseg (lev h i) ((hdr, 0) # lv i 1 zs) None (length zs)" "1 \<le> k"
  shows "\<exists>k'. shrink h hdr k = Some k' \<and> 1 \<le> k' \<and> k' \<le> k \<and> (\<forall>i. k' \<le> i \<and> i < k \<longrightarrow> lv i 1 zs = [])"
  using assms
proof (induction h hdr k rule: shrink.induct)
  case (3 h hdr k)
  have l: "lev h (Suc k) hdr = Some \<lparr>lv_forward = nxt (lv (Suc k) 1 zs) None, lv_span = int (nxp (lv (Suc k) 1 zs) (length zs)) - 0\<rparr>"
    using "3.prems"(1) [of "Suc k"] by simp
  show ?case
  proof (cases "lv (Suc k) 1 zs")
    case Nil
    obtain k' where k': "shrink h hdr (Suc k) = Some k'" "1 \<le> k'" "k' \<le> Suc k" "\<forall>i. k' \<le> i \<and> i < Suc k \<longrightarrow> lv i 1 zs = []"
      using "3.IH" [of "\<lparr>lv_forward = None, lv_span = int (length zs)\<rparr>"] "3.prems"(1) l Nil by (auto simp: lev_def)
    have "lv i 1 zs = []" if "k' \<le> i" "i < Suc (Suc k)" for i using that k'(4) Nil by (cases "i = Suc k") auto
    then show ?thesis using k'(1-3) l Nil by (auto simp: lev_def)
  next
    case (Cons b bs)
    then show ?thesis using l by (cases b) (auto simp: lev_def)
  qed
qed auto

lemma unlink_level_lev:
  assumes "lev h i u = Some l" "fst (upd ! i) = u"
    "lv_forward l = Some n \<Longrightarrow> lev h i n = Some ln"
  shows "\<exists>h'. unlink_level upd n i h = Some h' \<and> info h' = info h \<and>
    lev h' = (lev h)(i := (lev h i)(u \<mapsto> if lv_forward l = Some n
      then \<lparr>lv_forward = lv_forward ln, lv_span = lv_span l + (lv_span ln - 1)\<rparr> else l\<lparr>lv_span := lv_span l - 1\<rparr>))"
proof (cases "lv_forward l = Some n")
  case True
  then have "get_level h n i = Some ln" "get_level h u i = Some l" using assms(1,3) by (simp_all add: lev_def)
  then show ?thesis
    using True set_level_lev [OF assms(1), of "\<lambda>_. \<lparr>lv_forward = lv_forward ln, lv_span = lv_span l + (lv_span ln - 1)\<rparr>"] assms(2)
    by (auto simp: unlink_level_def Let_def)
next
  case False
  have "get_level h u i = Some l" using assms(1) by (simp add: lev_def)
  then show ?thesis
    using False set_level_lev [OF assms(1), of "\<lambda>_. l\<lparr>lv_span := lv_span l - 1\<rparr>"] assms(2)
    by (auto simp: unlink_level_def Let_def)
qed

lemma unlink_towers:
  assumes "towers sl (xs @ x # ys)" "\<And>i. i < sl_level sl \<Longrightarrow> fst (upd ! i) = fst (stop_at sl xs i)"
  shows "\<exists>h. foldo (unlink_level upd (fst x)) [0..<sl_level sl] (sl_heap sl) = Some h \<and> info h = info (sl_heap sl) \<and>
    (\<forall>i. lev h i (fst x) = lev (sl_heap sl) i (fst x)) \<and> linked h (sl_header sl) (sl_level sl) (xs @ ys)"
proof -
  let ?h = "sl_heap sl" and ?H = "sl_header sl" and ?m = "length xs" and ?a = "fst x"
  let ?u = "\<lambda>i. fst (stop_at sl xs i)" and ?p = "\<lambda>i. snd (stop_at sl xs i)"
  have chain: "\<exists>A. (\<forall>zs. (?H, 0) # lv i 1 (xs @ zs) = A @ (?u i, ?p i) # lv i (Suc ?m) zs) \<and>
      distinct (map fst (A @ (?u i, ?p i) # (if i < tw_ht x then [(?a, Suc ?m)] else []) @ lv i (Suc ?m) ys)) \<and>
      lseg (lev ?h i) (A @ (?u i, ?p i) # (if i < tw_ht x then [(?a, Suc ?m)] else []) @ shift (lv i (Suc ?m) ys)) None (Suc (length (xs @ ys))) \<and>
      ?a \<noteq> ?u i \<and> ?a \<notin> fst ` set (lv i (Suc ?m) ys)" if i: "i < sl_level sl" for i
  proof -
    obtain A where A: "\<And>zs. (?H, 0) # lv i 1 (xs @ zs) = A @ stop_at sl xs i # lv i (Suc ?m) zs"
        "distinct (map fst (A @ stop_at sl xs i # lv i (Suc ?m) (x # ys)))"
        "lseg (lev ?h i) (A @ stop_at sl xs i # lv i (Suc ?m) (x # ys)) None (length (xs @ x # ys))"
      using level_chain [OF assms(1) towers_linked [OF assms(1)] i] by metis
    have d: "distinct (?H # map fst (xs @ x # ys))" using assms(1) by (simp only: towers_def)
    have "?u i \<in> insert ?H (fst ` set xs)" using stop_at_mem [of sl xs i] lv_fst [of i 1 xs] by auto
    moreover have "?a \<notin> insert ?H (fst ` set xs)" "?a \<notin> fst ` set ys" using d by auto
    ultimately have "?a \<noteq> ?u i" "?a \<notin> fst ` set (lv i (Suc ?m) ys)" using lv_fst [of i "Suc ?m" ys] by (metis, blast)
    moreover note d
    ultimately show ?thesis using A unfolding lv.simps lv_Suc [of i "Suc ?m"] by (intro exI [of _ A]) simp
  qed
  define l where "l = (\<lambda>i. the (lev ?h i (?u i)))"
  define ln where "ln = (\<lambda>i. the (lev ?h i ?a))"
  have l: "lev ?h i (?u i) = Some (l i)" "lv_forward (l i) = Some ?a \<longleftrightarrow> i < tw_ht x"
      "i < tw_ht x \<Longrightarrow> lev ?h i ?a = Some (ln i)" if i: "i < sl_level sl" for i
  proof -
    have "nxt (lv i (Suc ?m) ys) None \<noteq> Some ?a" using chain [OF i] by (cases "lv i (Suc ?m) ys") auto
    then show "lev ?h i (?u i) = Some (l i)" "lv_forward (l i) = Some ?a \<longleftrightarrow> i < tw_ht x"
      "i < tw_ht x \<Longrightarrow> lev ?h i ?a = Some (ln i)"
      using chain [OF i] by (auto simp: l_def ln_def simp del: prod.collapse split: if_splits)
  qed
  let ?M = "\<lambda>i. (lev ?h i)(?u i \<mapsto> if lv_forward (l i) = Some ?a
      then \<lparr>lv_forward = lv_forward (ln i), lv_span = lv_span (l i) + (lv_span (ln i) - 1)\<rparr> else (l i)\<lparr>lv_span := lv_span (l i) - 1\<rparr>)"
  have "\<exists>h. foldo (unlink_level upd ?a) [0..<sl_level sl] ?h = Some h \<and> info h = info ?h \<and>
      lev h = (\<lambda>i. if i \<in> set [0..<sl_level sl] then ?M i else lev ?h i)"
  proof (rule foldo_levels [where L = "lev ?h" and I = "info ?h"])
    fix i h assume i: "i \<in> set [0..<sl_level sl]" and h: "lev h i = lev ?h i" "info h = info ?h"
    then have "lev h i (?u i) = Some (l i)" "lv_forward (l i) = Some ?a \<Longrightarrow> lev h i ?a = Some (ln i)" using l [of i] by auto
    from unlink_level_lev [OF this(1) _ this(2), of upd] assms(2) [of i] i h
    show "\<exists>h'. unlink_level upd ?a i h = Some h' \<and> lev h' = (lev h)(i := ?M i) \<and> info h' = info ?h" by auto
  qed simp_all
  then obtain h where h: "foldo (unlink_level upd ?a) [0..<sl_level sl] ?h = Some h" "info h = info ?h"
      "lev h = (\<lambda>i. if i \<in> set [0..<sl_level sl] then ?M i else lev ?h i)" by blast
  have "lseg (lev h i) ((?H, 0) # lv i 1 (xs @ ys)) None (length (xs @ ys))" if i: "i < sl_level sl" for i
  proof -
    obtain A where A: "\<And>zs. (?H, 0) # lv i 1 (xs @ zs) = A @ (?u i, ?p i) # lv i (Suc ?m) zs"
        "distinct (map fst (A @ (?u i, ?p i) # (if i < tw_ht x then [(?a, Suc ?m)] else []) @ lv i (Suc ?m) ys))"
        "lseg (lev ?h i) (A @ (?u i, ?p i) # (if i < tw_ht x then [(?a, Suc ?m)] else []) @ shift (lv i (Suc ?m) ys)) None (Suc (length (xs @ ys)))"
      using chain [OF i] by blast
    have M: "lev h i = ?M i" using i by (simp add: h(3))
    show ?thesis
    proof (cases "i < tw_ht x")
      case True
      have "lseg (lev ?h i) (A @ (?u i, ?p i) # (?a, Suc ?m) # shift (lv i (Suc ?m) ys)) None (Suc (length (xs @ ys)))"
          "distinct (map fst (A @ (?u i, ?p i) # (?a, Suc ?m) # lv i (Suc ?m) ys))" using True A(2,3) by simp_all
      from lseg_unlink [OF this l(1) [OF i] l(3) [OF i True]] show ?thesis
        using True l(2) [OF i] unfolding M A(1) by (simp del: lseg_append)
    next
      case False
      have "lseg (lev ?h i) (A @ (?u i, ?p i) # shift (lv i (Suc ?m) ys)) None (Suc (length (xs @ ys)))"
          "distinct (map fst (A @ (?u i, ?p i) # lv i (Suc ?m) ys))" using False A(2,3) by simp_all
      from lseg_drop [OF this l(1) [OF i]] show ?thesis
        using False l(2) [OF i] unfolding M A(1) by (simp del: lseg_append)
    qed
  qed
  moreover have "\<forall>i. lev h i ?a = lev ?h i ?a" using chain by (auto simp: h(3))
  moreover have "\<exists>s. lev h i ?H = Some \<lparr>lv_forward = None, lv_span = s\<rparr>" if "sl_level sl \<le> i" "i < maxLevel" for i
    using that assms(1) by (auto simp: h(3) towers_def)
  ultimately show ?thesis using h(1,2) by (auto simp: linked_def)
qed

lemma towers_at:
  assumes "towers sl (xs @ x # ys)"
  shows "info (sl_heap sl) (fst x) = Some (tw_el x, lastp xs None, tw_ht x)"
    "\<exists>l. get_level (sl_heap sl) (fst x) 0 = Some l \<and> lv_forward l = headp ys"
    "\<exists>nd. sl_heap sl (fst x) = Some nd \<and> sn_elem nd = tw_el x \<and> sn_backward nd = lastp xs None"
proof -
  show i: "info (sl_heap sl) (fst x) = Some (tw_el x, lastp xs None, tw_ht x)" using assms by (simp add: towers_def)
  show "\<exists>nd. sl_heap sl (fst x) = Some nd \<and> sn_elem nd = tw_el x \<and> sn_backward nd = lastp xs None" by (rule info_node [OF i])
  have "0 < sl_level sl" "0 < tw_ht x" "\<forall>y \<in> set ys. 1 \<le> tw_ht y" using assms by (auto simp: towers_def)
  moreover have "lseg (lev (sl_heap sl) 0) ((sl_header sl, 0) # lv 0 1 (xs @ x # ys)) None (length (xs @ x # ys))"
    using towers_linked [OF assms] calculation(1) by (simp only: linked_def)
  ultimately show "\<exists>l. get_level (sl_heap sl) (fst x) 0 = Some l \<and> lv_forward l = headp ys"
    using lv_0 [of ys "Suc (Suc (length xs))" None] by (auto simp: lev_def headp_def split: list.splits)
qed

lemma towers_header:
  assumes "towers sl xs"
  shows "\<exists>l. get_level (sl_heap sl) (sl_header sl) 0 = Some l \<and> lv_forward l = headp xs"
    "\<exists>nd. sl_heap sl (sl_header sl) = Some nd \<and> el_member (sn_elem nd) = []"
proof -
  have "0 < sl_level sl" "\<forall>y \<in> set xs. 1 \<le> tw_ht y" using assms by (auto simp: towers_def)
  moreover have "lseg (lev (sl_heap sl) 0) ((sl_header sl, 0) # lv 0 1 xs) None (length xs)"
    using towers_linked [OF assms] calculation(1) by (simp only: linked_def)
  ultimately show "\<exists>l. get_level (sl_heap sl) (sl_header sl) 0 = Some l \<and> lv_forward l = headp xs"
    using lv_0 [of xs 1 None] by (auto simp: lev_def headp_def split: list.splits)
  show "\<exists>nd. sl_heap sl (sl_header sl) = Some nd \<and> el_member (sn_elem nd) = []"
    using towersD(3) [OF assms] info_node by metis
qed

lemma sl_removeNode_towers:
  assumes "towers sl (xs @ x # ys)" "\<And>i. i < sl_level sl \<Longrightarrow> fst (upd ! i) = fst (stop_at sl xs i)"
  shows "\<exists>sl'. sl_removeNode sl (fst x) upd = Some sl' \<and> towers sl' (xs @ ys) \<and> sl_header sl' = sl_header sl \<and>
    sl_level sl' \<le> sl_level sl"
proof -
  let ?H = "sl_header sl" and ?h = "sl_heap sl" and ?a = "fst x" and ?pr = "lastp xs None"
  obtain h1 where h1: "foldo (unlink_level upd ?a) [0..<sl_level sl] ?h = Some h1" "info h1 = info ?h"
      "\<forall>i. lev h1 i ?a = lev ?h i ?a" "linked h1 ?H (sl_level sl) (xs @ ys)" using unlink_towers [OF assms] by blast
  obtain l0 where l0: "get_level h1 ?a 0 = Some l0" "lv_forward l0 = headp ys"
    using towers_at(2) [OF assms(1)] h1(3) by (auto simp: lev_def)
  obtain nd where nd: "h1 ?a = Some nd" "sn_backward nd = ?pr"
    using info_node [of h1 ?a] towers_at(1) [OF assms(1)] h1(2) by metis
  have d: "distinct (?H # map fst (xs @ x # ys))" using assms(1) by (simp only: towers_def)
  have bk: "backs (info h1) None xs" "backs (info h1) (Some ?a) ys" using assms(1) h1(2) by (simp_all add: towers_def)
  obtain h2 tl where h2: "(case headp ys of Some f \<Rightarrow> do { h2 \<leftarrow> set_backward h1 f ?pr; Some (h2, sl_tail sl) }
        | None \<Rightarrow> Some (h1, ?pr)) = Some (h2, tl)" "lev h2 = lev h1" "tl = lastp (xs @ ys) None"
      "backs (info h2) None (xs @ ys)" "info h2 ?H = info ?h ?H"
  proof (cases ys)
    case Nil
    have "headp ys = None" "?pr = lastp (xs @ ys) None" using Nil by (simp_all add: headp_def)
    then show thesis using bk Nil h1(2) by (intro that [of h1 ?pr]) simp_all
  next
    case (Cons y zs)
    have dist: "fst y \<notin> fst ` set xs" "fst y \<notin> fst ` set zs" "fst y \<noteq> ?H" using d Cons by auto
    obtain h' where h': "set_backward h1 (fst y) ?pr = Some h'" "lev h' = lev h1" "info h' = (info h1)(fst y \<mapsto> (tw_el y, ?pr, tw_ht y))"
      using set_backward_info [of h1 "fst y" "tw_el y" "Some ?a" "tw_ht y" ?pr] bk(2) Cons by auto
    have "sl_tail sl = lastp (xs @ ys) None" using assms(1) Cons by (simp add: towers_def lastp_def)
    moreover have "backs (info h') None (xs @ ys)" using bk Cons dist unfolding h'(3) by simp
    moreover have "headp ys = Some (fst y)" using Cons by (simp add: headp_def)
    ultimately show thesis using h' dist h1(2) by (intro that [of h' "sl_tail sl"]) simp_all
  qed
  have lk: "linked h2 ?H (sl_level sl) (xs @ ys)" using h1(4) h2(2) by (simp add: linked_def)
  obtain k where k: "shrink h2 ?H (sl_level sl) = Some k" "1 \<le> k" "k \<le> sl_level sl"
      "\<forall>i. k \<le> i \<and> i < sl_level sl \<longrightarrow> lv i 1 (xs @ ys) = []"
    using shrink_spec [of "sl_level sl" h2 ?H "xs @ ys"] lk assms(1) by (auto simp: linked_def towers_def)
  let ?sl = "sl\<lparr>sl_heap := h2, sl_tail := tl, sl_level := k, sl_length := sl_length sl - 1\<rparr>"
  have "sl_removeNode sl ?a upd = Some ?sl"
    using h1(1) l0 nd(1) h2(1) [folded nd(2)] k(1) by (simp add: sl_removeNode_def)
  moreover have "towers ?sl (xs @ ys)"
  proof -
    have lk': "linked h2 ?H k (xs @ ys)"
      unfolding linked_def
    proof (intro conjI allI impI)
      show "lseg (lev h2 i) ((?H, 0) # lv i 1 (xs @ ys)) None (length (xs @ ys))" if "i < k" for i
        using lk that k(3) by (simp add: linked_def)
      show "\<exists>s. lev h2 i ?H = Some \<lparr>lv_forward = None, lv_span = s\<rparr>" if "k \<le> i \<and> i < maxLevel" for i
      proof (cases "i < sl_level sl")
        case True
        then have "lv i 1 (xs @ ys) = []" "lseg (lev h2 i) ((?H, 0) # lv i 1 (xs @ ys)) None (length (xs @ ys))"
          using that k(4) lk by (simp_all add: linked_def)
        then show ?thesis by (simp del: lv_append)
      qed (use lk that in \<open>simp add: linked_def\<close>)
    qed
    have "tw_ht z \<le> k" if "z \<in> set (xs @ ys)" for z
    proof (rule ccontr)
      assume "\<not> tw_ht z \<le> k"
      moreover have "tw_ht z \<le> sl_level sl" using that towersD(5) [OF assms(1)] by auto
      ultimately have "k < sl_level sl" "k < tw_ht z" by simp_all
      then have "lv k 1 (xs @ ys) = []" using k(4) by simp
      moreover have "k < tw_ht z \<Longrightarrow> z \<in> set zs \<Longrightarrow> lv k j zs \<noteq> []" for zs j by (induction zs arbitrary: j) auto
      ultimately show False using that \<open>k < tw_ht z\<close> by blast
    qed
    moreover have "distinct (?H # map fst (xs @ ys))" using d by auto
    moreover have "\<forall>a \<in> set (?H # map fst (xs @ ys)). a < sl_fresh sl" "\<forall>x \<in> set (xs @ ys). 1 \<le> tw_ht x" "sl_level sl \<le> maxLevel"
        "\<exists>e. info ?h ?H = Some (e, None, maxLevel) \<and> el_member e = []" "sl_length sl = int (length (xs @ ys)) + 1"
      using towersD(2,3,5,7,9) [OF assms(1)] by simp_all
    ultimately show ?thesis using lk' k(2,3) h2(3-5) by (simp add: towers_def linked_def del: lv_append)
  qed
  ultimately show ?thesis using k(3) by (intro exI [of _ ?sl]) simp
qed

end
