(* ===== verification/ZApi.thy ===== *)
theory ZApi
  imports Border
begin

text \<open>
  What a sorted set promises, whichever way it is encoded: the operations of \<^verbatim>\<open>sortedset.SortedSet\<close>
  that \<^verbatim>\<open>object.ZSet\<close> offers too, the same calls on a plain sorted list of elements, and the contract
  of an implementation (locale \<open>zset_impl\<close>). It is interpreted in \<open>SortedSet\<close> and \<open>ZSetObj\<close>.
\<close>

section \<open>Elements in order\<close>

definition el_lt :: "'s::linorder element \<Rightarrow> 's element \<Rightarrow> bool" where
  "el_lt a b \<longleftrightarrow> el_score a < el_score b \<or> el_score a = el_score b \<and> el_member a < el_member b"

definition zsorted :: "'s::linorder element list \<Rightarrow> bool" where
  "zsorted es \<longleftrightarrow> sorted_wrt el_lt es \<and> distinct (map el_member es)"

definition in_range :: "'s::linorder border \<Rightarrow> 's border \<Rightarrow> 's element \<Rightarrow> bool" where
  "in_range lo hi e \<longleftrightarrow> b_less lo e \<and> b_greater hi e"

text \<open>
  The borders fit the elements: borders of scores always do, borders of members only where all scores
  are equal, since the elements are in order of their scores first.
\<close>

fun borders_fit :: "'s::linorder border \<Rightarrow> 's border \<Rightarrow> 's element list \<Rightarrow> bool" where
  "borders_fit (ScoreB _) (ScoreB _) es \<longleftrightarrow> True"
| "borders_fit (LexB _) (LexB _) es \<longleftrightarrow> (\<forall>a \<in> set es. \<forall>b \<in> set es. el_score a = el_score b)"
| "borders_fit _ _ es \<longleftrightarrow> False"

section \<open>The calls on a sorted list\<close>

datatype 's zset_op =
    ZAdd "nat \<Rightarrow> nat" string 's
  | ZGet string
  | ZRemove string
  | ZLen
  | ZGetRank string bool
  | ZRangeByRank int int bool
  | ZRangeCount "'s border" "'s border"
  | ZRange "'s border" "'s border" int int bool
  | ZRemoveRange "'s border" "'s border"
  | ZRemoveByRank int int
  | ZPopMin int

datatype 's zset_res = ZBool bool | ZScore "'s option" | ZNum int | ZEls "'s element list" | ZPtrs "'s element option list"

fun index_of :: "('a \<Rightarrow> bool) \<Rightarrow> 'a list \<Rightarrow> nat option" where
  "index_of P [] = None"
| "index_of P (x # xs) = (if P x then Some 0 else map_option Suc (index_of P xs))"

lemma index_of_split: "\<forall>x \<in> set A. \<not> P x \<Longrightarrow> P e \<Longrightarrow> index_of P (A @ e # B) = Some (length A)"
  by (induction A) auto

lemma index_of_None: "index_of P es = None \<longleftrightarrow> (\<forall>x \<in> set es. \<not> P x)"
  by (induction es) auto

lemma index_of_SomeD: "index_of P es = Some i \<Longrightarrow> i < length es \<and> P (es ! i)"
  by (induction es arbitrary: i) (auto split: if_splits)

lemma index_of_nth:
  assumes "distinct (map f es)" "i < length es"
  shows "index_of (\<lambda>x. f x = f (es ! i)) es = Some i"
proof -
  have "f (es ! j) \<noteq> f (es ! i)" if "j < i" for j using nth_eq_iff_index_eq [OF assms(1), of j i] that assms(2) by simp
  then have "\<forall>x \<in> set (take i es). f x \<noteq> f (es ! i)" by (auto simp: in_set_conv_nth)
  then show ?thesis
    using index_of_split [of "take i es" "\<lambda>x. f x = f (es ! i)" "es ! i" "drop (Suc i) es"] assms(2) by (simp add: id_take_nth_drop [symmetric])
qed

text \<open>
  A call is \<open>None\<close> where the contract does not cover it: a rank of the member \<open>''''\<close>, ranks outside
  the set, borders that do not fit, a count of an empty set, an offset past the range, a border pair
  that the emptiness test of the code mistakes for empty, and a pop of less than one element.
\<close>

fun zref_step :: "'s::linorder element list \<Rightarrow> 's zset_op \<Rightarrow> ('s element list \<times> 's zset_res) option" where
  "zref_step es (ZAdd rs m s) =
     (let e = \<lparr>el_member = m, el_score = s\<rparr>; rest = filter (\<lambda>x. el_member x \<noteq> m) es
      in Some (filter (\<lambda>x. el_lt x e) rest @ e # filter (\<lambda>x. \<not> el_lt x e) rest, ZBool (m \<notin> el_member ` set es)))"
| "zref_step es (ZGet m) = Some (es, ZScore (map_of (map (\<lambda>e. (el_member e, el_score e)) es) m))"
| "zref_step es (ZRemove m) = Some (filter (\<lambda>x. el_member x \<noteq> m) es, ZBool (m \<in> el_member ` set es))"
| "zref_step es ZLen = Some (es, ZNum (int (length es)))"
| "zref_step es (ZGetRank m desc) =
     (case index_of (\<lambda>x. el_member x = m) es of
        None \<Rightarrow> Some (es, ZNum (-1))
      | Some i \<Rightarrow> if m = [] then None else Some (es, ZNum (if desc then int (length es) - 1 - int i else int i)))"
| "zref_step es (ZRangeByRank start stop desc) =
     (if 0 \<le> start \<and> start < int (length es) \<and> start \<le> stop \<and> stop \<le> int (length es)
      then Some (es, ZPtrs (map Some (take (nat (stop - start)) (drop (nat start) (if desc then rev es else es))))) else None)"
| "zref_step es (ZRangeCount lo hi) =
     (if es \<noteq> [] \<and> borders_fit lo hi es then Some (es, ZNum (int (length (filter (in_range lo hi) es)))) else None)"
| "zref_step es (ZRange lo hi offset limit desc) =
     (let hits = filter (in_range lo hi) es in
      if borders_fit lo hi es \<and> (isIntersected lo hi = Some False \<or> hits = []) \<and> (offset < int (length hits) \<or> hits = [])
      then Some (es, ZEls (if offset < 0 then []
             else (if limit < 0 then id else take (nat limit)) (drop (nat offset) (if desc then rev hits else hits))))
      else None)"
| "zref_step es (ZRemoveRange lo hi) =
     (if borders_fit lo hi es
      then Some (filter (\<lambda>e. \<not> in_range lo hi e) es, ZNum (int (length (filter (in_range lo hi) es)))) else None)"
| "zref_step es (ZRemoveByRank start stop) =
     (if 0 \<le> start \<and> start \<le> stop \<and> stop < 2 ^ 63 - 1
      then Some (take (nat start) es @ drop (nat stop) es, ZNum (int (length (take (nat (stop - start)) (drop (nat start) es))))) else None)"
| "zref_step es (ZPopMin n) = (if 0 < n then Some (drop (nat n) es, ZEls (take (nat n) es)) else None)"

fun zref_run :: "'s::linorder element list \<Rightarrow> 's zset_op list \<Rightarrow> ('s element list \<times> 's zset_res list) option" where
  "zref_run es [] = Some (es, [])"
| "zref_run es (op # ops) =
     do { (es1, r) \<leftarrow> zref_step es op; (es2, rs) \<leftarrow> zref_run es1 ops; Some (es2, r # rs) }"

section \<open>The interface and its contract\<close>

text \<open>A slice of pointers that holds no nil by construction is a list of elements.\<close>

record ('z, 's) ZSet =
  zAdd :: "(nat \<Rightarrow> nat) \<Rightarrow> 'z \<Rightarrow> string \<Rightarrow> 's \<Rightarrow> ('z \<times> bool) option"
  zGet :: "'z \<Rightarrow> string \<Rightarrow> 's option option"
  zRemove :: "'z \<Rightarrow> string \<Rightarrow> ('z \<times> bool) option"
  zLen :: "'z \<Rightarrow> int option"
  zGetRank :: "'z \<Rightarrow> string \<Rightarrow> bool \<Rightarrow> int option"
  zRangeByRank :: "'z \<Rightarrow> int \<Rightarrow> int \<Rightarrow> bool \<Rightarrow> 's element option list option"
  zRangeCount :: "'z \<Rightarrow> 's border \<Rightarrow> 's border \<Rightarrow> int option"
  zRange :: "'z \<Rightarrow> 's border \<Rightarrow> 's border \<Rightarrow> int \<Rightarrow> int \<Rightarrow> bool \<Rightarrow> 's element list option"
  zRemoveRange :: "'z \<Rightarrow> 's border \<Rightarrow> 's border \<Rightarrow> ('z \<times> int) option"
  zRemoveByRank :: "'z \<Rightarrow> int \<Rightarrow> int \<Rightarrow> ('z \<times> int) option"
  zPopMin :: "'z \<Rightarrow> int \<Rightarrow> ('z \<times> 's element list) option"

fun zset_step :: "('z, 's) ZSet \<Rightarrow> 'z \<Rightarrow> 's zset_op \<Rightarrow> ('z \<times> 's zset_res) option" where
  "zset_step Z z (ZAdd rs m s) = do { (z', b) \<leftarrow> zAdd Z rs z m s; Some (z', ZBool b) }"
| "zset_step Z z (ZGet m) = do { v \<leftarrow> zGet Z z m; Some (z, ZScore v) }"
| "zset_step Z z (ZRemove m) = do { (z', b) \<leftarrow> zRemove Z z m; Some (z', ZBool b) }"
| "zset_step Z z ZLen = do { n \<leftarrow> zLen Z z; Some (z, ZNum n) }"
| "zset_step Z z (ZGetRank m desc) = do { n \<leftarrow> zGetRank Z z m desc; Some (z, ZNum n) }"
| "zset_step Z z (ZRangeByRank i j desc) = do { xs \<leftarrow> zRangeByRank Z z i j desc; Some (z, ZPtrs xs) }"
| "zset_step Z z (ZRangeCount lo hi) = do { n \<leftarrow> zRangeCount Z z lo hi; Some (z, ZNum n) }"
| "zset_step Z z (ZRange lo hi offset limit desc) = do { xs \<leftarrow> zRange Z z lo hi offset limit desc; Some (z, ZEls xs) }"
| "zset_step Z z (ZRemoveRange lo hi) = do { (z', n) \<leftarrow> zRemoveRange Z z lo hi; Some (z', ZNum n) }"
| "zset_step Z z (ZRemoveByRank i j) = do { (z', n) \<leftarrow> zRemoveByRank Z z i j; Some (z', ZNum n) }"
| "zset_step Z z (ZPopMin n) = do { (z', xs) \<leftarrow> zPopMin Z z n; Some (z', ZEls xs) }"

fun zset_run :: "('z, 's) ZSet \<Rightarrow> 'z \<Rightarrow> 's zset_op list \<Rightarrow> ('z \<times> 's zset_res list) option" where
  "zset_run Z z [] = Some (z, [])"
| "zset_run Z z (op # ops) =
     do { (z1, r) \<leftarrow> zset_step Z z op; (z2, rs) \<leftarrow> zset_run Z z1 ops; Some (z2, r # rs) }"

text \<open>
  The relation \<open>rep z es\<close>: the set \<open>z\<close> holds the elements \<open>es\<close>. The contract covers the calls that
  satisfy \<open>ok\<close>.
\<close>

locale zset_impl =
  fixes Z :: "('z, 's::linorder) ZSet"
    and rep :: "'z \<Rightarrow> 's element list \<Rightarrow> bool"
    and ok :: "'s zset_op \<Rightarrow> bool"
  assumes step: "rep z es \<Longrightarrow> ok op \<Longrightarrow> zref_step es op = Some (es', r) \<Longrightarrow> \<exists>z'. zset_step Z z op = Some (z', r) \<and> rep z' es'"
    and sorted: "rep z es \<Longrightarrow> zsorted es"
begin

text \<open>Every program that the sorted list can run returns, without a panic, the results of the list.\<close>

lemma run_refines:
  assumes "rep z es" "list_all ok ops" "zref_run es ops = Some (es', rs)"
  shows "\<exists>z'. zset_run Z z ops = Some (z', rs) \<and> rep z' es'"
  using assms
proof (induction ops arbitrary: z es rs)
  case (Cons op ops)
  obtain es1 r rs' where s: "zref_step es op = Some (es1, r)" "zref_run es1 ops = Some (es', rs')" "rs = r # rs'"
    using Cons.prems(3) by (auto split: bind_splits)
  obtain z1 where "zset_step Z z op = Some (z1, r)" "rep z1 es1" using step [OF Cons.prems(1) _ s(1)] Cons.prems(2) by auto
  then show ?case using Cons.IH [of z1 es1 rs'] Cons.prems(2) s by auto
qed simp

text \<open>The order is never lost, and no member is held twice.\<close>

lemma run_sorted:
  assumes "rep z es" "list_all ok ops" "zref_run es ops = Some (es', rs)"
  shows "zsorted es'"
  using run_refines [OF assms] sorted by blast

end

end
