(* ===== verification/SkipOps.thy ===== *)
theory SkipOps
  imports SkipList ZApi
begin

text \<open>
  What the operations of \<^verbatim>\<open>skiplist.go\<close> compute on a skip list that holds the towers \<open>xs\<close>: each of
  them reads or changes that list and never panics.
\<close>

section \<open>Where a descent stops\<close>

lemma stop_next:
  assumes "towers sl (xs @ ys)"
  shows "\<exists>l. get_level (sl_heap sl) (fst (stop_at sl xs 0)) 0 = Some l \<and> lv_forward l = headp ys"
proof -
  have "\<forall>x \<in> set xs. 1 \<le> tw_ht x" using towersD(5) [OF assms] by simp
  then have s: "fst (stop_at sl xs 0) = (if xs = [] then sl_header sl else fst (last xs))" using stop_at_0 [of xs sl] by simp
  show ?thesis
  proof (cases xs rule: rev_cases)
    case Nil
    then show ?thesis using towers_header(1) [OF assms] s by simp
  next
    case (snoc zs x)
    then show ?thesis using towers_at(2) [of sl zs x ys] assms s by simp
  qed
qed

lemma stop_upd0: "towers sl zs \<Longrightarrow> stops sl xs (sl_level sl) ! 0 = (fst (stop_at sl xs 0), int (snd (stop_at sl xs 0)))"
  using towersD(6) [of sl zs] by simp

lemma stop_cases:
  obtains "stop_at sl xs i = (sl_header sl, 0)" | j where "j < length xs" "stop_at sl xs i = (fst (xs ! j), Suc j)"
proof (cases "stop_at sl xs i = (sl_header sl, 0)")
  case False
  then have "(fst (stop_at sl xs i), snd (stop_at sl xs i)) \<in> set (lv i 1 xs)" using stop_at_mem [of sl xs i] by auto
  from lv_mem [OF this] show thesis using that(2) by (auto simp: prod_eq_iff)
qed (rule that)

lemma stop_node:
  assumes "towers sl (xs @ ys)"
  obtains nd where "sl_heap sl (fst (stop_at sl xs i)) = Some nd" "snd (stop_at sl xs i) = 0" "fst (stop_at sl xs i) = sl_header sl"
      "el_member (sn_elem nd) = []"
  | nd j where "sl_heap sl (fst (stop_at sl xs i)) = Some nd" "snd (stop_at sl xs i) = Suc j" "j < length xs"
      "sn_elem nd = tw_el (xs ! j)" "fst (stop_at sl xs i) = fst (xs ! j)"
proof (cases rule: stop_cases [of sl xs i])
  case 1
  then show thesis using towers_header(2) [OF assms] that(1) by auto
next
  case (2 j)
  have "xs ! j = (xs @ ys) ! j" using 2(1) by (simp add: nth_append)
  moreover have "xs @ ys = take j (xs @ ys) @ (xs @ ys) ! j # drop (Suc j) (xs @ ys)" using 2(1) by (intro id_take_nth_drop) simp
  then obtain nd where "sl_heap sl (fst ((xs @ ys) ! j)) = Some nd" "sn_elem nd = tw_el ((xs @ ys) ! j)"
    using towers_at(3) assms by metis
  ultimately show thesis using 2 by (intro that(2) [of nd j]) simp_all
qed

section \<open>Removal of one element\<close>

lemma sl_remove_towers:
  assumes "towers sl (xs @ ys)" "cut (\<lambda>e _. el_less score member e) xs ys"
  shows "(\<exists>y zs sl'. ys = y # zs \<and> tw_el y = \<lparr>el_member = member, el_score = score\<rparr> \<and>
      sl_remove sl member score = Some (sl', True) \<and> sl_header sl' = sl_header sl \<and> towers sl' (xs @ zs)) \<or>
    (ys = [] \<or> tw_el (hd ys) \<noteq> \<lparr>el_member = member, el_score = score\<rparr>) \<and> sl_remove sl member score = Some (sl, False)"
proof -
  let ?u = "stops sl xs (sl_level sl)"
  obtain l where l: "get_level (sl_heap sl) (fst (?u ! 0)) 0 = Some l" "lv_forward l = headp ys"
    using stop_next [OF assms(1)] stop_upd0 [OF assms(1)] by auto
  have eq: "sl_remove sl member score = (case headp ys of None \<Rightarrow> Some (sl, False)
      | Some n \<Rightarrow> do { nd \<leftarrow> sl_heap sl n;
          if score = el_score (sn_elem nd) \<and> el_member (sn_elem nd) = member
          then do { sl' \<leftarrow> sl_removeNode sl n ?u; Some (sl', True) } else Some (sl, False) })"
    using descend_stops [OF assms] l by (simp add: sl_remove_def)
  show ?thesis
  proof (cases ys)
    case Nil
    then show ?thesis using eq by (simp add: headp_def)
  next
    case (Cons y zs)
    have t: "towers sl (xs @ y # zs)" using assms(1) Cons by simp
    obtain nd where nd: "sl_heap sl (fst y) = Some nd" "sn_elem nd = tw_el y" using towers_at(3) [OF t] by blast
    obtain sl' where sl': "sl_removeNode sl (fst y) ?u = Some sl'" "towers sl' (xs @ zs)" "sl_header sl' = sl_header sl"
      using sl_removeNode_towers [OF t, of ?u] by auto
    show ?thesis
    proof (cases "tw_el y = \<lparr>el_member = member, el_score = score\<rparr>")
      case True
      then show ?thesis using eq Cons nd sl' by (simp add: headp_def)
    next
      case False
      then have "\<not> (score = el_score (tw_el y) \<and> el_member (tw_el y) = member)" by auto
      then show ?thesis using eq Cons nd False by (auto simp: headp_def)
    qed
  qed
qed

section \<open>Ranks\<close>

lemma step_towers:
  assumes "towers sl (xs @ ys)" "cut c xs ys" "Suc k \<le> sl_level sl"
    "(a, p) = (sl_header sl, 0) \<or> (a, p) = stop_at sl xs (Suc k)"
  shows "advance c (sl_heap sl) k a (int p) = Some (fst (stop_at sl xs k), int (snd (stop_at sl xs k)))"
proof -
  have "(a, p) \<in> set ((sl_header sl, 0) # lv k 1 xs)"
    using assms(4) stop_at_mem [of sl xs "Suc k"] lv_mono [of k 1 xs] by auto
  then show ?thesis using advance_towers [OF assms(1,2)] assms(3) by simp
qed

lemma getRank_loop_towers:
  assumes "towers sl (xs @ ys)" "cut (\<lambda>e _. el_le score member e) xs ys" "member \<noteq> []"
    and "\<And>j. j < length xs \<Longrightarrow> el_member (tw_el (xs ! j)) = member \<Longrightarrow> Suc j = R"
    and "k \<le> sl_level sl" "(a, p) = (sl_header sl, 0) \<or> (a, p) = stop_at sl xs k"
  shows "getRank_loop (sl_heap sl) member score k a (int p) =
    Some (if \<exists>i < k. \<exists>j. snd (stop_at sl xs i) = Suc j \<and> el_member (tw_el (xs ! j)) = member then int R else 0)"
  using assms(5,6)
proof (induction k arbitrary: a p)
  case (Suc k)
  let ?hit = "\<lambda>i. \<exists>j. snd (stop_at sl xs i) = Suc j \<and> el_member (tw_el (xs ! j)) = member"
  have ex: "(\<exists>i < Suc k. ?hit i) \<longleftrightarrow> ?hit k \<or> (\<exists>i < k. ?hit i)" by (auto simp: less_Suc_eq)
  note adv = step_towers [OF assms(1,2) Suc.prems]
  note IH = Suc.IH [of "fst (stop_at sl xs k)" "snd (stop_at sl xs k)", OF Suc_leD [OF Suc.prems(1)] disjI2 [OF prod.collapse]]
  show ?case
  proof (cases rule: stop_node [OF assms(1), of k])
    case (1 nd)
    then have "\<not> ?hit k" by simp
    then show ?thesis using adv IH 1 assms(3) unfolding ex by simp
  next
    case (2 nd j)
    show ?thesis
    proof (cases "el_member (tw_el (xs ! j)) = member")
      case True
      then have "?hit k" "snd (stop_at sl xs k) = R" using 2(2) assms(4) [OF 2(3)] by blast+
      then show ?thesis using adv 2 True unfolding ex by simp
    next
      case False
      then have "\<not> ?hit k" using 2 by simp
      then show ?thesis using adv IH 2 False unfolding ex by simp
    qed
  qed
qed simp

lemma sl_getRank_absent:
  assumes "towers sl (xs @ ys)" "cut (\<lambda>e _. el_le score member e) xs ys" "member \<noteq> []"
    "\<forall>x \<in> set xs. el_member (tw_el x) \<noteq> member"
  shows "sl_getRank sl member score = Some 0"
proof -
  have "\<not> (snd (stop_at sl xs i) = Suc j \<and> el_member (tw_el (xs ! j)) = member)" for i j
    using assms(4) by (cases rule: stop_cases [of sl xs i]) auto
  then show ?thesis
    using getRank_loop_towers [OF assms(1-3), of 0 "sl_level sl" "sl_header sl" 0] assms(4) by (simp add: sl_getRank_def)
qed

lemma sl_getRank_present:
  assumes "towers sl ((zs @ [x]) @ ys)" "cut (\<lambda>e _. el_le score member e) (zs @ [x]) ys" "member \<noteq> []"
    "\<forall>z \<in> set zs. el_member (tw_el z) \<noteq> member" "el_member (tw_el x) = member"
  shows "sl_getRank sl member score = Some (int (length zs) + 1)"
proof -
  have "\<forall>z \<in> set (zs @ [x]). 1 \<le> tw_ht z" using towersD(5) [OF assms(1)] by simp
  then have "snd (stop_at sl (zs @ [x]) 0) = Suc (length zs)" using stop_at_0 [of "zs @ [x]" sl] by simp
  then have hit: "\<exists>i < sl_level sl. \<exists>j. snd (stop_at sl (zs @ [x]) i) = Suc j \<and> el_member (tw_el ((zs @ [x]) ! j)) = member"
    using towersD(6) [OF assms(1)] assms(5) by (intro exI [of _ 0] conjI exI [of _ "length zs"]) simp_all
  have "Suc j = Suc (length zs)" if "j < length (zs @ [x])" "el_member (tw_el ((zs @ [x]) ! j)) = member" for j
    using that assms(4) by (cases "j < length zs") (auto simp: nth_append)
  from getRank_loop_towers [OF assms(1-3) this order_refl, of "sl_header sl" 0] show ?thesis
    unfolding sl_getRank_def if_P [OF hit] by simp
qed

lemma getByRank_loop_towers:
  assumes "towers sl (xs @ ys)" "cut (\<lambda>e r. r \<le> rank) xs ys"
    and "\<And>i. int (snd (stop_at sl xs i)) = rank \<Longrightarrow> fst (stop_at sl xs i) = R"
    and "k \<le> sl_level sl" "(a, p) = (sl_header sl, 0) \<or> (a, p) = stop_at sl xs k"
  shows "getByRank_loop (sl_heap sl) rank k a (int p) =
    Some (if \<exists>i < k. int (snd (stop_at sl xs i)) = rank then Some R else None)"
  using assms(4,5)
proof (induction k arbitrary: a p)
  case (Suc k)
  show ?case
    using step_towers [OF assms(1,2) Suc.prems] assms(3) [of k] Suc.prems(1)
      Suc.IH [of "fst (stop_at sl xs k)" "snd (stop_at sl xs k)"] by (auto simp: less_Suc_eq)
qed simp

lemma sl_getByRank_towers:
  assumes "towers sl zs"
  shows "sl_getByRank sl rank = Some (if rank = 0 then Some (sl_header sl)
    else if 0 < rank \<and> rank \<le> int (length zs) then Some (fst (zs ! nat (rank - 1))) else None)" (is "_ = Some ?R")
proof -
  let ?n = "nat rank"
  let ?xs = "take ?n zs" and ?ys = "drop ?n zs"
  have t: "towers sl (?xs @ ?ys)" using assms by simp
  have c: "cut (\<lambda>e r. r \<le> rank) ?xs ?ys" by (auto simp: cut_def)
  have "\<forall>x \<in> set ?xs. 1 \<le> tw_ht x" using towersD(5) [OF assms] in_set_takeD [of _ ?n zs] by blast
  then have s0: "snd (stop_at sl ?xs 0) = length ?xs" using stop_at_0 [of ?xs sl] by simp
  have at: "fst (stop_at sl ?xs i) = the ?R" if r: "int (snd (stop_at sl ?xs i)) = rank" for i
    using r by (cases rule: stop_cases [of sl ?xs i]) auto
  have "(\<exists>i < sl_level sl. int (snd (stop_at sl ?xs i)) = rank) \<longleftrightarrow> ?R \<noteq> None"
  proof
    assume "\<exists>i < sl_level sl. int (snd (stop_at sl ?xs i)) = rank"
    then obtain i where "int (snd (stop_at sl ?xs i)) = rank" by blast
    then show "?R \<noteq> None" by (cases rule: stop_cases [of sl ?xs i]) auto
  next
    assume "?R \<noteq> None"
    then have "int (snd (stop_at sl ?xs 0)) = rank" unfolding s0 by (auto split: if_splits)
    then show "\<exists>i < sl_level sl. int (snd (stop_at sl ?xs i)) = rank"
      using towersD(6) [OF assms] by (intro exI [of _ 0]) simp
  qed
  then show ?thesis
    using getByRank_loop_towers [OF t c at order_refl, of "sl_header sl" 0] unfolding sl_getByRank_def by simp
qed

section \<open>Ranges\<close>

text \<open>
  The elements are ordered for the borders: once one is above the lower border, so are the ones
  after it, and the ones before an element below the upper border are below it too. Elements in order of their
  scores are ordered for every border of scores; for borders of members, the scores must be equal.
\<close>

definition ordered_for :: "'s::linorder border \<Rightarrow> 's border \<Rightarrow> 's tower list \<Rightarrow> bool" where
  "ordered_for lo hi zs \<longleftrightarrow> sorted_wrt (\<lambda>x y. \<not> b_less lo (tw_el y) \<longrightarrow> \<not> b_less lo (tw_el x)) zs \<and>
     sorted_wrt (\<lambda>x y. b_greater hi (tw_el y) \<longrightarrow> b_greater hi (tw_el x)) zs"

abbreviation hits :: "'s::linorder border \<Rightarrow> 's border \<Rightarrow> 's tower list \<Rightarrow> 's tower list" where
  "hits lo hi \<equiv> filter (\<lambda>x. in_range lo hi (tw_el x))"

lemma filter_takeWhile:
  assumes "sorted_wrt (\<lambda>x y. P y \<longrightarrow> P x) zs"
  shows "filter P zs = takeWhile P zs" "filter (\<lambda>x. \<not> P x) zs = dropWhile P zs"
proof -
  have "filter P (dropWhile P zs) = []" unfolding filter_empty_conv by (rule dropWhile_none [OF assms])
  moreover have "filter P (takeWhile P zs) = takeWhile P zs" unfolding filter_id_conv by (blast dest: set_takeWhileD)
  ultimately show "filter P zs = takeWhile P zs" using takeWhile_dropWhile_id [of P zs] by (metis append_Nil2 filter_append)
  have "filter (\<lambda>x. \<not> P x) (dropWhile P zs) = dropWhile P zs" unfolding filter_id_conv by (rule dropWhile_none [OF assms])
  moreover have "filter (\<lambda>x. \<not> P x) (takeWhile P zs) = []" unfolding filter_empty_conv by (blast dest: set_takeWhileD)
  ultimately show "filter (\<lambda>x. \<not> P x) zs = dropWhile P zs"
    using takeWhile_dropWhile_id [of P zs] by (metis append_Nil filter_append)
qed

lemma sorted_wrt_filterI: "sorted_wrt R zs \<Longrightarrow> sorted_wrt R (filter P zs)"
  by (induction zs) auto

lemma hits_alt:
  assumes "ordered_for lo hi zs"
  shows "hits lo hi zs = takeWhile (\<lambda>x. b_greater hi (tw_el x)) (dropWhile (\<lambda>x. \<not> b_less lo (tw_el x)) zs)"
    "hits lo hi zs = dropWhile (\<lambda>x. \<not> b_less lo (tw_el x)) (takeWhile (\<lambda>x. b_greater hi (tw_el x)) zs)"
proof -
  let ?L = "\<lambda>x. \<not> b_less lo (tw_el x)" and ?G = "\<lambda>x. b_greater hi (tw_el x)"
  have L: "filter (\<lambda>x. \<not> ?L x) ws = dropWhile ?L ws" if "sorted_wrt (\<lambda>x y. ?L y \<longrightarrow> ?L x) ws" for ws
    by (rule filter_takeWhile(2) [OF that])
  have G: "filter ?G ws = takeWhile ?G ws" if "sorted_wrt (\<lambda>x y. ?G y \<longrightarrow> ?G x) ws" for ws
    by (rule filter_takeWhile(1) [OF that])
  have s: "sorted_wrt (\<lambda>x y. ?L y \<longrightarrow> ?L x) zs" "sorted_wrt (\<lambda>x y. ?G y \<longrightarrow> ?G x) zs"
    using assms unfolding ordered_for_def by blast+
  have "hits lo hi zs = filter ?G (filter (\<lambda>x. \<not> ?L x) zs)" "hits lo hi zs = filter (\<lambda>x. \<not> ?L x) (filter ?G zs)"
    by (auto simp: in_range_def conj_commute intro!: filter_cong)
  then show "hits lo hi zs = takeWhile ?G (dropWhile ?L zs)" "hits lo hi zs = dropWhile ?L (takeWhile ?G zs)"
    using L [OF s(1)] G [OF s(2)] G [OF sorted_wrt_filterI [OF s(2)]] L [OF sorted_wrt_filterI [OF s(1)]] by metis+
qed

lemma towers_last: "towers sl zs \<Longrightarrow> zs \<noteq> [] \<Longrightarrow> \<exists>nd. sl_tail sl = Some (fst (last zs)) \<and> sl_heap sl (fst (last zs)) = Some nd \<and> sn_elem nd = tw_el (last zs)"
  using towersD(8) [of sl zs] towers_at(3) [of sl "butlast zs" "last zs" "[]"] by (auto simp: lastp_def)

lemma towers_first: "towers sl zs \<Longrightarrow> zs \<noteq> [] \<Longrightarrow> \<exists>nd. sl_heap sl (fst (hd zs)) = Some nd \<and> sn_elem nd = tw_el (hd zs)"
  using towers_at(3) [of sl "[]" "hd zs" "tl zs"] by auto

lemma sl_hasInRange_towers:
  assumes "towers sl zs" "isIntersected lo hi = Some x"
  shows "sl_hasInRange sl lo hi = Some (\<not> x \<and> zs \<noteq> [] \<and> b_less lo (tw_el (last zs)) \<and> b_greater hi (tw_el (hd zs)))"
proof (cases "zs = []")
  case True
  then show ?thesis using assms(2) towersD(8) [OF assms(1)] by (simp add: sl_hasInRange_def lastp_def)
next
  case False
  obtain l where "get_level (sl_heap sl) (sl_header sl) 0 = Some l" "lv_forward l = headp zs" using towers_header(1) [OF assms(1)] by blast
  moreover have "headp zs = Some (fst (hd zs))" using False by (cases zs) (simp_all add: headp_def)
  ultimately show ?thesis
    using towers_last [OF assms(1) False] towers_first [OF assms(1) False] False assms(2) by (auto simp: sl_hasInRange_def)
qed

lemma hits_none:
  assumes "ordered_for lo hi zs" "\<not> (zs \<noteq> [] \<and> b_less lo (tw_el (last zs)) \<and> b_greater hi (tw_el (hd zs)))"
  shows "hits lo hi zs = []"
proof -
  consider "zs = []" | "zs \<noteq> []" "\<not> b_less lo (tw_el (last zs))" | "zs \<noteq> []" "\<not> b_greater hi (tw_el (hd zs))" using assms(2) by blast
  then show ?thesis
  proof cases
    case 2
    then have zs: "zs = butlast zs @ [last zs]" by simp
    have "sorted_wrt (\<lambda>x y. \<not> b_less lo (tw_el y) \<longrightarrow> \<not> b_less lo (tw_el x)) (butlast zs @ [last zs])"
      using assms(1) zs unfolding ordered_for_def by metis
    then have "\<forall>y \<in> set (butlast zs @ [last zs]). \<not> b_less lo (tw_el y)" using 2(2) unfolding sorted_wrt_append by auto
    then show ?thesis using zs by (metis (no_types, lifting) filter_False in_range_def)
  next
    case 3
    then have "takeWhile (\<lambda>x. b_greater hi (tw_el x)) zs = []" by (cases zs) auto
    then show ?thesis using hits_alt(2) [OF assms(1)] by simp
  qed simp
qed

lemma sl_getFirstInRange_towers:
  assumes "towers sl zs" "isIntersected lo hi = Some x" "ordered_for lo hi zs"
  shows "sl_getFirstInRange sl lo hi = Some (if x then None else headp (hits lo hi zs))"
proof (cases "\<not> x \<and> zs \<noteq> [] \<and> b_less lo (tw_el (last zs)) \<and> b_greater hi (tw_el (hd zs))")
  case True
  let ?L = "\<lambda>x. \<not> b_less lo (tw_el x)"
  let ?xs = "takeWhile ?L zs" and ?ys = "dropWhile ?L zs"
  have t: "towers sl (?xs @ ?ys)" using assms(1) by simp
  have c: "cut (\<lambda>e _. \<not> b_less lo e) ?xs ?ys" using assms(3) unfolding ordered_for_def by (intro cut_takeWhile) blast
  obtain l where l: "get_level (sl_heap sl) (fst (stop_at sl ?xs 0)) 0 = Some l" "lv_forward l = headp ?ys" using stop_next [OF t] by blast
  have "?ys \<noteq> []" using True last_in_set [of zs] by (auto simp: dropWhile_eq_Nil_conv)
  then obtain y ys where ys: "?ys = y # ys" by (cases ?ys) auto
  obtain nd where "sl_heap sl (fst y) = Some nd" "sn_elem nd = tw_el y" using towers_at(3) [of sl ?xs y ys] t ys by auto
  moreover have "headp (hits lo hi zs) = (if b_greater hi (tw_el y) then Some (fst y) else None)"
    unfolding hits_alt(1) [OF assms(3)] ys by (simp add: headp_def)
  ultimately show ?thesis
    using sl_hasInRange_towers [OF assms(1,2)] True descend_stops [OF t c] stop_upd0 [OF assms(1), of ?xs] l ys
    by (simp add: sl_getFirstInRange_def headp_def)
next
  case False
  then have "\<not> x \<Longrightarrow> hits lo hi zs = []" using hits_none [OF assms(3)] by blast
  then show ?thesis using sl_hasInRange_towers [OF assms(1,2)] False by (auto simp: sl_getFirstInRange_def headp_def)
qed

lemma last_dropWhile:
  assumes "ws \<noteq> []" "sorted_wrt (\<lambda>x y. L y \<longrightarrow> L x) ws"
  shows "if L (last ws) then dropWhile L ws = [] else dropWhile L ws \<noteq> [] \<and> last (dropWhile L ws) = last ws"
proof (cases ws rule: rev_cases)
  case (snoc vs w)
  then have "\<forall>v \<in> set vs. L w \<longrightarrow> L v" using assms(2) by (simp add: sorted_wrt_append)
  then show ?thesis unfolding snoc by (cases "L w") (simp_all add: dropWhile_append dropWhile_eq_Nil_conv)
qed (use assms(1) in simp)

lemma sl_getLastInRange_towers:
  assumes "towers sl zs" "isIntersected lo hi = Some x" "ordered_for lo hi zs"
  shows "sl_getLastInRange sl lo hi = Some (if x then None else lastp (hits lo hi zs) None)"
proof (cases "\<not> x \<and> zs \<noteq> [] \<and> b_less lo (tw_el (last zs)) \<and> b_greater hi (tw_el (hd zs))")
  case True
  let ?L = "\<lambda>x. \<not> b_less lo (tw_el x)" and ?G = "\<lambda>x. b_greater hi (tw_el x)"
  let ?xs = "takeWhile ?G zs" and ?ys = "dropWhile ?G zs"
  have t: "towers sl (?xs @ ?ys)" using assms(1) by simp
  have c: "cut (\<lambda>e _. b_greater hi e) ?xs ?ys" using assms(3) unfolding ordered_for_def by (intro cut_takeWhile) blast
  have ne: "?xs \<noteq> []" using True by (cases zs) auto
  have "\<forall>x \<in> set ?xs. 1 \<le> tw_ht x" using towersD(5) [OF assms(1)] set_takeWhileD by fast
  then have u: "fst (stop_at sl ?xs 0) = fst (last ?xs)" using stop_at_0 [of ?xs sl] ne by simp
  have xs: "?xs = butlast ?xs @ [last ?xs]" using ne by simp
  then obtain nd where "sl_heap sl (fst (last ?xs)) = Some nd" "sn_elem nd = tw_el (last ?xs)"
    using towers_at(3) [of sl "butlast ?xs" "last ?xs" ?ys] t by (metis append_assoc append_Cons append_Nil)
  moreover have "lastp (hits lo hi zs) None = (if b_less lo (tw_el (last ?xs)) then Some (fst (last ?xs)) else None)"
  proof -
    have "sorted_wrt (\<lambda>x y. ?L y \<longrightarrow> ?L x) ?xs"
      using sorted_wrt_take [OF assms(3) [unfolded ordered_for_def, THEN conjunct1], of "length ?xs"] takeWhile_eq_take [of ?G zs]
      by (simp only:)
    from last_dropWhile [OF ne this] show ?thesis unfolding hits_alt(2) [OF assms(3)] by (simp add: lastp_def split: if_splits)
  qed
  ultimately show ?thesis
    using sl_hasInRange_towers [OF assms(1,2)] True descend_stops [OF t c] stop_upd0 [OF assms(1), of ?xs] u
    by (simp add: sl_getLastInRange_def)
next
  case False
  then have "\<not> x \<Longrightarrow> hits lo hi zs = []" using hits_none [OF assms(3)] by blast
  then show ?thesis using sl_hasInRange_towers [OF assms(1,2)] False by (auto simp: sl_getLastInRange_def lastp_def)
qed

section \<open>Removal of ranges\<close>

text \<open>The loops remove the towers that follow \<open>xs\<close> one by one, with the update array of the descent.\<close>

definition upd_for :: "'s skiplist \<Rightarrow> 's tower list \<Rightarrow> (nat \<times> int) list \<Rightarrow> bool" where
  "upd_for sl xs upd \<longleftrightarrow> (\<forall>i < sl_level sl. fst (upd ! i) = fst (stop_at sl xs i))"

lemma remove_next:
  assumes "towers sl (xs @ y # ys)" "upd_for sl xs upd"
  obtains sl' nd l where "sl_removeNode sl (fst y) upd = Some sl'" "towers sl' (xs @ ys)" "upd_for sl' xs upd"
    "sl_heap sl (fst y) = Some nd" "sn_elem nd = tw_el y" "get_level (sl_heap sl) (fst y) 0 = Some l" "lv_forward l = headp ys"
proof -
  obtain sl' where "sl_removeNode sl (fst y) upd = Some sl'" "towers sl' (xs @ ys)" "sl_header sl' = sl_header sl" "sl_level sl' \<le> sl_level sl"
    using sl_removeNode_towers [OF assms(1)] assms(2) unfolding upd_for_def by blast
  moreover have "upd_for sl' xs upd" using calculation assms(2) by (simp add: upd_for_def stop_at_def)
  moreover obtain nd where "sl_heap sl (fst y) = Some nd" "sn_elem nd = tw_el y" using towers_at(3) [OF assms(1)] by blast
  moreover obtain l where "get_level (sl_heap sl) (fst y) 0 = Some l" "lv_forward l = headp ys" using towers_at(2) [OF assms(1)] by blast
  ultimately show thesis by (intro that)
qed

lemma removeRange_loop_towers:
  assumes "towers sl (xs @ ys)" "upd_for sl xs upd" "0 < limit \<Longrightarrow> int (length rm) < limit"
  shows "\<exists>sl' R. removeRange_loop hi limit upd sl (headp ys) rm = Some (sl', rm @ map tw_el R) \<and> towers sl' (xs @ drop (length R) ys) \<and>
    R = (if 0 < limit then take (nat limit - length rm) else id) (takeWhile (\<lambda>x. b_greater hi (tw_el x)) ys)"
  using assms
proof (induction ys arbitrary: sl rm)
  case Nil
  then show ?case by (subst removeRange_loop.simps) (simp add: headp_def)
next
  case (Cons y ys)
  obtain sl1 nd l where d: "sl_removeNode sl (fst y) upd = Some sl1" "towers sl1 (xs @ ys)" "upd_for sl1 xs upd"
    "sl_heap sl (fst y) = Some nd" "sn_elem nd = tw_el y" "get_level (sl_heap sl) (fst y) 0 = Some l" "lv_forward l = headp ys"
    using remove_next [OF Cons.prems(1,2)] by metis
  have h: "headp (y # ys) = Some (fst y)" by (simp add: headp_def)
  show ?case
  proof (cases "b_greater hi (tw_el y)")
    case False
    then show ?thesis using d Cons.prems(1) h by (subst removeRange_loop.simps) simp
  next
    case g: True
    show ?thesis
    proof (cases "0 < limit \<and> int (length (rm @ [tw_el y])) = limit")
      case True
      then have "nat limit - length rm = 1" by auto
      then show ?thesis using d g h True by (subst removeRange_loop.simps) (auto simp: take_Suc_conv_app_nth)
    next
      case False
      then have lim: "0 < limit \<Longrightarrow> int (length (rm @ [tw_el y])) < limit" using Cons.prems(3) by auto
      obtain sl' R where "removeRange_loop hi limit upd sl1 (headp ys) (rm @ [tw_el y]) = Some (sl', (rm @ [tw_el y]) @ map tw_el R)"
          "towers sl' (xs @ drop (length R) ys)"
          "R = (if 0 < limit then take (nat limit - length (rm @ [tw_el y])) else id) (takeWhile (\<lambda>x. b_greater hi (tw_el x)) ys)"
        using Cons.IH [OF d(2,3) lim] by metis
      moreover have "nat limit - length rm = Suc (nat limit - length (rm @ [tw_el y]))" if "0 < limit" using lim [OF that] by simp
      ultimately show ?thesis using d g h False by (intro exI [of _ sl'] exI [of _ "y # R"], subst removeRange_loop.simps) auto
    qed
  qed
qed

lemma sl_removeRange_towers:
  assumes "towers sl zs" "sorted_wrt (\<lambda>x y. \<not> b_less lo (tw_el y) \<longrightarrow> \<not> b_less lo (tw_el x)) zs"
  shows "\<exists>sl' R. sl_removeRange sl lo hi limit = Some (sl', map tw_el R) \<and>
    towers sl' (takeWhile (\<lambda>x. \<not> b_less lo (tw_el x)) zs @ drop (length R) (dropWhile (\<lambda>x. \<not> b_less lo (tw_el x)) zs)) \<and>
    R = (if 0 < limit then take (nat limit) else id)
          (takeWhile (\<lambda>x. b_greater hi (tw_el x)) (dropWhile (\<lambda>x. \<not> b_less lo (tw_el x)) zs))"
proof -
  let ?L = "\<lambda>x. \<not> b_less lo (tw_el x)"
  let ?xs = "takeWhile ?L zs" and ?ys = "dropWhile ?L zs"
  have t: "towers sl (?xs @ ?ys)" using assms(1) by simp
  have c: "cut (\<lambda>e _. \<not> b_less lo e) ?xs ?ys" using assms(2) by (rule cut_takeWhile)
  obtain l where l: "get_level (sl_heap sl) (fst (stop_at sl ?xs 0)) 0 = Some l" "lv_forward l = headp ?ys" using stop_next [OF t] by blast
  have u: "upd_for sl ?xs (stops sl ?xs (sl_level sl))" by (simp add: upd_for_def)
  have "sl_removeRange sl lo hi limit = removeRange_loop hi limit (stops sl ?xs (sl_level sl)) sl (headp ?ys) []"
    using descend_stops [OF t c] l stop_upd0 [OF assms(1), of ?xs] by (simp add: sl_removeRange_def)
  then show ?thesis using removeRange_loop_towers [OF t u, of limit "[]" hi] by (simp only: append_Nil list.size diff_zero)
qed

lemma removeRank_loop_towers:
  assumes "towers sl (xs @ ys)" "upd_for sl xs upd"
  shows "\<exists>sl'. removeRank_loop stop upd sl (headp ys) i rm = Some (sl', rm @ map tw_el (take (nat (stop - i)) ys)) \<and>
    towers sl' (xs @ drop (nat (stop - i)) ys)"
  using assms
proof (induction ys arbitrary: sl i rm)
  case Nil
  then show ?case by (subst removeRank_loop.simps) (simp add: headp_def)
next
  case (Cons y ys)
  obtain sl1 nd l where d: "sl_removeNode sl (fst y) upd = Some sl1" "towers sl1 (xs @ ys)" "upd_for sl1 xs upd"
    "sl_heap sl (fst y) = Some nd" "sn_elem nd = tw_el y" "get_level (sl_heap sl) (fst y) 0 = Some l" "lv_forward l = headp ys"
    using remove_next [OF Cons.prems] by metis
  have h: "headp (y # ys) = Some (fst y)" by (simp add: headp_def)
  show ?case
  proof (cases "i < stop")
    case True
    then have "nat (stop - i) = Suc (nat (stop - (i + 1)))" by simp
    then show ?thesis using Cons.IH [OF d(2,3), of "i + 1" "rm @ [tw_el y]"] d True h by (subst removeRank_loop.simps) simp
  next
    case False
    then show ?thesis using Cons.prems(1) h by (subst removeRank_loop.simps) simp
  qed
qed

lemma sl_removeRangeByRank_towers:
  assumes "towers sl zs"
  shows "\<exists>sl'. let k = min (nat (start - 1)) (length zs); n = nat (stop - 1) - k in
    sl_removeRangeByRank sl start stop = Some (sl', map tw_el (take n (drop k zs))) \<and> towers sl' (take k zs @ drop (k + n) zs)"
proof -
  let ?k = "min (nat (start - 1)) (length zs)"
  let ?xs = "take ?k zs" and ?ys = "drop ?k zs"
  have t: "towers sl (?xs @ ?ys)" using assms(1) by simp
  have c: "cut (\<lambda>e r. r < start) ?xs ?ys" by (auto simp: cut_def)
  obtain l where l: "get_level (sl_heap sl) (fst (stop_at sl ?xs 0)) 0 = Some l" "lv_forward l = headp ?ys" using stop_next [OF t] by blast
  have u: "upd_for sl ?xs (stops sl ?xs (sl_level sl))" by (simp add: upd_for_def)
  have "\<forall>x \<in> set ?xs. 1 \<le> tw_ht x" using towersD(5) [OF assms] in_set_takeD [of _ ?k zs] by blast
  then have s: "snd (stop_at sl ?xs 0) = ?k" using stop_at_0 [of ?xs sl] by simp
  have n: "nat (stop - (int ?k + 1)) = nat (stop - 1) - ?k" by simp
  have "sl_removeRangeByRank sl start stop =
      removeRank_loop stop (stops sl ?xs (sl_level sl)) sl (headp ?ys) (int ?k + 1) []"
    using descend_stops [OF t c] l stop_upd0 [OF assms(1), of ?xs] unfolding s by (simp add: sl_removeRangeByRank_def)
  moreover obtain sl' where sl': "removeRank_loop stop (stops sl ?xs (sl_level sl)) sl (headp ?ys) (int ?k + 1) [] =
      Some (sl', map tw_el (take (nat (stop - 1) - ?k) ?ys))" "towers sl' (?xs @ drop (nat (stop - 1) - ?k) ?ys)"
    using removeRank_loop_towers [OF t u, of stop "int ?k + 1" "[]"] unfolding n by auto
  ultimately show ?thesis by (intro exI [of _ sl']) (simp add: Let_def add.commute)
qed

end
