(* ===== verification/SortedSet.thy ===== *)
theory SortedSet
  imports SkipOps SimpleDict Wildcard
begin

text \<open>
  The sorted set of \<^verbatim>\<open>internal/datastruct/sortedset/sortedset.go\<close>: a map from members to elements beside
  a skip list of the same elements. A callback is a function on the state it captures; a panic is
  \<open>None\<close>. The random number that an insertion draws is the argument \<open>r\<close>.
\<close>

record 's sortedSet =
  ss_dict :: "(string \<times> 's element) list"
  ss_skiplist :: "'s skiplist"

definition ss_make :: "'s::zero sortedSet" where
  "ss_make = \<lparr>ss_dict = [], ss_skiplist = makeSkiplist\<rparr>"

definition ss_add :: "nat \<Rightarrow> 's::linorder sortedSet \<Rightarrow> string \<Rightarrow> 's \<Rightarrow> ('s sortedSet \<times> bool) option" where
  "ss_add r s member score =
     (let d = gmap_set member \<lparr>el_member = member, el_score = score\<rparr> (ss_dict s) in
      case map_of (ss_dict s) member of
        Some e \<Rightarrow>
          if score \<noteq> el_score e then
            do { (sl1, _) \<leftarrow> sl_remove (ss_skiplist s) member (el_score e);
                 sl2 \<leftarrow> sl_insert r sl1 member score;
                 Some (\<lparr>ss_dict = d, ss_skiplist = sl2\<rparr>, False) }
          else Some (s\<lparr>ss_dict := d\<rparr>, False)
      | None \<Rightarrow>
          do { sl1 \<leftarrow> sl_insert r (ss_skiplist s) member score; Some (\<lparr>ss_dict = d, ss_skiplist = sl1\<rparr>, True) })"

definition ss_len :: "'s sortedSet \<Rightarrow> int" where
  "ss_len s = int (length (ss_dict s))"

definition ss_get :: "'s sortedSet \<Rightarrow> string \<Rightarrow> 's element option" where
  "ss_get s member = map_of (ss_dict s) member"

definition ss_remove :: "'s::linorder sortedSet \<Rightarrow> string \<Rightarrow> ('s sortedSet \<times> bool) option" where
  "ss_remove s member =
     (case map_of (ss_dict s) member of
        Some v \<Rightarrow>
          do { (sl, _) \<leftarrow> sl_remove (ss_skiplist s) member (el_score v);
               Some (\<lparr>ss_dict = gmap_delete member (ss_dict s), ss_skiplist = sl\<rparr>, True) }
      | None \<Rightarrow> Some (s, False))"

definition ss_getRank :: "'s::linorder sortedSet \<Rightarrow> string \<Rightarrow> bool \<Rightarrow> int option" where
  "ss_getRank s member desc =
     (case map_of (ss_dict s) member of
        None \<Rightarrow> Some (-1)
      | Some e \<Rightarrow>
          do { r \<leftarrow> sl_getRank (ss_skiplist s) member (el_score e);
               Some (if desc then sl_length (ss_skiplist s) - r else r - 1) })"

text \<open>The node that follows, or with \<open>desc\<close> the one before.\<close>

definition next_node :: "'s heap \<Rightarrow> bool \<Rightarrow> nat \<Rightarrow> nat option option" where
  "next_node h desc a =
     (if desc then do { nd \<leftarrow> h a; Some (sn_backward nd) } else do { l \<leftarrow> get_level h a 0; Some (lv_forward l) })"

text \<open>The loop of \<^verbatim>\<open>ForEachByRank\<close>, which visits a given number of nodes.\<close>

fun visit :: "'s heap \<Rightarrow> bool \<Rightarrow> nat \<Rightarrow> ('a \<Rightarrow> 's element \<Rightarrow> ('a \<times> bool) option) \<Rightarrow> nat option \<Rightarrow> 'a \<Rightarrow> 'a option" where
  "visit h desc 0 consumer p st = Some st"
| "visit h desc (Suc k) consumer p st =
     do { a \<leftarrow> p;
          nd \<leftarrow> h a;
          (st', go) \<leftarrow> consumer st (sn_elem nd);
          if \<not> go then Some st'
          else do { p' \<leftarrow> next_node h desc a; visit h desc k consumer p' st' } }"

definition ss_forEachByRank ::
  "'s sortedSet \<Rightarrow> int \<Rightarrow> int \<Rightarrow> bool \<Rightarrow> ('a \<Rightarrow> 's element \<Rightarrow> ('a \<times> bool) option) \<Rightarrow> 'a \<Rightarrow> 'a option" where
  "ss_forEachByRank s start stop desc consumer st =
     (let size = ss_len s; sl = ss_skiplist s in
      if start < 0 \<or> start \<ge> size then None
      else if stop < start \<or> stop > size then None
      else do { p \<leftarrow> (if desc then (if start > 0 then sl_getByRank sl (size - start) else Some (sl_tail sl))
                      else if start > 0 then sl_getByRank sl (start + 1)
                      else next_node (sl_heap sl) False (sl_header sl));
                visit (sl_heap sl) desc (nat (stop - start)) consumer p st })"

text \<open>The slice of pointers starts as nils; an assignment past its end panics.\<close>

definition ss_rangeByRank :: "'s sortedSet \<Rightarrow> int \<Rightarrow> int \<Rightarrow> bool \<Rightarrow> 's element option list option" where
  "ss_rangeByRank s start stop desc =
     (if stop - start < 0 then None
      else map_option fst
        (ss_forEachByRank s start stop desc
           (\<lambda>(slice, i) e. if i < length slice then Some ((slice[i := Some e], Suc i), True) else None)
           (replicate (nat (stop - start)) None, 0)))"

definition ss_rangeCount :: "'s::linorder sortedSet \<Rightarrow> 's border \<Rightarrow> 's border \<Rightarrow> int option" where
  "ss_rangeCount s lo hi =
     ss_forEachByRank s 0 (ss_len s) False
       (\<lambda>i e. Some (if \<not> b_less lo e then (i, True) else if \<not> b_greater hi e then (i, False) else (i + 1, True))) 0"

text \<open>The loop of \<^verbatim>\<open>ForEach\<close> that skips \<open>offset\<close> nodes, and the one that visits.\<close>

fun skip_nodes :: "'s heap \<Rightarrow> bool \<Rightarrow> nat \<Rightarrow> nat option \<Rightarrow> nat option option" where
  "skip_nodes h desc k None = Some None"
| "skip_nodes h desc 0 (Some a) = Some (Some a)"
| "skip_nodes h desc (Suc k) (Some a) = do { p \<leftarrow> next_node h desc a; skip_nodes h desc k p }"

partial_function (option) visit_range ::
  "'s::linorder heap \<Rightarrow> bool \<Rightarrow> 's border \<Rightarrow> 's border \<Rightarrow> int \<Rightarrow> ('a \<Rightarrow> 's element \<Rightarrow> ('a \<times> bool) option) \<Rightarrow> int \<Rightarrow> nat option \<Rightarrow> 'a \<Rightarrow> 'a option" where
  "visit_range h desc lo hi limit consumer i p st =
     (case p of
        None \<Rightarrow> Some st
      | Some a \<Rightarrow>
          if \<not> (i < limit \<or> limit < 0) then Some st
          else do { nd \<leftarrow> h a;
                    (st', go) \<leftarrow> consumer st (sn_elem nd);
                    if \<not> go then Some st'
                    else do { p' \<leftarrow> next_node h desc a;
                              (case p' of
                                 None \<Rightarrow> Some st'
                               | Some b \<Rightarrow>
                                   do { nb \<leftarrow> h b;
                                        if \<not> b_less lo (sn_elem nb) \<or> \<not> b_greater hi (sn_elem nb) then Some st'
                                        else visit_range h desc lo hi limit consumer (i + 1) p' st' }) } })"

definition ss_forEach ::
  "'s::linorder sortedSet \<Rightarrow> 's border \<Rightarrow> 's border \<Rightarrow> int \<Rightarrow> int \<Rightarrow> bool \<Rightarrow> ('a \<Rightarrow> 's element \<Rightarrow> ('a \<times> bool) option) \<Rightarrow> 'a \<Rightarrow> 'a option" where
  "ss_forEach s lo hi offset limit desc consumer st =
     (let sl = ss_skiplist s in
      do { p \<leftarrow> (if desc then sl_getLastInRange sl lo hi else sl_getFirstInRange sl lo hi);
           p' \<leftarrow> skip_nodes (sl_heap sl) desc (nat offset) p;
           visit_range (sl_heap sl) desc lo hi limit consumer 0 p' st })"

definition ss_range ::
  "'s::linorder sortedSet \<Rightarrow> 's border \<Rightarrow> 's border \<Rightarrow> int \<Rightarrow> int \<Rightarrow> bool \<Rightarrow> 's element list option" where
  "ss_range s lo hi offset limit desc =
     (if limit = 0 \<or> offset < 0 then Some []
      else ss_forEach s lo hi offset limit desc (\<lambda>slice e. Some (slice @ [e], True)) [])"

text \<open>The loop that deletes the removed members from the map.\<close>

definition delete_all :: "'s element list \<Rightarrow> (string \<times> 's element) list \<Rightarrow> (string \<times> 's element) list" where
  "delete_all removed d = foldl (\<lambda>d e. gmap_delete (el_member e) d) d removed"

definition ss_removeRange :: "'s::linorder sortedSet \<Rightarrow> 's border \<Rightarrow> 's border \<Rightarrow> ('s sortedSet \<times> int) option" where
  "ss_removeRange s lo hi =
     do { (sl, removed) \<leftarrow> sl_removeRange (ss_skiplist s) lo hi 0;
          Some (\<lparr>ss_dict = delete_all removed (ss_dict s), ss_skiplist = sl\<rparr>, int (length removed)) }"

definition ss_popMin :: "'s::{linorder,zero} sortedSet \<Rightarrow> int \<Rightarrow> ('s sortedSet \<times> 's element list) option" where
  "ss_popMin s cnt =
     do { first \<leftarrow> sl_getFirstInRange (ss_skiplist s) (ScoreB scoreNegativeInfBorder) (ScoreB scorePositiveInfBorder);
          (case first of
             None \<Rightarrow> Some (s, [])
           | Some a \<Rightarrow>
               do { nd \<leftarrow> sl_heap (ss_skiplist s) a;
                    let border = ScoreB \<lparr>sb_inf = 0, sb_value = el_score (sn_elem nd), sb_exclude = False\<rparr>;
                    (sl, removed) \<leftarrow> sl_removeRange (ss_skiplist s) border (ScoreB scorePositiveInfBorder) cnt;
                    Some (\<lparr>ss_dict = delete_all removed (ss_dict s), ss_skiplist = sl\<rparr>, removed) }) }"

definition ss_removeByRank :: "'s sortedSet \<Rightarrow> int \<Rightarrow> int \<Rightarrow> ('s sortedSet \<times> int) option" where
  "ss_removeByRank s start stop =
     do { (sl, removed) \<leftarrow> sl_removeRangeByRank (ss_skiplist s) (wrap64 (start + 1)) (wrap64 (stop + 1));
          Some (\<lparr>ss_dict = delete_all removed (ss_dict s), ss_skiplist = sl\<rparr>, int (length removed)) }"

text \<open>\<open>fmt10\<close> stands for \<^verbatim>\<open>strconv.FormatFloat(score, 'f', 10, 64)\<close>.\<close>

definition ss_zsetScan :: "(string \<Rightarrow> matcher option) \<Rightarrow> ('s \<Rightarrow> string) \<Rightarrow> 's sortedSet \<Rightarrow> string \<Rightarrow> string list \<times> int" where
  "ss_zsetScan regexp fmt10 s pattern =
     (case compilePattern regexp pattern of
        None \<Rightarrow> ([], -1)
      | Some matchKey \<Rightarrow>
          (concat (map (\<lambda>(k, e). if pattern = ''*'' \<or> matchKey k then [k, fmt10 (el_score e)] else []) (ss_dict s)), 0))"

section \<open>Elements in order\<close>

lemma el_eta: "\<lparr>el_member = el_member e, el_score = el_score e\<rparr> = e"
  by simp

lemma el_lt_trans: "el_lt a b \<Longrightarrow> el_lt b c \<Longrightarrow> el_lt a c"
  by (auto simp: el_lt_def)

lemma el_lt_irrefl [simp]: "\<not> el_lt a a"
  by (simp add: el_lt_def)

lemma el_lt_linear: "el_member a \<noteq> el_member b \<Longrightarrow> \<not> el_lt a b \<Longrightarrow> el_lt b a"
  by (auto simp: el_lt_def)

lemma el_less_lt: "el_less score member e = el_lt e \<lparr>el_member = member, el_score = score\<rparr>"
  by (simp add: el_less_def el_lt_def)

lemma el_le_lt: "el_le score member e \<longleftrightarrow> el_lt e \<lparr>el_member = member, el_score = score\<rparr> \<or> e = \<lparr>el_member = member, el_score = score\<rparr>"
  by (cases e) (auto simp: el_le_def el_lt_def)

lemma sorted_down:
  assumes "sorted_wrt el_lt (map tw_el zs)" "\<And>a b. el_lt a b \<Longrightarrow> P b \<Longrightarrow> P a"
  shows "sorted_wrt (\<lambda>x y. P (tw_el y) \<longrightarrow> P (tw_el x)) zs"
  using assms(1) unfolding sorted_wrt_map by (rule sorted_wrt_mono_rel [rotated]) (use assms(2) in blast)

lemma zsorted_split:
  assumes "zsorted es" "e \<in> set es"
  obtains A B where "es = A @ e # B" "\<forall>x \<in> set A. el_lt x e" "\<forall>x \<in> set B. el_lt e x" "\<forall>x \<in> set A \<union> set B. el_member x \<noteq> el_member e"
proof -
  obtain A B where es: "es = A @ e # B" using assms(2) split_list by fast
  have "sorted_wrt el_lt (A @ e # B)" "distinct (map el_member (A @ e # B))" using assms(1) es by (simp_all add: zsorted_def)
  then show thesis using es by (intro that [of A B]) (auto simp: sorted_wrt_append intro: rev_image_eqI)
qed

lemma zsorted_filter: "zsorted es \<Longrightarrow> zsorted (filter P es)"
  by (simp add: zsorted_def sorted_wrt_filterI distinct_map_filter)

lemma zsorted_insert:
  assumes "zsorted es" "el_member e \<notin> el_member ` set es"
  shows "zsorted (filter (\<lambda>x. el_lt x e) es @ e # filter (\<lambda>x. \<not> el_lt x e) es)"
proof -
  have s: "sorted_wrt el_lt (filter P es)" for P using assms(1) by (simp add: zsorted_def sorted_wrt_filterI)
  have r: "el_lt e y" if "y \<in> set es" "\<not> el_lt y e" for y using that assms(2) by (intro el_lt_linear) (metis imageI)+
  then have "el_lt x y" if "x \<in> set es" "el_lt x e" "y \<in> set es" "\<not> el_lt y e" for x y
    using that el_lt_trans by blast
  then have "sorted_wrt el_lt (filter (\<lambda>x. el_lt x e) es @ e # filter (\<lambda>x. \<not> el_lt x e) es)"
    using s r by (auto simp: sorted_wrt_append)
  moreover have "distinct (map el_member (filter P es))" for P using assms(1) by (simp add: zsorted_def distinct_map_filter)
  moreover have "el_member x \<noteq> el_member y" if "x \<in> set es" "el_lt x e" "y \<in> set es" "\<not> el_lt y e" for x y
    using that assms(1) by (auto simp: zsorted_def distinct_map inj_on_def)
  ultimately show ?thesis using assms(2) by (auto simp: zsorted_def)
qed

text \<open>Elements in order of score are ordered for the borders that fit them.\<close>

lemma ordered_fit:
  assumes "sorted_wrt el_lt (map tw_el zs)" "borders_fit lo hi (map tw_el zs)"
  shows "ordered_for lo hi zs"
  using assms(2)
proof (cases "(lo, hi, map tw_el zs)" rule: borders_fit.cases)
  case (1 b c)
  have "el_lt x y \<Longrightarrow> \<not> b_less lo y \<Longrightarrow> \<not> b_less lo x" "el_lt x y \<Longrightarrow> b_greater hi y \<Longrightarrow> b_greater hi x" for x y
    using 1 by (auto simp: el_lt_def sb_less_def sb_greater_def)
  then show ?thesis
    unfolding ordered_for_def using sorted_down [OF assms(1), of "\<lambda>e. \<not> b_less lo e"] sorted_down [OF assms(1), of "b_greater hi"] by blast
next
  case (2 b c)
  have "el_lt x y \<Longrightarrow> el_score x = el_score y \<Longrightarrow> \<not> b_less lo y \<Longrightarrow> \<not> b_less lo x"
    "el_lt x y \<Longrightarrow> el_score x = el_score y \<Longrightarrow> b_greater hi y \<Longrightarrow> b_greater hi x" for x y
    using 2 by (auto simp: el_lt_def lb_less_def lb_greater_def)
  moreover have "\<forall>x \<in> set zs. \<forall>y \<in> set zs. el_score (tw_el x) = el_score (tw_el y)"
  proof -
    have "lo = LexB b" "hi = LexB c" using 2 by simp_all
    then show ?thesis using assms(2) by (simp only: borders_fit.simps set_map ball_simps)
  qed
  ultimately show ?thesis
    unfolding ordered_for_def by (intro conjI sorted_wrt_mono_rel [OF _ assms(1) [unfolded sorted_wrt_map]]) blast+
qed auto

section \<open>Walks along the nodes\<close>

fun chain :: "'s heap \<Rightarrow> bool \<Rightarrow> 's tower list \<Rightarrow> bool" where
  "chain h desc [] \<longleftrightarrow> True"
| "chain h desc (x # xs) \<longleftrightarrow> (\<exists>nd. h (fst x) = Some nd \<and> sn_elem nd = tw_el x) \<and>
     next_node h desc (fst x) = Some (headp xs) \<and> chain h desc xs"

lemma chain_drop: "chain h desc zs \<Longrightarrow> chain h desc (drop k zs)"
  by (induction zs arbitrary: k) (auto simp: drop_Cons split: nat.splits)

lemma chain_forward: "towers sl (xs @ ys) \<Longrightarrow> chain (sl_heap sl) False ys"
proof (induction ys arbitrary: xs)
  case (Cons y ys)
  then show ?case using Cons.IH [of "xs @ [y]"] towers_at(2,3) [OF Cons.prems] by (auto simp: next_node_def)
qed simp

lemma chain_backward: "towers sl (xs @ ys) \<Longrightarrow> chain (sl_heap sl) True (rev xs)"
proof (induction xs arbitrary: ys rule: rev_induct)
  case (snoc x xs)
  have "lastp xs None = headp (rev xs)" by (cases xs rule: rev_cases) (simp_all add: lastp_def headp_def)
  then show ?case using snoc.IH [of "x # ys"] towers_at(3) [of sl xs x ys] snoc.prems by (auto simp: next_node_def)
qed simp

lemma visit_chain:
  "chain h desc zs \<Longrightarrow> k \<le> length zs \<Longrightarrow> visit h desc k consumer (headp zs) st = iter (\<lambda>s _ x. consumer s (tw_el x)) i (take k zs) st"
proof (induction k arbitrary: zs st i)
  case (Suc k)
  then obtain z zs' where z: "zs = z # zs'" by (cases zs) auto
  then obtain nd where "h (fst z) = Some nd" "sn_elem nd = tw_el z" "next_node h desc (fst z) = Some (headp zs')" using Suc.prems by auto
  moreover have "visit h desc k consumer (headp zs') st' = iter (\<lambda>s _ x. consumer s (tw_el x)) (Suc i) (take k zs') st'" for st'
    using Suc z by simp
  ultimately show ?case using z by (cases "consumer st (tw_el z)") (auto simp: headp_def)
qed simp

lemma skip_chain: "chain h desc zs \<Longrightarrow> skip_nodes h desc k (headp zs) = Some (headp (drop k zs))"
proof (induction k arbitrary: zs)
  case 0
  then show ?case by (cases zs) (simp_all add: headp_def)
next
  case (Suc k)
  then show ?case by (cases zs) (simp_all add: headp_def)
qed

lemma visit_range_chain:
  assumes "chain h desc zs" "0 \<le> i"
  shows "visit_range h desc lo hi limit (\<lambda>slice e. Some (slice @ [e], True)) i (headp zs) st =
    Some (st @ (if limit < 0 then id else take (nat (limit - i)))
      (case zs of [] \<Rightarrow> [] | z # zs' \<Rightarrow> tw_el z # map tw_el (takeWhile (\<lambda>x. in_range lo hi (tw_el x)) zs')))"
  using assms
proof (induction zs arbitrary: i st)
  case Nil
  then show ?case by (subst visit_range.simps) (simp add: headp_def)
next
  case (Cons z zs)
  show ?case
  proof (cases "i < limit \<or> limit < 0")
    case False
    then show ?thesis by (subst visit_range.simps) (simp add: headp_def)
  next
    case True
    then have t: "nat (limit - i) = Suc (nat (limit - (i + 1)))" if "\<not> limit < 0" using that by auto
    show ?thesis
    proof (cases zs)
      case Nil
      then show ?thesis using Cons.prems True t by (subst visit_range.simps) (auto simp: headp_def)
    next
      case (Cons y ys)
      then show ?thesis
        using Cons.IH [of "i + 1" "st @ [tw_el z]"] Cons.prems True t by (subst visit_range.simps) (auto simp: headp_def in_range_def)
    qed
  qed
qed

section \<open>The set a sorted set stands for\<close>

definition dict_rep :: "(string \<times> 's element) list \<Rightarrow> 's element list \<Rightarrow> bool" where
  "dict_rep d es \<longleftrightarrow> distinct (map fst d) \<and> map_of d = map_of (map (\<lambda>e. (el_member e, e)) es)"

definition ss_rep :: "'s::linorder sortedSet \<Rightarrow> 's element list \<Rightarrow> bool" where
  "ss_rep s es \<longleftrightarrow> (\<exists>zs. towers (ss_skiplist s) zs \<and> map tw_el zs = es) \<and> zsorted es \<and> dict_rep (ss_dict s) es"

lemma ss_make_rep: "ss_rep ss_make []"
  using towers_make by (auto simp: ss_rep_def ss_make_def zsorted_def dict_rep_def)

lemma dict_rep_lookup:
  assumes "dict_rep d es" "distinct (map el_member es)"
  shows "map_of d m = Some e \<longleftrightarrow> e \<in> set es \<and> el_member e = m" "map_of d m = None \<longleftrightarrow> m \<notin> el_member ` set es"
proof -
  have "map_of d m = map_of (map (\<lambda>e. (el_member e, e)) es) m" using assms(1) by (simp add: dict_rep_def)
  moreover have "distinct (map fst (map (\<lambda>e. (el_member e, e)) es))" using assms(2) by (simp add: comp_def)
  ultimately show "map_of d m = Some e \<longleftrightarrow> e \<in> set es \<and> el_member e = m" "map_of d m = None \<longleftrightarrow> m \<notin> el_member ` set es"
    by (auto simp: map_of_eq_None_iff image_image)
qed

lemma dict_rep_length:
  assumes "dict_rep d es" "distinct (map el_member es)"
  shows "length d = length es"
proof -
  have "fst ` set d = dom (map_of d)" by (simp add: dom_map_of_conv_image_fst)
  also have "\<dots> = el_member ` set es" using assms(1) by (simp add: dict_rep_def dom_map_of_conv_image_fst image_image)
  finally show ?thesis using distinct_card [of "map fst d"] distinct_card [OF assms(2)] assms(1) by (simp add: dict_rep_def)
qed

lemma map_of_filter_member:
  "map_of (map (\<lambda>e. (el_member e, e)) (filter (\<lambda>x. el_member x \<noteq> m) es)) = (map_of (map (\<lambda>e. (el_member e, e)) es))(m := None)"
  by (induction es) auto

lemma dict_rep_delete: "dict_rep d es \<Longrightarrow> dict_rep (gmap_delete m d) (filter (\<lambda>x. el_member x \<noteq> m) es)"
  by (simp add: dict_rep_def gmap_delete_distinct map_of_filter_member)

lemma dict_rep_delete_all:
  assumes "dict_rep d es"
  shows "dict_rep (delete_all rm d) (filter (\<lambda>x. el_member x \<notin> el_member ` set rm) es)"
  using assms
proof (induction rm arbitrary: d es)
  case (Cons e rm)
  have "filter (\<lambda>x. el_member x \<notin> el_member ` set rm) (filter (\<lambda>x. el_member x \<noteq> el_member e) es) =
      filter (\<lambda>x. el_member x \<notin> el_member ` set (e # rm)) es"
    by (auto intro: filter_cong)
  then show ?case using Cons.IH [OF dict_rep_delete [OF Cons.prems]] by (simp add: delete_all_def)
qed (simp add: delete_all_def)

lemma dict_rep_set:
  assumes "dict_rep d es" "distinct (map el_member es)" "distinct (map el_member es')"
    "set es' = insert e (set (filter (\<lambda>x. el_member x \<noteq> el_member e) es))"
  shows "dict_rep (gmap_set (el_member e) e d) es'"
proof -
  have "map_of (map (\<lambda>e. (el_member e, e)) es') m = (if m = el_member e then Some e else map_of d m)" for m
  proof (cases "map_of (map (\<lambda>e. (el_member e, e)) es') m")
    case None
    then have "m \<notin> el_member ` set es'" by (auto simp: map_of_eq_None_iff image_image)
    then show ?thesis using None dict_rep_lookup(2) [OF assms(1,2), of m] assms(4) by auto
  next
    case (Some x)
    then have "x \<in> set es'" "el_member x = m" by (auto dest: map_of_SomeD)
    then show ?thesis using Some dict_rep_lookup(1) [OF assms(1,2), of m x] assms(4) by auto
  qed
  then show ?thesis using assms(1) by (auto simp: dict_rep_def gmap_set_distinct)
qed

section \<open>The operations\<close>

text \<open>The skip list of a set, and what its insertion and removal do to the elements.\<close>

abbreviation sl_rep :: "'s skiplist \<Rightarrow> 's element list \<Rightarrow> bool" where
  "sl_rep sl es \<equiv> \<exists>zs. towers sl zs \<and> map tw_el zs = es"

lemma cut_less:
  assumes "sorted_wrt el_lt (map tw_el zs)"
  shows "cut (\<lambda>e' _. el_less score member e') (takeWhile (\<lambda>x. el_less score member (tw_el x)) zs) (dropWhile (\<lambda>x. el_less score member (tw_el x)) zs)"
  by (rule cut_takeWhile, rule sorted_down [OF assms]) (auto simp: el_less_lt intro: el_lt_trans)

lemma sl_insert_rep:
  assumes "sl_rep sl es" "zsorted es"
  shows "\<exists>sl'. sl_insert r sl m s = Some sl' \<and>
    sl_rep sl' (filter (\<lambda>x. el_lt x \<lparr>el_member = m, el_score = s\<rparr>) es @ \<lparr>el_member = m, el_score = s\<rparr> #
      filter (\<lambda>x. \<not> el_lt x \<lparr>el_member = m, el_score = s\<rparr>) es)"
proof -
  let ?e = "\<lparr>el_member = m, el_score = s\<rparr>"
  obtain zs where zs: "towers sl zs" "map tw_el zs = es" using assms(1) by blast
  let ?P = "\<lambda>x. el_less s m (tw_el x)"
  have sd: "sorted_wrt (\<lambda>x y. ?P y \<longrightarrow> ?P x) zs"
    using sorted_down [of zs "el_less s m"] assms(2) zs(2) by (auto simp: zsorted_def el_less_lt intro: el_lt_trans)
  obtain sl' where sl': "sl_insert r sl m s = Some sl'"
      "towers sl' (takeWhile ?P zs @ (sl_fresh sl, ?e, randomLevel r) # dropWhile ?P zs)"
    using sl_insert_towers [of sl "takeWhile ?P zs" "dropWhile ?P zs" s m r] cut_less [of zs s m] zs assms(2) by (auto simp: zsorted_def)
  have "map tw_el (takeWhile ?P zs @ (sl_fresh sl, ?e, randomLevel r) # dropWhile ?P zs) =
      filter (\<lambda>x. el_lt x ?e) es @ ?e # filter (\<lambda>x. \<not> el_lt x ?e) es"
    unfolding filter_takeWhile(1) [OF sd, symmetric] filter_takeWhile(2) [OF sd, symmetric] zs(2) [symmetric]
    by (simp add: filter_map comp_def el_less_lt)
  then show ?thesis using sl' by blast
qed

lemma cutI: "\<forall>x \<in> set xs. c (tw_el x) \<Longrightarrow> \<forall>y \<in> set ys. \<not> c (tw_el y) \<Longrightarrow> cut (\<lambda>e _. c e) xs ys"
  by (auto simp: cut_def)

lemma map_split: "map f zs = A @ e # B \<Longrightarrow> \<exists>xs z ys. zs = xs @ z # ys \<and> map f xs = A \<and> f z = e \<and> map f ys = B"
  by (auto simp: map_eq_append_conv)

lemma sl_remove_rep:
  assumes "sl_rep sl es" "zsorted es" "e \<in> set es"
  shows "\<exists>sl'. sl_remove sl (el_member e) (el_score e) = Some (sl', True) \<and> sl_rep sl' (filter (\<lambda>x. el_member x \<noteq> el_member e) es)"
proof -
  let ?P = "\<lambda>x. el_less (el_score e) (el_member e) (tw_el x)"
  obtain A B where es: "es = A @ e # B" "\<forall>x \<in> set A. el_lt x e" "\<forall>x \<in> set B. el_lt e x" "\<forall>x \<in> set A \<union> set B. el_member x \<noteq> el_member e"
    using zsorted_split [OF assms(2,3)] by metis
  obtain zs where zs: "towers sl zs" "map tw_el zs = es" using assms(1) by blast
  obtain xs z ys where z: "zs = xs @ z # ys" "map tw_el xs = A" "tw_el z = e" "map tw_el ys = B"
    using map_split [of tw_el zs A e B] zs(2) es(1) by blast
  have t: "towers sl (xs @ z # ys)" using zs(1) z(1) by simp
  have c: "cut (\<lambda>e' _. el_less (el_score e) (el_member e) e') xs (z # ys)"
  proof (rule cutI)
    show "\<forall>x \<in> set xs. ?P x" using es(2) unfolding el_less_lt el_eta z(2) [symmetric] by (simp only: set_map ball_simps)
    have "\<forall>y \<in> set (e # B). \<not> el_lt y e" using es(3) el_lt_trans el_lt_irrefl by (metis set_ConsD)
    then show "\<forall>y \<in> set (z # ys). \<not> ?P y" unfolding el_less_lt el_eta z(3,4) [symmetric] by simp
  qed
  obtain sl' where "sl_remove sl (el_member e) (el_score e) = Some (sl', True)" "towers sl' (xs @ ys)"
    using sl_remove_towers [OF t c, unfolded el_eta] z(3) by auto
  moreover have "filter (\<lambda>x. el_member x \<noteq> el_member e) es = map tw_el (xs @ ys)"
  proof -
    have "filter (\<lambda>x. el_member x \<noteq> el_member e) A = A" "filter (\<lambda>x. el_member x \<noteq> el_member e) B = B" using es(4) by (auto simp: filter_id_conv)
    then show ?thesis using es(1) z(2,4) by simp
  qed
  ultimately show ?thesis by (intro exI [of _ sl'] conjI exI [of _ "xs @ ys"]) simp_all
qed

lemma zref_add_fresh:
  "m \<notin> el_member ` set es \<Longrightarrow> filter (\<lambda>x. el_member x \<noteq> m) es = es"
  by (auto simp: filter_id_conv)

lemma ss_add_rep:
  assumes "ss_rep s es" "zref_step es (ZAdd rs m sc) = Some (es', r)"
  shows "\<exists>s' b. ss_add (rs 0) s m sc = Some (s', b) \<and> r = ZBool b \<and> ss_rep s' es'"
proof -
  let ?e = "\<lparr>el_member = m, el_score = sc\<rparr>" and ?rest = "filter (\<lambda>x. el_member x \<noteq> m) es"
  have rep: "sl_rep (ss_skiplist s) es" "zsorted es" "dict_rep (ss_dict s) es" using assms(1) by (simp_all add: ss_rep_def)
  have es': "es' = filter (\<lambda>x. el_lt x ?e) ?rest @ ?e # filter (\<lambda>x. \<not> el_lt x ?e) ?rest" "r = ZBool (m \<notin> el_member ` set es)"
    using assms(2) by (auto simp: Let_def)
  have zs: "zsorted ?rest" by (rule zsorted_filter [OF rep(2)])
  have zs': "zsorted es'" unfolding es'(1) by (rule zsorted_insert [OF zs]) auto
  have d: "dict_rep (gmap_set m ?e (ss_dict s)) es'"
    using dict_rep_set [OF rep(3), of es' ?e] rep(2) zs' es'(1) by (auto simp: zsorted_def)
  show ?thesis
  proof (cases "map_of (ss_dict s) m")
    case None
    then have "m \<notin> el_member ` set es" using dict_rep_lookup(2) [OF rep(3)] rep(2) by (simp add: zsorted_def)
    then show ?thesis
      using None sl_insert_rep [OF rep(1,2), of "rs 0" m sc] zref_add_fresh [of m es] es' zs' d by (auto simp: ss_add_def ss_rep_def)
  next
    case (Some e)
    then have e: "e \<in> set es" "el_member e = m" using dict_rep_lookup(1) [OF rep(3)] rep(2) by (auto simp: zsorted_def)
    then have m: "r = ZBool False" using es'(2) by auto
    show ?thesis
    proof (cases "sc = el_score e")
      case True
      then have "e = ?e" using e(2) by (cases e) simp
      obtain A B where AB: "es = A @ e # B" "\<forall>x \<in> set A. el_lt x e" "\<forall>x \<in> set B. el_lt e x" "\<forall>x \<in> set A \<union> set B. el_member x \<noteq> el_member e"
        using zsorted_split [OF rep(2) e(1)] by metis
      have "?rest = A @ B" using AB(1,4) e(2) by (simp add: filter_id_conv)
      moreover have "filter (\<lambda>x. el_lt x e) A = A" "filter (\<lambda>x. \<not> el_lt x e) A = []" using AB(2) by (simp_all add: filter_id_conv)
      moreover have "\<forall>x \<in> set B. \<not> el_lt x e" using AB(3) el_lt_trans el_lt_irrefl by blast
      then have "filter (\<lambda>x. el_lt x e) B = []" "filter (\<lambda>x. \<not> el_lt x e) B = B" by (simp_all add: filter_id_conv)
      ultimately have "es' = es" unfolding es'(1) AB(1) \<open>e = ?e\<close> [symmetric] by simp
      then show ?thesis using Some True rep zs' d m by (auto simp: ss_add_def ss_rep_def)
    next
      case False
      obtain sl1 where sl1: "sl_remove (ss_skiplist s) m (el_score e) = Some (sl1, True)" "sl_rep sl1 ?rest"
        using sl_remove_rep [OF rep(1,2), of e] e by auto
      show ?thesis
        using Some False sl1(1) sl_insert_rep [OF sl1(2) zs, of "rs 0" m sc] es'(1) zs' d m by (auto simp: ss_add_def ss_rep_def)
    qed
  qed
qed

lemma ss_remove_rep:
  assumes "ss_rep s es"
  shows "\<exists>s'. ss_remove s m = Some (s', m \<in> el_member ` set es) \<and> ss_rep s' (filter (\<lambda>x. el_member x \<noteq> m) es)"
proof -
  have rep: "sl_rep (ss_skiplist s) es" "zsorted es" "dict_rep (ss_dict s) es" using assms(1) by (simp_all add: ss_rep_def)
  show ?thesis
  proof (cases "map_of (ss_dict s) m")
    case None
    then have "m \<notin> el_member ` set es" using dict_rep_lookup(2) [OF rep(3)] rep(2) by (simp add: zsorted_def)
    then show ?thesis using None assms zref_add_fresh [of m es] by (simp add: ss_remove_def)
  next
    case (Some e)
    then have e: "e \<in> set es" "el_member e = m" using dict_rep_lookup(1) [OF rep(3)] rep(2) by (auto simp: zsorted_def)
    then obtain sl1 where "sl_remove (ss_skiplist s) m (el_score e) = Some (sl1, True)" "sl_rep sl1 (filter (\<lambda>x. el_member x \<noteq> m) es)"
      using sl_remove_rep [OF rep(1,2), of e] by auto
    then show ?thesis
      using Some e dict_rep_delete [OF rep(3), of m] zsorted_filter [OF rep(2)] by (auto simp: ss_remove_def ss_rep_def)
  qed
qed

lemma ss_getRank_rep:
  assumes "ss_rep s es" "zref_step es (ZGetRank m desc) = Some (es', r)"
  shows "\<exists>n. ss_getRank s m desc = Some n \<and> r = ZNum n \<and> es' = es"
proof -
  have rep: "sl_rep (ss_skiplist s) es" "zsorted es" "dict_rep (ss_dict s) es" using assms(1) by (simp_all add: ss_rep_def)
  show ?thesis
  proof (cases "map_of (ss_dict s) m")
    case None
    then have "m \<notin> el_member ` set es" using dict_rep_lookup(2) [OF rep(3)] rep(2) by (simp add: zsorted_def)
    then have "index_of (\<lambda>x. el_member x = m) es = None" by (auto simp: index_of_None)
    then show ?thesis using None assms(2) by (auto simp: ss_getRank_def)
  next
    case (Some e)
    then have e: "e \<in> set es" "el_member e = m" using dict_rep_lookup(1) [OF rep(3)] rep(2) by (auto simp: zsorted_def)
    then have e': "e = \<lparr>el_member = m, el_score = el_score e\<rparr>" using el_eta [of e] by simp
    obtain A B where es: "es = A @ e # B" "\<forall>x \<in> set A. el_lt x e" "\<forall>x \<in> set B. el_lt e x" "\<forall>x \<in> set A \<union> set B. el_member x \<noteq> el_member e"
      using zsorted_split [OF rep(2) e(1)] by metis
    obtain zs where zs: "towers (ss_skiplist s) zs" "map tw_el zs = es" using rep(1) by blast
    obtain xs z ys where z: "zs = xs @ z # ys" "map tw_el xs = A" "tw_el z = e" "map tw_el ys = B"
      using map_split [of tw_el zs A e B] zs(2) es(1) by blast
    have "cut (\<lambda>e' _. el_le (el_score e) m e') (xs @ [z]) ys"
    proof (rule cutI)
      show "\<forall>x \<in> set (xs @ [z]). el_le (el_score e) m (tw_el x)"
        using es(2) z(3) unfolding el_le_lt e' [symmetric] z(2) [symmetric] by (simp only: set_append ball_Un set_map ball_simps) simp
      have "\<forall>y \<in> set B. \<not> (el_lt y e \<or> y = e)" using es(3) el_lt_trans el_lt_irrefl by blast
      then show "\<forall>y \<in> set ys. \<not> el_le (el_score e) m (tw_el y)"
        unfolding el_le_lt e' [symmetric] z(4) [symmetric] by (simp only: set_map ball_simps)
    qed
    moreover have "\<forall>x \<in> set xs. el_member (tw_el x) \<noteq> m" using es(4) e(2) unfolding z(2) [symmetric]
      by (simp only: ball_Un set_map ball_simps) (elim conjE)
    ultimately have rank: "sl_getRank (ss_skiplist s) m (el_score e) = Some (int (length A) + 1)" if "m \<noteq> []"
      using sl_getRank_present [of "ss_skiplist s" xs z ys "el_score e" m] zs(1) z e(2) that by auto
    have "index_of (\<lambda>x. el_member x = m) es = Some (length A)"
      unfolding es(1) using es(4) e(2) by (intro index_of_split) simp_all
    moreover have "sl_length (ss_skiplist s) = int (length es)" using towersD(9) [OF zs(1)] zs(2) by auto
    ultimately show ?thesis using Some rank assms(2) by (auto simp: ss_getRank_def split: if_splits)
  qed
qed

lemma headp_drop: "k < length zs \<Longrightarrow> headp (drop k zs) = Some (fst (zs ! k))"
  by (simp add: headp_def Cons_nth_drop_Suc [symmetric])

lemma ss_forEachByRank_rep:
  assumes "towers (ss_skiplist s) zs" "length (ss_dict s) = length zs" "0 \<le> start" "start < int (length zs)" "start \<le> stop" "stop \<le> int (length zs)"
  shows "ss_forEachByRank s start stop desc consumer st =
    iter (\<lambda>s _ x. consumer s (tw_el x)) 0 (take (nat (stop - start)) (drop (nat start) (if desc then rev zs else zs))) st"
proof -
  let ?sl = "ss_skiplist s" and ?ws = "if desc then rev zs else zs"
  have t: "towers ?sl ([] @ zs)" "towers ?sl (zs @ [])" using assms(1) by simp_all
  have c: "chain (sl_heap ?sl) desc (drop (nat start) ?ws)"
    using chain_drop [OF chain_forward [OF t(1)]] chain_drop [OF chain_backward [OF t(2)]] by simp
  have n: "nat start < length ?ws" using assms(3,4) by simp
  have p: "(if desc then (if start > 0 then sl_getByRank ?sl (int (length zs) - start) else Some (sl_tail ?sl))
      else if start > 0 then sl_getByRank ?sl (start + 1) else next_node (sl_heap ?sl) False (sl_header ?sl)) =
      Some (headp (drop (nat start) ?ws))"
  proof (cases "start > 0")
    case True
    have "nat (int (length zs) - start - 1) = length zs - Suc (nat start)" using True assms(4) by simp
    then show ?thesis using True n assms(4) unfolding headp_drop [OF n] by (auto simp: sl_getByRank_towers [OF assms(1)] rev_nth)
  next
    case False
    have "lastp zs None = headp (rev zs)" by (cases zs rule: rev_cases) (simp_all add: lastp_def headp_def)
    then show ?thesis using False assms(3) towersD(8) [OF assms(1)] towers_header(1) [OF assms(1)] by (auto simp: next_node_def)
  qed
  have "nat (stop - start) \<le> length (drop (nat start) ?ws)" using assms(3-6) by simp
  from visit_chain [OF c this, of consumer st 0] show ?thesis
    using assms(2-6) p by (simp add: ss_forEachByRank_def ss_len_def)
qed

lemma fill_slice:
  "iter (\<lambda>(slice, i) _ x. if i < length slice then Some ((slice[i := Some (f x)], Suc i), True) else None) k zs
     (map Some ds @ replicate (length zs) None, length ds) =
   Some (map Some (ds @ map f zs), length ds + length zs)"
proof (induction zs arbitrary: ds k)
  case (Cons z zs)
  have "(map Some ds @ replicate (length (z # zs)) None)[length ds := Some (f z)] = map Some (ds @ [f z]) @ replicate (length zs) None"
    by (simp add: list_update_append)
  then show ?case using Cons.IH [of "Suc k" "ds @ [f z]"] by simp
qed simp

lemma ss_rangeByRank_rep:
  assumes "ss_rep s es" "0 \<le> start" "start < int (length es)" "start \<le> stop" "stop \<le> int (length es)"
  shows "ss_rangeByRank s start stop desc =
    Some (map Some (take (nat (stop - start)) (drop (nat start) (if desc then rev es else es))))"
proof -
  obtain zs where zs: "towers (ss_skiplist s) zs" "map tw_el zs = es" using assms(1) by (auto simp: ss_rep_def)
  have l: "length zs = length es" using zs(2) by auto
  have d: "length (ss_dict s) = length zs"
    using dict_rep_length [of "ss_dict s" es] assms(1) l by (simp add: ss_rep_def zsorted_def)
  let ?ws = "take (nat (stop - start)) (drop (nat start) (if desc then rev zs else zs))"
  have len: "length ?ws = nat (stop - start)" using assms(2-5) l by simp
  have "ss_forEachByRank s start stop desc (\<lambda>(slice, i) e. if i < length slice then Some ((slice[i := Some e], Suc i), True) else None)
      (replicate (nat (stop - start)) None, 0) = Some (map Some (map tw_el ?ws), nat (stop - start))"
    using fill_slice [of tw_el 0 ?ws "[]"] assms(2-5) unfolding len
    by (subst ss_forEachByRank_rep [OF zs(1) d]) (simp_all add: l case_prod_unfold)
  then show ?thesis using assms(4) zs(2) by (auto simp: ss_rangeByRank_def take_map drop_map rev_map)
qed

text \<open>The elements in range are one block of the list.\<close>

lemma hits_block:
  assumes "ordered_for lo hi zs"
  obtains pre post where "zs = pre @ hits lo hi zs @ post" "hits lo hi pre = []" "hits lo hi post = []"
    "pre = takeWhile (\<lambda>x. \<not> b_less lo (tw_el x)) zs" "\<forall>x \<in> set (hits lo hi zs @ post). b_less lo (tw_el x)" "\<forall>x \<in> set post. \<not> b_greater hi (tw_el x)"
proof -
  let ?L = "\<lambda>x. \<not> b_less lo (tw_el x)" and ?G = "\<lambda>x. b_greater hi (tw_el x)"
  let ?d = "dropWhile ?L zs"
  have s: "sorted_wrt (\<lambda>x y. ?L y \<longrightarrow> ?L x) zs" "sorted_wrt (\<lambda>x y. ?G y \<longrightarrow> ?G x) zs" using assms unfolding ordered_for_def by blast+
  have h: "hits lo hi zs = takeWhile ?G ?d" by (rule hits_alt(1) [OF assms])
  have "sorted_wrt (\<lambda>x y. ?G y \<longrightarrow> ?G x) ?d" unfolding dropWhile_eq_drop by (rule sorted_wrt_drop [OF s(2)])
  then have p: "\<forall>x \<in> set (dropWhile ?G ?d). \<not> ?G x" by (rule dropWhile_none)
  show thesis
  proof (rule that [of "takeWhile ?L zs" "dropWhile ?G ?d"])
    show "zs = takeWhile ?L zs @ hits lo hi zs @ dropWhile ?G ?d" unfolding h by simp
    show "hits lo hi (takeWhile ?L zs) = []" unfolding filter_empty_conv in_range_def using set_takeWhileD [of _ ?L zs] by blast
    show "hits lo hi (dropWhile ?G ?d) = []" unfolding filter_empty_conv in_range_def using p by blast
    show "\<forall>x \<in> set (hits lo hi zs @ dropWhile ?G ?d). b_less lo (tw_el x)"
      unfolding h takeWhile_dropWhile_id using dropWhile_none [OF s(1)] by blast
    show "\<forall>x \<in> set (dropWhile ?G ?d). \<not> ?G x" by (rule p)
  qed (rule refl)
qed

lemma count_hits:
  assumes "ordered_for lo hi zs"
  shows "iter (\<lambda>i _ x. Some (if \<not> b_less lo (tw_el x) then (i, True) else if \<not> b_greater hi (tw_el x) then (i, False) else (i + 1, True))) k zs n =
    Some (n + int (length (hits lo hi zs)))"
  using assms
proof (induction zs arbitrary: k n)
  case (Cons z zs)
  have o: "ordered_for lo hi zs" "b_greater hi (tw_el z) \<or> hits lo hi zs = []"
    using Cons.prems by (auto simp: ordered_for_def in_range_def filter_empty_conv)
  show ?case using Cons.IH [OF o(1)] o(2) by (auto simp: in_range_def)
qed simp

lemma ss_rep_towers:
  assumes "ss_rep s es"
  obtains zs where "towers (ss_skiplist s) zs" "map tw_el zs = es" "sorted_wrt el_lt (map tw_el zs)" "length (ss_dict s) = length zs"
    "\<And>lo hi. length (hits lo hi zs) = length (filter (in_range lo hi) es)"
proof -
  obtain zs where zs: "towers (ss_skiplist s) zs" "map tw_el zs = es" using assms(1) by (auto simp: ss_rep_def)
  have "length (hits lo hi zs) = length (filter (in_range lo hi) es)" for lo hi
    unfolding zs(2) [symmetric] by (simp add: filter_map comp_def)
  moreover have "length (ss_dict s) = length zs"
    using dict_rep_length [of "ss_dict s" es] assms(1) zs(2) by (auto simp: ss_rep_def zsorted_def)
  ultimately show thesis using zs assms by (intro that [of zs]) (simp_all add: ss_rep_def zsorted_def)
qed

lemma ss_rangeCount_rep:
  assumes "ss_rep s es" "es \<noteq> []" "borders_fit lo hi es"
  shows "ss_rangeCount s lo hi = Some (int (length (filter (in_range lo hi) es)))"
proof -
  obtain zs where zs: "towers (ss_skiplist s) zs" "map tw_el zs = es" "sorted_wrt el_lt (map tw_el zs)" "length (ss_dict s) = length zs"
      "\<And>lo hi. length (hits lo hi zs) = length (filter (in_range lo hi) es)" using ss_rep_towers [OF assms(1)] by metis
  have o: "ordered_for lo hi zs" using ordered_fit [OF zs(3)] assms(3) zs(2) by simp
  have "zs \<noteq> []" using assms(2) zs(2) by auto
  then show ?thesis using count_hits [OF o, of 0 0] zs(4,5) unfolding ss_rangeCount_def
    by (subst ss_forEachByRank_rep [OF zs(1,4)]) (simp_all add: ss_len_def)
qed

lemma headp_append: "ws \<noteq> [] \<Longrightarrow> headp (ws @ us) = headp ws"
  by (cases ws) (simp_all add: headp_def)

lemma lastp_rev: "lastp ws None = headp (rev ws)"
  by (cases ws rule: rev_cases) (simp_all add: lastp_def headp_def)

lemma takeWhile_block:
  assumes "ws \<noteq> []" "\<forall>x \<in> set ws. in_range lo hi (tw_el x)" "hits lo hi us = []"
  shows "(case ws @ us of [] \<Rightarrow> [] | z # zs' \<Rightarrow> tw_el z # map tw_el (takeWhile (\<lambda>x. in_range lo hi (tw_el x)) zs')) = map tw_el ws"
proof -
  have "takeWhile (\<lambda>x. in_range lo hi (tw_el x)) us = []"
    using assms(3) by (cases us) (auto split: if_splits)
  then show ?thesis using assms(1,2) by (cases ws) (simp_all add: takeWhile_append)
qed

lemma visit_block:
  assumes "chain h desc (ws @ us)" "\<forall>x \<in> set ws. in_range lo hi (tw_el x)" "hits lo hi us = []" "0 \<le> offset" "offset < int (length ws)"
  shows "do { p \<leftarrow> skip_nodes h desc (nat offset) (headp ws);
              visit_range h desc lo hi limit (\<lambda>slice e. Some (slice @ [e], True)) 0 p [] } =
    Some ((if limit < 0 then id else take (nat limit)) (drop (nat offset) (map tw_el ws)))"
proof -
  let ?ws = "drop (nat offset) ws"
  have "ws \<noteq> []" using assms(4,5) by auto
  then have d: "drop (nat offset) (ws @ us) = ?ws @ us" "?ws \<noteq> []" "headp ws = headp (ws @ us)"
    using assms(4,5) headp_append [of ws us] by auto
  have "\<forall>x \<in> set ?ws. in_range lo hi (tw_el x)" using assms(2) in_set_dropD [of _ "nat offset" ws] by blast
  from takeWhile_block [OF d(2) this assms(3)] show ?thesis
    using visit_range_chain [OF chain_drop [OF assms(1), of "nat offset"], of 0 lo hi limit "[]"] unfolding d
    by (simp add: skip_chain [OF assms(1)] d(1) drop_map del: drop_append)
qed

lemma fit_intersected: "borders_fit lo hi es \<Longrightarrow> \<exists>x. isIntersected lo hi = Some x"
  by (cases "(lo, hi, es)" rule: borders_fit.cases) auto

lemma ss_range_rep:
  assumes "ss_rep s es" "borders_fit lo hi es" "isIntersected lo hi = Some False \<or> filter (in_range lo hi) es = []"
    "offset < int (length (filter (in_range lo hi) es)) \<or> filter (in_range lo hi) es = []"
  shows "ss_range s lo hi offset limit desc = Some (if offset < 0 then [] else (if limit < 0 then id else take (nat limit))
    (drop (nat offset) (if desc then rev (filter (in_range lo hi) es) else filter (in_range lo hi) es)))"
proof (cases "limit = 0 \<or> offset < 0")
  case False
  obtain zs where zs: "towers (ss_skiplist s) zs" "map tw_el zs = es" "sorted_wrt el_lt (map tw_el zs)"
      "\<And>lo hi. length (hits lo hi zs) = length (filter (in_range lo hi) es)" using ss_rep_towers [OF assms(1)] by metis
  have o: "ordered_for lo hi zs" using ordered_fit [OF zs(3)] assms(2) zs(2) by simp
  let ?sl = "ss_skiplist s" and ?hs = "if desc then rev (hits lo hi zs) else hits lo hi zs"
  have es: "map tw_el ?hs = (if desc then rev (filter (in_range lo hi) es) else filter (in_range lo hi) es)"
    unfolding zs(2) [symmetric] by (simp add: filter_map comp_def rev_map)
  have "(if desc then sl_getLastInRange ?sl lo hi else sl_getFirstInRange ?sl lo hi) = Some (headp ?hs)"
    using fit_intersected [OF assms(2)] assms(3) zs(4) [of lo hi] sl_getFirstInRange_towers [OF zs(1) _ o] sl_getLastInRange_towers [OF zs(1) _ o]
    by (auto simp: lastp_rev headp_def)
  then have r: "ss_range s lo hi offset limit desc = do { p \<leftarrow> skip_nodes (sl_heap ?sl) desc (nat offset) (headp ?hs);
      visit_range (sl_heap ?sl) desc lo hi limit (\<lambda>slice e. Some (slice @ [e], True)) 0 p [] }"
    using False by (simp add: ss_range_def ss_forEach_def Let_def)
  show ?thesis
  proof (cases "hits lo hi zs = []")
    case True
    then have "filter (in_range lo hi) es = []" using zs(4) [of lo hi] by simp
    moreover have "headp ?hs = None" using True by (simp add: headp_def)
    ultimately show ?thesis unfolding r by (simp add: visit_range.simps)
  next
    case ne: False
    obtain pre post where b: "zs = pre @ hits lo hi zs @ post" "hits lo hi pre = []" "hits lo hi post = []" using hits_block [OF o] by metis
    have t: "towers ?sl (pre @ hits lo hi zs @ post)" "towers ?sl ((pre @ hits lo hi zs) @ post)" using zs(1) b(1) by simp_all
    have c: "chain (sl_heap ?sl) desc (?hs @ (if desc then rev pre else post))"
      using chain_forward [OF t(1)] chain_backward [OF t(2)] by simp
    have u: "hits lo hi (if desc then rev pre else post) = []" using b(2,3) by (simp add: rev_filter [symmetric])
    have "offset < int (length ?hs)" using assms(4) ne zs(4) [of lo hi] by auto
    from visit_block [OF c _ u _ this, of limit] show ?thesis using False unfolding r es by simp
  qed
qed (auto simp: ss_range_def)

text \<open>Removing elements of the list: the map follows.\<close>

lemma filter_removed:
  assumes "zsorted (A @ rm @ B)"
  shows "filter (\<lambda>x. el_member x \<notin> el_member ` set rm) (A @ rm @ B) = A @ B"
proof -
  have "distinct (map el_member (A @ rm @ B))" using assms by (simp add: zsorted_def)
  then have "\<forall>x \<in> set A \<union> set B. el_member x \<notin> el_member ` set rm" by auto
  then show ?thesis by (simp add: filter_id_conv filter_empty_conv)
qed

lemma dict_rep_removed:
  assumes "dict_rep d es" "zsorted es" "es = A @ rm @ B"
  shows "dict_rep (delete_all rm d) (A @ B)" "zsorted (A @ B)"
proof -
  have "filter (\<lambda>x. el_member x \<notin> el_member ` set rm) (A @ rm @ B) = A @ B" using filter_removed assms(2,3) by blast
  then show "dict_rep (delete_all rm d) (A @ B)" using dict_rep_delete_all [OF assms(1), of rm] assms(3) by simp
  show "zsorted (A @ B)" using assms(2,3) by (auto simp: zsorted_def sorted_wrt_append)
qed

lemma ss_removeRange_rep:
  assumes "ss_rep s es" "borders_fit lo hi es"
  shows "\<exists>s'. ss_removeRange s lo hi = Some (s', int (length (filter (in_range lo hi) es))) \<and>
    ss_rep s' (filter (\<lambda>e. \<not> in_range lo hi e) es)"
proof -
  obtain zs where zs: "towers (ss_skiplist s) zs" "map tw_el zs = es" "sorted_wrt el_lt (map tw_el zs)"
      "\<And>lo hi. length (hits lo hi zs) = length (filter (in_range lo hi) es)" using ss_rep_towers [OF assms(1)] by metis
  have o: "ordered_for lo hi zs" using ordered_fit [OF zs(3)] assms(2) zs(2) by simp
  let ?h = "hits lo hi zs"
  obtain pre post where b: "zs = pre @ ?h @ post" "hits lo hi pre = []" "hits lo hi post = []" "pre = takeWhile (\<lambda>x. \<not> b_less lo (tw_el x)) zs"
    using hits_block [OF o] by metis
  have d: "dropWhile (\<lambda>x. \<not> b_less lo (tw_el x)) zs = ?h @ post"
    using takeWhile_dropWhile_id [of "\<lambda>x. \<not> b_less lo (tw_el x)" zs] b(1) unfolding b(4) [symmetric] by (metis same_append_eq)
  have g: "takeWhile (\<lambda>x. b_greater hi (tw_el x)) (?h @ post) = ?h" using hits_alt(1) [OF o] unfolding d by (rule sym)
  obtain sl' where sl': "sl_removeRange (ss_skiplist s) lo hi 0 = Some (sl', map tw_el ?h)" "towers sl' (pre @ post)"
    using sl_removeRange_towers [OF zs(1) o [unfolded ordered_for_def, THEN conjunct1], of hi 0]
    unfolding b(4) [symmetric] d g by auto
  have es: "es = map tw_el pre @ map tw_el ?h @ map tw_el post" using b(1) zs(2) by (metis map_append)
  have f: "filter (\<lambda>e. \<not> in_range lo hi e) es = map tw_el (pre @ post)"
  proof -
    have "filter (\<lambda>e. \<not> in_range lo hi e) (map tw_el ws) = map tw_el (filter (\<lambda>x. \<not> in_range lo hi (tw_el x)) ws)" for ws
      by (simp add: filter_map comp_def)
    moreover have "filter (\<lambda>x. \<not> in_range lo hi (tw_el x)) ws = ws" if "hits lo hi ws = []" for ws
      using that by (simp add: filter_empty_conv filter_id_conv)
    ultimately show ?thesis using b(2,3) unfolding es filter_append by simp
  qed
  have "dict_rep (ss_dict s) es" "zsorted es" using assms(1) by (simp_all add: ss_rep_def)
  from dict_rep_removed [OF this es] show ?thesis
    using sl' zs(4) [of lo hi] unfolding f by (auto simp: ss_removeRange_def ss_rep_def)
qed

lemma ss_removeByRank_rep:
  assumes "ss_rep s es" "0 \<le> start" "start \<le> stop" "stop < 2 ^ 63 - 1"
  shows "\<exists>s'. ss_removeByRank s start stop = Some (s', int (length (take (nat (stop - start)) (drop (nat start) es)))) \<and>
    ss_rep s' (take (nat start) es @ drop (nat stop) es)"
proof -
  obtain zs where zs: "towers (ss_skiplist s) zs" "map tw_el zs = es" using ss_rep_towers [OF assms(1)] by metis
  let ?k = "min (nat start) (length zs)"
  let ?n = "nat stop - ?k"
  have w: "wrap64 (start + 1) = start + 1" "wrap64 (stop + 1) = stop + 1" using assms(2-4) by (auto intro!: wrap64_id simp: int64_def)
  have nn: "nat (start + 1 - 1) = nat start" "nat (stop + 1 - 1) = nat stop" by simp_all
  obtain sl' where sl': "sl_removeRangeByRank (ss_skiplist s) (start + 1) (stop + 1) = Some (sl', map tw_el (take ?n (drop ?k zs)))"
      "towers sl' (take ?k zs @ drop (?k + ?n) zs)"
    using sl_removeRangeByRank_towers [OF zs(1), of "start + 1" "stop + 1"] unfolding Let_def nn by blast
  have k: "take ?k zs = take (nat start) zs" "drop ?k zs = drop (nat start) zs" by (simp_all add: min_def)
  have n: "take ?n (drop ?k zs) = take (nat (stop - start)) (drop (nat start) zs)" "drop (?k + ?n) zs = drop (nat stop) zs"
    using assms(2,3) by (auto simp: min_def nat_diff_distrib)
  have t: "towers sl' (take (nat start) zs @ drop (nat stop) zs)" using sl'(2) unfolding k n .
  have es: "es = take (nat start) es @ map tw_el (take (nat (stop - start)) (drop (nat start) zs)) @ drop (nat stop) es"
  proof -
    have "drop (nat stop) es = drop (nat (stop - start)) (drop (nat start) es)" using assms(2,3) by (simp add: nat_diff_distrib)
    moreover have "map tw_el (take (nat (stop - start)) (drop (nat start) zs)) = take (nat (stop - start)) (drop (nat start) es)"
      unfolding zs(2) [symmetric] by (simp add: take_map drop_map)
    ultimately show ?thesis by (simp only: append_take_drop_id)
  qed
  have "dict_rep (ss_dict s) es" "zsorted es" using assms(1) by (simp_all add: ss_rep_def)
  from dict_rep_removed [OF this es] show ?thesis
    using sl'(1) t zs(2) unfolding n by (auto simp: ss_removeByRank_def w ss_rep_def take_map drop_map)
qed

lemma ss_popMin_rep:
  fixes s :: "'s::{linorder,zero} sortedSet"
  assumes "ss_rep s es" "0 < cnt"
  shows "\<exists>s'. ss_popMin s cnt = Some (s', take (nat cnt) es) \<and> ss_rep s' (drop (nat cnt) es)"
proof -
  obtain zs where zs: "towers (ss_skiplist s) zs" "map tw_el zs = es" "sorted_wrt el_lt (map tw_el zs)" using ss_rep_towers [OF assms(1)] by metis
  let ?inf = "ScoreB (scorePositiveInfBorder :: 's scoreBorder)" and ?ninf = "ScoreB (scoreNegativeInfBorder :: 's scoreBorder)"
  have inf: "b_greater ?inf e" "b_less ?ninf e" "isIntersected ?ninf ?inf = Some False" for e :: "'s element"
    by (simp_all add: sb_greater_def sb_less_def scorePositiveInfBorder_def scoreNegativeInfBorder_def scorePositiveInf_def scoreNegativeInf_def)
  have "ordered_for ?ninf ?inf zs" using ordered_fit [OF zs(3)] by simp
  then have first: "sl_getFirstInRange (ss_skiplist s) ?ninf ?inf = Some (headp zs)"
    using sl_getFirstInRange_towers [OF zs(1) inf(3)] inf by (simp add: in_range_def)
  show ?thesis
  proof (cases zs)
    case Nil
    then show ?thesis using first zs(2) assms(1) by (auto simp: ss_popMin_def headp_def)
  next
    case (Cons z zs')
    let ?b = "ScoreB \<lparr>sb_inf = 0, sb_value = el_score (tw_el z), sb_exclude = False\<rparr>"
    obtain nd where nd: "sl_heap (ss_skiplist s) (fst z) = Some nd" "sn_elem nd = tw_el z" using towers_first [OF zs(1)] Cons by auto
    have "ordered_for ?b ?inf zs" using ordered_fit [OF zs(3)] by simp
    note sd = this [unfolded ordered_for_def, THEN conjunct1]
    have less: "\<forall>x \<in> set zs. b_less ?b (tw_el x)"
      using zs(3) Cons by (auto simp: el_lt_def sb_less_def scorePositiveInf_def scoreNegativeInf_def)
    then have w: "takeWhile (\<lambda>x. \<not> b_less ?b (tw_el x)) zs = []" "dropWhile (\<lambda>x. \<not> b_less ?b (tw_el x)) zs = zs" using Cons by simp_all
    have g: "takeWhile (\<lambda>x. b_greater ?inf (tw_el x)) zs = zs" unfolding takeWhile_eq_all_conv using inf(1) by blast
    obtain sl' where "sl_removeRange (ss_skiplist s) ?b ?inf cnt = Some (sl', map tw_el (take (nat cnt) zs))" "towers sl' (drop (length (take (nat cnt) zs)) zs)"
      using sl_removeRange_towers [OF zs(1) sd, of ?inf cnt, unfolded w g] assms(2) by auto
    then have sl': "sl_removeRange (ss_skiplist s) ?b ?inf cnt = Some (sl', take (nat cnt) es)" "sl_rep sl' (drop (nat cnt) es)"
      using zs(2) by (auto simp: take_map drop_map min_def split: if_splits)
    have "es = [] @ take (nat cnt) es @ drop (nat cnt) es" by simp
    note rm = dict_rep_removed [OF _ _ this, of "ss_dict s", unfolded append_Nil]
    have "ss_popMin s cnt = Some (\<lparr>ss_dict = delete_all (take (nat cnt) es) (ss_dict s), ss_skiplist = sl'\<rparr>, take (nat cnt) es)"
      using first nd sl'(1) Cons by (simp add: ss_popMin_def headp_def)
    then show ?thesis using rm assms(1) sl'(2) by (auto simp: ss_rep_def)
  qed
qed

section \<open>The contract\<close>

definition sorted_ZSet :: "('s::{linorder,zero} sortedSet, 's) ZSet" where
  "sorted_ZSet = \<lparr>
     zAdd = (\<lambda>rs. ss_add (rs 0)),
     zGet = (\<lambda>s m. Some (map_option el_score (ss_get s m))),
     zRemove = ss_remove,
     zLen = (\<lambda>s. Some (ss_len s)),
     zGetRank = ss_getRank,
     zRangeByRank = ss_rangeByRank,
     zRangeCount = ss_rangeCount,
     zRange = ss_range,
     zRemoveRange = ss_removeRange,
     zRemoveByRank = ss_removeByRank,
     zPopMin = ss_popMin\<rparr>"

lemma ss_get_rep: "ss_rep s es \<Longrightarrow> map_option el_score (ss_get s m) = map_of (map (\<lambda>e. (el_member e, el_score e)) es) m"
proof -
  have "map_option el_score (map_of (map (\<lambda>e. (el_member e, e)) es) m) = map_of (map (\<lambda>e. (el_member e, el_score e)) es) m" by (induction es) auto
  then show "ss_rep s es \<Longrightarrow> ?thesis" by (simp add: ss_get_def ss_rep_def dict_rep_def)
qed

lemma ss_step:
  fixes s :: "'s::{linorder,zero} sortedSet"
  assumes "ss_rep s es" "zref_step es op = Some (es', r)"
  shows "\<exists>s'. zset_step sorted_ZSet s op = Some (s', r) \<and> ss_rep s' es'"
proof (cases op)
  case (ZAdd rs m sc)
  then show ?thesis using ss_add_rep [OF assms(1)] assms(2) by (fastforce simp: sorted_ZSet_def)
next
  case (ZGet m)
  then show ?thesis using ss_get_rep [OF assms(1), of m] assms by (auto simp: sorted_ZSet_def)
next
  case (ZRemove m)
  then show ?thesis using ss_remove_rep [OF assms(1), of m] assms(2) by (auto simp: sorted_ZSet_def)
next
  case ZLen
  then show ?thesis using assms dict_rep_length [of "ss_dict s" es] by (auto simp: sorted_ZSet_def ss_len_def ss_rep_def zsorted_def)
next
  case (ZGetRank m desc)
  then show ?thesis using ss_getRank_rep [OF assms(1)] assms by (fastforce simp: sorted_ZSet_def)
next
  case (ZRangeByRank start stop desc)
  then show ?thesis using ss_rangeByRank_rep [OF assms(1), of start stop desc] assms by (auto simp: sorted_ZSet_def split: if_splits)
next
  case (ZRangeCount lo hi)
  then show ?thesis using ss_rangeCount_rep [OF assms(1), of lo hi] assms by (auto simp: sorted_ZSet_def split: if_splits)
next
  case (ZRange lo hi offset limit desc)
  let ?H = "filter (in_range lo hi) es"
  have g: "borders_fit lo hi es" "isIntersected lo hi = Some False \<or> ?H = []" "offset < int (length ?H) \<or> ?H = []"
    using assms(2) ZRange by (simp_all add: Let_def split: if_splits)
  then have "es' = es" "r = ZEls (if offset < 0 then [] else (if limit < 0 then id else take (nat limit)) (drop (nat offset) (if desc then rev ?H else ?H)))"
    using assms(2) ZRange by (simp_all add: Let_def)
  then show ?thesis using ss_range_rep [OF assms(1) g, of limit desc] assms(1) ZRange by (simp add: sorted_ZSet_def)
next
  case (ZRemoveRange lo hi)
  then show ?thesis using ss_removeRange_rep [OF assms(1), of lo hi] assms by (auto simp: sorted_ZSet_def split: if_splits)
next
  case (ZRemoveByRank start stop)
  then show ?thesis using ss_removeByRank_rep [OF assms(1), of start stop] assms by (auto simp: sorted_ZSet_def split: if_splits)
next
  case (ZPopMin n)
  then show ?thesis using ss_popMin_rep [OF assms(1), of n] assms by (auto simp: sorted_ZSet_def split: if_splits)
qed

interpretation ss: zset_impl sorted_ZSet ss_rep "\<lambda>_. True"
  by unfold_locales (rule ss_step, assumption+, simp add: ss_rep_def)

section \<open>Properties\<close>

text \<open>C26. A fresh sorted set, driven by any program of calls that the contract covers, returns what the same
  calls return on a plain sorted list of elements, and never panics: the skip list finds, links and unlinks the right
  nodes whatever heights it draws.\<close>

theorem sorted_set_refines_list:
  fixes es :: "'s::{linorder,zero} element list"
  assumes "zref_run [] ops = Some (es, rs)"
  shows "\<exists>s. zset_run sorted_ZSet ss_make ops = Some (s, rs) \<and> ss_rep s es"
  using ss.run_refines [OF ss_make_rep _ assms] by (auto simp: list.pred_True)

theorem sorted_set_refines_list_witness:
  "\<exists>s. zset_run sorted_ZSet ss_make [ZAdd (\<lambda>_. 7) ''b'' (2 :: int), ZAdd (\<lambda>_. 0) ''a'' 1, ZAdd (\<lambda>_. 5) ''b'' 0, ZGetRank ''a'' False, ZPopMin 1]
     = Some (s, [ZBool True, ZBool True, ZBool False, ZNum 1, ZEls [\<lparr>el_member = ''b'', el_score = 0\<rparr>]]) \<and>
   ss_rep s [\<lparr>el_member = ''a'', el_score = 1\<rparr>]"
  by (rule sorted_set_refines_list) code_simp

text \<open>C27. After any such program the structure is well formed: along each level the nodes that reach it are
  linked in order with exact spans, back pointers and tail agree, the elements are in order without a repeated member, and
  the map holds exactly the elements of the skip list.\<close>

theorem sorted_set_well_formed:
  fixes s :: "'s::{linorder,zero} sortedSet"
  assumes "zset_run sorted_ZSet ss_make ops = Some (s, rs)" "zref_run [] ops = Some (es, rs')"
  shows "(\<exists>zs. towers (ss_skiplist s) zs \<and> map tw_el zs = es) \<and> zsorted es \<and> length (ss_dict s) = length es \<and>
    (\<forall>m e. map_of (ss_dict s) m = Some e \<longleftrightarrow> e \<in> set es \<and> el_member e = m)"
proof -
  have rep: "ss_rep s es" using ss.run_refines [OF ss_make_rep _ assms(2)] assms(1) by (auto simp: list.pred_True)
  then show ?thesis using dict_rep_length [of "ss_dict s" es] dict_rep_lookup(1) [of "ss_dict s" es] by (auto simp: ss_rep_def zsorted_def)
qed

theorem sorted_set_well_formed_witness:
  "\<exists>s. zset_run sorted_ZSet ss_make [ZAdd (\<lambda>_. 7) ''b'' (2 :: int), ZRemove ''b''] = Some (s, [ZBool True, ZBool True]) \<and>
     zsorted ([] :: int element list) \<and> length (ss_dict s) = 0"
proof -
  let ?ops = "[ZAdd (\<lambda>_. 7) ''b'' (2 :: int), ZRemove ''b'']"
  have r: "zref_run [] ?ops = Some ([], [ZBool True, ZBool True])" by (simp add: Let_def)
  obtain s where s: "zset_run sorted_ZSet ss_make ?ops = Some (s, [ZBool True, ZBool True])"
    using ss.run_refines [OF ss_make_rep _ r] by (auto simp: list.pred_True)
  show ?thesis using sorted_set_well_formed [OF s r] s by (intro exI [of _ s]) simp
qed

text \<open>C28. Ranks and positions are inverse for members that are not the empty string: the element at position
  \<open>i\<close> has rank \<open>i\<close> upwards and the mirrored rank downwards, and the range of that one rank is the element. (The header
  of the skip list has the empty member, which \<open>getRank\<close> can take for a match.)\<close>

theorem rank_roundtrip:
  assumes "ss_rep s es" "i < length es" "el_member (es ! i) \<noteq> []"
  shows "ss_getRank s (el_member (es ! i)) False = Some (int i) \<and>
    ss_getRank s (el_member (es ! i)) True = Some (int (length es) - 1 - int i) \<and>
    ss_rangeByRank s (int i) (int i + 1) False = Some [Some (es ! i)]"
proof (intro conjI)
  have ix: "index_of (\<lambda>x. el_member x = el_member (es ! i)) es = Some i"
    using index_of_nth [of el_member es i] assms(1,2) by (simp add: ss_rep_def zsorted_def)
  show "ss_getRank s (el_member (es ! i)) False = Some (int i)"
    using ss_getRank_rep [OF assms(1), of "el_member (es ! i)" False] ix assms(3) by simp
  show "ss_getRank s (el_member (es ! i)) True = Some (int (length es) - 1 - int i)"
    using ss_getRank_rep [OF assms(1), of "el_member (es ! i)" True] ix assms(3) by simp
  show "ss_rangeByRank s (int i) (int i + 1) False = Some [Some (es ! i)]"
    using ss_rangeByRank_rep [OF assms(1), of "int i" "int i + 1" False] assms(2) by (simp add: Cons_nth_drop_Suc [symmetric])
qed

text \<open>A set that holds given elements, for the witnesses.\<close>

lemma ss_pair:
  obtains s where "ss_rep s [\<lparr>el_member = ''a'', el_score = 1 :: int\<rparr>, \<lparr>el_member = ''b'', el_score = 2\<rparr>]"
proof -
  let ?ops = "[ZAdd (\<lambda>_. 7) ''b'' (2 :: int), ZAdd (\<lambda>_. 0) ''a'' 1]"
  have "zref_run [] ?ops = Some ([\<lparr>el_member = ''a'', el_score = 1\<rparr>, \<lparr>el_member = ''b'', el_score = 2\<rparr>], [ZBool True, ZBool True])" by code_simp
  from ss.run_refines [OF ss_make_rep _ this] show thesis using that by (auto simp: list.pred_True)
qed

theorem rank_roundtrip_witness:
  "\<exists>s. ss_rep s [\<lparr>el_member = ''a'', el_score = 1 :: int\<rparr>, \<lparr>el_member = ''b'', el_score = 2\<rparr>] \<and>
     ss_getRank s ''b'' False = Some 1 \<and> ss_getRank s ''b'' True = Some 0 \<and>
     ss_rangeByRank s 1 2 False = Some [Some \<lparr>el_member = ''b'', el_score = 2\<rparr>]"
proof -
  obtain s where s: "ss_rep s [\<lparr>el_member = ''a'', el_score = 1 :: int\<rparr>, \<lparr>el_member = ''b'', el_score = 2\<rparr>]" using ss_pair .
  then show ?thesis using rank_roundtrip [OF s, of 1] by (intro exI [of _ s]) simp
qed

text \<open>C31. A range of scores from a border above zero up to plus infinity is always found empty, whatever
  the set holds: the test for an empty range compares the values of the borders, and the value of an infinite
  border is zero.\<close>

theorem range_to_inf_empty:
  fixes s :: "'s::{linorder,zero} sortedSet"
  assumes "ss_rep s es" "0 < v"
  shows "ss_range s (ScoreB \<lparr>sb_inf = 0, sb_value = v, sb_exclude = x\<rparr>) (ScoreB scorePositiveInfBorder) offset limit desc = Some []"
proof -
  let ?lo = "ScoreB \<lparr>sb_inf = 0, sb_value = v, sb_exclude = x\<rparr>" and ?hi = "ScoreB (scorePositiveInfBorder :: 's scoreBorder)"
  have i: "isIntersected ?lo ?hi = Some True" using assms(2) by (simp add: scorePositiveInfBorder_def)
  obtain zs where zs: "towers (ss_skiplist s) zs" "sorted_wrt el_lt (map tw_el zs)" using ss_rep_towers [OF assms(1)] by metis
  have o: "ordered_for ?lo ?hi zs" using ordered_fit [OF zs(2)] by simp
  show ?thesis using sl_getFirstInRange_towers [OF zs(1) i o] sl_getLastInRange_towers [OF zs(1) i o]
    by (simp add: ss_range_def ss_forEach_def Let_def visit_range.simps)
qed

theorem range_to_inf_empty_witness:
  "\<exists>s. ss_rep s [\<lparr>el_member = ''a'', el_score = 1 :: int\<rparr>, \<lparr>el_member = ''b'', el_score = 2\<rparr>] \<and>
     ss_range s (ScoreB \<lparr>sb_inf = 0, sb_value = 1, sb_exclude = False\<rparr>) (ScoreB scorePositiveInfBorder) 0 (-1) False = Some []"
proof -
  obtain s where s: "ss_rep s [\<lparr>el_member = ''a'', el_score = 1 :: int\<rparr>, \<lparr>el_member = ''b'', el_score = 2\<rparr>]" using ss_pair .
  then show ?thesis using range_to_inf_empty [OF s, of 1] by (intro exI [of _ s]) simp
qed

text \<open>C32. An offset that skips the whole range escapes from it: the element after the range is returned, although
  it lies outside the borders, since the first element visited is not compared with them.\<close>

theorem range_offset_escapes:
  fixes s :: "'s::linorder sortedSet"
  assumes "ss_rep s es" "borders_fit lo hi es" "isIntersected lo hi = Some False"
    and "es = A @ filter (in_range lo hi) es @ p # B" "filter (in_range lo hi) es \<noteq> []"
    and "filter (in_range lo hi) (A @ p # B) = []"
  shows "ss_range s lo hi (int (length (filter (in_range lo hi) es))) 1 False = Some [p] \<and> \<not> in_range lo hi p"
proof
  show "\<not> in_range lo hi p" using assms(6) by (auto simp: filter_empty_conv)
  obtain zs where zs: "towers (ss_skiplist s) zs" "map tw_el zs = es" "sorted_wrt el_lt (map tw_el zs)"
      "\<And>lo hi. length (hits lo hi zs) = length (filter (in_range lo hi) es)" using ss_rep_towers [OF assms(1)] by metis
  have o: "ordered_for lo hi zs" using ordered_fit [OF zs(3)] assms(2) zs(2) by simp
  let ?sl = "ss_skiplist s" and ?H = "hits lo hi zs"
  obtain pre post where b: "zs = pre @ ?H @ post" "hits lo hi pre = []" "hits lo hi post = []" using hits_block [OF o] by metis
  have ne: "?H \<noteq> []" using assms(5) zs(4) [of lo hi] by auto
  have c: "chain (sl_heap ?sl) False (?H @ post)" using chain_forward [of ?sl pre "?H @ post"] zs(1) b(1) by simp
  have "map tw_el post = p # B"
  proof -
    have h: "map tw_el ?H = filter (in_range lo hi) es" unfolding zs(2) [symmetric] by (simp add: filter_map comp_def)
    have e: "map tw_el pre @ filter (in_range lo hi) es @ map tw_el post = A @ filter (in_range lo hi) es @ p # B"
      using arg_cong [OF b(1), of "map tw_el"] zs(2) assms(4) unfolding map_append h by simp
    have all: "\<forall>x \<in> set (filter (in_range lo hi) es). in_range lo hi x" by simp
    have out: "\<forall>x \<in> set (map tw_el pre). \<not> in_range lo hi x" "\<forall>x \<in> set A. \<not> in_range lo hi x"
      using b(2) assms(6) by (auto simp: filter_empty_conv)
    have "takeWhile (\<lambda>x. \<not> in_range lo hi x) (X @ filter (in_range lo hi) es @ Y) = X" if "\<forall>x \<in> set X. \<not> in_range lo hi x" for X Y
      using that assms(5) all by (cases "filter (in_range lo hi) es") (auto simp: takeWhile_append)
    from this [OF out(1), of "map tw_el post"] this [OF out(2), of "p # B"] have "map tw_el pre = A" unfolding e by simp
    then show ?thesis using e by simp
  qed
  then obtain q post' where q: "post = q # post'" "tw_el q = p" by (cases post) auto
  have d: "drop (length ?H) (?H @ post) = post" by simp
  have "sl_getFirstInRange ?sl lo hi = Some (headp (?H @ post))"
    using sl_getFirstInRange_towers [OF zs(1) assms(3) o] headp_append [OF ne] by simp
  then show "ss_range s lo hi (int (length (filter (in_range lo hi) es))) 1 False = Some [p]"
    using visit_range_chain [OF chain_drop [OF c, of "length ?H"], of 0 lo hi 1 "[]"] assms(5) unfolding zs(4) [symmetric] d
    by (simp add: ss_range_def ss_forEach_def Let_def skip_chain [OF c, unfolded q(1)] q)
qed

theorem range_offset_escapes_witness:
  "\<exists>s. ss_rep s [\<lparr>el_member = ''a'', el_score = 1 :: int\<rparr>, \<lparr>el_member = ''b'', el_score = 2\<rparr>] \<and>
     ss_range s (ScoreB \<lparr>sb_inf = 0, sb_value = 0, sb_exclude = False\<rparr>) (ScoreB \<lparr>sb_inf = 0, sb_value = 1, sb_exclude = False\<rparr>) 1 1 False
       = Some [\<lparr>el_member = ''b'', el_score = 2\<rparr>]"
proof -
  let ?lo = "ScoreB \<lparr>sb_inf = 0, sb_value = 0, sb_exclude = False\<rparr> :: int border" and ?hi = "ScoreB \<lparr>sb_inf = 0, sb_value = 1, sb_exclude = False\<rparr> :: int border"
  obtain s where s: "ss_rep s [\<lparr>el_member = ''a'', el_score = 1 :: int\<rparr>, \<lparr>el_member = ''b'', el_score = 2\<rparr>]" using ss_pair .
  then show ?thesis using range_offset_escapes [OF s, of ?lo ?hi "[]" _ "[]"]
    by (intro exI [of _ s]) (simp add: in_range_def sb_less_def sb_greater_def scorePositiveInf_def scoreNegativeInf_def)
qed

end
