(* ===== verification/ZSetObj.thy ===== *)
theory ZSetObj
  imports HashObj SortedSet
begin

text \<open>
  The sorted-set object of \<^verbatim>\<open>internal/object/encoding.go\<close>: a listpack of alternating members and score
  texts in the order of insertion, sorted anew for every query, converted to the sorted set of \<open>SortedSet\<close> past the
  configured thresholds. Printing and parsing a score are the parameters \<open>fmt\<close> and \<open>parse\<close>; the random
  numbers that the insertions draw are the stream \<open>rs\<close>.
\<close>

section \<open>The object\<close>

record 's zset =
  z_listpack :: "listpack option"
  z_skiplist :: "'s sortedSet option"
  z_isListpack :: bool

definition newZSet :: "'s zset" where
  "newZSet = \<lparr>z_listpack = Some newListpack, z_skiplist = None, z_isListpack = True\<rparr>"

definition zset_found :: "listpack \<Rightarrow> string \<Rightarrow> bool option" where
  "zset_found lp member =
     lp_range lp (\<lambda>found i val. if even i \<and> val = GStr member then Some (True, False) else Some (found, True)) False"

definition rebuildListpackWithScore :: "('s \<Rightarrow> string) \<Rightarrow> listpack \<Rightarrow> string \<Rightarrow> 's \<Rightarrow> listpack option" where
  "rebuildListpackWithScore fmt lp member score =
     lp_range lp (\<lambda>newLp i val.
       case val of
         GStr str \<Rightarrow>
           if even i then Some (lp_appendStr newLp str, True)
           else do { (prevVal, _) \<leftarrow> lp_get lp (int i - 1);
                     if prevVal = GStr member then Some (lp_appendStr newLp (fmt score), True)
                     else Some (lp_appendStr newLp str, True) }
       | _ \<Rightarrow> Some (newLp, True)) newListpack"

text \<open>The conversion also returns how many random numbers it has used.\<close>

definition convertToSkiplist ::
  "(string \<Rightarrow> 's option) \<Rightarrow> (nat \<Rightarrow> nat) \<Rightarrow> 's::{linorder,zero} zset \<Rightarrow> ('s zset \<times> nat) option" where
  "convertToSkiplist parse rs z =
     do { lp \<leftarrow> z_listpack z;
          (s, n) \<leftarrow> lp_range lp (\<lambda>(s, n) i val.
            case val of
              GStr member \<Rightarrow>
                if even i then
                  do { (scoreVal, ok) \<leftarrow> lp_get lp (int i + 1);
                       (case scoreVal of
                          GStr scoreStr \<Rightarrow>
                            (case parse scoreStr of
                               Some score \<Rightarrow>
                                 if ok then do { (s', _) \<leftarrow> ss_add (rs n) s member score; Some ((s', Suc n), True) }
                                 else Some ((s, n), True)
                             | None \<Rightarrow> Some ((s, n), True))
                        | _ \<Rightarrow> Some ((s, n), True)) }
                else Some ((s, n), True)
            | _ \<Rightarrow> Some ((s, n), True)) (ss_make, 0);
          Some (\<lparr>z_listpack = None, z_skiplist = Some s, z_isListpack = False\<rparr>, n) }"

definition zset_add ::
  "thresholds \<Rightarrow> ('s \<Rightarrow> string) \<Rightarrow> (string \<Rightarrow> 's option) \<Rightarrow> (nat \<Rightarrow> nat) \<Rightarrow> 's::{linorder,zero} zset \<Rightarrow> string \<Rightarrow> 's \<Rightarrow> ('s zset \<times> bool) option" where
  "zset_add t fmt parse rs z member score =
     (if z_isListpack z then
        do { lp \<leftarrow> z_listpack z;
             found \<leftarrow> zset_found lp member;
             if found then
               do { lp' \<leftarrow> rebuildListpackWithScore fmt lp member score;
                    Some (z\<lparr>z_listpack := Some lp'\<rparr>, False) }
             else if int (length member) > zsetMaxListpackValue t then
               do { (z', n) \<leftarrow> convertToSkiplist parse rs z;
                    s \<leftarrow> z_skiplist z';
                    (s', b) \<leftarrow> ss_add (rs n) s member score;
                    Some (z'\<lparr>z_skiplist := Some s'\<rparr>, b) }
             else
               (let lp' = lp_appendStr (lp_appendStr lp member) (fmt score); z' = z\<lparr>z_listpack := Some lp'\<rparr>
                in if int (lp_len lp' div 2) > zsetMaxListpackEntries t
                   then do { (z'', _) \<leftarrow> convertToSkiplist parse rs z'; Some (z'', True) }
                   else Some (z', True)) }
      else do { s \<leftarrow> z_skiplist z;
                (s', b) \<leftarrow> ss_add (rs 0) s member score;
                Some (z\<lparr>z_skiplist := Some s'\<rparr>, b) })"

function zset_get_from :: "(string \<Rightarrow> 's option) \<Rightarrow> listpack \<Rightarrow> string \<Rightarrow> nat \<Rightarrow> 's option option" where
  "zset_get_from parse lp member i =
     (if i < lp_len lp then
        do { (val, ok) \<leftarrow> lp_get lp (int i);
             if \<not> ok then Some None
             else if val = GStr member then
               do { (scoreVal, ok) \<leftarrow> lp_get lp (int i + 1);
                    if \<not> ok then Some None
                    else (case scoreVal of GStr scoreStr \<Rightarrow> Some (parse scoreStr) | _ \<Rightarrow> zset_get_from parse lp member (i + 2)) }
             else zset_get_from parse lp member (i + 2) }
      else Some None)"
  by pat_completeness auto
termination
  by (relation "measure (\<lambda>(_, lp, _, i). lp_len lp - i)") auto

declare zset_get_from.simps [simp del]

definition zset_get :: "(string \<Rightarrow> 's option) \<Rightarrow> 's zset \<Rightarrow> string \<Rightarrow> 's option option" where
  "zset_get parse z member =
     (if z_isListpack z then do { lp \<leftarrow> z_listpack z; zset_get_from parse lp member 0 }
      else do { s \<leftarrow> z_skiplist z; Some (map_option el_score (ss_get s member)) })"

function zset_remove_from :: "listpack \<Rightarrow> string \<Rightarrow> nat \<Rightarrow> listpack \<times> bool \<Rightarrow> (listpack \<times> bool) option" where
  "zset_remove_from lp member i acc =
     (if i < lp_len lp then
        do { (val, ok) \<leftarrow> lp_get lp (int i);
             if \<not> ok then Some acc
             else case val of
               GStr str \<Rightarrow>
                 if str = member then zset_remove_from lp member (i + 2) (fst acc, True)
                 else do { (scoreVal, ok) \<leftarrow> lp_get lp (int i + 1);
                           zset_remove_from lp member (i + 2)
                             (case scoreVal of
                                GStr scoreStr \<Rightarrow> if ok then lp_appendStr (lp_appendStr (fst acc) str) scoreStr else lp_appendStr (fst acc) str
                              | _ \<Rightarrow> lp_appendStr (fst acc) str, snd acc) }
             | _ \<Rightarrow> zset_remove_from lp member (i + 2) acc }
      else Some acc)"
  by pat_completeness auto
termination
  by (relation "measure (\<lambda>(lp, _, i, _). lp_len lp - i)") auto

declare zset_remove_from.simps [simp del]

definition zset_remove :: "'s::linorder zset \<Rightarrow> string \<Rightarrow> ('s zset \<times> bool) option" where
  "zset_remove z member =
     (if z_isListpack z then
        do { lp \<leftarrow> z_listpack z;
             (newLp, removed) \<leftarrow> zset_remove_from lp member 0 (newListpack, False);
             Some (if \<not> removed then (z, False) else (z\<lparr>z_listpack := Some newLp\<rparr>, True)) }
      else do { s \<leftarrow> z_skiplist z;
                (s', b) \<leftarrow> ss_remove s member;
                Some (z\<lparr>z_skiplist := Some s'\<rparr>, b) })"

definition zset_len :: "'s zset \<Rightarrow> int option" where
  "zset_len z =
     (if z_isListpack z then do { lp \<leftarrow> z_listpack z; Some (int (lp_len lp div 2)) }
      else do { s \<leftarrow> z_skiplist z; Some (ss_len s) })"

definition zset_forEach ::
  "(string \<Rightarrow> 's option) \<Rightarrow> 's zset \<Rightarrow> ('a \<Rightarrow> string \<Rightarrow> 's \<Rightarrow> ('a \<times> bool) option) \<Rightarrow> 'a \<Rightarrow> 'a option" where
  "zset_forEach parse z fn st =
     (if z_isListpack z then
        do { lp \<leftarrow> z_listpack z;
             map_option snd (lp_range lp (\<lambda>(member, st) i val.
               case val of
                 GStr str \<Rightarrow>
                   if even i then Some ((str, st), True)
                   else (case parse str of
                           Some score \<Rightarrow> do { (st', go) \<leftarrow> fn st member score; Some ((member, st'), go) }
                         | None \<Rightarrow> Some ((member, st), True))
               | _ \<Rightarrow> Some ((member, st), True)) ([], st)) }
      else do { s \<leftarrow> z_skiplist z;
                ss_forEachByRank s 0 (ss_len s) False (\<lambda>st e. fn st (el_member e) (el_score e)) st })"

definition zset_isListpack :: "'s zset \<Rightarrow> bool" where
  "zset_isListpack z = z_isListpack z"

definition zset_currentEncoding :: "'s zset \<Rightarrow> encoding" where
  "zset_currentEncoding z = (if z_isListpack z then EncListpack else EncSkiplist)"

definition getAsSortedSet ::
  "(string \<Rightarrow> 's option) \<Rightarrow> (nat \<Rightarrow> nat) \<Rightarrow> 's::{linorder,zero} zset \<Rightarrow> ('s zset \<times> 's sortedSet option) option" where
  "getAsSortedSet parse rs z =
     (if z_isListpack z then do { (z', _) \<leftarrow> convertToSkiplist parse rs z; Some (z', z_skiplist z') }
      else Some (z, z_skiplist z))"

section \<open>Queries on the listpack\<close>

text \<open>
  \<^verbatim>\<open>sort.Slice\<close> with the comparison of the code, as an insertion sort: the entries have distinct members, so every
  correct sort returns the same slice.
\<close>

definition entry_less :: "'s::linorder element \<Rightarrow> 's element \<Rightarrow> bool" where
  "entry_less a b = (if el_score a \<noteq> el_score b then el_score a < el_score b else el_member a < el_member b)"

fun insert_by :: "('a \<Rightarrow> 'a \<Rightarrow> bool) \<Rightarrow> 'a \<Rightarrow> 'a list \<Rightarrow> 'a list" where
  "insert_by lt x [] = [x]"
| "insert_by lt x (y # ys) = (if lt y x then y # insert_by lt x ys else x # y # ys)"

definition sort_slice :: "('a \<Rightarrow> 'a \<Rightarrow> bool) \<Rightarrow> 'a list \<Rightarrow> 'a list" where
  "sort_slice lt xs = foldr (insert_by lt) xs []"

definition collectSorted :: "(string \<Rightarrow> 's option) \<Rightarrow> listpack \<Rightarrow> 's::linorder element list option" where
  "collectSorted parse lp =
     map_option (\<lambda>(_, entries). sort_slice entry_less entries)
       (lp_range lp (\<lambda>(member, entries) i val.
          case val of
            GStr str \<Rightarrow>
              if even i then Some ((str, entries), True)
              else (case parse str of
                      Some score \<Rightarrow> Some ((member, entries @ [\<lparr>el_member = member, el_score = score\<rparr>]), True)
                    | None \<Rightarrow> Some ((member, entries), True))
          | _ \<Rightarrow> Some ((member, entries), True)) ([], []))"

text \<open>The two search loops of \<^verbatim>\<open>GetRank\<close>; \<open>k\<close> is one more than the index of the downward one.\<close>

fun rank_up :: "'s element list \<Rightarrow> string \<Rightarrow> nat \<Rightarrow> int" where
  "rank_up [] member i = -1"
| "rank_up (e # es) member i = (if el_member e = member then int i else rank_up es member (Suc i))"

fun rank_down :: "'s element list \<Rightarrow> string \<Rightarrow> nat \<Rightarrow> int" where
  "rank_down entries member 0 = -1"
| "rank_down entries member (Suc i) =
     (if el_member (entries ! i) = member then int (length entries) - 1 - int i else rank_down entries member i)"

definition zset_getRank :: "(string \<Rightarrow> 's option) \<Rightarrow> 's::linorder zset \<Rightarrow> string \<Rightarrow> bool \<Rightarrow> int option" where
  "zset_getRank parse z member desc =
     (if z_isListpack z then
        do { lp \<leftarrow> z_listpack z;
             entries \<leftarrow> collectSorted parse lp;
             Some (if desc then rank_down entries member (length entries) else rank_up entries member 0) }
      else do { s \<leftarrow> z_skiplist z; ss_getRank s member desc })"

text \<open>The loop over the ranks from \<open>i\<close> on, \<open>k\<close> of them, and the entry at a rank.\<close>

definition entry_at :: "'s element list \<Rightarrow> bool \<Rightarrow> int \<Rightarrow> 's element option" where
  "entry_at entries desc i = gindex entries (if desc then int (length entries) - 1 - i else i)"

fun rank_loop :: "'s element list \<Rightarrow> bool \<Rightarrow> ('a \<Rightarrow> 's element \<Rightarrow> ('a \<times> bool) option) \<Rightarrow> int \<Rightarrow> nat \<Rightarrow> 'a \<Rightarrow> 'a option" where
  "rank_loop entries desc fn i 0 st = Some st"
| "rank_loop entries desc fn i (Suc k) st =
     do { e \<leftarrow> entry_at entries desc i;
          (st', go) \<leftarrow> fn st e;
          if go then rank_loop entries desc fn (i + 1) k st' else Some st' }"

definition zset_rangeByRank :: "(string \<Rightarrow> 's option) \<Rightarrow> 's::linorder zset \<Rightarrow> int \<Rightarrow> int \<Rightarrow> bool \<Rightarrow> 's element option list option" where
  "zset_rangeByRank parse z start stop desc =
     (if z_isListpack z then
        do { lp \<leftarrow> z_listpack z;
             entries \<leftarrow> collectSorted parse lp;
             let n = int (length entries);
             if start < 0 \<or> start \<ge> n then Some []
             else (let stop' = min stop n in
                   if stop' \<le> start then Some []
                   else rank_loop entries desc (\<lambda>result e. Some (result @ [Some e], True)) start (nat (stop' - start)) []) }
      else do { s \<leftarrow> z_skiplist z; ss_rangeByRank s start stop desc })"

definition zset_forEachByRank ::
  "(string \<Rightarrow> 's option) \<Rightarrow> 's::linorder zset \<Rightarrow> int \<Rightarrow> int \<Rightarrow> bool \<Rightarrow> ('a \<Rightarrow> 's element \<Rightarrow> ('a \<times> bool) option) \<Rightarrow> 'a \<Rightarrow> 'a option" where
  "zset_forEachByRank parse z start stop desc fn st =
     (if z_isListpack z then
        do { lp \<leftarrow> z_listpack z;
             entries \<leftarrow> collectSorted parse lp;
             let n = int (length entries);
             if start < 0 \<or> start \<ge> n then Some st
             else (let stop' = min stop n in
                   if stop' \<le> start then Some st
                   else rank_loop entries desc fn start (nat (stop' - start)) st) }
      else do { s \<leftarrow> z_skiplist z; ss_forEachByRank s start stop desc fn st })"

definition zset_rangeCount :: "(string \<Rightarrow> 's option) \<Rightarrow> 's::linorder zset \<Rightarrow> 's border \<Rightarrow> 's border \<Rightarrow> int option" where
  "zset_rangeCount parse z lo hi =
     (if z_isListpack z then
        do { lp \<leftarrow> z_listpack z;
             entries \<leftarrow> collectSorted parse lp;
             Some (foldl (\<lambda>n e. if b_less lo e \<and> b_greater hi e then n + 1 else n) 0 entries) }
      else do { s \<leftarrow> z_skiplist z; ss_rangeCount s lo hi })"

text \<open>The loop of \<^verbatim>\<open>Range\<close> over the filtered entries, upwards or downwards from index \<open>i\<close>.\<close>

function zrange_loop ::
  "'s::linorder element list \<Rightarrow> 's border \<Rightarrow> 's border \<Rightarrow> int \<Rightarrow> bool \<Rightarrow> int \<Rightarrow> int \<Rightarrow> 's element list \<Rightarrow> 's element list option" where
  "zrange_loop filtered lo hi limit desc taken i result =
     (if (if desc then i \<ge> 0 else i < int (length filtered)) \<and> (limit < 0 \<or> taken < limit) then
        do { e \<leftarrow> gindex filtered i;
             if \<not> b_less lo e \<or> \<not> b_greater hi e then Some result
             else zrange_loop filtered lo hi limit desc (taken + 1) (if desc then i - 1 else i + 1) (result @ [e]) }
      else Some result)"
  by pat_completeness auto
termination
  by (relation "measure (\<lambda>(filtered, _, _, _, desc, _, i, _). if desc then nat (i + 1) else nat (int (length filtered) - i))") auto

declare zrange_loop.simps [simp del]

definition zset_range ::
  "(string \<Rightarrow> 's option) \<Rightarrow> 's::linorder zset \<Rightarrow> 's border \<Rightarrow> 's border \<Rightarrow> int \<Rightarrow> int \<Rightarrow> bool \<Rightarrow> 's element list option" where
  "zset_range parse z lo hi offset limit desc =
     (if z_isListpack z then
        do { lp \<leftarrow> z_listpack z;
             entries \<leftarrow> collectSorted parse lp;
             let filtered = filter (\<lambda>e. b_less lo e \<and> b_greater hi e) entries;
             let n = int (length filtered);
             if offset < 0 then Some []
             else if n = 0 then Some []
             else zrange_loop filtered lo hi limit desc 0 (if desc then n - 1 - offset else offset) [] }
      else do { s \<leftarrow> z_skiplist z; ss_range s lo hi offset limit desc })"

section \<open>Removal from the listpack\<close>

text \<open>
  The loop that copies the pairs whose member is not in \<open>removeSet\<close>. \<^verbatim>\<open>RemoveRange\<close> builds another
  listpack before this loop and discards it.
\<close>

function lp_without :: "listpack \<Rightarrow> string list \<Rightarrow> nat \<Rightarrow> listpack \<Rightarrow> listpack option" where
  "lp_without lp removeSet i newLp =
     (if i < lp_len lp then
        do { (memberVal, ok) \<leftarrow> lp_get lp (int i);
             if \<not> ok then Some newLp
             else case memberVal of
               GStr member \<Rightarrow>
                 if member \<in> set removeSet then lp_without lp removeSet (i + 2) newLp
                 else do { (scoreVal, ok) \<leftarrow> lp_get lp (int i + 1);
                           lp_without lp removeSet (i + 2)
                             (case scoreVal of
                                GStr scoreStr \<Rightarrow> if ok then lp_appendStr (lp_appendStr newLp member) scoreStr else newLp
                              | _ \<Rightarrow> newLp) }
             | _ \<Rightarrow> lp_without lp removeSet (i + 2) newLp }
      else Some newLp)"
  by pat_completeness auto
termination
  by (relation "measure (\<lambda>(lp, _, i, _). lp_len lp - i)") auto

declare lp_without.simps [simp del]

definition zset_removeRange :: "(string \<Rightarrow> 's option) \<Rightarrow> 's::linorder zset \<Rightarrow> 's border \<Rightarrow> 's border \<Rightarrow> ('s zset \<times> int) option" where
  "zset_removeRange parse z lo hi =
     (if z_isListpack z then
        do { lp \<leftarrow> z_listpack z;
             entries \<leftarrow> collectSorted parse lp;
             let toRemove = map el_member (filter (\<lambda>e. b_less lo e \<and> b_greater hi e) entries);
             newLp \<leftarrow> lp_without lp toRemove 0 newListpack;
             Some (z\<lparr>z_listpack := Some newLp\<rparr>, int (length toRemove)) }
      else do { s \<leftarrow> z_skiplist z;
                (s', n) \<leftarrow> ss_removeRange s lo hi;
                Some (z\<lparr>z_skiplist := Some s'\<rparr>, n) })"

text \<open>\<open>remdups\<close> counts the keys of the map \<^verbatim>\<open>removeSet\<close>.\<close>

definition zset_removeByRank :: "(string \<Rightarrow> 's option) \<Rightarrow> 's::linorder zset \<Rightarrow> int \<Rightarrow> int \<Rightarrow> ('s zset \<times> int) option" where
  "zset_removeByRank parse z start stop =
     (if z_isListpack z then
        do { lp \<leftarrow> z_listpack z;
             entries \<leftarrow> collectSorted parse lp;
             let n = int (length entries);
             let start' = max start 0;
             let stop' = min stop n;
             if start' \<ge> stop' then Some (z, 0)
             else do { removeSet \<leftarrow> rank_loop entries False (\<lambda>ms e. Some (ms @ [el_member e], True)) start' (nat (stop' - start')) [];
                       newLp \<leftarrow> lp_without lp removeSet 0 newListpack;
                       Some (z\<lparr>z_listpack := Some newLp\<rparr>, int (length (remdups removeSet))) } }
      else do { s \<leftarrow> z_skiplist z;
                (s', n) \<leftarrow> ss_removeByRank s start stop;
                Some (z\<lparr>z_skiplist := Some s'\<rparr>, n) })"

text \<open>A negative count panics when the result slice is made.\<close>

definition zset_popMin :: "(string \<Rightarrow> 's option) \<Rightarrow> 's::{linorder,zero} zset \<Rightarrow> int \<Rightarrow> ('s zset \<times> 's element list) option" where
  "zset_popMin parse z cnt =
     (if z_isListpack z then
        do { lp \<leftarrow> z_listpack z;
             entries \<leftarrow> collectSorted parse lp;
             let cnt' = min cnt (int (length entries));
             if cnt' < 0 then None
             else do { result \<leftarrow> rank_loop entries False (\<lambda>es e. Some (es @ [e], True)) 0 (nat cnt') [];
                       newLp \<leftarrow> lp_without lp (map el_member result) 0 newListpack;
                       Some (z\<lparr>z_listpack := Some newLp\<rparr>, result) } }
      else do { s \<leftarrow> z_skiplist z;
                (s', es) \<leftarrow> ss_popMin s cnt;
                Some (z\<lparr>z_skiplist := Some s'\<rparr>, es) })"

definition zset_scan :: "(string \<Rightarrow> matcher option) \<Rightarrow> ('s \<Rightarrow> string) \<Rightarrow> 's zset \<Rightarrow> string \<Rightarrow> (string list \<times> int) option" where
  "zset_scan regexp fmt10 z pattern =
     (if z_isListpack z then
        (case compilePattern regexp pattern of
           None \<Rightarrow> Some ([], -1)
         | Some matchKey \<Rightarrow>
             do { lp \<leftarrow> z_listpack z;
                  result \<leftarrow> lp_range lp (\<lambda>result i val.
                    case val of
                      GStr member \<Rightarrow>
                        if even i \<and> (pattern = ''*'' \<or> matchKey member) then
                          do { (scoreVal, ok) \<leftarrow> lp_get lp (int i + 1);
                               Some (result @ member # (case scoreVal of GStr scoreStr \<Rightarrow> if ok then [scoreStr] else [] | _ \<Rightarrow> []), True) }
                        else Some (result, True)
                    | _ \<Rightarrow> Some (result, True)) [];
                  Some (result, 0) })
      else do { s \<leftarrow> z_skiplist z; Some (ss_zsetScan regexp fmt10 s pattern) })"

section \<open>The set an object stands for\<close>

text \<open>
  What the code relies on of \<^verbatim>\<open>strconv.FormatFloat\<close> with precision -1 and \<^verbatim>\<open>strconv.ParseFloat\<close>: a printed score
  is parsed back exactly, and a text fits in memory.
\<close>

definition float_text :: "('s \<Rightarrow> string) \<Rightarrow> (string \<Rightarrow> 's option) \<Rightarrow> bool" where
  "float_text fmt parse \<longleftrightarrow> (\<forall>s. parse (fmt s) = Some s \<and> go_str (fmt s))"

definition pairs_of :: "('s \<Rightarrow> string) \<Rightarrow> 's element list \<Rightarrow> (string \<times> string) list" where
  "pairs_of fmt ds = map (\<lambda>e. (el_member e, fmt (el_score e))) ds"

definition lp_holds :: "thresholds \<Rightarrow> ('s \<Rightarrow> string) \<Rightarrow> 's zset \<Rightarrow> 's element list \<Rightarrow> bool" where
  "lp_holds t fmt z ds \<longleftrightarrow> z_listpack z = Some (lp_of (hpairs (pairs_of fmt ds))) \<and> distinct (map el_member ds) \<and>
     (\<forall>m \<in> set (map el_member ds). go_str m \<and> int (length m) \<le> zsetMaxListpackValue t) \<and>
     int (length ds) \<le> zsetMaxListpackEntries t"

definition z_rep :: "thresholds \<Rightarrow> ('s \<Rightarrow> string) \<Rightarrow> 's::linorder zset \<Rightarrow> 's element list \<Rightarrow> bool" where
  "z_rep t fmt z es \<longleftrightarrow> zsorted es \<and>
     (if z_isListpack z then \<exists>ds. lp_holds t fmt z ds \<and> set ds = set es else \<exists>s. z_skiplist z = Some s \<and> ss_rep s es)"

lemma z_rep_skip: "ss_rep s es \<Longrightarrow> z_rep t fmt \<lparr>z_listpack = l, z_skiplist = Some s, z_isListpack = False\<rparr> es"
  by (simp add: z_rep_def ss_rep_def)

lemma float_textD [simp]: "float_text fmt parse \<Longrightarrow> parse (fmt s) = Some s" "float_text fmt parse \<Longrightarrow> go_str (fmt s)"
  by (simp_all add: float_text_def)

lemma pairs_of_simps [simp]:
  "pairs_of fmt [] = []" "pairs_of fmt (e # ds) = (el_member e, fmt (el_score e)) # pairs_of fmt ds"
  "pairs_of fmt (ds @ ds') = pairs_of fmt ds @ pairs_of fmt ds'" "length (pairs_of fmt ds) = length ds"
  "fst ` set (pairs_of fmt ds) = el_member ` set ds"
  by (simp_all add: pairs_of_def image_image)

lemma pairs_of_ok: "float_text fmt parse \<Longrightarrow> distinct (map el_member ds) \<Longrightarrow> \<forall>e \<in> set ds. go_str (el_member e) \<Longrightarrow> kvs_ok (pairs_of fmt ds)"
  by (auto simp: kvs_ok_def pairs_of_def comp_def)

lemma lp_holds_ok: "float_text fmt parse \<Longrightarrow> lp_holds t fmt z ds \<Longrightarrow> kvs_ok (pairs_of fmt ds)"
  by (rule pairs_of_ok) (auto simp: lp_holds_def)

lemma zsorted_unique:
  assumes "zsorted xs" "zsorted ys" "set xs = set ys"
  shows "xs = ys"
  using assms
proof (induction xs arbitrary: ys)
  case (Cons x xs)
  then obtain y ys' where ys: "ys = y # ys'" by (cases ys) auto
  have "\<forall>z \<in> set xs. el_lt x z" "\<forall>z \<in> set ys'. el_lt y z" using Cons.prems ys by (simp_all add: zsorted_def)
  moreover have "x \<in> set (y # ys')" "y \<in> set (x # xs)" using Cons.prems(3) ys by auto
  ultimately have xy: "x = y" using el_lt_trans el_lt_irrefl by (metis set_ConsD)
  have "x \<notin> set xs" "y \<notin> set ys'" using Cons.prems(1,2) ys by (auto simp: zsorted_def)
  then have "set xs = set ys'" using Cons.prems(3) ys xy by auto
  then show ?case using Cons.IH [of ys'] Cons.prems(1,2) ys xy by (auto simp: zsorted_def)
qed simp

section \<open>The listpack loops\<close>

lemma insert_by_set: "set (insert_by lt x ys) = insert x (set ys)"
  by (induction ys) auto

lemma sort_slice_set: "set (sort_slice lt xs) = set xs"
  by (induction xs) (auto simp: sort_slice_def insert_by_set)

lemma entry_less_lt: "entry_less a b = el_lt a b"
  by (auto simp: entry_less_def el_lt_def)

lemma insert_by_sorted:
  assumes "sorted_wrt el_lt ys" "\<forall>y \<in> set ys. el_member y \<noteq> el_member x"
  shows "sorted_wrt el_lt (insert_by entry_less x ys)"
  using assms
proof (induction ys)
  case (Cons y ys)
  have "el_lt x y" if "\<not> el_lt y x" using Cons.prems(2) that el_lt_linear by (metis list.set_intros(1))
  then show ?case using Cons by (auto simp: insert_by_set entry_less_lt dest: el_lt_trans)
qed simp

lemma sort_slice_sorted:
  assumes "distinct (map el_member ds)"
  shows "zsorted (sort_slice entry_less ds)"
proof -
  have "sorted_wrt el_lt (sort_slice entry_less ds) \<and> distinct (map el_member (sort_slice entry_less ds))" using assms
  proof (induction ds)
    case (Cons d ds)
    have s: "sort_slice entry_less (d # ds) = insert_by entry_less d (sort_slice entry_less ds)" by (simp add: sort_slice_def)
    have "el_member d \<notin> el_member ` set ds" using Cons.prems by simp
    then have ne: "\<forall>y \<in> set (sort_slice entry_less ds). el_member y \<noteq> el_member d" unfolding sort_slice_set by (metis imageI)
    have "distinct (map el_member (insert_by lt d ys))" if "distinct (map el_member ys)" "\<forall>y \<in> set ys. el_member y \<noteq> el_member d" for lt ys
      using that by (induction ys) (auto simp: insert_by_set)
    then show ?case using Cons insert_by_sorted [OF _ ne] ne unfolding s by simp
  qed (simp add: sort_slice_def)
  then show ?thesis by (simp add: zsorted_def)
qed

lemma collectSorted_eq:
  assumes "float_text fmt parse" "lp_holds t fmt z ds" "zsorted es" "set ds = set es"
  shows "collectSorted parse (lp_of (hpairs (pairs_of fmt ds))) = Some es"
proof -
  let ?fn = "\<lambda>(member, entries) i val.
          case val of
            GStr str \<Rightarrow>
              if even i then Some ((str, entries), True)
              else (case parse str of
                      Some score \<Rightarrow> Some ((member, entries @ [\<lparr>el_member = member, el_score = score\<rparr>]), True)
                    | None \<Rightarrow> Some ((member, entries), True))
          | _ \<Rightarrow> Some ((member, entries), True)"
  have "\<exists>m'. iter ?fn i (hpairs (pairs_of fmt ds)) (m, acc) = Some (m', acc @ ds)" if "even i" for i m acc ds
    using that
  proof (induction ds arbitrary: i m acc)
    case (Cons d ds)
    then show ?case using Cons.IH [of "Suc (Suc i)" "el_member d" "acc @ [d]"] assms(1) by (simp add: el_eta)
  qed simp
  from this [of 0 ds "[]" "[]"] have "collectSorted parse (lp_of (hpairs (pairs_of fmt ds))) = Some (sort_slice entry_less ds)"
    using lp_holds_ok [OF assms(1,2)] by (auto simp: collectSorted_def)
  moreover have "sort_slice entry_less ds = es"
    using sort_slice_sorted [of ds] assms(2-4) by (intro zsorted_unique) (auto simp: lp_holds_def sort_slice_set)
  ultimately show ?thesis by simp
qed

lemma zset_found_eq: "kvs_ok (pairs_of fmt ds) \<Longrightarrow> zset_found (lp_of (hpairs (pairs_of fmt ds))) m = Some (m \<in> el_member ` set ds)"
  using hash_found_eq [of "pairs_of fmt ds" m] by (simp add: hash_found_def zset_found_def)

lemma rebuild_score_eq:
  assumes "kvs_ok (pairs_of fmt ds)"
  shows "rebuildListpackWithScore fmt (lp_of (hpairs (pairs_of fmt ds))) m sc =
    Some (lp_of (hpairs (pairs_of fmt (map (\<lambda>e. if el_member e = m then \<lparr>el_member = m, el_score = sc\<rparr> else e) ds))))"
proof -
  have "appendValue lp (GStr v) = lp_appendStr lp v" for lp v by (simp add: appendValue_def)
  then have "rebuildListpackWithScore fmt lp m sc = rebuildListpackWithUpdate lp m (GStr (fmt sc))" for lp
    by (simp only: rebuildListpackWithScore_def rebuildListpackWithUpdate_def)
  moreover have "map (\<lambda>(k', v). (k', if k' = m then val_str (GStr (fmt sc)) else v)) (pairs_of fmt ds) =
      pairs_of fmt (map (\<lambda>e. if el_member e = m then \<lparr>el_member = m, el_score = sc\<rparr> else e) ds)"
    by (auto simp: pairs_of_def val_str_def)
  ultimately show ?thesis using rebuild_eq [OF assms, of m "GStr (fmt sc)"] by simp
qed

lemma zadd_fresh:
  assumes "ss_rep s es" "el_member e \<notin> el_member ` set es"
  shows "\<exists>s' es'. ss_add r s (el_member e) (el_score e) = Some (s', True) \<and> ss_rep s' es' \<and> set es' = insert e (set es)"
proof -
  let ?es' = "filter (\<lambda>x. el_lt x e) es @ e # filter (\<lambda>x. \<not> el_lt x e) es"
  have "zref_step es (ZAdd (\<lambda>_. r) (el_member e) (el_score e)) = Some (?es', ZBool True)"
    using assms(2) zref_add_fresh [OF assms(2)] by (simp add: Let_def el_eta)
  from ss_add_rep [OF assms(1) this] obtain s' where "ss_add r s (el_member e) (el_score e) = Some (s', True)" "ss_rep s' ?es'" by auto
  moreover have "set ?es' = insert e (set es)" by auto
  ultimately show ?thesis by blast
qed

lemma convert_eq:
  assumes "float_text fmt parse" "kvs_ok (pairs_of fmt ds)" "z_listpack z = Some (lp_of (hpairs (pairs_of fmt ds)))" "zsorted es" "set ds = set es"
  shows "\<exists>s n. convertToSkiplist parse rs z = Some (\<lparr>z_listpack = None, z_skiplist = Some s, z_isListpack = False\<rparr>, n) \<and> ss_rep s es"
proof -
  let ?lp = "lp_of (hpairs (pairs_of fmt ds))"
  define fn where "fn = (\<lambda>(s, n) i val.
      case val of
        GStr member \<Rightarrow>
          if even i then
            do { (scoreVal, ok) \<leftarrow> lp_get ?lp (int i + 1);
                 (case scoreVal of
                    GStr scoreStr \<Rightarrow>
                      (case parse scoreStr of
                         Some score \<Rightarrow>
                           if ok then do { (s', _) \<leftarrow> ss_add (rs n) s member score; Some ((s', Suc n), True) }
                           else Some ((s, n), True)
                       | None \<Rightarrow> Some ((s, n), True))
                  | _ \<Rightarrow> Some ((s, n), True)) }
          else Some ((s, n), True)
      | _ \<Rightarrow> Some ((s, n), True))"
  have "\<exists>s' es' n'. iter fn (2 * length pre) (hpairs (pairs_of fmt post)) (s, n) = Some (s', n') \<and> ss_rep s' es' \<and> set es' = set acc \<union> set post"
    if "ds = pre @ post" "ss_rep s acc" "set acc = set pre" for pre post s n acc
    using that
  proof (induction post arbitrary: pre s n acc)
    case (Cons e post)
    have lt: "length pre < length (pairs_of fmt ds)" "pairs_of fmt ds ! length pre = (el_member e, fmt (el_score e))"
      using Cons.prems(1) by (simp_all add: nth_append)
    have d: "distinct (map el_member ds)" using assms(2) by (simp add: kvs_ok_def pairs_of_def comp_def)
    have "el_member e \<notin> el_member ` set acc" using d Cons.prems(1,3) by auto
    from zadd_fresh [OF Cons.prems(2) this, of "rs n"] obtain s1 es1 where a: "ss_add (rs n) s (el_member e) (el_score e) = Some (s1, True)"
        "ss_rep s1 es1" "set es1 = insert e (set acc)" by blast
    have g: "lp_get ?lp (int (2 * length pre) + 1) = Some (GStr (fmt (el_score e)), True)"
      using lp_get_pairs(2) [OF assms(2) lt(1)] lt(2) by simp
    have "fn (s, n) (2 * length pre) (GStr (el_member e)) = Some ((s1, Suc n), True)"
      unfolding fn_def using a(1) assms(1) by (simp add: g del: of_nat_mult)
    moreover have "fn (s1, Suc n) (Suc (2 * length pre)) (GStr (fmt (el_score e))) = Some ((s1, Suc n), True)" by (simp add: fn_def)
    moreover have "Suc (Suc (2 * length pre)) = 2 * length (pre @ [e])" by simp
    ultimately have it: "iter fn (2 * length pre) (hpairs (pairs_of fmt (e # post))) (s, n) =
        iter fn (2 * length (pre @ [e])) (hpairs (pairs_of fmt post)) (s1, Suc n)" by simp
    show ?case unfolding it using Cons.IH [of "pre @ [e]" s1 es1 "Suc n"] Cons.prems(1,3) a(2,3) by auto
  qed auto
  from this [of "[]" ds ss_make "[]" 0] ss_make_rep obtain s es' n where
    s: "iter fn 0 (hpairs (pairs_of fmt ds)) (ss_make, 0) = Some (s, n)" "ss_rep s es'" "set es' = set ds" by auto
  have "es' = es" using s(2,3) assms(4,5) by (intro zsorted_unique) (simp_all add: ss_rep_def)
  moreover have "convertToSkiplist parse rs z = Some (\<lparr>z_listpack = None, z_skiplist = Some s, z_isListpack = False\<rparr>, n)"
    using s(1) assms(2,3) by (simp add: convertToSkiplist_def fn_def)
  ultimately show ?thesis using s(2) by blast
qed

lemma zset_add_rep:
  assumes "float_text fmt parse" "z_rep t fmt z es" "go_str m" "zref_step es (ZAdd rs m sc) = Some (es', r)"
  shows "\<exists>z' b. zset_add t fmt parse rs z m sc = Some (z', b) \<and> r = ZBool b \<and> z_rep t fmt z' es'"
proof (cases "z_isListpack z")
  case False
  then show ?thesis using assms(2) ss_add_rep [OF _ assms(4)] by (fastforce simp: z_rep_def zset_add_def ss_rep_def)
next
  case lp: True
  let ?e = "\<lparr>el_member = m, el_score = sc\<rparr>"
  obtain ds where ds: "lp_holds t fmt z ds" "set ds = set es" "zsorted es" using assms(2) lp by (auto simp: z_rep_def)
  note h = ds(1) [unfolded lp_holds_def]
  note lpz = h [THEN conjunct1]
  have kv: "kvs_ok (pairs_of fmt ds)" by (rule lp_holds_ok [OF assms(1) ds(1)])
  let ?rest = "filter (\<lambda>x. el_member x \<noteq> m) es"
  have es': "es' = filter (\<lambda>x. el_lt x ?e) ?rest @ ?e # filter (\<lambda>x. \<not> el_lt x ?e) ?rest" and "r = ZBool (m \<notin> el_member ` set es)"
    using assms(4) by (simp_all add: Let_def)
  then have r: "r = ZBool (m \<notin> el_member ` set ds)" "set es' = insert ?e {x \<in> set ds. el_member x \<noteq> m}" unfolding ds(2) by auto
  have zs': "zsorted es'" unfolding es' by (rule zsorted_insert [OF zsorted_filter [OF ds(3)]]) auto
  show ?thesis
  proof (cases "m \<in> el_member ` set ds")
    case True
    let ?ds = "map (\<lambda>e. if el_member e = m then ?e else e) ds"
    have mm: "map el_member ?ds = map el_member ds" by auto
    have "set ?ds = set es'" unfolding r(2) using True by force
    have "lp_holds t fmt (z\<lparr>z_listpack := Some (lp_of (hpairs (pairs_of fmt ?ds)))\<rparr>) ?ds" using h unfolding lp_holds_def mm by simp
    then have "z_rep t fmt (z\<lparr>z_listpack := Some (lp_of (hpairs (pairs_of fmt ?ds)))\<rparr>) es'"
      using lp zs' \<open>set ?ds = set es'\<close> unfolding z_rep_def by auto
    then show ?thesis using True lp lpz r(1) by (intro exI [of _ "z\<lparr>z_listpack := Some (lp_of (hpairs (pairs_of fmt ?ds)))\<rparr>"] exI [of _ False] conjI) (simp_all add: zset_add_def zset_found_eq [OF kv] rebuild_score_eq [OF kv])
  next
    case False
    have set': "set es' = set (ds @ [?e])" unfolding r(2) using False by auto
    have kv': "kvs_ok (pairs_of fmt (ds @ [?e]))" using h False assms(1,3) by (intro pairs_of_ok [of fmt parse]) auto
    have app: "lp_appendStr (lp_appendStr (lp_of (hpairs (pairs_of fmt ds))) m) (fmt sc) = lp_of (hpairs (pairs_of fmt (ds @ [?e])))" by simp
    show ?thesis
    proof (cases "int (length m) > zsetMaxListpackValue t")
      case True
      obtain s n where s: "convertToSkiplist parse rs z = Some (\<lparr>z_listpack = None, z_skiplist = Some s, z_isListpack = False\<rparr>, n)" "ss_rep s es"
        using convert_eq [OF assms(1) kv _ ds(3,2)] h by blast
      have "zref_step es (ZAdd (\<lambda>_. rs n) m sc) = Some (es', r)" using assms(4) by simp
      from ss_add_rep [OF s(2) this] obtain s' where s': "ss_add (rs n) s m sc = Some (s', True)" "ss_rep s' es'" using r(1) False by auto
      then have "zset_add t fmt parse rs z m sc = Some (\<lparr>z_listpack = None, z_skiplist = Some s', z_isListpack = False\<rparr>, True)"
        using True False lp lpz s(1) by (simp add: zset_add_def zset_found_eq [OF kv])
      then show ?thesis using s'(2) r(1) False by (auto intro: z_rep_skip)
    next
      case short: False
      let ?z = "z\<lparr>z_listpack := Some (lp_of (hpairs (pairs_of fmt (ds @ [?e]))))\<rparr>"
      show ?thesis
      proof (cases "int (length (ds @ [?e])) > zsetMaxListpackEntries t")
        case True
        obtain s n where "convertToSkiplist parse rs ?z = Some (\<lparr>z_listpack = None, z_skiplist = Some s, z_isListpack = False\<rparr>, n)" "ss_rep s es'"
          using convert_eq [OF assms(1) kv' _ zs' set' [symmetric], of ?z rs] by auto
        then have "zset_add t fmt parse rs z m sc = Some (\<lparr>z_listpack = None, z_skiplist = Some s, z_isListpack = False\<rparr>, True)"
          using True False short lp lpz app by (simp add: zset_add_def zset_found_eq [OF kv] Let_def)
        then show ?thesis using \<open>ss_rep s es'\<close> r(1) False by (auto intro: z_rep_skip)
      next
        case few: False
        have "lp_holds t fmt ?z (ds @ [?e])" using h False short few assms(3) by (auto simp: lp_holds_def)
        then have "z_rep t fmt ?z es'" using lp zs' set' unfolding z_rep_def by auto
        then show ?thesis using few False short lp lpz r(1) app
          by (intro exI [of _ ?z] exI [of _ True]) (simp add: zset_add_def zset_found_eq [OF kv] Let_def)
      qed
    qed
  qed
qed

lemma zset_get_from_eq:
  assumes "float_text fmt parse" "kvs_ok (pairs_of fmt (pre @ ds))"
  shows "zset_get_from parse (lp_of (hpairs (pairs_of fmt (pre @ ds)))) m (2 * length pre) =
    Some (map_of (map (\<lambda>e. (el_member e, el_score e)) ds) m)"
  using assms(2)
proof (induction ds arbitrary: pre)
  case Nil
  then show ?case by (simp add: zset_get_from.simps [of _ _ _ "2 * length pre"])
next
  case (Cons e ds)
  let ?kvs = "pairs_of fmt (pre @ e # ds)"
  have lt: "length pre < length ?kvs" "?kvs ! length pre = (el_member e, fmt (el_score e))" by (simp_all add: nth_append)
  note G = lp_get_pairs [OF Cons.prems lt(1)]
  have "zset_get_from parse (lp_of (hpairs ?kvs)) m (2 * length pre) =
      (if el_member e = m then Some (Some (el_score e)) else zset_get_from parse (lp_of (hpairs ?kvs)) m (2 * length pre + 2))"
    unfolding zset_get_from.simps [of _ _ _ "2 * length pre"] G using assms(1) by (simp add: lt(2) nth_append)
  moreover have "zset_get_from parse (lp_of (hpairs ?kvs)) m (2 * length pre + 2) = Some (map_of (map (\<lambda>e. (el_member e, el_score e)) ds) m)"
    using Cons.IH [of "pre @ [e]"] Cons.prems by simp
  ultimately show ?case by simp
qed

lemma zset_remove_from_eq:
  assumes "kvs_ok (pairs_of fmt (pre @ ds))"
  shows "zset_remove_from (lp_of (hpairs (pairs_of fmt (pre @ ds)))) m (2 * length pre) (lp_of acc, b) =
    Some (lp_of (acc @ hpairs (pairs_of fmt (filter (\<lambda>e. el_member e \<noteq> m) ds))), b \<or> m \<in> el_member ` set ds)"
  using assms
proof (induction ds arbitrary: pre acc b)
  case Nil
  then show ?case by (simp add: zset_remove_from.simps [of _ _ "2 * length pre"])
next
  case (Cons e ds)
  let ?kvs = "pairs_of fmt (pre @ e # ds)"
  have lt: "length pre < length ?kvs" "?kvs ! length pre = (el_member e, fmt (el_score e))" by (simp_all add: nth_append)
  note G = lp_get_pairs [OF Cons.prems lt(1)]
  have "zset_remove_from (lp_of (hpairs ?kvs)) m (2 * length pre) (lp_of acc, b) =
      zset_remove_from (lp_of (hpairs ?kvs)) m (2 * length pre + 2)
        (if el_member e = m then (lp_of acc, True) else (lp_of (acc @ [GStr (el_member e), GStr (fmt (el_score e))]), b))"
    unfolding zset_remove_from.simps [of _ _ "2 * length pre"] G by (simp add: lt(2) nth_append)
  moreover have "zset_remove_from (lp_of (hpairs ?kvs)) m (2 * length pre + 2) (lp_of acc', b') =
      Some (lp_of (acc' @ hpairs (pairs_of fmt (filter (\<lambda>e. el_member e \<noteq> m) ds))), b' \<or> m \<in> el_member ` set ds)" for acc' b'
    using Cons.IH [of "pre @ [e]"] Cons.prems by simp
  ultimately show ?case by auto
qed

lemma lp_without_eq:
  assumes "kvs_ok (pairs_of fmt (pre @ ds))"
  shows "lp_without (lp_of (hpairs (pairs_of fmt (pre @ ds)))) ms (2 * length pre) (lp_of acc) =
    Some (lp_of (acc @ hpairs (pairs_of fmt (filter (\<lambda>e. el_member e \<notin> set ms) ds))))"
  using assms
proof (induction ds arbitrary: pre acc)
  case Nil
  then show ?case by (simp add: lp_without.simps [of _ _ "2 * length pre"])
next
  case (Cons e ds)
  let ?kvs = "pairs_of fmt (pre @ e # ds)"
  have lt: "length pre < length ?kvs" "?kvs ! length pre = (el_member e, fmt (el_score e))" by (simp_all add: nth_append)
  note G = lp_get_pairs [OF Cons.prems lt(1)]
  have "lp_without (lp_of (hpairs ?kvs)) ms (2 * length pre) (lp_of acc) =
      lp_without (lp_of (hpairs ?kvs)) ms (2 * length pre + 2)
        (lp_of (if el_member e \<in> set ms then acc else acc @ [GStr (el_member e), GStr (fmt (el_score e))]))"
    unfolding lp_without.simps [of _ _ "2 * length pre"] G by (simp add: lt(2) nth_append)
  moreover have "lp_without (lp_of (hpairs ?kvs)) ms (2 * length pre + 2) (lp_of acc') =
      Some (lp_of (acc' @ hpairs (pairs_of fmt (filter (\<lambda>e. el_member e \<notin> set ms) ds))))" for acc'
    using Cons.IH [of "pre @ [e]"] Cons.prems by simp
  ultimately show ?case by simp
qed

text \<open>Dropping members from the listpack drops them from the set.\<close>

lemma lp_holds_filter:
  assumes "z_isListpack z" "lp_holds t fmt z ds" "set ds = set es" "zsorted es"
  shows "z_rep t fmt (z\<lparr>z_listpack := Some (lp_of (hpairs (pairs_of fmt (filter P ds))))\<rparr>) (filter P es)"
proof -
  have "lp_holds t fmt (z\<lparr>z_listpack := Some (lp_of (hpairs (pairs_of fmt (filter P ds))))\<rparr>) (filter P ds)"
    using assms(2) order_trans [OF of_nat_mono [OF length_filter_le [of P ds]], of "zsetMaxListpackEntries t"]
    by (auto simp: lp_holds_def distinct_map_filter)
  then show ?thesis using assms(1,3) zsorted_filter [OF assms(4)] by (auto simp: z_rep_def)
qed

lemma z_rep_cases:
  assumes "z_rep t fmt z es" "float_text fmt parse"
  obtains s where "\<not> z_isListpack z" "z_skiplist z = Some s" "ss_rep s es"
  | ds where "z_isListpack z" "z_listpack z = Some (lp_of (hpairs (pairs_of fmt ds)))" "lp_holds t fmt z ds" "set ds = set es"
      "zsorted es" "kvs_ok (pairs_of fmt ds)" "length ds = length es" "collectSorted parse (lp_of (hpairs (pairs_of fmt ds))) = Some es"
proof (cases "z_isListpack z")
  case True
  then obtain ds where ds: "lp_holds t fmt z ds" "set ds = set es" "zsorted es" using assms(1) by (auto simp: z_rep_def)
  have "length ds = length es"
    using ds distinct_card [of ds] distinct_card [of es] by (simp add: lp_holds_def zsorted_def distinct_map)
  then show thesis using True ds lp_holds_ok [OF assms(2) ds(1)] collectSorted_eq [OF assms(2) ds(1,3,2)] by (intro that(2)) (simp_all add: lp_holds_def)
next
  case False
  then show thesis using assms(1) by (auto simp: z_rep_def intro: that(1))
qed

lemma z_rep_skip_update: "\<not> z_isListpack z \<Longrightarrow> ss_rep s es \<Longrightarrow> z_rep t fmt (z\<lparr>z_skiplist := Some s\<rparr>) es"
  by (simp add: z_rep_def ss_rep_def)

lemma zset_remove_rep:
  assumes "float_text fmt parse" "z_rep t fmt z es"
  shows "\<exists>z'. zset_remove z m = Some (z', m \<in> el_member ` set es) \<and> z_rep t fmt z' (filter (\<lambda>x. el_member x \<noteq> m) es)"
proof (rule z_rep_cases [OF assms(2,1)])
  fix s assume "\<not> z_isListpack z" "z_skiplist z = Some s" "ss_rep s es"
  then show ?thesis using ss_remove_rep [of s es m] z_rep_skip_update by (fastforce simp: zset_remove_def)
next
  fix ds assume d: "z_isListpack z" "z_listpack z = Some (lp_of (hpairs (pairs_of fmt ds)))" "lp_holds t fmt z ds" "set ds = set es"
    "zsorted es" "kvs_ok (pairs_of fmt ds)"
  have "zset_remove_from (lp_of (hpairs (pairs_of fmt ds))) m 0 (newListpack, False) =
      Some (lp_of (hpairs (pairs_of fmt (filter (\<lambda>e. el_member e \<noteq> m) ds))), m \<in> el_member ` set es)"
    using zset_remove_from_eq [of fmt "[]" ds m "[]" False] d(4,6) by simp
  moreover have "filter (\<lambda>x. el_member x \<noteq> m) es = es" if "m \<notin> el_member ` set es" by (rule zref_add_fresh [OF that])
  ultimately show ?thesis using lp_holds_filter [OF d(1,3,4,5), of "\<lambda>e. el_member e \<noteq> m"] assms(2) d(1,2) by (auto simp: zset_remove_def)
qed

section \<open>The queries\<close>

lemma rank_up_eq: "rank_up es m i = (case index_of (\<lambda>x. el_member x = m) es of None \<Rightarrow> -1 | Some j \<Rightarrow> int (i + j))"
  by (induction es arbitrary: i) (auto split: option.splits)

lemma rank_down_eq:
  assumes "distinct (map el_member es)"
  shows "k \<le> length es \<Longrightarrow> rank_down es m k =
    (case index_of (\<lambda>x. el_member x = m) es of Some j \<Rightarrow> if j < k then int (length es) - 1 - int j else -1 | None \<Rightarrow> -1)"
proof (induction k)
  case (Suc k)
  have "el_member (es ! k) = m \<longleftrightarrow> index_of (\<lambda>x. el_member x = m) es = Some k"
    using index_of_nth [OF assms, of k] index_of_SomeD [of "\<lambda>x. el_member x = m" es k] Suc.prems by auto
  then show ?case using Suc by (auto split: option.splits simp: less_Suc_eq)
qed (simp split: option.splits)

lemma entry_at_eq:
  "0 \<le> i \<Longrightarrow> nat i < length es \<Longrightarrow> entry_at es desc i = Some ((if desc then rev es else es) ! nat i)"
  by (auto simp: entry_at_def gindex_def rev_nth nat_diff_distrib intro!: arg_cong [of _ _ "(!) es"])

lemma rank_loop_eq:
  assumes "0 \<le> i" "nat i + k \<le> length es"
  shows "rank_loop es desc fn i k st = iter (\<lambda>s _. fn s) j (take k (drop (nat i) (if desc then rev es else es))) st"
  using assms
proof (induction k arbitrary: i j st)
  case (Suc k)
  let ?ws = "if desc then rev es else es"
  have "drop (nat i) ?ws = ?ws ! nat i # drop (Suc (nat i)) ?ws" using Suc.prems by (intro Cons_nth_drop_Suc [symmetric]) simp
  moreover have "nat (i + 1) = Suc (nat i)" using Suc.prems(1) by simp
  ultimately show ?case using Suc.IH [of "i + 1" _ "Suc j"] Suc.prems entry_at_eq [of i es desc]
    by (cases "fn st (?ws ! nat i)") auto
qed simp

lemma rank_loop_collect:
  assumes "0 \<le> i" "nat i + k \<le> length es"
  shows "rank_loop es desc (\<lambda>acc e. Some (acc @ [f e], True)) i k [] = Some (map f (take k (drop (nat i) (if desc then rev es else es))))"
proof -
  have "concat (map (\<lambda>e. [f e]) ws) = map f ws" for ws by (induction ws) auto
  then show ?thesis using rank_loop_eq [OF assms, where fn = "\<lambda>acc e. Some (acc @ [f e], True)" and j = 0]
    by (simp add: iter_collect [where g = "\<lambda>e. [f e]"])
qed

lemma range_loop_eq:
  assumes "\<forall>e \<in> set fs. in_range lo hi e" "0 \<le> p" "i = (if desc then int (length fs) - 1 - p else p)"
  shows "zrange_loop fs lo hi limit desc taken i result =
    Some (result @ (if limit < 0 then id else take (nat (limit - taken))) (drop (nat p) (if desc then rev fs else fs)))"
  using assms(2,3)
proof (induction "length fs - nat p" arbitrary: p i taken result)
  case 0
  then have "\<not> (if desc then i \<ge> 0 else i < int (length fs))" "length fs \<le> nat p" by auto
  then show ?case by (simp add: zrange_loop.simps [of fs])
next
  case (Suc k)
  let ?ws = "if desc then rev fs else fs"
  have lt: "nat p < length fs" "if desc then i \<ge> 0 else i < int (length fs)" using Suc.hyps(2) Suc.prems by auto
  have g: "gindex fs i = Some (?ws ! nat p)" using entry_at_eq [of p fs desc] Suc.prems lt(1) by (simp add: entry_at_def)
  have d: "drop (nat p) ?ws = ?ws ! nat p # drop (nat (p + 1)) ?ws"
    using Cons_nth_drop_Suc [of "nat p" ?ws] lt(1) Suc.prems(1) by (simp add: nat_add_distrib)
  have "?ws ! nat p \<in> set fs" using nth_mem [of "nat p" ?ws] lt(1) by (cases desc) simp_all
  then have r: "b_less lo (?ws ! nat p)" "b_greater hi (?ws ! nat p)" using assms(1) by (auto simp: in_range_def)
  have IH: "zrange_loop fs lo hi limit desc (taken + 1) (if desc then i - 1 else i + 1) (result @ [?ws ! nat p]) =
      Some ((result @ [?ws ! nat p]) @ (if limit < 0 then id else take (nat (limit - (taken + 1)))) (drop (nat (p + 1)) ?ws))"
    using Suc.hyps(2) Suc.prems by (intro Suc.hyps(1)) auto
  show ?case
  proof (cases "limit < 0 \<or> taken < limit")
    case True
    then have "nat (limit - taken) = Suc (nat (limit - (taken + 1)))" if "\<not> limit < 0" using that by auto
    then show ?thesis unfolding d using True lt g r IH by (subst zrange_loop.simps) auto
  next
    case False
    then show ?thesis by (subst zrange_loop.simps) simp
  qed
qed

lemma count_foldl: "foldl (\<lambda>n e. if P e then n + 1 else n) (m :: int) es = m + int (length (filter P es))"
  by (induction es arbitrary: m) auto

lemma zset_getRank_rep:
  assumes "float_text fmt parse" "z_rep t fmt z es" "zref_step es (ZGetRank m desc) = Some (es', r)"
  shows "\<exists>n. zset_getRank parse z m desc = Some n \<and> r = ZNum n \<and> es' = es"
proof (rule z_rep_cases [OF assms(2,1)])
  fix s assume "\<not> z_isListpack z" "z_skiplist z = Some s" "ss_rep s es"
  then show ?thesis using ss_getRank_rep [OF _ assms(3)] by (auto simp: zset_getRank_def)
next
  fix ds assume d: "z_isListpack z" "z_listpack z = Some (lp_of (hpairs (pairs_of fmt ds)))" "zsorted es"
    "collectSorted parse (lp_of (hpairs (pairs_of fmt ds))) = Some es"
  have "rank_down es m (length es) = (case index_of (\<lambda>x. el_member x = m) es of Some j \<Rightarrow> int (length es) - 1 - int j | None \<Rightarrow> -1)"
    using rank_down_eq [of es "length es" m] d(3) index_of_SomeD [of "\<lambda>x. el_member x = m" es] by (auto simp: zsorted_def split: option.splits)
  then show ?thesis using assms(3) d by (auto simp: zset_getRank_def rank_up_eq split: option.splits if_splits)
qed

lemma zset_rangeByRank_rep:
  assumes "float_text fmt parse" "z_rep t fmt z es" "0 \<le> start" "start < int (length es)" "start \<le> stop" "stop \<le> int (length es)"
  shows "zset_rangeByRank parse z start stop desc = Some (map Some (take (nat (stop - start)) (drop (nat start) (if desc then rev es else es))))"
proof (rule z_rep_cases [OF assms(2,1)])
  fix s assume "\<not> z_isListpack z" "z_skiplist z = Some s" "ss_rep s es"
  then show ?thesis using ss_rangeByRank_rep [OF _ assms(3-6)] by (simp add: zset_rangeByRank_def)
next
  fix ds assume "z_isListpack z" "z_listpack z = Some (lp_of (hpairs (pairs_of fmt ds)))" "collectSorted parse (lp_of (hpairs (pairs_of fmt ds))) = Some es"
  then show ?thesis using rank_loop_collect [of start "nat (stop - start)" es desc Some] assms(3-6)
    by (auto simp: zset_rangeByRank_def Let_def min_def nat_diff_distrib)
qed

lemma zset_range_rep:
  assumes "float_text fmt parse" "z_rep t fmt z es" "borders_fit lo hi es" "isIntersected lo hi = Some False \<or> filter (in_range lo hi) es = []"
    "offset < int (length (filter (in_range lo hi) es)) \<or> filter (in_range lo hi) es = []"
  shows "zset_range parse z lo hi offset limit desc = Some (if offset < 0 then [] else (if limit < 0 then id else take (nat limit))
    (drop (nat offset) (if desc then rev (filter (in_range lo hi) es) else filter (in_range lo hi) es)))"
proof (rule z_rep_cases [OF assms(2,1)])
  fix s assume "\<not> z_isListpack z" "z_skiplist z = Some s" "ss_rep s es"
  then show ?thesis using ss_range_rep [OF _ assms(3-5)] by (simp add: zset_range_def)
next
  fix ds assume d: "z_isListpack z" "z_listpack z = Some (lp_of (hpairs (pairs_of fmt ds)))" "collectSorted parse (lp_of (hpairs (pairs_of fmt ds))) = Some es"
  let ?fs = "filter (in_range lo hi) es"
  have f: "filter (\<lambda>e. b_less lo e \<and> b_greater hi e) es = ?fs" by (simp add: in_range_def [abs_def])
  have "zrange_loop ?fs lo hi limit desc 0 (if desc then int (length ?fs) - 1 - offset else offset) [] =
      Some ((if limit < 0 then id else take (nat limit)) (drop (nat offset) (if desc then rev ?fs else ?fs)))" if "\<not> offset < 0"
    using range_loop_eq [of ?fs lo hi offset _ desc limit 0 "[]"] that by simp
  then show ?thesis using d f by (auto simp: zset_range_def Let_def)
qed

lemma zset_rangeCount_rep:
  assumes "float_text fmt parse" "z_rep t fmt z es" "es \<noteq> []" "borders_fit lo hi es"
  shows "zset_rangeCount parse z lo hi = Some (int (length (filter (in_range lo hi) es)))"
proof (rule z_rep_cases [OF assms(2,1)])
  fix s assume "\<not> z_isListpack z" "z_skiplist z = Some s" "ss_rep s es"
  then show ?thesis using ss_rangeCount_rep [OF _ assms(3,4)] by (simp add: zset_rangeCount_def)
next
  fix ds assume "z_isListpack z" "z_listpack z = Some (lp_of (hpairs (pairs_of fmt ds)))" "collectSorted parse (lp_of (hpairs (pairs_of fmt ds))) = Some es"
  then show ?thesis by (simp add: zset_rangeCount_def count_foldl in_range_def [abs_def])
qed

text \<open>Removal of a set of members, given as a block of the sorted list.\<close>

lemma lp_without_rep:
  assumes "z_isListpack z" "lp_holds t fmt z ds" "set ds = set es" "zsorted es" "kvs_ok (pairs_of fmt ds)"
  shows "\<exists>lp'. lp_without (lp_of (hpairs (pairs_of fmt ds))) ms 0 newListpack = Some lp' \<and>
    z_rep t fmt (z\<lparr>z_listpack := Some lp'\<rparr>) (filter (\<lambda>e. el_member e \<notin> set ms) es)"
  using lp_without_eq [of fmt "[]" ds ms "[]"] lp_holds_filter [OF assms(1-4)] assms(5) by simp

lemma zset_removeRange_rep:
  assumes "float_text fmt parse" "z_rep t fmt z es" "borders_fit lo hi es"
  shows "\<exists>z'. zset_removeRange parse z lo hi = Some (z', int (length (filter (in_range lo hi) es))) \<and>
    z_rep t fmt z' (filter (\<lambda>e. \<not> in_range lo hi e) es)"
proof (rule z_rep_cases [OF assms(2,1)])
  fix s assume s: "\<not> z_isListpack z" "z_skiplist z = Some s" "ss_rep s es"
  then show ?thesis using ss_removeRange_rep [OF s(3) assms(3)] z_rep_skip_update [OF s(1)] by (auto simp: zset_removeRange_def)
next
  fix ds assume d: "z_isListpack z" "z_listpack z = Some (lp_of (hpairs (pairs_of fmt ds)))" "lp_holds t fmt z ds" "set ds = set es"
    "zsorted es" "kvs_ok (pairs_of fmt ds)" "collectSorted parse (lp_of (hpairs (pairs_of fmt ds))) = Some es"
  let ?ms = "map el_member (filter (in_range lo hi) es)"
  obtain lp' where lp': "lp_without (lp_of (hpairs (pairs_of fmt ds))) ?ms 0 newListpack = Some lp'"
      "z_rep t fmt (z\<lparr>z_listpack := Some lp'\<rparr>) (filter (\<lambda>e. el_member e \<notin> set ?ms) es)"
    using lp_without_rep [OF d(1,3-6), of ?ms] by blast
  have "inj_on el_member (set es)" using d(5) by (simp add: zsorted_def distinct_map)
  then have "filter (\<lambda>e. el_member e \<notin> set ?ms) es = filter (\<lambda>e. \<not> in_range lo hi e) es"
    by (intro filter_cong) (auto simp: inj_on_def)
  then show ?thesis using lp' d(1,2,7) by (simp add: zset_removeRange_def in_range_def [abs_def])
qed

lemma zset_removeByRank_rep:
  assumes "float_text fmt parse" "z_rep t fmt z es" "0 \<le> start" "start \<le> stop" "stop < 2 ^ 63 - 1"
  shows "\<exists>z'. zset_removeByRank parse z start stop = Some (z', int (length (take (nat (stop - start)) (drop (nat start) es)))) \<and>
    z_rep t fmt z' (take (nat start) es @ drop (nat stop) es)"
proof (rule z_rep_cases [OF assms(2,1)])
  fix s assume s: "\<not> z_isListpack z" "z_skiplist z = Some s" "ss_rep s es"
  then show ?thesis using ss_removeByRank_rep [OF s(3) assms(3-5)] z_rep_skip_update [OF s(1)] by (auto simp: zset_removeByRank_def)
next
  fix ds assume d: "z_isListpack z" "z_listpack z = Some (lp_of (hpairs (pairs_of fmt ds)))" "lp_holds t fmt z ds" "set ds = set es"
    "zsorted es" "kvs_ok (pairs_of fmt ds)" "collectSorted parse (lp_of (hpairs (pairs_of fmt ds))) = Some es"
  let ?n = "int (length es)" and ?R = "take (nat (stop - start)) (drop (nat start) es)"
  have b: "es = take (nat start) es @ ?R @ drop (nat stop) es"
  proof -
    have "drop (nat stop) es = drop (nat (stop - start)) (drop (nat start) es)" using assms(3,4) by (simp add: nat_diff_distrib)
    then show ?thesis by (simp only: append_take_drop_id)
  qed
  show ?thesis
  proof (cases "max start 0 \<ge> min stop ?n")
    case True
    then have "?R = []" using assms(3,4) by (auto simp: min_def split: if_splits)
    then have "take (nat start) es @ drop (nat stop) es = es" using b by (metis append_Nil)
    then show ?thesis using True d assms(2) \<open>?R = []\<close> by (auto simp: zset_removeByRank_def Let_def)
  next
    case False
    have R: "take (nat (min stop ?n - start)) (drop (nat start) es) = ?R" using False assms(3,4) by (auto simp: min_def nat_diff_distrib)
    obtain lp' where lp': "lp_without (lp_of (hpairs (pairs_of fmt ds))) (map el_member ?R) 0 newListpack = Some lp'"
        "z_rep t fmt (z\<lparr>z_listpack := Some lp'\<rparr>) (filter (\<lambda>e. el_member e \<notin> set (map el_member ?R)) es)"
      using lp_without_rep [OF d(1,3-6), of "map el_member ?R"] by blast
    have "filter (\<lambda>e. el_member e \<notin> set (map el_member ?R)) es = take (nat start) es @ drop (nat stop) es"
      using filter_removed [of "take (nat start) es" ?R "drop (nat stop) es"] d(5) b by (metis set_map)
    moreover have "distinct (map el_member ?R)" using d(5) b unfolding zsorted_def by (metis distinct_append map_append)
    moreover have "rank_loop es False (\<lambda>ms e. Some (ms @ [el_member e], True)) (max start 0) (nat (min stop ?n - max start 0)) [] = Some (map el_member ?R)"
      using rank_loop_collect [of start "nat (min stop ?n - start)" es False el_member] False assms(3) R by (simp add: max_def min_def split: if_splits)
    ultimately show ?thesis using False lp' d(1,2,7) by (simp add: zset_removeByRank_def Let_def distinct_remdups_id)
  qed
qed

lemma zset_popMin_rep:
  assumes "float_text fmt parse" "z_rep t fmt z es" "0 < cnt"
  shows "\<exists>z'. zset_popMin parse z cnt = Some (z', take (nat cnt) es) \<and> z_rep t fmt z' (drop (nat cnt) es)"
proof (rule z_rep_cases [OF assms(2,1)])
  fix s assume s: "\<not> z_isListpack z" "z_skiplist z = Some s" "ss_rep s es"
  then show ?thesis using ss_popMin_rep [OF s(3) assms(3)] z_rep_skip_update [OF s(1)] by (auto simp: zset_popMin_def)
next
  fix ds assume d: "z_isListpack z" "z_listpack z = Some (lp_of (hpairs (pairs_of fmt ds)))" "lp_holds t fmt z ds" "set ds = set es"
    "zsorted es" "kvs_ok (pairs_of fmt ds)" "collectSorted parse (lp_of (hpairs (pairs_of fmt ds))) = Some es"
  let ?R = "take (nat cnt) es" and ?k = "min cnt (int (length es))"
  have R: "rank_loop es False (\<lambda>es e. Some (es @ [e], True)) 0 (nat ?k) [] = Some ?R"
    using rank_loop_collect [of 0 "nat ?k" es False "\<lambda>e. e"] assms(3) by (auto simp: min_def)
  obtain lp' where lp': "lp_without (lp_of (hpairs (pairs_of fmt ds))) (map el_member ?R) 0 newListpack = Some lp'"
      "z_rep t fmt (z\<lparr>z_listpack := Some lp'\<rparr>) (filter (\<lambda>e. el_member e \<notin> set (map el_member ?R)) es)"
    using lp_without_rep [OF d(1,3-6), of "map el_member ?R"] by blast
  have "filter (\<lambda>e. el_member e \<notin> set (map el_member ?R)) es = drop (nat cnt) es"
    using filter_removed [of "[]" ?R "drop (nat cnt) es"] d(5) by simp
  then show ?thesis using lp' R d(1,2,7) assms(3) by (simp add: zset_popMin_def Let_def)
qed

section \<open>The contract\<close>

definition zset_ZSet :: "thresholds \<Rightarrow> ('s \<Rightarrow> string) \<Rightarrow> (string \<Rightarrow> 's option) \<Rightarrow> ('s::{linorder,zero} zset, 's) ZSet" where
  "zset_ZSet t fmt parse = \<lparr>
     zAdd = zset_add t fmt parse,
     zGet = zset_get parse,
     zRemove = zset_remove,
     zLen = zset_len,
     zGetRank = zset_getRank parse,
     zRangeByRank = zset_rangeByRank parse,
     zRangeCount = zset_rangeCount parse,
     zRange = zset_range parse,
     zRemoveRange = zset_removeRange parse,
     zRemoveByRank = zset_removeByRank parse,
     zPopMin = zset_popMin parse\<rparr>"

text \<open>The members that a call adds fit in memory.\<close>

fun zop_ok :: "'s zset_op \<Rightarrow> bool" where
  "zop_ok (ZAdd rs m s) \<longleftrightarrow> go_str m"
| "zop_ok _ \<longleftrightarrow> True"

lemma zset_get_rep:
  assumes "float_text fmt parse" "z_rep t fmt z es"
  shows "zset_get parse z m = Some (map_of (map (\<lambda>e. (el_member e, el_score e)) es) m)"
proof (rule z_rep_cases [OF assms(2,1)])
  fix s assume "\<not> z_isListpack z" "z_skiplist z = Some s" "ss_rep s es"
  then show ?thesis using ss_get_rep by (simp add: zset_get_def)
next
  fix ds assume d: "z_isListpack z" "z_listpack z = Some (lp_of (hpairs (pairs_of fmt ds)))" "lp_holds t fmt z ds" "set ds = set es"
    "zsorted es" "kvs_ok (pairs_of fmt ds)"
  have "map_of (map (\<lambda>e. (el_member e, el_score e)) ds) = map_of (map (\<lambda>e. (el_member e, el_score e)) es)"
    using d(3-5) by (intro map_of_inject_set [THEN iffD2]) (simp_all add: lp_holds_def zsorted_def comp_def)
  then show ?thesis using zset_get_from_eq [of fmt parse "[]" ds m] assms(1) d by (simp add: zset_get_def)
qed

lemma zset_len_rep:
  assumes "float_text fmt parse" "z_rep t fmt z es"
  shows "zset_len z = Some (int (length es))"
proof (rule z_rep_cases [OF assms(2,1)])
  fix s assume "\<not> z_isListpack z" "z_skiplist z = Some s" "ss_rep s es"
  then show ?thesis using dict_rep_length [of "ss_dict s" es] by (simp add: zset_len_def ss_len_def ss_rep_def zsorted_def)
next
  fix ds assume "z_isListpack z" "z_listpack z = Some (lp_of (hpairs (pairs_of fmt ds)))" "length ds = length es"
  then show ?thesis by (simp add: zset_len_def)
qed

lemma zset_step_rep:
  fixes z :: "'s::{linorder,zero} zset"
  assumes f: "float_text fmt parse" and "z_rep t fmt z es" "zop_ok op" "zref_step es op = Some (es', r)"
  shows "\<exists>z'. zset_step (zset_ZSet t fmt parse) z op = Some (z', r) \<and> z_rep t fmt z' es'"
proof (cases op)
  case (ZAdd rs m sc)
  then show ?thesis using zset_add_rep [OF f assms(2)] assms(3,4) by (fastforce simp: zset_ZSet_def)
next
  case (ZGet m)
  then show ?thesis using zset_get_rep [OF f assms(2), of m] assms by (auto simp: zset_ZSet_def)
next
  case (ZRemove m)
  then show ?thesis using zset_remove_rep [OF f assms(2), of m] assms(4) by (auto simp: zset_ZSet_def)
next
  case ZLen
  then show ?thesis using assms zset_len_rep [OF f assms(2)] by (auto simp: zset_ZSet_def)
next
  case (ZGetRank m desc)
  then show ?thesis using zset_getRank_rep [OF f assms(2)] assms by (fastforce simp: zset_ZSet_def)
next
  case (ZRangeByRank start stop desc)
  then show ?thesis using zset_rangeByRank_rep [OF f assms(2), of start stop desc] assms by (auto simp: zset_ZSet_def split: if_splits)
next
  case (ZRangeCount lo hi)
  then show ?thesis using zset_rangeCount_rep [OF f assms(2), of lo hi] assms by (auto simp: zset_ZSet_def split: if_splits)
next
  case (ZRange lo hi offset limit desc)
  let ?H = "filter (in_range lo hi) es"
  have g: "borders_fit lo hi es" "isIntersected lo hi = Some False \<or> ?H = []" "offset < int (length ?H) \<or> ?H = []"
    using assms(4) ZRange by (simp_all add: Let_def split: if_splits)
  then have "es' = es" "r = ZEls (if offset < 0 then [] else (if limit < 0 then id else take (nat limit)) (drop (nat offset) (if desc then rev ?H else ?H)))"
    using assms(4) ZRange by (simp_all add: Let_def)
  then show ?thesis using zset_range_rep [OF f assms(2) g, of limit desc] assms(2) ZRange by (simp add: zset_ZSet_def)
next
  case (ZRemoveRange lo hi)
  then show ?thesis using zset_removeRange_rep [OF f assms(2), of lo hi] assms by (auto simp: zset_ZSet_def split: if_splits)
next
  case (ZRemoveByRank start stop)
  then show ?thesis using zset_removeByRank_rep [OF f assms(2), of start stop] assms by (auto simp: zset_ZSet_def split: if_splits)
next
  case (ZPopMin n)
  then show ?thesis using zset_popMin_rep [OF f assms(2), of n] assms by (auto simp: zset_ZSet_def split: if_splits)
qed

text \<open>
  The contract for the object: the relation also carries what is assumed of the score texts, so that the
  interpretation holds for every pair of functions.
\<close>

interpretation zo: zset_impl "zset_ZSet t fmt parse" "\<lambda>z es. float_text fmt parse \<and> z_rep t fmt z es" zop_ok for t fmt parse
  by unfold_locales (use zset_step_rep in blast, simp add: z_rep_def)

lemma newZSet_rep: "0 \<le> zsetMaxListpackEntries t \<Longrightarrow> z_rep t fmt newZSet []"
  by (auto simp: z_rep_def newZSet_def lp_holds_def zsorted_def)

section \<open>Properties\<close>

text \<open>C29. Whatever the thresholds, a fresh sorted-set object returns, for any program of calls that the contract
  covers, what the same calls return on a plain sorted list, and never panics: the listpack that is sorted on
  demand, the skip list, and the conversion between them are indistinguishable by these calls. (Not covered are ranges
  whose borders the skip list mistakes for disjoint, ranges with an offset beyond their elements, and the rank of the empty
  member.)\<close>

theorem zset_object_refines_list:
  fixes es :: "'s::{linorder,zero} element list"
  assumes "float_text fmt parse" "0 \<le> zsetMaxListpackEntries t" "list_all zop_ok ops" "zref_run [] ops = Some (es, rs)"
  shows "\<exists>z. zset_run (zset_ZSet t fmt parse) newZSet ops = Some (z, rs) \<and> z_rep t fmt z es"
  using zo.run_refines [of fmt parse t newZSet "[]" ops es rs] assms newZSet_rep [OF assms(2), of fmt] by auto

text \<open>For the witnesses: scores of eight bits, printed as one character.\<close>

definition byte_fmt :: "8 word \<Rightarrow> string" where
  "byte_fmt w = [char_of (unat w)]"

definition byte_parse :: "string \<Rightarrow> 8 word option" where
  "byte_parse s = (case s of [c] \<Rightarrow> Some (word_of_nat (of_char c)) | _ \<Rightarrow> None)"

lemma byte_text: "float_text byte_fmt byte_parse"
proof -
  have "unat w < 2 ^ LENGTH(8)" for w :: "8 word" by (rule unsigned_less)
  then have "(of_char (char_of (unat w) :: char) :: nat) = unat w" for w :: "8 word" by (simp add: of_char_char_of)
  then show ?thesis by (simp add: float_text_def byte_fmt_def byte_parse_def go_str_def)
qed

abbreviation small_thresholds :: thresholds where
  "small_thresholds \<equiv> defaultEncodingThresholds\<lparr>zsetMaxListpackEntries := 1\<rparr>"

theorem zset_object_refines_list_witness:
  "\<exists>z. zset_run (zset_ZSet small_thresholds byte_fmt byte_parse) newZSet
       [ZAdd (\<lambda>_. 7) ''b'' 2, ZAdd (\<lambda>_. 0) ''a'' 1, ZGetRank ''b'' True, ZPopMin 1]
     = Some (z, [ZBool True, ZBool True, ZNum 0, ZEls [\<lparr>el_member = ''a'', el_score = 1\<rparr>]]) \<and>
   z_rep small_thresholds byte_fmt z [\<lparr>el_member = ''b'', el_score = 2\<rparr>]"
proof (rule zset_object_refines_list [OF byte_text])
  show "zref_run [] [ZAdd (\<lambda>_. 7) ''b'' (2 :: 8 word), ZAdd (\<lambda>_. 0) ''a'' 1, ZGetRank ''b'' True, ZPopMin 1] =
    Some ([\<lparr>el_member = ''b'', el_score = 2\<rparr>], [ZBool True, ZBool True, ZNum 0, ZEls [\<lparr>el_member = ''a'', el_score = 1\<rparr>]])" by code_simp
qed (simp_all add: defaultEncodingThresholds_def go_str_def)

text \<open>A sorted-set object stays in its listpack only within the thresholds: after any such program, a listpack
  holds no more entries than configured and no member longer than configured.\<close>

lemma zset_listpack_bounds:
  fixes z :: "'s::{linorder,zero} zset"
  assumes "float_text fmt parse" "0 \<le> zsetMaxListpackEntries t" "list_all zop_ok ops" "zref_run [] ops = Some (es, rs)"
    and "zset_run (zset_ZSet t fmt parse) newZSet ops = Some (z, rs')" "zset_isListpack z"
  shows "int (length es) \<le> zsetMaxListpackEntries t \<and> (\<forall>e \<in> set es. int (length (el_member e)) \<le> zsetMaxListpackValue t)"
proof -
  have "z_rep t fmt z es" using zo.run_refines [of fmt parse t newZSet "[]" ops es rs] assms newZSet_rep [OF assms(2), of fmt] by auto
  from z_rep_cases [OF this assms(1)] obtain ds where "lp_holds t fmt z ds" "set ds = set es" "length ds = length es"
    using assms(6) unfolding zset_isListpack_def by metis
  then show ?thesis by (auto simp: lp_holds_def)
qed

end
