(* ===== verification/GoStd.thy ===== *)
theory GoStd
  imports IntStr
begin

text \<open>
  What the code uses of Go's standard library on texts: \<^verbatim>\<open>strconv.ParseInt\<close> in base 10 with 64 bits (and \<^verbatim>\<open>strconv.Atoi\<close>, which
  accepts the same texts on a 64-bit platform), \<^verbatim>\<open>strconv.FormatInt\<close> and \<^verbatim>\<open>strconv.Itoa\<close>, the ASCII part of \<^verbatim>\<open>strings.ToUpper\<close> and
  \<^verbatim>\<open>strings.ToLower\<close>, and the search for a line end.
\<close>

section \<open>Decimal numbers\<close>

fun digits_val :: "int \<Rightarrow> string \<Rightarrow> int option" where
  "digits_val v [] = Some v"
| "digits_val v (c # cs) =
     (if of_char c < (48 :: int) \<or> of_char c > (57 :: int) then None else digits_val (v * 10 + (of_char c - 48)) cs)"

text \<open>An error, of syntax or of range, is \<open>None\<close>.\<close>

definition parseInt :: "string \<Rightarrow> int option" where
  "parseInt s =
     (let (neg, ds) = (case s of c # cs \<Rightarrow> if c = CHR ''-'' then (True, cs) else if c = CHR ''+'' then (False, cs) else (False, s) | [] \<Rightarrow> (False, [])) in
      if ds = [] then None
      else do { v \<leftarrow> digits_val 0 ds;
                let r = (if neg then - v else v);
                if int64 r then Some r else None })"

definition dec :: "int \<Rightarrow> string" where
  "dec v = fill_digits (count_digits v) v"

definition itoa :: "int \<Rightarrow> string" where
  "itoa v = (if v = 0 then ''0'' else if v < 0 then CHR ''-'' # dec (- v) else dec v)"

section \<open>Case\<close>

definition upper_char :: "char \<Rightarrow> char" where
  "upper_char c = (if 97 \<le> (of_char c :: nat) \<and> (of_char c :: nat) \<le> 122 then char_of ((of_char c :: nat) - 32) else c)"

definition lower_char :: "char \<Rightarrow> char" where
  "lower_char c = (if 65 \<le> (of_char c :: nat) \<and> (of_char c :: nat) \<le> 90 then char_of ((of_char c :: nat) + 32) else c)"

definition toUpper :: "string \<Rightarrow> string" where "toUpper s = map upper_char s"
definition toLower :: "string \<Rightarrow> string" where "toLower s = map lower_char s"

section \<open>Lines\<close>

definition CR :: char where "CR = CHR 0x0D"
definition LF :: char where "LF = CHR 0x0A"
definition CRLF :: string where "CRLF = [CR, LF]"

text \<open>What comes before the first line end, and what follows it: \<^verbatim>\<open>bytes.Index(buf, "\r\n")\<close>.\<close>

fun split_crlf :: "string \<Rightarrow> (string \<times> string) option" where
  "split_crlf (c # d # rest) =
     (if c = CR \<and> d = LF then Some ([], rest) else map_option (\<lambda>(l, r). (c # l, r)) (split_crlf (d # rest)))"
| "split_crlf _ = None"

section \<open>Round trips\<close>

lemma digits_val_append: "digits_val v (xs @ ys) = digits_val v xs \<bind> (\<lambda>w. digits_val w ys)"
  by (induction v xs rule: digits_val.induct) auto

lemma digit_char:
  assumes "0 \<le> d" "d < 10"
  shows "(of_char (char_of (48 + d) :: char) :: int) = 48 + d"
proof -
  have "(48 + d) mod 256 = 48 + d" using assms by simp
  then show ?thesis by (simp add: of_char_of)
qed

lemma digits_val_fill: "0 \<le> w \<Longrightarrow> w < 10 ^ n \<Longrightarrow> digits_val v (fill_digits n w) = Some (v * 10 ^ n + w)"
proof (induction n arbitrary: w v)
  case (Suc n)
  have "digits_val v (fill_digits n (w div 10)) = Some (v * 10 ^ n + w div 10)" using Suc by (intro Suc.IH) auto
  moreover have "digits_val x [char_of (48 + w mod 10)] = Some (x * 10 + w mod 10)" for x
    using digit_char [of "w mod 10"] pos_mod_bound [of 10 w] pos_mod_sign [of 10 w] by auto
  moreover have "(v * 10 ^ n + w div 10) * 10 + w mod 10 = v * 10 ^ Suc n + w" by (simp add: algebra_simps)
  ultimately show ?case by (simp add: digits_val_append del: digits_val.simps(2))
qed simp

lemma dec_digits: "0 < v \<Longrightarrow> digits_val 0 (dec v) = Some v \<and> dec v \<noteq> []"
  using digits_val_fill [of v "count_digits v" 0] count_digits_bound [of v] count_digits_pos [of v] by (auto simp: dec_def)

lemma dec_head: "0 < v \<Longrightarrow> dec v = c # cs \<Longrightarrow> c \<noteq> CHR ''-'' \<and> c \<noteq> CHR ''+''"
  using fill_digits_chars [of c "count_digits v" v] by (auto simp: dec_def)

lemma parseInt_itoa: "int64 v \<Longrightarrow> parseInt (itoa v) = Some v"
proof -
  assume v: "int64 v"
  consider "v = 0" | "0 < v" | "v < 0" by linarith
  then show ?thesis
  proof cases
    case 1
    then show ?thesis by (simp add: itoa_def parseInt_def)
  next
    case 2
    then show ?thesis using v dec_digits [OF 2] dec_head [OF 2] by (cases "dec v") (auto simp: itoa_def parseInt_def)
  next
    case 3
    then show ?thesis using v dec_digits [of "- v"] by (auto simp: itoa_def parseInt_def)
  qed
qed

lemma parseInt_int64: "parseInt s = Some v \<Longrightarrow> int64 v"
  by (auto simp: parseInt_def Let_def split: list.splits if_splits bind_splits)

lemma fill_digits_digit: "c \<in> set (fill_digits n v) \<Longrightarrow> 48 \<le> (of_char c :: int) \<and> (of_char c :: int) \<le> 57"
proof (induction n arbitrary: v)
  case (Suc n)
  have "0 \<le> v mod 10" "v mod 10 < 10" by simp_all
  then show ?case using Suc digit_char [of "v mod 10"] by auto
qed simp

lemma itoa_chars: "c \<in> set (itoa v) \<Longrightarrow> c \<noteq> CR \<and> c \<noteq> LF"
proof -
  assume "c \<in> set (itoa v)"
  then have "c = CHR ''-'' \<or> c = CHR ''0'' \<or> (\<exists>n w. c \<in> set (fill_digits n w))"
    by (auto simp: itoa_def dec_def split: if_splits)
  then show ?thesis using fill_digits_digit [of c] by (auto simp: CR_def LF_def)
qed

lemma split_crlf_line: "CR \<notin> set l \<Longrightarrow> split_crlf (l @ CRLF @ rest) = Some (l, rest)"
proof (induction l)
  case (Cons c l)
  then have "split_crlf (c # (l @ CRLF @ rest)) = map_option (\<lambda>(l, r). (c # l, r)) (split_crlf (l @ CRLF @ rest))"
    by (cases "l @ CRLF @ rest") (auto simp: CRLF_def)
  then show ?case using Cons by simp
qed (simp add: CRLF_def)

lemma split_crlf_Some: "split_crlf buf = Some (l, rest) \<Longrightarrow> buf = l @ CRLF @ rest"
  by (induction buf arbitrary: l rule: split_crlf.induct) (auto simp: CRLF_def split: if_splits)

lemma split_crlf_append: "split_crlf buf = Some (l, rest) \<Longrightarrow> split_crlf (buf @ more) = Some (l, rest @ more)"
  by (induction buf arbitrary: l rule: split_crlf.induct) (auto split: if_splits)

end
