(* ===== verification/Resp.thy ===== *)
theory Resp
  imports GoStd
begin

text \<open>
  The serialization protocol: the replies of \<^verbatim>\<open>internal/proto/resp2/protocol\<close> and \<^verbatim>\<open>internal/proto/resp3\<close> with the bytes
  they are marshalled to, and the stream parser of \<^verbatim>\<open>internal/proto/resp2/parser/parser.go\<close>, run on the bytes a
  connection delivers until its end. A nil \<^verbatim>\<open>[]byte\<close> is \<open>None\<close>. The RESP3 double, whose text needs float
  formatting, is left out.
\<close>

section \<open>Replies\<close>

datatype reply =
    BulkReply "string option"
  | MultiBulkReply "string option list"
  | MultiRawReply "reply list"
  | StatusReply string
  | IntReply int
  | StandardErrReply string
  | UnknownErrReply
  | ArgNumErrReply string
  | SyntaxErrReply
  | WrongTypeErrReply
  | ProtocolErrReply string
  | PongReply
  | OkReply
  | NullBulkReply
  | NullMultiBulkReply
  | EmptyMultiBulkReply
  | NoReply
  | QueuedReply
  | NullReply
  | BoolReply bool
  | BigNumberReply string
  | MapReply "reply list"
  | SetReply "reply list"
  | PushReply "reply list"
  | VerbatimReply string string

definition bulk_bytes :: "string option \<Rightarrow> string" where
  "bulk_bytes arg = (case arg of None \<Rightarrow> ''$-1'' @ CRLF | Some a \<Rightarrow> ''$'' @ itoa (int (length a)) @ CRLF @ a @ CRLF)"

fun toBytes :: "reply \<Rightarrow> string" where
  "toBytes (BulkReply arg) = bulk_bytes arg"
| "toBytes (MultiBulkReply args) = ''*'' @ itoa (int (length args)) @ CRLF @ concat (map bulk_bytes args)"
| "toBytes (MultiRawReply rs) = ''*'' @ itoa (int (length rs)) @ CRLF @ concat (map toBytes rs)"
| "toBytes (StatusReply s) = ''+'' @ s @ CRLF"
| "toBytes (IntReply n) = '':'' @ itoa n @ CRLF"
| "toBytes (StandardErrReply s) = ''-'' @ s @ CRLF"
| "toBytes UnknownErrReply = ''-Err unknown'' @ CRLF"
| "toBytes (ArgNumErrReply cmd) = ''-ERR wrong number of arguments for '' @ [CHR 0x27] @ cmd @ [CHR 0x27] @ '' command'' @ CRLF"
| "toBytes SyntaxErrReply = ''-Err syntax error'' @ CRLF"
| "toBytes WrongTypeErrReply = ''-WRONGTYPE Operation against a key holding the wrong kind of value'' @ CRLF"
| "toBytes (ProtocolErrReply msg) = ''-ERR Protocol error: '' @ [CHR 0x27] @ msg @ [CHR 0x27] @ CRLF"
| "toBytes PongReply = ''+PONG'' @ CRLF"
| "toBytes OkReply = ''+OK'' @ CRLF"
| "toBytes NullBulkReply = ''$-1'' @ CRLF"
| "toBytes NullMultiBulkReply = ''*-1'' @ CRLF"
| "toBytes EmptyMultiBulkReply = ''*0'' @ CRLF"
| "toBytes NoReply = []"
| "toBytes QueuedReply = ''+QUEUED'' @ CRLF"
| "toBytes NullReply = ''_'' @ CRLF"
| "toBytes (BoolReply b) = (if b then ''#t'' else ''#f'') @ CRLF"
| "toBytes (BigNumberReply v) = ''('' @ v @ CRLF"
| "toBytes (MapReply ps) = ''%'' @ itoa (int (length ps div 2)) @ CRLF @ concat (map toBytes ps)"
| "toBytes (SetReply ms) = ''~'' @ itoa (int (length ms)) @ CRLF @ concat (map toBytes ms)"
| "toBytes (PushReply es) = ''>'' @ itoa (int (length es)) @ CRLF @ concat (map toBytes es)"
| "toBytes (VerbatimReply format txt) =
     (let body = format @ '':'' @ txt in ''='' @ itoa (int (length body)) @ CRLF @ body @ CRLF)"

text \<open>Indexing the bytes of \<open>NoReply\<close> panics.\<close>

definition isErrorReply :: "reply \<Rightarrow> bool option" where
  "isErrorReply r = do { c \<leftarrow> gindex (toBytes r) 0; Some (c = CHR ''-'') }"

definition isOKReply :: "reply \<Rightarrow> bool" where
  "isOKReply r \<longleftrightarrow> toBytes r = ''+OK'' @ CRLF"

definition isEmptyMultiBulkReply :: "reply \<Rightarrow> bool" where
  "isEmptyMultiBulkReply r \<longleftrightarrow> toBytes r = ''*0'' @ CRLF"

text \<open>The error of a reply, \<open>None\<close> for a reply that is none.\<close>

definition try2ErrorReply :: "reply \<Rightarrow> string option" where
  "try2ErrorReply r =
     (case toBytes r of [] \<Rightarrow> Some ''empty reply'' | c # cs \<Rightarrow> if c \<noteq> CHR ''-'' then None else Some cs)"

definition encodeRESP3FromRESP2 :: "string \<Rightarrow> string" where
  "encodeRESP3FromRESP2 b = (if b = ''$-1'' @ CRLF \<or> b = ''*-1'' @ CRLF then ''_'' @ CRLF else b)"

definition encodeRESP3 :: "reply \<Rightarrow> string" where
  "encodeRESP3 r =
     (case r of
        NullReply \<Rightarrow> toBytes r | BoolReply _ \<Rightarrow> toBytes r | BigNumberReply _ \<Rightarrow> toBytes r | MapReply _ \<Rightarrow> toBytes r
      | SetReply _ \<Rightarrow> toBytes r | PushReply _ \<Rightarrow> toBytes r | VerbatimReply _ _ \<Rightarrow> toBytes r
      | _ \<Rightarrow> encodeRESP3FromRESP2 (toBytes r))"

text \<open>The codec of a connection that speaks RESP3 or not; no reply, no bytes.\<close>

definition codec_encode :: "reply option \<Rightarrow> bool \<Rightarrow> string" where
  "codec_encode r resp3 = (case r of None \<Rightarrow> [] | Some r \<Rightarrow> if resp3 then encodeRESP3 r else toBytes r)"

section \<open>The stream parser\<close>

text \<open>
  What the parser sends on its channel. Allocating a slice that does not fit panics; the recovery then
  ends the goroutine, and nothing more is sent (\<open>Stuck\<close>).
\<close>

datatype payload = Data reply | Err string | EOF | Stuck

text \<open>\<^verbatim>\<open>reader.ReadBytes('\n')\<close>: the line with its line feed, and the rest of the stream.\<close>

fun readBytes :: "string \<Rightarrow> (string \<times> string) option" where
  "readBytes [] = None"
| "readBytes (c # cs) = (if c = LF then Some ([c], cs) else map_option (\<lambda>(l, r). (c # l, r)) (readBytes cs))"

lemma readBytes_length: "readBytes buf = Some (l, r) \<Longrightarrow> length r < length buf"
  by (induction buf arbitrary: l) (auto split: if_splits)

text \<open>
  \<^verbatim>\<open>io.ReadFull\<close> of \<open>n\<close> bytes: the body and the rest, or the error. The continuation of the parser gets the rest of
  the stream; an error ends the parser.
\<close>

definition readFull :: "string \<Rightarrow> nat \<Rightarrow> (string \<times> string) + payload" where
  "readFull buf n =
     (if n \<le> length buf then Inl (take n buf, drop n buf) else if buf = [] then Inr EOF else Inr (Err ''unexpected EOF''))"

definition protocolError :: "string \<Rightarrow> payload" where
  "protocolError msg = Err (''protocol error: '' @ msg)"

text \<open>The payloads sent by a step, and the rest of the stream; \<open>None\<close> for the rest when the parser ends.\<close>

definition parseBulkString :: "string \<Rightarrow> string \<Rightarrow> payload list \<times> string option" where
  "parseBulkString header buf =
     (case parseInt (tl header) of
        None \<Rightarrow> ([protocolError (''illegal bulk string header: '' @ header)], Some buf)
      | Some strLen \<Rightarrow>
          if strLen < -1 then ([protocolError (''illegal bulk string header: '' @ header)], Some buf)
          else if strLen = -1 then ([Data NullBulkReply], Some buf)
          else if strLen + 2 > maxAlloc then ([Stuck], None)
          else (case readFull buf (nat (strLen + 2)) of
                  Inr e \<Rightarrow> ([e], None)
                | Inl (body, rest) \<Rightarrow> ([Data (BulkReply (Some (take (nat strLen) body)))], Some rest)))"

text \<open>
  The loop of \<^verbatim>\<open>parseArray\<close>: the lines read so far, with the error that ended the loop early, or the payload that ends
  the parser.
\<close>

fun array_loop :: "nat \<Rightarrow> string \<Rightarrow> string list \<Rightarrow> (string list \<times> payload list \<times> string) + payload" where
  "array_loop 0 buf ls = Inl (ls, [], buf)"
| "array_loop (Suc n) buf ls =
     (case readBytes buf of
        None \<Rightarrow> Inr EOF
      | Some (line, rest) \<Rightarrow>
          if length line < 4 \<or> line ! (length line - 2) \<noteq> CR \<or> line ! 0 \<noteq> CHR ''$''
          then Inl (ls, [protocolError (''illegal bulk string header '' @ line)], rest)
          else (case parseInt (take (length line - 3) (tl line)) of
                  None \<Rightarrow> Inl (ls, [protocolError (''illegal bulk string length '' @ line)], rest)
                | Some strLen \<Rightarrow>
                    if strLen < -1 then Inl (ls, [protocolError (''illegal bulk string length '' @ line)], rest)
                    else if strLen = -1 then array_loop n rest (ls @ [[]])
                    else if strLen + 2 > maxAlloc then Inr Stuck
                    else (case readFull rest (nat (strLen + 2)) of
                            Inr e \<Rightarrow> Inr e
                          | Inl (body, rest') \<Rightarrow> array_loop n rest' (ls @ [take (nat strLen) body]))))"

definition parseArray :: "string \<Rightarrow> string \<Rightarrow> payload list \<times> string option" where
  "parseArray header buf =
     (case parseInt (tl header) of
        None \<Rightarrow> ([protocolError (''illegal array header '' @ tl header)], Some buf)
      | Some nStrs \<Rightarrow>
          if nStrs < 0 then ([protocolError (''illegal array header '' @ tl header)], Some buf)
          else if nStrs = 0 then ([Data EmptyMultiBulkReply], Some buf)
          else if nStrs * 24 > maxAlloc then ([Stuck], None)
          else (case array_loop (nat nStrs) buf [] of
                  Inr e \<Rightarrow> ([e], None)
                | Inl (ls, errs, rest) \<Rightarrow> (errs @ [Data (MultiBulkReply (map Some ls))], Some rest)))"

text \<open>The body of a full resynchronisation: prefixed with its length, or ended by a mark.\<close>

fun eof_mark_loop :: "string \<Rightarrow> string \<Rightarrow> string \<Rightarrow> string \<Rightarrow> (string \<times> string) option" where
  "eof_mark_loop mark [] body window = None"
| "eof_mark_loop mark (b # buf) body window =
     (let w = window @ [b];
          (body', w') = (if length w > length mark then (body @ [hd w], tl w) else (body, w))
      in if length w' = length mark \<and> w' = mark then Some (body', buf) else eof_mark_loop mark buf body' w')"

definition parseRDBEOFMark :: "string \<Rightarrow> string \<Rightarrow> payload list \<times> string option" where
  "parseRDBEOFMark mark buf =
     (if mark = [] then ([Err ''empty EOF mark''], None)
      else case eof_mark_loop mark buf [] [] of
        None \<Rightarrow> ([EOF], None)
      | Some (body, rest) \<Rightarrow> ([Data (BulkReply (if body = [] then None else Some body))], Some rest))"

definition trimCRLF :: "string \<Rightarrow> string" where
  "trimCRLF s = (if 2 \<le> length s \<and> drop (length s - 2) s = CRLF then take (length s - 2) s else s)"

definition parseRDBBulkString :: "string \<Rightarrow> payload list \<times> string option" where
  "parseRDBBulkString buf =
     (case readBytes buf of
        None \<Rightarrow> ([Err ''failed to read bytes''], None)
      | Some (line, rest) \<Rightarrow>
          (let header = trimCRLF line in
           if header = [] then ([Err ''empty header''], None)
           else if take 5 header = ''$EOF:'' then parseRDBEOFMark (drop 5 header) rest
           else case parseInt (tl header) of
             None \<Rightarrow> ([Err (''illegal bulk header: '' @ header)], None)
           | Some strLen \<Rightarrow>
               if strLen \<le> 0 then ([Err (''illegal bulk header: '' @ header)], None)
               else if strLen > maxAlloc then ([Stuck], None)
               else (case readFull rest (nat strLen) of
                       Inr e \<Rightarrow> ([e], None)
                     | Inl (body, rest') \<Rightarrow> ([Data (BulkReply (Some body))], Some rest'))))"

text \<open>\<^verbatim>\<open>bytes.Split(line, " ")\<close>.\<close>

fun split_space :: "string \<Rightarrow> string \<Rightarrow> string list" where
  "split_space acc [] = [acc]"
| "split_space acc (c # cs) = (if c = CHR '' '' then acc # split_space [] cs else split_space (acc @ [c]) cs)"

text \<open>One turn of the loop of \<^verbatim>\<open>parse0\<close> on a line and the rest of the stream.\<close>

definition parse_line :: "string \<Rightarrow> string \<Rightarrow> payload list \<times> string option" where
  "parse_line line0 rest =
     (let n = length line0 in
      if n \<le> 2 \<or> line0 ! (n - 2) \<noteq> CR then ([], Some rest)
      else let line = trimCRLF line0; c = hd line; content = tl line in
        if c = CHR ''+'' then
          (if take 10 content = ''FULLRESYNC''
           then (let (ps, r) = parseRDBBulkString rest in (Data (StatusReply content) # ps, r))
           else ([Data (StatusReply content)], Some rest))
        else if c = CHR ''-'' then ([Data (StandardErrReply content)], Some rest)
        else if c = CHR '':'' then
          (case parseInt content of
             None \<Rightarrow> ([protocolError (''illegal number '' @ content)], Some rest)
           | Some v \<Rightarrow> ([Data (IntReply v)], Some rest))
        else if c = CHR ''$'' then parseBulkString line rest
        else if c = CHR ''*'' then parseArray line rest
        else ([Data (MultiBulkReply (map Some (split_space [] line)))], Some rest))"

text \<open>The steps never give bytes back to the stream, so the loop ends with it.\<close>

function parse0 :: "string \<Rightarrow> payload list" where
  "parse0 buf =
     (case readBytes buf of
        None \<Rightarrow> [EOF]
      | Some (line, rest) \<Rightarrow>
          (let (ps, r) = parse_line line rest in
           ps @ (case r of None \<Rightarrow> [] | Some rest' \<Rightarrow> if length rest' \<le> length rest then parse0 rest' else [])))"
  by pat_completeness auto
termination
  by (relation "measure length") (auto dest: readBytes_length)

declare parse0.simps [simp del]

text \<open>
  The consumers of the channel. The channel is not closed when the parser panics, so a receive then never returns:
  \<open>None\<close>.
\<close>

fun collect_payloads :: "payload list \<Rightarrow> reply list \<Rightarrow> (string + reply list) option" where
  "collect_payloads [] acc = Some (Inr acc)"
| "collect_payloads (Data r # ps) acc = collect_payloads ps (acc @ [r])"
| "collect_payloads (Err e # ps) acc = Some (Inl e)"
| "collect_payloads (EOF # ps) acc = Some (Inr acc)"
| "collect_payloads (Stuck # ps) acc = None"

definition parseBytes :: "string \<Rightarrow> (string + reply list) option" where
  "parseBytes data = collect_payloads (parse0 data) []"

definition parseOne :: "string \<Rightarrow> (string + reply) option" where
  "parseOne data =
     (case parse0 data of
        Data r # _ \<Rightarrow> Some (Inr r) | Err e # _ \<Rightarrow> Some (Inl e) | EOF # _ \<Rightarrow> Some (Inl ''EOF'') | Stuck # _ \<Rightarrow> None
      | [] \<Rightarrow> Some (Inl ''no protocol''))"

section \<open>The request parser of the other servers\<close>

text \<open>
  \<^verbatim>\<open>ParseV2\<close> reads one request off a connection. The results are an error, or the value and the rest of the stream.
\<close>

fun readLineV2 :: "string \<Rightarrow> string \<Rightarrow> string + (string \<times> string)" where
  "readLineV2 [] line = Inl ''EOF''"
| "readLineV2 (b # bs) line =
     (if b = CR then
        (case bs of
           [] \<Rightarrow> Inl (''unexpected EOF after '' @ [CHR 0x5C] @ ''r'')
         | b' # bs' \<Rightarrow> if b' \<noteq> LF then Inl (''expected '' @ [CHR 0x5C] @ ''n after '' @ [CHR 0x5C] @ ''r'') else Inr (line, bs'))
      else readLineV2 bs (line @ [b]))"

definition readInteger :: "string \<Rightarrow> string + (int \<times> string)" where
  "readInteger buf =
     (case readLineV2 buf [] of
        Inl e \<Rightarrow> Inl e
      | Inr (line, rest) \<Rightarrow> (case parseInt line of None \<Rightarrow> Inl ''invalid syntax'' | Some n \<Rightarrow> Inr (n, rest)))"

text \<open>The loop over the arguments; \<open>None\<close> is a panic.\<close>

fun argsV2 :: "nat \<Rightarrow> string \<Rightarrow> string option list \<Rightarrow> (string + (string option list \<times> string)) option" where
  "argsV2 0 buf result = Some (Inr (result, buf))"
| "argsV2 (Suc n) buf result =
     (case buf of
        [] \<Rightarrow> Some (Inl ''EOF'')
      | b # bs \<Rightarrow>
          if b \<noteq> CHR ''$'' then Some (Inl ''unsupported RESP type'')
          else case readInteger bs of
            Inl e \<Rightarrow> Some (Inl e)
          | Inr (strLen, rest) \<Rightarrow>
              if strLen < 0 then argsV2 n rest (result @ [None])
              else if strLen + 2 > maxAlloc then None
              else (case readFull rest (nat (strLen + 2)) of
                      Inr EOF \<Rightarrow> Some (Inl ''EOF'') | Inr _ \<Rightarrow> Some (Inl ''unexpected EOF'')
                    | Inl (body, rest') \<Rightarrow> argsV2 n rest' (result @ [Some (take (nat strLen) body)])))"

definition parseV2 :: "string \<Rightarrow> (string + (string option list \<times> string)) option" where
  "parseV2 buf =
     (case buf of
        [] \<Rightarrow> Some (Inl ''EOF'')
      | b # bs \<Rightarrow>
          if b \<noteq> CHR ''*'' then
            (case readLineV2 bs [] of
               Inl e \<Rightarrow> Some (Inl e)
             | Inr (line, rest) \<Rightarrow> Some (Inr (map Some (split_space [] (b # line)), rest)))
          else case readInteger bs of
            Inl e \<Rightarrow> Some (Inl e)
          | Inr (cnt, rest) \<Rightarrow>
              if cnt < 0 then Some (Inr ([], rest))
              else if cnt * 24 > maxAlloc then None
              else argsV2 (nat cnt) rest [])"

section \<open>The parser consumes its stream\<close>

lemma readFull_length: "readFull buf n = Inl (b, r) \<Longrightarrow> length r \<le> length buf"
  by (auto simp: readFull_def split: if_splits)

lemma array_loop_length: "array_loop n buf ls = Inl (ls', e, r) \<Longrightarrow> length r \<le> length buf"
proof (induction n arbitrary: buf ls)
  case (Suc n)
  obtain line rest where rb: "readBytes buf = Some (line, rest)"
    using Suc.prems by (cases "readBytes buf") auto
  then have le: "length rest < length buf" by (rule readBytes_length)
  have "r = rest \<or> (\<exists>rest' ls'' b k. array_loop n rest' ls'' = Inl (ls', e, r) \<and> (rest' = rest \<or> readFull rest k = Inl (b, rest')))"
    using Suc.prems rb by (simp split: option.splits if_splits sum.splits prod.splits) blast+
  then show ?case using le Suc.IH readFull_length by (metis le_trans less_imp_le)
qed simp

lemma eof_mark_loop_length: "eof_mark_loop m buf body w = Some (b, r) \<Longrightarrow> length r \<le> length buf"
  by (induction m buf body w rule: eof_mark_loop.induct) (fastforce simp: Let_def split: if_splits)+

lemma parseBulkString_rest: "parseBulkString h buf = (ps, Some r) \<Longrightarrow> length r \<le> length buf"
  by (auto simp: parseBulkString_def split: option.splits if_splits sum.splits dest: readFull_length)

lemma parseArray_rest: "parseArray h buf = (ps, Some r) \<Longrightarrow> length r \<le> length buf"
  by (auto simp: parseArray_def split: option.splits if_splits sum.splits dest: array_loop_length)

lemma parseRDBEOFMark_rest: "parseRDBEOFMark m buf = (ps, Some r) \<Longrightarrow> length r \<le> length buf"
  by (auto simp: parseRDBEOFMark_def split: option.splits if_splits dest: eof_mark_loop_length)

lemma parseRDBBulkString_rest: "parseRDBBulkString buf = (ps, Some r) \<Longrightarrow> length r \<le> length buf"
  by (auto simp: parseRDBBulkString_def Let_def split: option.splits if_splits sum.splits
      dest!: readBytes_length readFull_length parseRDBEOFMark_rest)

lemma parse_line_rest: "parse_line line buf = (ps, Some r) \<Longrightarrow> length r \<le> length buf"
  by (auto simp: parse_line_def Let_def split: option.splits if_splits prod.splits
      dest: parseBulkString_rest parseArray_rest parseRDBBulkString_rest)

lemma parse0_line:
  "readBytes buf = Some (line, rest) \<Longrightarrow>
   parse0 buf = fst (parse_line line rest) @ (case snd (parse_line line rest) of None \<Rightarrow> [] | Some r \<Rightarrow> parse0 r)"
  by (subst parse0.simps) (auto split: prod.splits option.splits dest: parse_line_rest)

section \<open>Round trip\<close>

definition one_line :: "string \<Rightarrow> bool" where
  "one_line s \<longleftrightarrow> CR \<notin> set s \<and> LF \<notin> set s"

lemma readBytes_line: "LF \<notin> set s \<Longrightarrow> readBytes (s @ CRLF @ rest) = Some (s @ CRLF, rest)"
  by (induction s) (auto simp: CRLF_def CR_def LF_def)

lemma trimCRLF_line [simp]: "trimCRLF (s @ CRLF) = s"
  by (simp add: trimCRLF_def CRLF_def)

lemma parse0_step:
  assumes "LF \<notin> set s" "s \<noteq> []" "parse_line (s @ CRLF) rest = (ps, Some r)"
  shows "parse0 (s @ CRLF @ rest) = ps @ parse0 r"
  using parse0_line [OF readBytes_line [OF assms(1)]] assms by simp

lemma itoa_no_LF [simp]: "LF \<notin> set (itoa n)"
  using itoa_chars by blast

lemma itoa_no_CR: "CR \<notin> set (itoa n)"
  using itoa_chars by blast

lemma CRLF_length [simp]: "length CRLF = 2"
  by (simp add: CRLF_def)

lemma line_end [simp]: "(s @ CRLF) ! length s = CR"
  by (simp add: CRLF_def)

lemma readFull_body [simp]: "readFull (a @ CRLF @ rest) (Suc (Suc (length a))) = Inl (a @ CRLF, rest)"
  by (simp add: readFull_def)

definition fits :: "string \<Rightarrow> bool" where
  "fits a \<longleftrightarrow> int (length a) + 2 \<le> maxAlloc"

lemma fits_int64: "fits a \<Longrightarrow> int64 (int (length a))"
  by (simp add: fits_def maxAlloc_def int64_def)

lemma parse_bulk:
  assumes "fits a"
  shows "parse0 (bulk_bytes (Some a) @ rest) = Data (BulkReply (Some a)) # parse0 rest"
proof -
  have "parse_line ((''$'' @ itoa (int (length a))) @ CRLF) (a @ CRLF @ rest) = ([Data (BulkReply (Some a))], Some rest)"
    using assms
    by (simp add: parse_line_def parseBulkString_def parseInt_itoa fits_int64 fits_def nat_add_distrib
        line_end [of "''$'' @ itoa (int (length a))", simplified] trimCRLF_line [of "''$'' @ itoa (int (length a))", simplified])
  then show ?thesis using parse0_step [of "''$'' @ itoa (int (length a))"] by (simp add: bulk_bytes_def LF_def itoa_no_LF [unfolded LF_def])
qed

text \<open>A nil element of an array arrives as an empty string.\<close>

definition arrives :: "string option \<Rightarrow> string" where
  "arrives arg = (case arg of None \<Rightarrow> [] | Some a \<Rightarrow> a)"

lemma parse_minus_one: "parseInt ''-1'' = Some (- 1)"
  by code_simp

lemma array_loop_step:
  assumes "case arg of None \<Rightarrow> True | Some a \<Rightarrow> fits a"
  shows "array_loop (Suc n) (bulk_bytes arg @ rest) ls = array_loop n rest (ls @ [arrives arg])"
proof (cases arg)
  case None
  have "readBytes (''$-1'' @ CRLF @ rest) = Some (''$-1'' @ CRLF, rest)" by (rule readBytes_line) (simp add: LF_def)
  then show ?thesis using None
    by (simp add: bulk_bytes_def arrives_def CRLF_def parse_minus_one)
next
  case (Some a)
  define h where "h = itoa (int (length a))"
  have h: "parseInt h = Some (int (length a))" using assms Some by (simp add: h_def parseInt_itoa fits_int64)
  then have ne: "h \<noteq> []" by (auto simp: parseInt_def)
  have rb: "readBytes ((''$'' @ h) @ CRLF @ a @ CRLF @ rest) = Some ((''$'' @ h) @ CRLF, a @ CRLF @ rest)"
    by (rule readBytes_line) (simp add: LF_def h_def itoa_no_LF [unfolded LF_def])
  have "(''$'' @ h @ CRLF) ! Suc (length h) = CR" by (simp add: CRLF_def)
  then show ?thesis using rb h ne assms Some
    by (simp add: bulk_bytes_def h_def [symmetric] arrives_def fits_def nat_add_distrib)
qed

lemma array_loop_all:
  "\<forall>arg \<in> set args. case arg of None \<Rightarrow> True | Some a \<Rightarrow> fits a \<Longrightarrow>
   array_loop (length args) (concat (map bulk_bytes args) @ rest) ls = Inl (ls @ map arrives args, [], rest)"
  by (induction args arbitrary: ls) (simp_all add: array_loop_step del: array_loop.simps(2))

text \<open>
  The replies whose bytes the parser reads back, and the reply they come back as. A client cannot tell a fixed reply
  from a status with the same text.
\<close>

definition wire_ok :: "reply \<Rightarrow> bool" where
  "wire_ok r =
     (case r of
        BulkReply arg \<Rightarrow> (case arg of None \<Rightarrow> True | Some a \<Rightarrow> fits a)
      | MultiBulkReply args \<Rightarrow> int (length args) * 24 \<le> maxAlloc \<and> list_all (\<lambda>arg. case arg of None \<Rightarrow> True | Some a \<Rightarrow> fits a) args
      | StatusReply s \<Rightarrow> LF \<notin> set s \<and> take 10 s \<noteq> ''FULLRESYNC''
      | IntReply n \<Rightarrow> int64 n
      | StandardErrReply s \<Rightarrow> LF \<notin> set s
      | ArgNumErrReply s \<Rightarrow> LF \<notin> set s
      | ProtocolErrReply s \<Rightarrow> LF \<notin> set s
      | UnknownErrReply \<Rightarrow> True | SyntaxErrReply \<Rightarrow> True | WrongTypeErrReply \<Rightarrow> True | PongReply \<Rightarrow> True | OkReply \<Rightarrow> True
      | NullBulkReply \<Rightarrow> True | EmptyMultiBulkReply \<Rightarrow> True | QueuedReply \<Rightarrow> True
      | _ \<Rightarrow> False)"

definition wire :: "reply \<Rightarrow> reply" where
  "wire r =
     (case r of
        BulkReply None \<Rightarrow> NullBulkReply
      | MultiBulkReply args \<Rightarrow> if args = [] then EmptyMultiBulkReply else MultiBulkReply (map (Some \<circ> arrives) args)
      | UnknownErrReply \<Rightarrow> StandardErrReply ''Err unknown''
      | SyntaxErrReply \<Rightarrow> StandardErrReply ''Err syntax error''
      | WrongTypeErrReply \<Rightarrow> StandardErrReply ''WRONGTYPE Operation against a key holding the wrong kind of value''
      | ArgNumErrReply cmd \<Rightarrow> StandardErrReply (''ERR wrong number of arguments for '' @ [CHR 0x27] @ cmd @ [CHR 0x27] @ '' command'')
      | ProtocolErrReply msg \<Rightarrow> StandardErrReply (''ERR Protocol error: '' @ [CHR 0x27] @ msg @ [CHR 0x27])
      | PongReply \<Rightarrow> StatusReply ''PONG''
      | OkReply \<Rightarrow> StatusReply ''OK''
      | QueuedReply \<Rightarrow> StatusReply ''QUEUED''
      | _ \<Rightarrow> r)"

lemma parse_status:
  assumes "LF \<notin> set s" "take 10 s \<noteq> ''FULLRESYNC''"
  shows "parse0 ((CHR ''+'' # s) @ CRLF @ rest) = Data (StatusReply s) # parse0 rest"
proof -
  have "parse_line ((CHR ''+'' # s) @ CRLF) rest = ([Data (StatusReply s)], Some rest)"
    using assms line_end [of "CHR ''+'' # s"] trimCRLF_line [of "CHR ''+'' # s"] by (simp add: parse_line_def)
  then show ?thesis using parse0_step [of "CHR ''+'' # s"] assms by (simp add: LF_def)
qed

lemma parse_error:
  assumes "LF \<notin> set s"
  shows "parse0 ((CHR ''-'' # s) @ CRLF @ rest) = Data (StandardErrReply s) # parse0 rest"
proof -
  have "parse_line ((CHR ''-'' # s) @ CRLF) rest = ([Data (StandardErrReply s)], Some rest)"
    using assms line_end [of "CHR ''-'' # s"] trimCRLF_line [of "CHR ''-'' # s"] by (simp add: parse_line_def)
  then show ?thesis using parse0_step [of "CHR ''-'' # s"] assms by (simp add: LF_def)
qed

lemma parse_int:
  assumes "int64 n"
  shows "parse0 ((CHR '':'' # itoa n) @ CRLF @ rest) = Data (IntReply n) # parse0 rest"
proof -
  have "parse_line ((CHR '':'' # itoa n) @ CRLF) rest = ([Data (IntReply n)], Some rest)"
    using assms line_end [of "CHR '':'' # itoa n"] trimCRLF_line [of "CHR '':'' # itoa n"]
    by (simp add: parse_line_def parseInt_itoa)
  then show ?thesis using parse0_step [of "CHR '':'' # itoa n"] by (simp add: LF_def itoa_no_LF [unfolded LF_def])
qed

lemma parse_nullbulk: "parse0 (''$-1'' @ CRLF @ rest) = Data NullBulkReply # parse0 rest"
proof -
  have "parse_line (''$-1'' @ CRLF) rest = ([Data NullBulkReply], Some rest)"
    by (simp add: parse_line_def CRLF_def trimCRLF_def CR_def LF_def parseBulkString_def parse_minus_one)
  then show ?thesis using parse0_step [of "''$-1''"] by (simp add: LF_def)
qed

lemma parse_array:
  assumes "int (length args) * 24 \<le> maxAlloc" "\<forall>arg \<in> set args. case arg of None \<Rightarrow> True | Some a \<Rightarrow> fits a"
  shows "parse0 ((CHR ''*'' # itoa (int (length args))) @ CRLF @ concat (map bulk_bytes args) @ rest)
       = Data (if args = [] then EmptyMultiBulkReply else MultiBulkReply (map (Some \<circ> arrives) args)) # parse0 rest"
proof -
  let ?h = "CHR ''*'' # itoa (int (length args))"
  have "int64 (int (length args))" using assms(1) by (simp add: maxAlloc_def int64_def)
  then have "parse_line (?h @ CRLF) (concat (map bulk_bytes args) @ rest)
      = ([Data (if args = [] then EmptyMultiBulkReply else MultiBulkReply (map (Some \<circ> arrives) args))], Some rest)"
    using assms line_end [of ?h] trimCRLF_line [of ?h]
    by (simp add: parse_line_def parseArray_def parseInt_itoa array_loop_all [of args rest "[]", simplified])
  then show ?thesis using parse0_step [of ?h] by (simp add: LF_def itoa_no_LF [unfolded LF_def])
qed

lemma parse_reply:
  assumes wf: "wire_ok r"
  shows "parse0 (toBytes r @ rest) = Data (wire r) # parse0 rest"
proof (cases r)
  case (BulkReply arg)
  then show ?thesis using wf parse_bulk parse_nullbulk
    by (cases arg) (simp_all add: wire_ok_def wire_def, simp_all add: bulk_bytes_def)
next
  case (MultiBulkReply args)
  then show ?thesis using wf parse_array [of args rest] by (simp add: wire_ok_def wire_def list_all_iff)
next
  case EmptyMultiBulkReply
  then show ?thesis using parse_array [of "[]" rest] by (simp add: wire_def maxAlloc_def itoa_def)
next
  case NullBulkReply
  then show ?thesis using parse_nullbulk [of rest] by (simp add: wire_def)
next
  case (IntReply n)
  then show ?thesis using wf parse_int [of n rest] by (simp add: wire_def wire_ok_def)
next
  case (StatusReply s)
  then show ?thesis using wf parse_status [of "s" rest] by (simp add: wire_def wire_ok_def LF_def)
next
  case PongReply
  then show ?thesis using wf parse_status [of "''PONG''" rest] by (simp add: wire_def wire_ok_def LF_def)
next
  case OkReply
  then show ?thesis using wf parse_status [of "''OK''" rest] by (simp add: wire_def wire_ok_def LF_def)
next
  case QueuedReply
  then show ?thesis using wf parse_status [of "''QUEUED''" rest] by (simp add: wire_def wire_ok_def LF_def)
next
  case (StandardErrReply s)
  then show ?thesis using wf parse_error [of "s" rest] by (simp add: wire_def wire_ok_def LF_def)
next
  case UnknownErrReply
  then show ?thesis using wf parse_error [of "''Err unknown''" rest] by (simp add: wire_def wire_ok_def LF_def)
next
  case SyntaxErrReply
  then show ?thesis using wf parse_error [of "''Err syntax error''" rest] by (simp add: wire_def wire_ok_def LF_def)
next
  case WrongTypeErrReply
  then show ?thesis using wf parse_error [of "''WRONGTYPE Operation against a key holding the wrong kind of value''" rest] by (simp add: wire_def wire_ok_def LF_def)
next
  case (ArgNumErrReply cmd)
  then show ?thesis using wf parse_error [of "''ERR wrong number of arguments for '' @ [CHR 0x27] @ cmd @ [CHR 0x27] @ '' command''" rest] by (simp add: wire_def wire_ok_def LF_def)
next
  case (ProtocolErrReply msg)
  then show ?thesis using wf parse_error [of "''ERR Protocol error: '' @ [CHR 0x27] @ msg @ [CHR 0x27]" rest] by (simp add: wire_def wire_ok_def LF_def)
qed (use wf in \<open>simp_all add: wire_ok_def\<close>)

text \<open>
  C33. Flat replies written one after the other (statuses and errors on one line, 64-bit integers, bulk strings and arrays of bulk
  strings, that can be allocated) come out of the parser in the same order, followed by the end of the stream: a fixed
  reply as the status or error with its text, and a nil element of an array as an empty string, every other reply as itself.
  Nested arrays, null arrays, the replies of RESP3 and the status FULLRESYNC are not read back and not covered.
\<close>

theorem resp_roundtrip:
  assumes "\<forall>r \<in> set rs. wire_ok r"
  shows "parse0 (concat (map toBytes rs)) = map (Data \<circ> wire) rs @ [EOF]"
  using assms
proof (induction rs)
  case Nil
  show ?case by (simp add: parse0.simps)
next
  case (Cons r rs)
  then show ?case by (simp add: parse_reply)
qed

theorem resp_roundtrip_witness:
  "parse0 (concat (map toBytes [OkReply, IntReply (- 12), MultiBulkReply [Some ''a'', None, Some (CRLF)], BulkReply None]))
   = [Data (StatusReply ''OK''), Data (IntReply (- 12)), Data (MultiBulkReply [Some ''a'', Some [], Some CRLF]),
      Data NullBulkReply, EOF]"
  using resp_roundtrip [of "[OkReply, IntReply (- 12), MultiBulkReply [Some ''a'', None, Some (CRLF)], BulkReply None]"]
  by (simp add: wire_ok_def fits_def maxAlloc_def int64_def wire_def arrives_def CRLF_def)

text \<open>A length beyond what can be allocated: the caller of \<^verbatim>\<open>ParseOne\<close> waits for ever.\<close>

lemma parse_one_hangs: "parseOne (''$300000000000000'' @ CRLF) = None"
  by code_simp

text \<open>The null array is the one fixed reply that the parser does not read back.\<close>

lemma null_array_rejected: "parseBytes (toBytes NullMultiBulkReply) = Some (Inl ''protocol error: illegal array header -1'')"
  by code_simp

section \<open>Requests read by ParseV2\<close>

lemma readLineV2_line: "CR \<notin> set l \<Longrightarrow> readLineV2 (l @ CRLF @ rest) line = Inr (line @ l, rest)"
  by (induction l arbitrary: line) (auto simp: CRLF_def)

lemma readInteger_itoa: "int64 n \<Longrightarrow> readInteger (itoa n @ CRLF @ rest) = Inr (n, rest)"
  using readLineV2_line [OF itoa_no_CR, of n rest "[]"] by (simp add: readInteger_def parseInt_itoa)

lemma argsV2_all:
  "\<forall>a \<in> set args. fits a \<Longrightarrow>
   argsV2 (length args) (concat (map (bulk_bytes \<circ> Some) args) @ rest) acc = Some (Inr (acc @ map Some args, rest))"
proof (induction args arbitrary: acc)
  case (Cons a args)
  define more where "more = concat (map (bulk_bytes \<circ> Some) args) @ rest"
  have "readInteger (itoa (int (length a)) @ CRLF @ a @ CRLF @ more) = Inr (int (length a), a @ CRLF @ more)"
    using Cons.prems by (intro readInteger_itoa fits_int64) simp
  moreover have "argsV2 (length args) more (acc @ [Some a]) = Some (Inr (acc @ map Some (a # args), rest))"
    using Cons by (simp add: more_def o_def)
  moreover have b: "concat (map (bulk_bytes \<circ> Some) (a # args)) @ rest
      = CHR ''$'' # itoa (int (length a)) @ CRLF @ a @ CRLF @ more"
    by (simp add: more_def bulk_bytes_def)
  ultimately show ?case unfolding b using Cons.prems by (simp add: fits_def nat_add_distrib)
qed simp

lemma parseV2_request:
  assumes "int (length args) * 24 \<le> maxAlloc" "\<forall>a \<in> set args. fits a"
  shows "parseV2 (toBytes (MultiBulkReply (map Some args)) @ rest) = Some (Inr (map Some args, rest))"
proof -
  have "int64 (int (length args))" using assms(1) by (simp add: maxAlloc_def int64_def)
  then show ?thesis using argsV2_all [OF assms(2), of rest "[]"] assms(1)
    by (simp add: parseV2_def readInteger_itoa)
qed

end
