(* ===== verification/ReqParser.thy ===== *)
theory ReqParser
  imports Resp
begin

text \<open>
  The request parser of the event loop, \<^verbatim>\<open>internal/net/eventloop/reqparser.go\<close>: it splits what a client has sent so far into
  complete commands and leaves the rest for the next read.
\<close>

section \<open>Parsing\<close>

datatype perr = Incomplete | ProtocolError

definition maxInt :: int where
  "maxInt = 2 ^ 63 - 1"

fun parseUint_loop :: "string \<Rightarrow> int \<Rightarrow> int option" where
  "parseUint_loop [] n = Some n"
| "parseUint_loop (b # bs) n =
     (if of_char b < (48 :: int) \<or> of_char b > (57 :: int) then None
      else let digit = of_char b - 48 in
        if n > (maxInt - digit) div 10 then None else parseUint_loop bs (n * 10 + digit))"

definition parseUint :: "string \<Rightarrow> int option" where
  "parseUint buf = (if buf = [] then None else parseUint_loop buf 0)"

text \<open>The line, and the bytes it takes with its end.\<close>

definition readLine :: "string \<Rightarrow> perr + (string \<times> int)" where
  "readLine buf = (case split_crlf buf of None \<Rightarrow> Inl Incomplete | Some (l, _) \<Rightarrow> Inr (l, int (length l) + 2))"

text \<open>
  One argument, and the position after it. The sum \<open>consumed + argLen + 2\<close> wraps, and slicing with the bounds that
  did not wrap then panics, which is the outer \<open>None\<close>.
\<close>

definition readArg :: "string \<Rightarrow> int \<Rightarrow> (perr + (string option \<times> int)) option" where
  "readArg buf consumed =
     (if consumed \<ge> int (length buf) then Some (Inl Incomplete)
      else if buf ! nat consumed \<noteq> CHR ''$'' then Some (Inl ProtocolError)
      else case readLine (drop (nat consumed + 1) buf) of
        Inl e \<Rightarrow> Some (Inl e)
      | Inr (argLine, argLineLen) \<Rightarrow>
          (let c = consumed + argLineLen + 1 in
           if argLine \<noteq> [] \<and> hd argLine = CHR ''-'' then
             (if argLine \<noteq> ''-1'' then Some (Inl ProtocolError) else Some (Inr (None, c)))
           else case parseUint argLine of
             None \<Rightarrow> Some (Inl ProtocolError)
           | Some argLen \<Rightarrow>
               if wrap64 (c + argLen + 2) > int (length buf) then Some (Inl Incomplete)
               else if c + argLen > int (length buf) then None
               else Some (Inr (Some (take (nat argLen) (drop (nat c) buf)), c + argLen + 2))))"

text \<open>The loop over the arguments: \<open>n\<close> of them are still to come.\<close>

fun args_loop :: "nat \<Rightarrow> string \<Rightarrow> int \<Rightarrow> string option list \<Rightarrow> (perr + (string option list \<times> int)) option" where
  "args_loop 0 buf consumed args = Some (Inr (args, consumed))"
| "args_loop (Suc n) buf consumed args =
     (case readArg buf consumed of
        None \<Rightarrow> None
      | Some (Inl e) \<Rightarrow> Some (Inl e)
      | Some (Inr (arg, c)) \<Rightarrow> args_loop n buf c (args @ [arg]))"

text \<open>Allocating more pointers than memory can hold panics: \<open>make([][]byte, count)\<close> with 24 bytes each.\<close>

definition parseOneMultibulk :: "string \<Rightarrow> (perr + (string option list \<times> int)) option" where
  "parseOneMultibulk buf =
     (case buf of
        [] \<Rightarrow> Some (Inl Incomplete)
      | b # bs \<Rightarrow>
          if b \<noteq> CHR ''*'' then Some (Inl ProtocolError)
          else case readLine bs of
            Inl e \<Rightarrow> Some (Inl e)
          | Inr (line, lineLen) \<Rightarrow>
              (case parseUint line of
                 None \<Rightarrow> Some (Inl ProtocolError)
               | Some cnt \<Rightarrow> if cnt * 24 > maxAlloc then None else args_loop (nat cnt) buf (lineLen + 1) []))"

lemma parseUint_loop_nonneg: "parseUint_loop bs n = Some v \<Longrightarrow> 0 \<le> n \<Longrightarrow> 0 \<le> v"
  by (induction bs n rule: parseUint_loop.induct) (auto simp: Let_def split: if_splits)

lemma parseUint_nonneg: "parseUint bs = Some v \<Longrightarrow> 0 \<le> v"
  by (auto simp: parseUint_def parseUint_loop_nonneg split: if_splits)

lemma readLine_pos: "readLine buf = Inr (l, n) \<Longrightarrow> 0 < n"
  by (auto simp: readLine_def split: option.splits)

lemma readArg_consumes: "readArg buf c = Some (Inr (arg, c')) \<Longrightarrow> c \<le> c'"
  by (auto simp: readArg_def Let_def split: if_splits sum.splits option.splits dest!: readLine_pos parseUint_nonneg)

lemma args_loop_consumes: "args_loop n buf c args = Some (Inr (args', c')) \<Longrightarrow> c \<le> c'"
  by (induction n arbitrary: c args) (fastforce split: option.splits sum.splits dest: readArg_consumes)+

lemma parseOneMultibulk_pos: "parseOneMultibulk buf = Some (Inr (cmd, n)) \<Longrightarrow> 0 < n"
  by (auto simp: parseOneMultibulk_def split: list.splits if_splits sum.splits option.splits dest!: readLine_pos args_loop_consumes)

function requests_loop :: "string \<Rightarrow> string option list list \<Rightarrow> int \<Rightarrow> (perr + (string option list list \<times> int)) option" where
  "requests_loop buf cmds offset =
     (if offset < int (length buf) then
        (case parseOneMultibulk (drop (nat offset) buf) of
           None \<Rightarrow> None
         | Some (Inl Incomplete) \<Rightarrow> Some (Inr (cmds, offset))
         | Some (Inl ProtocolError) \<Rightarrow> Some (Inl ProtocolError)
         | Some (Inr (cmd, consumed)) \<Rightarrow> requests_loop buf (cmds @ [cmd]) (offset + consumed))
      else Some (Inr (cmds, offset)))"
  by pat_completeness auto
termination
  by (relation "measure (\<lambda>(buf, cmds, offset). nat (int (length buf) - offset))") (auto dest: parseOneMultibulk_pos)

declare requests_loop.simps [simp del]

definition parseRequests :: "string \<Rightarrow> (perr + (string option list list \<times> int)) option" where
  "parseRequests buf = requests_loop buf [] 0"

section \<open>Complete commands\<close>

text \<open>A client sends a command as the array of its arguments.\<close>

definition request :: "string list \<Rightarrow> string" where
  "request args = toBytes (MultiBulkReply (map Some args))"

lemma parseUint_loop_digits:
  "digits_val n bs = Some v \<Longrightarrow> 0 \<le> n \<Longrightarrow> v \<le> maxInt \<Longrightarrow> parseUint_loop bs n = Some v"
proof (induction n bs rule: digits_val.induct)
  case (2 n c cs)
  have mono: "digits_val w ds = Some v \<Longrightarrow> 0 \<le> w \<Longrightarrow> w \<le> v" for w ds
    by (induction w ds rule: digits_val.induct) (auto split: if_splits)
  define d :: int where "d = of_char c - 48"
  have d: "0 \<le> d" "d \<le> 9" "digits_val (n * 10 + d) cs = Some v" using 2 by (auto simp: d_def split: if_splits)
  then have "n * 10 + d \<le> maxInt" using 2 mono [OF d(3)] by simp
  then have "n \<le> (maxInt - d) div 10" using zdiv_mono1 [of "n * 10" "maxInt - d" 10] by simp
  then show ?case using 2 d by (simp add: d_def Let_def split: if_splits)
qed simp

lemma parseUint_itoa: "0 \<le> v \<Longrightarrow> v \<le> maxInt \<Longrightarrow> parseUint (itoa v) = Some v"
  using dec_digits [of v] by (auto simp: itoa_def parseUint_def maxInt_def intro: parseUint_loop_digits)

lemma itoa_nonneg_head: "0 \<le> v \<Longrightarrow> itoa v \<noteq> [] \<and> hd (itoa v) \<noteq> CHR ''-''"
  using dec_digits [of v] dec_head [of v] by (cases "v = 0"; cases "dec v") (auto simp: itoa_def)

lemma readLine_itoa: "readLine (itoa v @ CRLF @ rest) = Inr (itoa v, int (length (itoa v)) + 2)"
  by (simp add: readLine_def split_crlf_line itoa_no_CR)

definition args_bytes :: "string list \<Rightarrow> string" where
  "args_bytes args = concat (map (bulk_bytes \<circ> Some) args)"

lemma readArg_length:
  assumes "c < int (length buf)" "buf ! nat c = CHR ''$''" "readLine (drop (Suc (nat c)) buf) = Inr (l, k)"
    "\<not> (l \<noteq> [] \<and> hd l = CHR ''-'')" "parseUint l = Some m" "d = c + k + 1"
  shows "readArg buf c =
    (if wrap64 (d + m + 2) > int (length buf) then Some (Inl Incomplete)
     else if d + m > int (length buf) then None
     else Some (Inr (Some (take (nat m) (drop (nat d) buf)), d + m + 2)))"
  using assms by (auto simp: readArg_def Let_def)

lemma readArg_bulk:
  assumes len: "int (length (pre @ bulk_bytes (Some a) @ rest)) < 2 ^ 62"
  shows "readArg (pre @ bulk_bytes (Some a) @ rest) (int (length pre))
       = Some (Inr (Some a, int (length (pre @ bulk_bytes (Some a)))))"
proof -
  let ?h = "itoa (int (length a))" and ?buf = "pre @ bulk_bytes (Some a) @ rest"
  have buf: "?buf = pre @ CHR ''$'' # (?h @ CRLF @ a @ CRLF @ rest)" by (simp add: bulk_bytes_def)
  have "int (length a) \<le> maxInt" using len by (simp add: bulk_bytes_def maxInt_def)
  then have u: "parseUint ?h = Some (int (length a))" by (simp add: parseUint_itoa)
  have rl: "readLine (drop (Suc (length pre)) ?buf) = Inr (?h, int (length ?h) + 2)"
    unfolding buf by (simp add: readLine_itoa)
  define c where "c = int (length pre) + (int (length ?h) + 2) + 1"
  have c: "nat c = length (pre @ CHR ''$'' # ?h @ CRLF)" by (simp add: c_def)
  have w: "wrap64 (c + int (length a) + 2) = c + int (length a) + 2"
    using len by (intro wrap64_id) (simp add: c_def int64_def bulk_bytes_def)
  have "?buf = (pre @ CHR ''$'' # ?h @ CRLF) @ a @ CRLF @ rest" by (simp add: bulk_bytes_def)
  then have t: "take (length a) (drop (nat c) ?buf) = a" unfolding c by (metis append_eq_conv_conj)
  have nx: "int (length (pre @ bulk_bytes (Some a))) = c + int (length a) + 2" by (simp add: c_def bulk_bytes_def)
  have le: "c + int (length a) + 2 \<le> int (length ?buf)" by (simp add: c_def bulk_bytes_def)
  have at: "int (length pre) < int (length ?buf)" "?buf ! nat (int (length pre)) = CHR ''$''" unfolding buf by simp_all
  have "readArg ?buf (int (length pre)) = Some (Inr (Some (take (length a) (drop (nat c) ?buf)), c + int (length a) + 2))"
    using readArg_length [OF at _ _ u c_def] rl w le itoa_nonneg_head [of "int (length a)"] by simp
  then show ?thesis unfolding t nx .
qed

lemma args_loop_all:
  assumes "int (length (pre @ args_bytes args @ rest)) < 2 ^ 62"
  shows "args_loop (length args) (pre @ args_bytes args @ rest) (int (length pre)) acc
       = Some (Inr (acc @ map Some args, int (length (pre @ args_bytes args))))"
  using assms
proof (induction args arbitrary: pre acc)
  case (Cons a args)
  have b: "pre @ args_bytes (a # args) @ rest = pre @ bulk_bytes (Some a) @ args_bytes args @ rest"
    by (simp add: args_bytes_def)
  show ?case
    using Cons.IH [of "pre @ bulk_bytes (Some a)" "acc @ [Some a]"] Cons.prems
      readArg_bulk [of pre a "args_bytes args @ rest"]
    unfolding b by (simp add: args_bytes_def add.assoc)
qed (simp add: args_bytes_def)

definition request_ok :: "string list \<Rightarrow> bool" where
  "request_ok args \<longleftrightarrow> int (length args) * 24 \<le> maxAlloc"

lemma request_bytes: "request args = CHR ''*'' # itoa (int (length args)) @ CRLF @ args_bytes args"
  by (simp add: request_def args_bytes_def)

lemma parse_request:
  assumes "request_ok args" "int (length (request args @ rest)) < 2 ^ 62"
  shows "parseOneMultibulk (request args @ rest) = Some (Inr (map Some args, int (length (request args))))"
proof -
  let ?h = "itoa (int (length args))"
  let ?pre = "CHR ''*'' # ?h @ CRLF"
  have "parseUint ?h = Some (int (length args))" using assms(1) by (simp add: parseUint_itoa request_ok_def maxAlloc_def maxInt_def)
  moreover have "args_loop (length args) (?pre @ args_bytes args @ rest) (int (length ?pre)) []
      = Some (Inr (map Some args, int (length (?pre @ args_bytes args))))"
    using args_loop_all [of ?pre args rest "[]"] assms(2) by (simp add: request_bytes)
  ultimately show ?thesis using assms(1)
    by (simp add: request_bytes parseOneMultibulk_def readLine_itoa request_ok_def add.commute add.left_commute)
qed

section \<open>Requests that are not complete\<close>








lemma request_nonempty: "\<exists>k. length (request args) = Suc k"
  by (simp add: request_bytes)

lemma requests_loop_all:
  assumes "\<forall>args \<in> set cmds. request_ok args" "tail = [] \<or> parseOneMultibulk tail = Some (Inl Incomplete)"
    "int (length (pre @ concat (map request cmds) @ tail)) < 2 ^ 62"
  shows "requests_loop (pre @ concat (map request cmds) @ tail) acc (int (length pre))
       = Some (Inr (acc @ map (map Some) cmds, int (length (pre @ concat (map request cmds)))))"
  using assms
proof (induction cmds arbitrary: pre acc)
  case Nil
  then show ?case by (subst requests_loop.simps) auto
next
  case (Cons args cmds)
  have "parseOneMultibulk (request args @ concat (map request cmds) @ tail) = Some (Inr (map Some args, int (length (request args))))"
    using Cons.prems by (intro parse_request) auto
  moreover obtain k where "length (request args) = Suc k" using request_nonempty by blast
  ultimately show ?case
    using Cons.IH [of "pre @ request args" "acc @ [map Some args]"] Cons.prems
    by (subst requests_loop.simps) (simp add: add.assoc add.left_commute)
qed



text \<open>A length near the largest integer passes the size test, which wraps, and the slice panics.\<close>

lemma request_length_panics: "parseRequests (''*1'' @ CRLF @ ''$9223372036854775806'' @ CRLF) = None"
  by code_simp

section \<open>The three parsers\<close>

text \<open>
  C36. The three parsers of the servers read the same command off a request that is an array of at least one argument,
  none of them nil: the stream parser, \<^verbatim>\<open>ParseV2\<close> and the parser of the event loop. (Inline requests and nil arguments they
  treat differently.)
\<close>

theorem parsers_agree:
  assumes "args \<noteq> []" "request_ok args" "\<forall>a \<in> set args. fits a" "int (length (request args)) < 2 ^ 62"
  shows "parse0 (request args) = [Data (MultiBulkReply (map Some args)), EOF] \<and>
    parseV2 (request args) = Some (Inr (map Some args, [])) \<and>
    parseRequests (request args) = Some (Inr ([map Some args], int (length (request args))))"
proof (intro conjI)
  have "wire_ok (MultiBulkReply (map Some args))"
    using assms by (simp add: wire_ok_def request_ok_def list_all_iff)
  then show "parse0 (request args) = [Data (MultiBulkReply (map Some args)), EOF]"
    using parse_reply [of _ "[]"] assms(1) by (simp add: request_def wire_def parse0.simps [of "[]"] arrives_def o_def del: toBytes.simps)
  show "parseV2 (request args) = Some (Inr (map Some args, []))"
    using parseV2_request [of args "[]"] assms by (simp add: request_def request_ok_def del: toBytes.simps)
  show "parseRequests (request args) = Some (Inr ([map Some args], int (length (request args))))"
    using requests_loop_all [of "[args]" "[]" "[]" "[]"] assms by (simp add: parseRequests_def)
qed

theorem parsers_agree_witness:
  "parse0 (request [''GET'', ''k'']) = [Data (MultiBulkReply [Some ''GET'', Some ''k'']), EOF] \<and>
   parseRequests (request [''GET'', ''k'']) = Some (Inr ([[Some ''GET'', Some ''k'']], 20))"
proof -
  have "length (request [''GET'', ''k'']) = 20" by code_simp
  then show ?thesis using parsers_agree [of "[''GET'', ''k'']"] by (simp add: request_ok_def maxAlloc_def fits_def)
qed

end
