(* ===== verification/Db.thy ===== *)
theory Db
  imports Resp RObject HashObj SetObj ListObj
begin

text \<open>
  A logical database, \<^verbatim>\<open>internal/command/database.go\<close>, with the access metadata of \<^verbatim>\<open>evict.go\<close>: the key space, the
  expiry times, the versions that WATCH compares, the append-only log and the pending expiry jobs of the time wheel.

  The key space and the other dicts are association lists: the bindings are what the dict theories prove of either
  engine. A command reads the clock once, \<open>now\<close>, in nanoseconds. Values are what the pointers of the code point to: a
  command that updates an object in place rebinds the key to the new value.
\<close>

section \<open>Entities\<close>

text \<open>
  The pointer of an object: a string's value, the typed objects, a plain dict, the members of a legacy set, and what other
  commands store (\<open>'z\<close>). The data of an entity is a typed object, or a bare value as the RDB loader leaves it.
\<close>

datatype 'z ptr = PStr gany | PList listobj | PHash hash | PSet setobj | PDict "gany simpleDict" | PLegacySet "string list" | POther 'z

datatype 'z entity = Obj "'z ptr robj" | Bare "'z ptr"

definition str_obj :: "gany robj \<Rightarrow> 'z entity" where
  "str_obj r = Obj (newRobj (ro_type r) (ro_enc r) (PStr (ro_ptr r)))"

section \<open>The database\<close>

type_synonym cmdLine = "string list"

text \<open>The calls of the key event callbacks: a key was inserted, a key was deleted (with or without its entity).\<close>

datatype event = Inserted string | Deleted string bool

record 'z DB =
  data :: "(string \<times> 'z entity) list"
  ttlMap :: "(string \<times> int) list"
  versionMap :: "(string \<times> nat) list"
  lruMap :: "(string \<times> nat) list"
  aof :: "cmdLine list"
  jobs :: "(string \<times> int) list"
  events :: "event list"

definition makeDB :: "'z DB" where
  "makeDB = \<lparr>data = [], ttlMap = [], versionMap = [], lruMap = [], aof = [], jobs = [], events = []\<rparr>"

text \<open>
  What a command takes from outside: the clock, whether the eviction policy counts frequencies, the outcome of the random
  draw for a counter, the digest of a value (a library hash), the floats of the language, the text of a number error, the
  configured encoding thresholds, and how the capacity of a page of a quicklist grows.
\<close>

record 'f env =
  now :: int
  lfu :: bool
  draw :: "nat \<Rightarrow> bool"
  valueDigest :: "string \<Rightarrow> string"
  parseFloat :: "string \<Rightarrow> 'f option"
  addFloat :: "'f \<Rightarrow> 'f \<Rightarrow> 'f"
  formatFloat :: "'f \<Rightarrow> string"
  parseIntError :: "string \<Rightarrow> string"
  limits :: thresholds
  growth :: "nat \<Rightarrow> nat \<Rightarrow> nat"

text \<open>A surrounding with the default thresholds, for examples.\<close>

definition default_env :: "unit env" where
  "default_env =
     \<lparr>now = 0, lfu = False, draw = (\<lambda>_. False), valueDigest = (\<lambda>s. s), parseFloat = (\<lambda>_. None), addFloat = (\<lambda>_ _. ()),
      formatFloat = (\<lambda>_. []), parseIntError = (\<lambda>s. s), limits = defaultEncodingThresholds, growth = (\<lambda>_ n. n)\<rparr>"

definition addAof :: "cmdLine \<Rightarrow> 'z DB \<Rightarrow> 'z DB" where
  "addAof line db = db\<lparr>aof := aof db @ [line]\<rparr>"

section \<open>Access metadata\<close>

definition lruClockMax :: nat where "lruClockMax = 2 ^ 24 - 1"
definition lfuInitVal :: nat where "lfuInitVal = 5"

definition unixMilli :: "int \<Rightarrow> int" where "unixMilli t = t div 10 ^ 6"

definition lruClock :: "'f env \<Rightarrow> nat" where
  "lruClock e = nat (go_div (unixMilli (now e)) 1000 mod 2 ^ 24)"

definition lruIdleFor :: "nat \<Rightarrow> nat \<Rightarrow> nat" where
  "lruIdleFor n access = (if n \<ge> access then n - access else (lruClockMax - access) + n + 1)"

text \<open>The draw is below \<open>1 / (baseval * lfuLogFactor + 1)\<close>.\<close>

definition lfuLogIncr :: "'f env \<Rightarrow> nat \<Rightarrow> nat" where
  "lfuLogIncr e counter = (if counter = 255 then 255 else if draw e counter then counter + 1 else counter)"

definition lfuNowMinutes :: "'f env \<Rightarrow> nat" where
  "lfuNowMinutes e = nat (go_div (now e div 10 ^ 9) 60 mod 2 ^ 16)"

definition newLRUMeta :: "'f env \<Rightarrow> nat" where
  "newLRUMeta e = (if lfu e then lfuNowMinutes e * 256 + lfuInitVal else lruClock e)"

definition lruValue :: "nat \<Rightarrow> nat" where "lruValue m = m mod 2 ^ 24"
definition lfuCounter :: "nat \<Rightarrow> nat" where "lfuCounter m = m mod 256"
definition lfuMinutes :: "nat \<Rightarrow> nat" where "lfuMinutes m = m div 256 mod 2 ^ 16"

definition packLFU :: "nat \<Rightarrow> nat \<Rightarrow> nat" where
  "packLFU minutes counter = (minutes mod 2 ^ 16) * 256 + counter"

definition lfuMinutesDiff :: "nat \<Rightarrow> nat \<Rightarrow> nat" where
  "lfuMinutesDiff n t = (if n \<ge> t then n - t else (2 ^ 16 - 1 - t) + n + 1)"

definition lfuDecay :: "'f env \<Rightarrow> nat \<Rightarrow> nat" where
  "lfuDecay e m =
     (let periods = lfuMinutesDiff (lfuNowMinutes e) (lfuMinutes m); counter = lfuCounter m in
      if counter \<le> periods then 0 else counter - periods)"

definition touchLRU :: "'f env \<Rightarrow> string \<Rightarrow> 'z DB \<Rightarrow> 'z DB" where
  "touchLRU e key db =
     (if lfu e then
        let counter = (case map_of (lruMap db) key of None \<Rightarrow> lfuInitVal | Some m \<Rightarrow> lfuDecay e m) in
        db\<lparr>lruMap := gmap_set key (packLFU (lfuNowMinutes e) (lfuLogIncr e counter)) (lruMap db)\<rparr>
      else db\<lparr>lruMap := gmap_set key (lruClock e) (lruMap db)\<rparr>)"

definition keyIdle :: "nat \<Rightarrow> string \<Rightarrow> 'z DB \<Rightarrow> nat" where
  "keyIdle n key db = (case map_of (lruMap db) key of None \<Rightarrow> lruClockMax | Some m \<Rightarrow> lruIdleFor n (lruValue m))"

definition keyLFUCounter :: "'f env \<Rightarrow> string \<Rightarrow> 'z DB \<Rightarrow> nat" where
  "keyLFUCounter e key db = (case map_of (lruMap db) key of None \<Rightarrow> 0 | Some m \<Rightarrow> lfuDecay e m)"

section \<open>Data access\<close>

definition genExpireTask :: "string \<Rightarrow> string" where
  "genExpireTask key = ''expire:'' @ key"

definition cancel :: "string \<Rightarrow> 'z DB \<Rightarrow> 'z DB" where
  "cancel task db = db\<lparr>jobs := gmap_delete task (jobs db)\<rparr>"

definition remove_key :: "string \<Rightarrow> 'z DB \<Rightarrow> 'z DB" where
  "remove_key key db =
     (let deleted = (map_of (data db) key \<noteq> None);
          db1 = db\<lparr>data := gmap_delete key (data db), ttlMap := gmap_delete key (ttlMap db), lruMap := gmap_delete key (lruMap db)\<rparr>;
          db2 = cancel (genExpireTask key) db1
      in db2\<lparr>events := events db2 @ [Deleted key deleted]\<rparr>)"

fun removes :: "string list \<Rightarrow> 'z DB \<Rightarrow> 'z DB \<times> nat" where
  "removes [] db = (db, 0)"
| "removes (key # keys) db =
     (if map_of (data db) key \<noteq> None then let (db', n) = removes keys (remove_key key db) in (db', Suc n)
      else removes keys db)"

definition isExpired :: "'f env \<Rightarrow> string \<Rightarrow> 'z DB \<Rightarrow> 'z DB \<times> bool" where
  "isExpired e key db =
     (case map_of (ttlMap db) key of
        None \<Rightarrow> (db, False)
      | Some expireTime \<Rightarrow> if now e > expireTime then (remove_key key db, True) else (db, False))"

definition getEntity :: "'f env \<Rightarrow> string \<Rightarrow> 'z DB \<Rightarrow> 'z DB \<times> 'z entity option" where
  "getEntity e key db =
     (case map_of (data db) key of
        None \<Rightarrow> (db, None)
      | Some raw \<Rightarrow>
          (let (db1, expired) = isExpired e key db in
           if expired then (db1, None) else (touchLRU e key db1, Some raw)))"

definition getEntityNoTouch :: "'f env \<Rightarrow> string \<Rightarrow> 'z DB \<Rightarrow> 'z DB \<times> 'z entity option" where
  "getEntityNoTouch e key db =
     (case map_of (data db) key of
        None \<Rightarrow> (db, None)
      | Some raw \<Rightarrow> (let (db1, expired) = isExpired e key db in if expired then (db1, None) else (db1, Some raw)))"

definition putEntity :: "'f env \<Rightarrow> string \<Rightarrow> 'z entity \<Rightarrow> 'z DB \<Rightarrow> 'z DB" where
  "putEntity e key entity db =
     (let fresh = (map_of (data db) key = None);
          db1 = touchLRU e key (db\<lparr>data := gmap_set key entity (data db)\<rparr>)
      in if fresh then db1\<lparr>events := events db1 @ [Inserted key]\<rparr> else db1)"

definition putIfExists :: "string \<Rightarrow> 'z entity \<Rightarrow> 'z DB \<Rightarrow> 'z DB \<times> int" where
  "putIfExists key entity db =
     (if map_of (data db) key = None then (db, 0) else (db\<lparr>data := gmap_set key entity (data db)\<rparr>, 1))"

definition putIfAbsent :: "string \<Rightarrow> 'z entity \<Rightarrow> 'z DB \<Rightarrow> 'z DB \<times> int" where
  "putIfAbsent key entity db =
     (if map_of (data db) key = None
      then (db\<lparr>data := gmap_set key entity (data db), events := events db @ [Inserted key]\<rparr>, 1) else (db, 0))"

definition flush :: "'z DB \<Rightarrow> 'z DB" where
  "flush db = db\<lparr>data := [], ttlMap := []\<rparr>"

section \<open>Expiry\<close>

text \<open>A job that lies in the past is not added, and an older job of the key then stays.\<close>

definition expire :: "'f env \<Rightarrow> string \<Rightarrow> int \<Rightarrow> 'z DB \<Rightarrow> 'z DB" where
  "expire e key expireTime db =
     (let db1 = db\<lparr>ttlMap := gmap_set key expireTime (ttlMap db)\<rparr> in
      if expireTime - now e < 0 then db1 else db1\<lparr>jobs := gmap_set (genExpireTask key) expireTime (jobs db1)\<rparr>)"

text \<open>The body of the job, run by the time wheel under the lock of the key.\<close>

definition expireJob :: "'f env \<Rightarrow> string \<Rightarrow> 'z DB \<Rightarrow> 'z DB" where
  "expireJob e key db =
     (case map_of (ttlMap db) key of
        None \<Rightarrow> db
      | Some expireTime \<Rightarrow> if now e > expireTime then remove_key key db else db)"

definition persist :: "string \<Rightarrow> 'z DB \<Rightarrow> 'z DB" where
  "persist key db = cancel (genExpireTask key) (db\<lparr>ttlMap := gmap_delete key (ttlMap db)\<rparr>)"

section \<open>Versions\<close>

definition getVersion :: "string \<Rightarrow> 'z DB \<Rightarrow> nat" where
  "getVersion key db = (case map_of (versionMap db) key of None \<Rightarrow> 0 | Some v \<Rightarrow> v)"

fun addVersion :: "string list \<Rightarrow> 'z DB \<Rightarrow> 'z DB" where
  "addVersion [] db = db"
| "addVersion (key # keys) db =
     addVersion keys (db\<lparr>versionMap := gmap_set key ((getVersion key db + 1) mod 2 ^ 32) (versionMap db)\<rparr>)"

definition removeVersion :: "string \<Rightarrow> 'z DB \<Rightarrow> 'z DB" where
  "removeVersion key db = db\<lparr>versionMap := gmap_delete key (versionMap db)\<rparr>"

definition validateArity :: "int \<Rightarrow> cmdLine \<Rightarrow> bool" where
  "validateArity arity line = (if arity \<ge> 0 then int (length line) = arity else int (length line) \<ge> - arity)"

definition db_forEach :: "('s \<Rightarrow> string \<Rightarrow> 'z entity \<Rightarrow> int option \<Rightarrow> ('s \<times> bool) option) \<Rightarrow> 'z DB \<Rightarrow> 's \<Rightarrow> 's option" where
  "db_forEach cb db s = iter (\<lambda>s i (key, entity). cb s key entity (map_of (ttlMap db) key)) 0 (data db) s"

text \<open>Command lines for the log.\<close>

definition makeExpireCmd :: "string \<Rightarrow> int \<Rightarrow> cmdLine" where
  "makeExpireCmd key expireAt = [''PEXPIREAT'', key, itoa (go_div (wrap64 expireAt) (10 ^ 6))]"

section \<open>Effects on the key space and the expiry times\<close>

abbreviation dmap :: "'z DB \<Rightarrow> string \<rightharpoonup> 'z entity" where "dmap db \<equiv> map_of (data db)"
abbreviation tmap :: "'z DB \<Rightarrow> string \<rightharpoonup> int" where "tmap db \<equiv> map_of (ttlMap db)"

named_theorems db_simps

lemma touchLRU_fields [simp, db_simps]:
  "data (touchLRU e k db) = data db" "ttlMap (touchLRU e k db) = ttlMap db" "aof (touchLRU e k db) = aof db"
  "versionMap (touchLRU e k db) = versionMap db" "jobs (touchLRU e k db) = jobs db" "events (touchLRU e k db) = events db"
  by (simp_all add: touchLRU_def Let_def)

lemma addAof_fields [simp, db_simps]:
  "data (addAof l db) = data db" "ttlMap (addAof l db) = ttlMap db" "aof (addAof l db) = aof db @ [l]"
  "versionMap (addAof l db) = versionMap db" "lruMap (addAof l db) = lruMap db" "jobs (addAof l db) = jobs db"
  by (simp_all add: addAof_def)

lemma remove_key_fields [simp, db_simps]:
  "dmap (remove_key k db) = (dmap db)(k := None)" "tmap (remove_key k db) = (tmap db)(k := None)"
  "aof (remove_key k db) = aof db" "versionMap (remove_key k db) = versionMap db"
  by (simp_all add: remove_key_def cancel_def Let_def)

lemma putEntity_fields [simp, db_simps]:
  "dmap (putEntity e k x db) = (dmap db)(k \<mapsto> x)" "tmap (putEntity e k x db) = tmap db" "aof (putEntity e k x db) = aof db"
  "ttlMap (putEntity e k x db) = ttlMap db" "versionMap (putEntity e k x db) = versionMap db"
  by (simp_all add: putEntity_def Let_def)

lemma expire_fields [simp, db_simps]:
  "data (expire e k t db) = data db" "tmap (expire e k t db) = (tmap db)(k \<mapsto> t)" "aof (expire e k t db) = aof db"
  "versionMap (expire e k t db) = versionMap db"
  by (simp_all add: expire_def Let_def)

lemma persist_fields [simp, db_simps]:
  "data (persist k db) = data db" "tmap (persist k db) = (tmap db)(k := None)" "aof (persist k db) = aof db"
  "versionMap (persist k db) = versionMap db"
  by (simp_all add: persist_def cancel_def)

lemma putIfExists_fields [db_simps]:
  "dmap (fst (putIfExists k x db)) = (if dmap db k = None then dmap db else (dmap db)(k \<mapsto> x))"
  "ttlMap (fst (putIfExists k x db)) = ttlMap db" "aof (fst (putIfExists k x db)) = aof db"
  "versionMap (fst (putIfExists k x db)) = versionMap db"
  "snd (putIfExists k x db) = (if dmap db k = None then 0 else 1)"
  by (simp_all add: putIfExists_def)

lemma putIfAbsent_fields [db_simps]:
  "dmap (fst (putIfAbsent k x db)) = (if dmap db k = None then (dmap db)(k \<mapsto> x) else dmap db)"
  "ttlMap (fst (putIfAbsent k x db)) = ttlMap db" "aof (fst (putIfAbsent k x db)) = aof db"
  "versionMap (fst (putIfAbsent k x db)) = versionMap db"
  "snd (putIfAbsent k x db) = (if dmap db k = None then 1 else 0)"
  by (simp_all add: putIfAbsent_def)

lemma addVersion_fields [simp]:
  "data (addVersion ks db) = data db" "ttlMap (addVersion ks db) = ttlMap db" "aof (addVersion ks db) = aof db"
  by (induction ks db rule: addVersion.induct) simp_all

text \<open>
  What the commands see of a key: its entity and expiry time, unless that has passed. Reading a key may purge it, but
  does not change what is seen of any key.
\<close>

definition visible :: "int \<Rightarrow> 'z entity option \<Rightarrow> int option \<Rightarrow> ('z entity \<times> int option) option" where
  "visible n x t =
     (case x of
        None \<Rightarrow> None
      | Some x \<Rightarrow> (case t of None \<Rightarrow> Some (x, None) | Some t \<Rightarrow> if n > t then None else Some (x, Some t)))"

definition live :: "'f env \<Rightarrow> 'z DB \<Rightarrow> string \<rightharpoonup> 'z entity \<times> int option" where
  "live e db k = visible (now e) (dmap db k) (tmap db k)"

lemma visible_simps [simp]:
  "visible n None u = None" "visible n (Some x) None = Some (x, None)"
  "visible n (Some x) (Some t) = (if n > t then None else Some (x, Some t))"
  by (simp_all add: visible_def)

lemma getEntity_value: "snd (getEntity e k db) = map_option fst (live e db k)"
  by (auto simp: getEntity_def isExpired_def live_def split: option.splits)

lemma getEntity_live: "now e \<le> now e' \<Longrightarrow> live e' (fst (getEntity e k db)) = live e' db"
  by (auto simp: getEntity_def isExpired_def live_def fun_eq_iff split: option.splits)

lemma getEntity_maps:
  "dmap (fst (getEntity e k db)) = (if dmap db k \<noteq> None \<and> live e db k = None then (dmap db)(k := None) else dmap db)"
  "tmap (fst (getEntity e k db)) = (if dmap db k \<noteq> None \<and> live e db k = None then (tmap db)(k := None) else tmap db)"
  "aof (fst (getEntity e k db)) = aof db" "versionMap (fst (getEntity e k db)) = versionMap db"
  by (auto simp: getEntity_def isExpired_def live_def split: option.splits)

section \<open>The key space as the commands see it\<close>

text \<open>Every expiry time belongs to a key.\<close>

definition db_inv :: "'z DB \<Rightarrow> bool" where
  "db_inv db \<longleftrightarrow> dom (tmap db) \<subseteq> dom (dmap db)"

text \<open>A key that has expired is still bound until something purges it.\<close>

definition purged :: "'f env \<Rightarrow> string \<Rightarrow> 'z DB \<Rightarrow> bool" where
  "purged e k db \<longleftrightarrow> (live e db k = None \<longrightarrow> dmap db k = None)"

lemma db_inv_makeDB: "db_inv makeDB"
  by (simp add: db_inv_def makeDB_def)

lemma db_inv_iff: "db_inv db \<longleftrightarrow> (\<forall>k. dmap db k = None \<longrightarrow> tmap db k = None)"
  by (auto simp: db_inv_def dom_def)

lemma db_invD: "db_inv db \<Longrightarrow> dmap db k = None \<Longrightarrow> tmap db k = None"
  by (auto simp: db_inv_def dom_def)

lemma getEntity_inv: "db_inv db \<Longrightarrow> db_inv (fst (getEntity e k db))"
  by (auto simp: db_inv_def getEntity_maps dom_def)

lemma getEntity_purged: "purged e k (fst (getEntity e k db))"
  by (auto simp: purged_def getEntity_def isExpired_def live_def split: option.splits)

lemma getEntity_keeps_purged: "purged e k db \<Longrightarrow> purged e k (fst (getEntity e k' db))"
  by (auto simp: purged_def getEntity_def isExpired_def live_def split: option.splits)

lemma remove_key_inv: "db_inv db \<Longrightarrow> db_inv (remove_key k db)"
  by (auto simp: db_inv_def dom_def)

lemma remove_key_live: "live e (remove_key k db) = (live e db)(k := None)"
  by (rule ext) (simp add: live_def)

definition ttl_of :: "('z entity \<times> int option) option \<Rightarrow> int option" where
  "ttl_of x = (case x of None \<Rightarrow> None | Some (_, t) \<Rightarrow> t)"

lemma putEntity_inv: "db_inv db \<Longrightarrow> db_inv (putEntity e k x db)"
  by (auto simp: db_inv_def)

lemma putEntity_live:
  "db_inv db \<Longrightarrow> purged e k db \<Longrightarrow> live e (putEntity e k x db) = (live e db)(k \<mapsto> (x, ttl_of (live e db k)))"
proof -
  assume "db_inv db" "purged e k db"
  then have "dmap db k = None \<Longrightarrow> tmap db k = None" "live e db k = None \<Longrightarrow> dmap db k = None"
    by (auto simp: purged_def intro: db_invD)
  then have "live e (putEntity e k x db) k = Some (x, ttl_of (live e db k))"
    by (cases "dmap db k"; cases "tmap db k") (auto simp: live_def ttl_of_def split: if_splits)
  moreover have "live e (putEntity e k x db) j = live e db j" if "j \<noteq> k" for j using that by (simp add: live_def)
  ultimately show ?thesis by (auto simp: fun_eq_iff)
qed

lemma expire_inv: "db_inv db \<Longrightarrow> dmap db k \<noteq> None \<Longrightarrow> db_inv (expire e k t db)"
  by (auto simp: db_inv_def)

lemma expire_live:
  "live e (expire e k t db) = (live e db)(k := (case dmap db k of None \<Rightarrow> None | Some x \<Rightarrow> if now e > t then None else Some (x, Some t)))"
  by (auto simp: live_def fun_eq_iff split: option.splits)

lemma persist_inv: "db_inv db \<Longrightarrow> db_inv (persist k db)"
  by (auto simp: db_inv_def)

lemma persist_live: "live e (persist k db) = (live e db)(k := map_option (\<lambda>x. (x, None)) (dmap db k))"
  by (auto simp: live_def visible_def fun_eq_iff split: option.splits)

lemma addAof_live: "live e (addAof l db) = live e db" "db_inv (addAof l db) = db_inv db"
  by (simp_all add: live_def db_inv_def fun_eq_iff)

lemma live_dmap: "live e db k = Some (x, t) \<Longrightarrow> dmap db k = Some x"
  by (auto simp: live_def visible_def split: option.splits if_splits)

lemmas db_live = remove_key_live putEntity_live expire_live persist_live addAof_live
lemmas db_inv_rules = getEntity_inv remove_key_inv putEntity_inv expire_inv persist_inv

end
