(* ===== verification/Bitmap.thy ===== *)
theory Bitmap
  imports GoStd
begin

text \<open>
  Bitmaps, \<^verbatim>\<open>internal/datastruct/bitmap/bitmap.go\<close>: byte strings whose bits are numbered from the most significant bit of
  the first byte.
\<close>

unbundle bit_operations_syntax

definition toByteSize :: "int \<Rightarrow> int" where
  "toByteSize bitSize = (if go_mod bitSize 8 = 0 then go_div bitSize 8 else go_div bitSize 8 + 1)"

text \<open>Allocating more than fits panics.\<close>

definition bm_grow :: "string \<Rightarrow> int \<Rightarrow> string option" where
  "bm_grow b bitSize =
     (let gap = toByteSize bitSize - int (length b) in
      if gap \<le> 0 then Some b else if gap > 2 ^ 48 then None else Some (b @ replicate (nat gap) (CHR 0x00)))"

definition bitSize :: "string \<Rightarrow> int" where
  "bitSize b = int (length b) * 8"

text \<open>The shift is \<open>7 - offset % 8\<close>; a mask shifted out of the byte is 0.\<close>

definition set_in_byte :: "int \<Rightarrow> bool \<Rightarrow> char \<Rightarrow> char" where
  "set_in_byte sh v c =
     (if sh \<ge> 8 then c
      else char_of (if v then set_bit (nat sh) (of_char c :: nat) else unset_bit (nat sh) (of_char c :: nat)))"

definition setBit :: "string \<Rightarrow> int \<Rightarrow> nat \<Rightarrow> string option" where
  "setBit b offset val =
     (let byteIndex = go_div offset 8; bitOffset = 7 - go_mod offset 8 in
      do { b1 \<leftarrow> bm_grow b (wrap64 (offset + 1));
           c \<leftarrow> gindex b1 byteIndex;
           Some (b1[nat byteIndex := set_in_byte bitOffset (val > 0) c]) })"

definition getBit :: "string \<Rightarrow> int \<Rightarrow> nat option" where
  "getBit b offset =
     (let byteIndex = go_div offset 8; bitOffset = 7 - go_mod offset 8 in
      if byteIndex \<ge> int (length b) then Some 0
      else do { c \<leftarrow> gindex b byteIndex; Some ((of_char c :: nat) div 2 ^ nat bitOffset mod 2) })"

text \<open>
  The two loops of \<^verbatim>\<open>ForEachBit\<close>, from the bit \<open>bo\<close> of the byte \<open>bi\<close>. The end is looked at after the callback.
\<close>

function bit_loop :: "string \<Rightarrow> int \<Rightarrow> ('s \<Rightarrow> int \<Rightarrow> nat \<Rightarrow> 's \<times> bool) \<Rightarrow> int \<Rightarrow> nat \<Rightarrow> nat \<Rightarrow> 's \<Rightarrow> 's" where
  "bit_loop b fin cb offset bi bo s =
     (if bi < length b \<and> bo < 8 then
        (let bit = (of_char (b ! bi) :: nat) div 2 ^ (7 - bo) mod 2; (s', go) = cb s offset bit; offset' = offset + 1 in
         if \<not> go then s'
         else if bo + 1 < 8 \<and> \<not> (offset' \<ge> fin \<and> fin \<noteq> 0) then bit_loop b fin cb offset' bi (bo + 1) s'
         else if fin > 0 \<and> offset' \<ge> fin then s'
         else bit_loop b fin cb offset' (bi + 1) 0 s')
      else s)"
  by pat_completeness auto
termination
  by (relation "measure (\<lambda>(b, fin, cb, offset, bi, bo, s). (length b - bi) * 8 + (8 - bo))") auto

declare bit_loop.simps [simp del]

definition forEachBit :: "string \<Rightarrow> int \<Rightarrow> int \<Rightarrow> ('s \<Rightarrow> int \<Rightarrow> nat \<Rightarrow> 's \<times> bool) \<Rightarrow> 's \<Rightarrow> 's" where
  "forEachBit b begin fin cb s = bit_loop b fin cb begin (nat (begin div 8)) (nat (begin mod 8)) s"

fun byte_loop :: "('s \<Rightarrow> int \<Rightarrow> char \<Rightarrow> 's \<times> bool) \<Rightarrow> int \<Rightarrow> string \<Rightarrow> 's \<Rightarrow> 's" where
  "byte_loop cb i [] s = s"
| "byte_loop cb i (c # cs) s = (let (s', go) = cb s i c in if go then byte_loop cb (i + 1) cs s' else s')"

definition forEachByte :: "string \<Rightarrow> nat \<Rightarrow> nat \<Rightarrow> ('s \<Rightarrow> int \<Rightarrow> char \<Rightarrow> 's \<times> bool) \<Rightarrow> 's \<Rightarrow> 's" where
  "forEachByte b begin fin cb s =
     (let fin' = (if fin = 0 \<or> fin > length b then length b else fin) in
      byte_loop cb (int begin) (drop begin (take fin' b)) s)"

section \<open>Reading a bit after writing one\<close>

lemma of_char_bound: "(of_char c :: nat) < 256"
  by (rule nat_of_char_less_256)

lemma bit_div_mod: "(n :: nat) div 2 ^ k mod 2 = of_bool (bit n k)"
  by (simp add: bit_iff_odd mod_2_eq_odd)

lemma byte_bits_small: "\<not> bit (of_char c :: nat) k" if "8 \<le> k"
proof -
  have "(2 :: nat) ^ 8 \<le> 2 ^ k" using that by (intro power_increasing) auto
  then have "(of_char c :: nat) div 2 ^ k = 0" using less_le_trans [OF of_char_bound [of c]] by (intro div_less) simp
  then show ?thesis by (simp add: bit_iff_odd)
qed

lemma set_in_byte_bit:
  assumes "0 \<le> sh" "sh < 8" "k < 8"
  shows "bit (of_char (set_in_byte sh v c) :: nat) k = (if k = nat sh then v else bit (of_char c :: nat) k)"
proof -
  define n :: nat where "n = (if v then set_bit (nat sh) (of_char c) else unset_bit (nat sh) (of_char c))"
  have "bit n j \<Longrightarrow> j < 8" for j
    using byte_bits_small [of j c] assms(1,2)
    by (cases "8 \<le> j") (auto simp: n_def bit_set_bit_iff bit_unset_bit_iff split: if_splits)
  then have "take_bit 8 n = n" by (intro bit_eqI) (auto simp: bit_take_bit_iff)
  then have "n mod 256 = n" by (simp add: take_bit_eq_mod)
  then have "(of_char (set_in_byte sh v c) :: nat) = n" using assms(2) by (simp add: set_in_byte_def n_def of_char_of split: if_splits)
  then show ?thesis by (auto simp: n_def bit_set_bit_iff bit_unset_bit_iff)
qed

lemma go_div_mod_8: "go_div (int i) 8 = int (i div 8)" "go_mod (int i) 8 = int (i mod 8)"
  by (simp_all add: zdiv_int zmod_int)

lemma shift_8: "a < 8 \<Longrightarrow> nat (7 - int a) = 7 - a" "a < 8 \<Longrightarrow> c < 8 \<Longrightarrow> 7 - a = 7 - c \<longleftrightarrow> a = (c :: nat)"
  by auto

lemma getBit_nat:
  "getBit b (int i) = Some (if i div 8 < length b then of_bool (bit (of_char (b ! (i div 8)) :: nat) (7 - i mod 8)) else 0)"
proof -
  define q r where "q = i div 8" and "r = i mod 8"
  have "r < 8" by (simp add: r_def)
  then show ?thesis
    unfolding getBit_def go_div_mod_8 q_def [symmetric] r_def [symmetric]
    by (simp add: gindex_def bit_div_mod Let_def not_le shift_8(1))
qed

lemma bm_grow_covers:
  assumes "bm_grow b (int i + 1) = Some b1"
  shows "i div 8 < length b1" "length b \<le> length b1" "\<And>j. j < length b1 \<Longrightarrow> b1 ! j = (if j < length b then b ! j else CHR 0x00)"
proof -
  define q r where "q = int (i div 8)" and "r = int (i mod 8)"
  have "int i = 8 * q + r" unfolding q_def r_def by (metis mult_div_mod_eq of_nat_add of_nat_mult of_nat_numeral)
  then have i: "int i + 1 = 8 * q + (r + 1)" "0 \<le> q" "0 \<le> r" "r < 8" by (auto simp: q_def r_def)
  have "toByteSize (8 * q + (r + 1)) = q + 1"
    using i by (cases "r = 7") (auto simp: toByteSize_def)
  then have "toByteSize (int i + 1) = int (i div 8) + 1" by (simp only: i(1) q_def)
  then show "i div 8 < length b1" "length b \<le> length b1" "\<And>j. j < length b1 \<Longrightarrow> b1 ! j = (if j < length b then b ! j else CHR 0x00)"
    using assms by (auto simp: bm_grow_def Let_def nth_append split: if_splits)
qed

theorem setBit_getBit:
  assumes "setBit b (int i) v = Some b'" "i < 2 ^ 62"
  shows "getBit b' (int j) = (if j = i then Some (of_bool (v > 0)) else getBit b (int j))"
proof -
  define q r where "q = i div 8" and "r = i mod 8"
  have r: "r < 8" by (simp add: r_def)
  have "wrap64 (int i + 1) = int i + 1" using assms(2) by (intro wrap64_id) (simp add: int64_def)
  then obtain b1 where b1: "bm_grow b (int i + 1) = Some b1" and b': "b' = b1[q := set_in_byte (7 - int r) (v > 0) (b1 ! q)]"
    using assms(1) unfolding setBit_def go_div_mod_8 q_def [symmetric] r_def [symmetric]
    by (cases "bm_grow b (int i + 1)") (auto simp: gindex_def split: if_splits)
  note g = bm_grow_covers [OF b1]
  have "getBit b1 (int j) = getBit b (int j)" using g(2,3) by (simp add: getBit_nat)
  moreover have "getBit b' (int j) = (if j = i then Some (of_bool (v > 0)) else getBit b1 (int j))"
  proof (cases "j div 8 = q")
    case True
    have "j = i \<longleftrightarrow> j mod 8 = r" using True by (metis mult_div_mod_eq q_def r_def)
    moreover have "bit (of_char (set_in_byte (7 - int r) (v > 0) (b1 ! q)) :: nat) (7 - j mod 8)
        = (if j mod 8 = r then v > 0 else bit (of_char (b1 ! q) :: nat) (7 - j mod 8))"
      using r by (subst set_in_byte_bit) (simp_all add: shift_8)
    ultimately show ?thesis using True g(1) by (simp add: getBit_nat b' q_def)
  next
    case False
    then show ?thesis by (auto simp: getBit_nat b' q_def)
  qed
  ultimately show ?thesis by simp
qed

end
