(* ===== verification/StringCmd.thy ===== *)
theory StringCmd
  imports Db Bitmap
begin

text \<open>
  The string commands, \<^verbatim>\<open>internal/command/string.go\<close>. A handler takes the arguments after the command name and returns
  the reply and the database; \<open>None\<close> is a panic, which an argument that is not there is. Stored values and arguments
  are not nil.
\<close>

type_synonym 'z result = "(reply \<times> 'z DB) option"

definition intErr :: reply where
  "intErr = StandardErrReply ''ERR value is not an integer or out of range''"

definition toCmdLine3 :: "string \<Rightarrow> string list \<Rightarrow> cmdLine" where
  "toCmdLine3 commandName args = commandName # args"

text \<open>The bytes of a string object; the inner \<open>None\<close> is nil.\<close>

definition string_bytes :: "'z ptr robj \<Rightarrow> bytes option option" where
  "string_bytes r =
     (if ro_enc r \<in> {EncInt, EncEmbstr, EncRaw} then
        (case ro_ptr r of PStr g \<Rightarrow> map_option Some (getStringBytes (newRobj (ro_type r) (ro_enc r) g)) | _ \<Rightarrow> None)
      else Some None)"

definition getAsString :: "'f env \<Rightarrow> string \<Rightarrow> 'z DB \<Rightarrow> ((reply + bytes option) \<times> 'z DB) option" where
  "getAsString e key db =
     (let (db1, x) = getEntity e key db in
      case x of
        None \<Rightarrow> Some (Inr None, db1)
      | Some (Obj r) \<Rightarrow>
          if ro_type r \<noteq> TypeString then Some (Inl WrongTypeErrReply, db1)
          else do { b \<leftarrow> string_bytes r; Some (Inr b, db1) }
      | Some (Bare (PStr (GBytes b))) \<Rightarrow> Some (Inr (Some b), db1)
      | Some _ \<Rightarrow> Some (Inl WrongTypeErrReply, db1))"

text \<open>The code after \<open>getAsString\<close>: an error is returned, a value goes on.\<close>

definition with_string :: "'f env \<Rightarrow> string \<Rightarrow> (bytes option \<Rightarrow> 'z DB \<Rightarrow> 'z result) \<Rightarrow> 'z DB \<Rightarrow> 'z result" where
  "with_string e key k db =
     do { (r, db1) \<leftarrow> getAsString e key db;
          case r of Inl err \<Rightarrow> Some (err, db1) | Inr b \<Rightarrow> k b db1 }"

definition execGet :: "'f env \<Rightarrow> string list \<Rightarrow> 'z DB \<Rightarrow> 'z result" where
  "execGet e args db =
     do { key \<leftarrow> gindex args 0;
          with_string e key (\<lambda>b db. Some (case b of None \<Rightarrow> NullBulkReply | Some v \<Rightarrow> BulkReply (Some v), db)) db }"

section \<open>SET and GETEX\<close>

datatype policy = UpsertPolicy | InsertPolicy | UpdatePolicy

record setOpts =
  policy :: policy
  ttl :: int
  ifeq :: "string option"
  ifne :: "string option"
  ifdeq :: "string option"
  ifdne :: "string option"

definition noOpts :: setOpts where
  "noOpts = \<lparr>policy = UpsertPolicy, ttl = 0, ifeq = None, ifne = None, ifdeq = None, ifdne = None\<rparr>"

text \<open>The argument of EX and PX; a number of seconds becomes milliseconds.\<close>

definition parse_ttl :: "string \<Rightarrow> int \<Rightarrow> int \<Rightarrow> string list \<Rightarrow> reply + int" where
  "parse_ttl cmd factor old rest =
     (if old \<noteq> 0 then Inl SyntaxErrReply
      else case rest of
        [] \<Rightarrow> Inl SyntaxErrReply
      | t # _ \<Rightarrow>
          (case parseInt t of
             None \<Rightarrow> Inl SyntaxErrReply
           | Some ttlArg \<Rightarrow>
               if ttlArg \<le> 0 then Inl (StandardErrReply (''ERR invalid expire time in '' @ cmd))
               else Inr (wrap64 (ttlArg * factor))))"

function parse_set_opts :: "string list \<Rightarrow> setOpts \<Rightarrow> reply + setOpts" where
  "parse_set_opts args opts =
     (case args of
        [] \<Rightarrow> Inr opts
      | a # rest \<Rightarrow>
          (let arg = toUpper a in
           if arg = ''NX'' then
             (if policy opts = UpdatePolicy then Inl SyntaxErrReply else parse_set_opts rest (opts\<lparr>policy := InsertPolicy\<rparr>))
           else if arg = ''XX'' then
             (if policy opts = InsertPolicy then Inl SyntaxErrReply else parse_set_opts rest (opts\<lparr>policy := UpdatePolicy\<rparr>))
           else if arg = ''EX'' then
             (case parse_ttl ''set'' 1000 (ttl opts) rest of Inl err \<Rightarrow> Inl err | Inr t \<Rightarrow> parse_set_opts (tl rest) (opts\<lparr>ttl := t\<rparr>))
           else if arg = ''PX'' then
             (case parse_ttl ''set'' 1 (ttl opts) rest of Inl err \<Rightarrow> Inl err | Inr t \<Rightarrow> parse_set_opts (tl rest) (opts\<lparr>ttl := t\<rparr>))
           else if arg = ''IFEQ'' then
             (case rest of [] \<Rightarrow> Inl SyntaxErrReply | v # rest' \<Rightarrow> parse_set_opts rest' (opts\<lparr>ifeq := Some v\<rparr>))
           else if arg = ''IFNE'' then
             (case rest of [] \<Rightarrow> Inl SyntaxErrReply | v # rest' \<Rightarrow> parse_set_opts rest' (opts\<lparr>ifne := Some v\<rparr>))
           else if arg = ''IFDEQ'' then
             (case rest of [] \<Rightarrow> Inl SyntaxErrReply | v # rest' \<Rightarrow> parse_set_opts rest' (opts\<lparr>ifdeq := Some v\<rparr>))
           else if arg = ''IFDNE'' then
             (case rest of [] \<Rightarrow> Inl SyntaxErrReply | v # rest' \<Rightarrow> parse_set_opts rest' (opts\<lparr>ifdne := Some v\<rparr>))
           else Inl SyntaxErrReply))"
  by pat_completeness auto
termination
  by (relation "measure (\<lambda>(args, opts). length args)") auto

declare parse_set_opts.simps [simp del]

text \<open>One condition: the value is read and looked at when the option is given.\<close>

definition check_cond ::
  "'f env \<Rightarrow> string \<Rightarrow> string option \<Rightarrow> (bytes option \<Rightarrow> string \<Rightarrow> bool) \<Rightarrow> ('z DB \<Rightarrow> 'z result) \<Rightarrow> 'z DB \<Rightarrow> 'z result" where
  "check_cond e key opt ok k db =
     (case opt of
        None \<Rightarrow> k db
      | Some v \<Rightarrow> with_string e key (\<lambda>existing db. if ok existing v then k db else Some (NullBulkReply, db)) db)"

definition put_policy :: "'f env \<Rightarrow> policy \<Rightarrow> string \<Rightarrow> 'z entity \<Rightarrow> 'z DB \<Rightarrow> 'z DB \<times> int" where
  "put_policy e p key entity db =
     (case p of
        UpsertPolicy \<Rightarrow> (putEntity e key entity db, 1)
      | InsertPolicy \<Rightarrow> putIfAbsent key entity db
      | UpdatePolicy \<Rightarrow> putIfExists key entity db)"

text \<open>\<^verbatim>\<open>time.Now().Add(time.Duration(ttl) * time.Millisecond)\<close>.\<close>

definition in_millis :: "'f env \<Rightarrow> int \<Rightarrow> int" where
  "in_millis e t = now e + wrap64 (t * 10 ^ 6)"

text \<open>The write, once the conditions hold.\<close>

definition set_apply :: "'f env \<Rightarrow> string list \<Rightarrow> string \<Rightarrow> bytes \<Rightarrow> setOpts \<Rightarrow> 'z DB \<Rightarrow> 'z result" where
  "set_apply e args key value opts db =
     (let (db1, result) = put_policy e (policy opts) key (str_obj (makeStringObject value)) db in
      if result > 0 then
        (if ttl opts \<noteq> 0 then
           let expireTime = in_millis e (ttl opts) in
           Some (OkReply, addAof (makeExpireCmd key expireTime) (addAof [''SET'', key, value] (expire e key expireTime db1)))
         else Some (OkReply, addAof (toCmdLine3 ''set'' args) (persist key db1)))
      else Some (NullBulkReply, db1))"

definition execSet :: "'f env \<Rightarrow> string list \<Rightarrow> 'z DB \<Rightarrow> 'z result" where
  "execSet e args db =
     do { key \<leftarrow> gindex args 0;
          value \<leftarrow> gindex args 1;
          case parse_set_opts (drop 2 args) noOpts of
            Inl err \<Rightarrow> Some (err, db)
          | Inr opts \<Rightarrow>
              check_cond e key (ifeq opts) (\<lambda>x v. x = Some v)
                (check_cond e key (ifne opts) (\<lambda>x v. x \<noteq> Some v)
                  (check_cond e key (ifdeq opts) (\<lambda>x v. \<exists>b \<in> set_option x. valueDigest e b = v)
                    (check_cond e key (ifdne opts) (\<lambda>x v. \<forall>b \<in> set_option x. valueDigest e b \<noteq> v)
                      (set_apply e args key value opts)))) db }"

text \<open>
  The options of GETEX. The option PERSIST acts at once and a word that is no option is skipped; the result is the time
  to live, or the error, with the database.
\<close>

function getex_opts :: "string \<Rightarrow> string list \<Rightarrow> int \<Rightarrow> 'z DB \<Rightarrow> (reply + int) \<times> 'z DB" where
  "getex_opts key args t db =
     (case args of
        [] \<Rightarrow> (Inr t, db)
      | a # rest \<Rightarrow>
          (let arg = toUpper a in
           if arg = ''EX'' then
             (case parse_ttl ''getex'' 1000 t rest of Inl err \<Rightarrow> (Inl err, db) | Inr t' \<Rightarrow> getex_opts key (tl rest) t' db)
           else if arg = ''PX'' then
             (case parse_ttl ''getex'' 1 t rest of Inl err \<Rightarrow> (Inl err, db) | Inr t' \<Rightarrow> getex_opts key (tl rest) t' db)
           else if arg = ''PERSIST'' then
             (if t \<noteq> 0 then (Inl SyntaxErrReply, db) else getex_opts key rest t (persist key db))
           else getex_opts key rest t db))"
  by pat_completeness auto
termination
  by (relation "measure (\<lambda>(key, args, t, db). length args)") auto

declare getex_opts.simps [simp del]

definition getex_apply :: "'f env \<Rightarrow> string list \<Rightarrow> string \<Rightarrow> bytes option \<Rightarrow> 'z DB \<Rightarrow> 'z result" where
  "getex_apply e args key b db =
     (case b of
        None \<Rightarrow> Some (NullBulkReply, db)
      | Some bytes \<Rightarrow>
          (case getex_opts key (tl args) 0 db of
             (Inl err, db1) \<Rightarrow> Some (err, db1)
           | (Inr t, db1) \<Rightarrow>
               Some (BulkReply (Some bytes),
                 if length args > 1 then
                   (if t \<noteq> 0 then
                      let expireTime = in_millis e t in
                      addAof (makeExpireCmd key expireTime) (expire e key expireTime db1)
                    else addAof (toCmdLine3 ''persist'' [key]) (persist key db1))
                 else db1)))"

definition execGetEX :: "'f env \<Rightarrow> string list \<Rightarrow> 'z DB \<Rightarrow> 'z result" where
  "execGetEX e args db = do { key \<leftarrow> gindex args 0; with_string e key (getex_apply e args key) db }"

section \<open>Other commands that set values\<close>

definition set_string :: "'f env \<Rightarrow> string \<Rightarrow> bytes \<Rightarrow> 'z DB \<Rightarrow> 'z DB" where
  "set_string e key value db = putEntity e key (str_obj (makeStringObject value)) db"

definition execSetNX :: "'f env \<Rightarrow> string list \<Rightarrow> 'z DB \<Rightarrow> 'z result" where
  "execSetNX e args db =
     do { key \<leftarrow> gindex args 0;
          value \<leftarrow> gindex args 1;
          let (db1, result) = putIfAbsent key (str_obj (makeStringObject value)) db;
          Some (IntReply result, addAof (toCmdLine3 ''setnx'' args) db1) }"

text \<open>SETEX and PSETEX, which log the same command name.\<close>

definition setex_with :: "int \<Rightarrow> 'f env \<Rightarrow> string list \<Rightarrow> 'z DB \<Rightarrow> 'z result" where
  "setex_with factor e args db =
     do { key \<leftarrow> gindex args 0;
          value \<leftarrow> gindex args 2;
          ttlText \<leftarrow> gindex args 1;
          case parseInt ttlText of
            None \<Rightarrow> Some (SyntaxErrReply, db)
          | Some ttlArg \<Rightarrow>
              if ttlArg \<le> 0 then Some (StandardErrReply ''ERR invalid expire time in setex'', db)
              else let expireTime = in_millis e (wrap64 (ttlArg * factor)) in
                Some (OkReply, addAof (makeExpireCmd key expireTime)
                  (addAof (toCmdLine3 ''setex'' args) (expire e key expireTime (set_string e key value db)))) }"

definition execSetEX :: "'f env \<Rightarrow> string list \<Rightarrow> 'z DB \<Rightarrow> 'z result" where
  "execSetEX e args db = setex_with 1000 e args db"

definition execPSetEX :: "'f env \<Rightarrow> string list \<Rightarrow> 'z DB \<Rightarrow> 'z result" where
  "execPSetEX e args db = setex_with 1 e args db"

fun pairs :: "string list \<Rightarrow> (string \<times> string) list" where
  "pairs (k # v # rest) = (k, v) # pairs rest"
| "pairs _ = []"

fun put_pairs :: "'f env \<Rightarrow> (string \<times> string) list \<Rightarrow> 'z DB \<Rightarrow> 'z DB" where
  "put_pairs e [] db = db"
| "put_pairs e ((key, value) # rest) db = put_pairs e rest (set_string e key value db)"

definition prepareMSet :: "string list \<Rightarrow> string list \<times> string list" where
  "prepareMSet args = (map fst (pairs args), [])"

definition execMSet :: "'f env \<Rightarrow> string list \<Rightarrow> 'z DB \<Rightarrow> 'z result" where
  "execMSet e args db =
     (if odd (length args) then Some (SyntaxErrReply, db)
      else Some (OkReply, addAof (toCmdLine3 ''mset'' args) (put_pairs e (pairs args) db)))"

text \<open>A value of another type reads as nil.\<close>

fun mget_loop :: "'f env \<Rightarrow> string list \<Rightarrow> bytes option list \<Rightarrow> 'z DB \<Rightarrow> (bytes option list \<times> 'z DB) option" where
  "mget_loop e [] acc db = Some (acc, db)"
| "mget_loop e (key # keys) acc db =
     do { (r, db1) \<leftarrow> getAsString e key db;
          mget_loop e keys (acc @ [case r of Inl _ \<Rightarrow> None | Inr b \<Rightarrow> b]) db1 }"

definition execMGet :: "'f env \<Rightarrow> string list \<Rightarrow> 'z DB \<Rightarrow> 'z result" where
  "execMGet e args db = do { (result, db1) \<leftarrow> mget_loop e args [] db; Some (MultiBulkReply result, db1) }"

fun any_exists :: "'f env \<Rightarrow> string list \<Rightarrow> 'z DB \<Rightarrow> bool \<times> 'z DB" where
  "any_exists e [] db = (False, db)"
| "any_exists e (key # keys) db =
     (let (db1, x) = getEntity e key db in if x \<noteq> None then (True, db1) else any_exists e keys db1)"

definition execMSetNX :: "'f env \<Rightarrow> string list \<Rightarrow> 'z DB \<Rightarrow> 'z result" where
  "execMSetNX e args db =
     (if odd (length args) then Some (SyntaxErrReply, db)
      else let (found, db1) = any_exists e (map fst (pairs args)) db in
        if found then Some (IntReply 0, db1)
        else Some (IntReply 1, addAof (toCmdLine3 ''msetnx'' args) (put_pairs e (pairs args) db1)))"

definition execGetSet :: "'f env \<Rightarrow> string list \<Rightarrow> 'z DB \<Rightarrow> 'z result" where
  "execGetSet e args db =
     do { key \<leftarrow> gindex args 0;
          value \<leftarrow> gindex args 1;
          with_string e key (\<lambda>old db.
            Some (case old of None \<Rightarrow> NullBulkReply | Some b \<Rightarrow> BulkReply (Some b),
                  addAof (toCmdLine3 ''set'' args) (persist key (set_string e key value db)))) db }"

definition execGetDel :: "'f env \<Rightarrow> string list \<Rightarrow> 'z DB \<Rightarrow> 'z result" where
  "execGetDel e args db =
     do { key \<leftarrow> gindex args 0;
          with_string e key (\<lambda>old db.
            case old of
              None \<Rightarrow> Some (NullBulkReply, db)
            | Some b \<Rightarrow> Some (BulkReply (Some b), addAof (toCmdLine3 ''del'' args) (remove_key key db))) db }"

section \<open>Counters\<close>

text \<open>
  The common body of INCR, INCRBY, DECR and DECRBY: the new value of an old one, and the text and value for a key that is
  not there.
\<close>

definition count_with ::
  "string \<Rightarrow> (int \<Rightarrow> int) \<Rightarrow> bytes \<Rightarrow> int \<Rightarrow> 'f env \<Rightarrow> string \<Rightarrow> string list \<Rightarrow> 'z DB \<Rightarrow> 'z result" where
  "count_with name f initText initVal e key args db =
     with_string e key (\<lambda>b db.
       case b of
         Some bytes \<Rightarrow>
           (case parseInt bytes of
              None \<Rightarrow> Some (intErr, db)
            | Some val \<Rightarrow>
                Some (IntReply (f val), addAof (toCmdLine3 name args) (set_string e key (itoa (f val)) db)))
       | None \<Rightarrow> Some (IntReply initVal, addAof (toCmdLine3 name args) (set_string e key initText db))) db"

definition execIncr :: "'f env \<Rightarrow> string list \<Rightarrow> 'z DB \<Rightarrow> 'z result" where
  "execIncr e args db =
     do { key \<leftarrow> gindex args 0; count_with ''incr'' (\<lambda>v. wrap64 (v + 1)) ''1'' 1 e key args db }"

definition execIncrBy :: "'f env \<Rightarrow> string list \<Rightarrow> 'z DB \<Rightarrow> 'z result" where
  "execIncrBy e args db =
     do { key \<leftarrow> gindex args 0;
          rawDelta \<leftarrow> gindex args 1;
          case parseInt rawDelta of
            None \<Rightarrow> Some (intErr, db)
          | Some delta \<Rightarrow> count_with ''incrby'' (\<lambda>v. wrap64 (v + delta)) rawDelta delta e key args db }"

definition execDecr :: "'f env \<Rightarrow> string list \<Rightarrow> 'z DB \<Rightarrow> 'z result" where
  "execDecr e args db =
     do { key \<leftarrow> gindex args 0; count_with ''decr'' (\<lambda>v. wrap64 (v - 1)) ''-1'' (- 1) e key args db }"

definition execDecrBy :: "'f env \<Rightarrow> string list \<Rightarrow> 'z DB \<Rightarrow> 'z result" where
  "execDecrBy e args db =
     do { key \<leftarrow> gindex args 0;
          rawDelta \<leftarrow> gindex args 1;
          case parseInt rawDelta of
            None \<Rightarrow> Some (intErr, db)
          | Some delta \<Rightarrow>
              count_with ''decrby'' (\<lambda>v. wrap64 (v - delta)) (itoa (wrap64 (- delta))) (wrap64 (- delta)) e key args db }"

definition floatErr :: reply where
  "floatErr = StandardErrReply ''ERR value is not a valid float''"

definition execIncrByFloat :: "'f env \<Rightarrow> string list \<Rightarrow> 'z DB \<Rightarrow> 'z result" where
  "execIncrByFloat e args db =
     do { key \<leftarrow> gindex args 0;
          rawDelta \<leftarrow> gindex args 1;
          case parseFloat e rawDelta of
            None \<Rightarrow> Some (floatErr, db)
          | Some delta \<Rightarrow>
              with_string e key (\<lambda>b db.
                case b of
                  Some bytes \<Rightarrow>
                    (case parseFloat e bytes of
                       None \<Rightarrow> Some (floatErr, db)
                     | Some val \<Rightarrow>
                         let resultBytes = formatFloat e (addFloat e val delta) in
                         Some (BulkReply (Some resultBytes),
                           addAof (toCmdLine3 ''incrbyfloat'' args) (set_string e key resultBytes db)))
                | None \<Rightarrow> Some (BulkReply (Some rawDelta), addAof (toCmdLine3 ''incrbyfloat'' args) (set_string e key rawDelta db))) db }"

section \<open>Parts of values\<close>

definition execStrLen :: "'f env \<Rightarrow> string list \<Rightarrow> 'z DB \<Rightarrow> 'z result" where
  "execStrLen e args db =
     do { key \<leftarrow> gindex args 0;
          with_string e key (\<lambda>b db. Some (IntReply (case b of None \<Rightarrow> 0 | Some v \<Rightarrow> int (length v)), db)) db }"

definition or_empty :: "bytes option \<Rightarrow> bytes" where
  "or_empty b = (case b of None \<Rightarrow> [] | Some v \<Rightarrow> v)"

definition execAppend :: "'f env \<Rightarrow> string list \<Rightarrow> 'z DB \<Rightarrow> 'z result" where
  "execAppend e args db =
     do { key \<leftarrow> gindex args 0;
          with_string e key (\<lambda>b db.
            let (db1, x) = getEntity e key db in
            do { suffix \<leftarrow> gindex args 1;
                 let bytes = or_empty b @ suffix;
                 let obj = (if x \<noteq> None then makeRawStringObject bytes else makeStringObject bytes);
                 Some (IntReply (int (length bytes)), addAof (toCmdLine3 ''append'' args) (putEntity e key (str_obj obj) db1)) }) db }"

text \<open>The loop that writes the value; the length at its start decides between overwriting and appending.\<close>

fun setrange_loop :: "int \<Rightarrow> int \<Rightarrow> bytes \<Rightarrow> bytes \<Rightarrow> bytes option" where
  "setrange_loop bytesLen idx [] bytes = Some bytes"
| "setrange_loop bytesLen idx (c # cs) bytes =
     (if idx \<ge> bytesLen then setrange_loop bytesLen (idx + 1) cs (bytes @ [c])
      else if idx < 0 then None
      else setrange_loop bytesLen (idx + 1) cs (bytes[nat idx := c]))"

definition execSetRange :: "'f env \<Rightarrow> string list \<Rightarrow> 'z DB \<Rightarrow> 'z result" where
  "execSetRange e args db =
     do { key \<leftarrow> gindex args 0;
          offText \<leftarrow> gindex args 1;
          case parseInt offText of
            None \<Rightarrow> Some (StandardErrReply (parseIntError e offText), db)
          | Some offset \<Rightarrow>
              do { value \<leftarrow> gindex args 2;
                   with_string e key (\<lambda>b db.
                     let bytes = or_empty b in
                     if value = [] then Some (IntReply (int (length bytes)), db)
                     else do { padded \<leftarrow> (if int (length bytes) < offset then
                                             (if offset - int (length bytes) > maxAlloc then None
                                              else Some (bytes @ replicate (nat (offset - int (length bytes))) (CHR 0x00)))
                                           else Some bytes);
                               result \<leftarrow> setrange_loop (int (length padded)) offset value padded;
                               Some (IntReply (int (length result)),
                                 addAof (toCmdLine3 ''setRange'' args) (putEntity e key (str_obj (makeRawStringObject result)) db)) }) db } }"

definition convertRange :: "int \<Rightarrow> int \<Rightarrow> int \<Rightarrow> (int \<times> int)" where
  "convertRange start fin sz =
     (if start < - sz \<or> start \<ge> sz then (-1, -1)
      else let start' = (if start < 0 then sz + start else start) in
        if fin < - sz then (-1, -1)
        else let fin' = (if fin < 0 then sz + fin + 1 else if fin < sz then fin + 1 else sz) in
          if start' > fin' then (-1, -1) else (start', fin'))"

definition execGetRange :: "'f env \<Rightarrow> string list \<Rightarrow> 'z DB \<Rightarrow> 'z result" where
  "execGetRange e args db =
     do { key \<leftarrow> gindex args 0;
          startText \<leftarrow> gindex args 1;
          case parseInt startText of
            None \<Rightarrow> Some (intErr, db)
          | Some startIdx \<Rightarrow>
              do { endText \<leftarrow> gindex args 2;
                   case parseInt endText of
                     None \<Rightarrow> Some (intErr, db)
                   | Some endIdx \<Rightarrow>
                       with_string e key (\<lambda>b db.
                         case b of
                           None \<Rightarrow> Some (NullBulkReply, db)
                         | Some bs \<Rightarrow>
                             (let (beg, fin) = convertRange startIdx endIdx (int (length bs)) in
                              if beg < 0 then Some (NullBulkReply, db)
                              else do { part \<leftarrow> gslice bs beg fin; Some (BulkReply (Some part), db) })) db } }"

section \<open>Bits\<close>

definition bitErr :: reply where
  "bitErr = StandardErrReply ''ERR bit is not an integer or out of range''"

definition offsetErr :: reply where
  "offsetErr = StandardErrReply ''ERR bit offset is not an integer or out of range''"

definition execSetBit :: "'f env \<Rightarrow> string list \<Rightarrow> 'z DB \<Rightarrow> 'z result" where
  "execSetBit e args db =
     do { key \<leftarrow> gindex args 0;
          offText \<leftarrow> gindex args 1;
          case parseInt offText of
            None \<Rightarrow> Some (offsetErr, db)
          | Some offset \<Rightarrow>
              do { valStr \<leftarrow> gindex args 2;
                   if valStr \<noteq> ''1'' \<and> valStr \<noteq> ''0'' then Some (bitErr, db)
                   else with_string e key (\<lambda>b db.
                     do { former \<leftarrow> getBit (or_empty b) offset;
                          bm \<leftarrow> setBit (or_empty b) offset (if valStr = ''1'' then 1 else 0);
                          Some (IntReply (int former),
                            addAof (toCmdLine3 ''setBit'' args) (putEntity e key (str_obj (makeRawStringObject bm)) db)) }) db } }"

definition execGetBit :: "'f env \<Rightarrow> string list \<Rightarrow> 'z DB \<Rightarrow> 'z result" where
  "execGetBit e args db =
     do { key \<leftarrow> gindex args 0;
          offText \<leftarrow> gindex args 1;
          case parseInt offText of
            None \<Rightarrow> Some (offsetErr, db)
          | Some offset \<Rightarrow>
              with_string e key (\<lambda>b db.
                case b of
                  None \<Rightarrow> Some (IntReply 0, db)
                | Some bs \<Rightarrow> do { v \<leftarrow> getBit bs offset; Some (IntReply (int v), db) }) db }"

text \<open>The unit of a range, in the argument at \<open>i\<close>: \<open>True\<close> for bytes.\<close>

definition byte_mode :: "string list \<Rightarrow> nat \<Rightarrow> reply + bool" where
  "byte_mode args i =
     (if length args > i then
        (let mode = toLower (args ! i) in
         if mode = ''bit'' then Inr False else if mode = ''byte'' then Inr True else Inl (StandardErrReply ''ERR syntax error''))
      else Inr True)"

text \<open>The range in the arguments at \<open>i\<close>, if there is one; without it the bounds are 0.\<close>

definition bit_range :: "string list \<Rightarrow> nat \<Rightarrow> int \<Rightarrow> (reply + int \<times> int) option" where
  "bit_range args i sz =
     (if length args > i then
        (case parseInt (args ! i) of
           None \<Rightarrow> Some (Inl intErr)
         | Some startIdx \<Rightarrow>
             do { endText \<leftarrow> gindex args (int i + 1);
                  case parseInt endText of
                    None \<Rightarrow> Some (Inl intErr)
                  | Some endIdx \<Rightarrow> Some (Inr (convertRange startIdx endIdx sz)) })
      else Some (Inr (0, 0)))"

definition onesCount8 :: "char \<Rightarrow> int" where
  "onesCount8 c = int (length (filter (\<lambda>i. (of_char c :: nat) div 2 ^ i mod 2 = 1) [0..<8]))"

definition execBitCount :: "'f env \<Rightarrow> string list \<Rightarrow> 'z DB \<Rightarrow> 'z result" where
  "execBitCount e args db =
     do { key \<leftarrow> gindex args 0;
          with_string e key (\<lambda>b db.
            case b of
              None \<Rightarrow> Some (IntReply 0, db)
            | Some bs \<Rightarrow>
                (case byte_mode args 3 of
                   Inl err \<Rightarrow> Some (err, db)
                 | Inr byteMode \<Rightarrow>
                     do { r \<leftarrow> bit_range args 1 (if byteMode then int (length bs) else bitSize bs);
                          case r of
                            Inl err \<Rightarrow> Some (err, db)
                          | Inr (beg, fin) \<Rightarrow>
                              if beg < 0 then Some (IntReply 0, db)
                              else Some (IntReply
                                (if byteMode then forEachByte bs (nat beg) (nat fin) (\<lambda>cnt off c. (cnt + onesCount8 c, True)) 0
                                 else forEachBit bs beg fin (\<lambda>cnt off v. (if v > 0 then cnt + 1 else cnt, True)) 0), db) })) db }"

definition execBitPos :: "'f env \<Rightarrow> string list \<Rightarrow> 'z DB \<Rightarrow> 'z result" where
  "execBitPos e args db =
     do { key \<leftarrow> gindex args 0;
          with_string e key (\<lambda>b db.
            case b of
              None \<Rightarrow> Some (IntReply (- 1), db)
            | Some bs \<Rightarrow>
                do { valStr \<leftarrow> gindex args 1;
                     if valStr \<noteq> ''1'' \<and> valStr \<noteq> ''0'' then Some (bitErr, db)
                     else case byte_mode args 4 of
                       Inl err \<Rightarrow> Some (err, db)
                     | Inr byteMode \<Rightarrow>
                         do { r \<leftarrow> bit_range args 2 (if byteMode then int (length bs) else bitSize bs);
                              case r of
                                Inl err \<Rightarrow> Some (err, db)
                              | Inr (beg, fin) \<Rightarrow>
                                  if beg < 0 then Some (IntReply 0, db)
                                  else let k = (if byteMode then 8 else 1); v = (if valStr = ''1'' then 1 else 0) in
                                    Some (IntReply (forEachBit bs (beg * k) (fin * k)
                                      (\<lambda>offset off x. if x = v then (off, False) else (offset, True)) (- 1)), db) } }) db }"

section \<open>MSETEX\<close>

definition msetexErr :: reply where
  "msetexErr = StandardErrReply ''ERR invalid expire time in msetex''"

definition msetex_ttl :: "'f env \<Rightarrow> string \<Rightarrow> int \<Rightarrow> string list \<Rightarrow> reply + int" where
  "msetex_ttl e arg old rest =
     (if old \<noteq> 0 then Inl SyntaxErrReply
      else case rest of
        [] \<Rightarrow> Inl SyntaxErrReply
      | t # _ \<Rightarrow>
          (case parseInt t of
             None \<Rightarrow> Inl msetexErr
           | Some ts \<Rightarrow>
               if ts \<le> 0 then Inl msetexErr
               else if arg = ''EX'' then Inr (wrap64 (ts * 1000))
               else if arg = ''PX'' then Inr ts
               else let left = wrap64 ((if arg = ''EXAT'' then wrap64 (ts * 1000) else ts) - unixMilli (now e)) in
                 Inr (if left < 0 then - 2 else left)))"

function msetex_opts :: "'f env \<Rightarrow> string list \<Rightarrow> policy \<Rightarrow> int \<Rightarrow> reply + policy \<times> int" where
  "msetex_opts e args p t =
     (case args of
        [] \<Rightarrow> Inr (p, t)
      | a # rest \<Rightarrow>
          (let arg = toUpper a in
           if arg = ''NX'' then (if p = UpdatePolicy then Inl SyntaxErrReply else msetex_opts e rest InsertPolicy t)
           else if arg = ''XX'' then (if p = InsertPolicy then Inl SyntaxErrReply else msetex_opts e rest UpdatePolicy t)
           else if arg \<in> {''EX'', ''PX'', ''EXAT'', ''PXAT''} then
             (case msetex_ttl e arg t rest of Inl err \<Rightarrow> Inl err | Inr t' \<Rightarrow> msetex_opts e (tl rest) p t')
           else if arg = ''KEEPTTL'' then msetex_opts e rest p (- 1)
           else Inl SyntaxErrReply))"
  by pat_completeness auto
termination
  by (relation "measure (\<lambda>(e, args, p, t). length args)") auto

declare msetex_opts.simps [simp del]

text \<open>The keys of the command; making room for more of them than memory holds panics.\<close>

definition prepareMSetEX :: "string list \<Rightarrow> (string list \<times> string list) option" where
  "prepareMSetEX args =
     (case args of
        [] \<Rightarrow> Some ([], [])
      | a # rest \<Rightarrow>
          (case parseInt a of
             None \<Rightarrow> Some ([], [])
           | Some numkeys \<Rightarrow>
               if numkeys < 1 then Some ([], [])
               else if numkeys * 16 > maxAlloc then None
               else Some (take (nat numkeys) (map fst (pairs rest)), [])))"

fun put_policies :: "'f env \<Rightarrow> policy \<Rightarrow> (string \<times> string) list \<Rightarrow> bool \<Rightarrow> 'z DB \<Rightarrow> 'z DB \<times> bool" where
  "put_policies e p [] applied db = (db, applied)"
| "put_policies e p ((key, value) # rest) applied db =
     (let (db1, n) = put_policy e p key (str_obj (makeStringObject value)) db in put_policies e p rest (applied \<and> n \<noteq> 0) db1)"

fun expire_all :: "'f env \<Rightarrow> string list \<Rightarrow> int \<Rightarrow> 'z DB \<Rightarrow> 'z DB" where
  "expire_all e [] t db = db"
| "expire_all e (key # keys) t db = expire_all e keys t (expire e key t db)"

text \<open>The pairs are written one by one; when one was not, the reply is 0 and the others stay.\<close>

definition msetex_apply ::
  "'f env \<Rightarrow> string list \<Rightarrow> policy \<Rightarrow> int \<Rightarrow> (string \<times> string) list \<Rightarrow> 'z DB \<Rightarrow> 'z result" where
  "msetex_apply e args p t kvs db =
     (let (db1, applied) = put_policies e p kvs True db in
      if \<not> applied then Some (IntReply 0, db1)
      else let db2 = (if t > 0 then expire_all e (map fst kvs) (in_millis e t) db1
                      else if t = - 2 then expire_all e (map fst kvs) (now e) db1 else db1)
        in Some (IntReply 1, addAof (toCmdLine3 ''msetex'' args) db2))"

definition execMSetEX :: "'f env \<Rightarrow> string list \<Rightarrow> 'z DB \<Rightarrow> 'z result" where
  "execMSetEX e args db =
     (if length args < 3 then Some (SyntaxErrReply, db)
      else case parseInt (hd args) of
        None \<Rightarrow> Some (intErr, db)
      | Some numkeys \<Rightarrow>
          if numkeys < 1 then Some (intErr, db)
          else let kvEnd = wrap64 (1 + wrap64 (numkeys * 2)) in
            if kvEnd > int (length args) then Some (StandardErrReply ''ERR wrong number of key-value pairs'', db)
            else if kvEnd < 1 then None
            else case msetex_opts e (drop (nat kvEnd) args) UpsertPolicy 0 of
              Inl err \<Rightarrow> Some (err, db)
            | Inr (p, t) \<Rightarrow> msetex_apply e args p t (pairs (take (nat kvEnd - 1) (tl args))) db)"

text \<open>The key that the dict draws is an argument.\<close>

definition getRandomKey :: "string option \<Rightarrow> 'z DB \<Rightarrow> 'z result" where
  "getRandomKey k db = Some (case k of None \<Rightarrow> NullBulkReply | Some key \<Rightarrow> BulkReply (Some key), db)"

section \<open>What the commands keep\<close>

definition err_reply :: "reply \<Rightarrow> bool" where
  "err_reply r \<longleftrightarrow> isErrorReply r = Some True"

lemma err_reply_simps [simp]:
  "err_reply WrongTypeErrReply" "err_reply SyntaxErrReply" "err_reply (StandardErrReply s)" "err_reply intErr" "err_reply bitErr" "err_reply offsetErr" "err_reply msetexErr"
  "err_reply floatErr" "err_reply UnknownErrReply" "\<not> err_reply OkReply" "\<not> err_reply NullBulkReply" "\<not> err_reply (IntReply n)" "\<not> err_reply (BulkReply b)"
  "\<not> err_reply (MultiBulkReply bs)" "\<not> err_reply (StatusReply s)"
  by (auto simp: err_reply_def isErrorReply_def gindex_def intErr_def bitErr_def offsetErr_def msetexErr_def floatErr_def bulk_bytes_def
      split: option.splits)

text \<open>
  The contract of a command: the invariant holds afterwards, the versions are as they were, nothing is seen to change
  outside the keys \<open>W\<close>, and an error reply comes with no change and no log entry.
\<close>

definition keeps :: "'f env \<Rightarrow> string set \<Rightarrow> 'z DB \<Rightarrow> 'z result \<Rightarrow> bool" where
  "keeps e W db x \<longleftrightarrow>
     (\<forall>r d. x = Some (r, d) \<longrightarrow>
        db_inv d \<and> versionMap d = versionMap db \<and> (\<forall>k. k \<notin> W \<longrightarrow> live e d k = live e db k) \<and>
        (err_reply r \<longrightarrow> live e d = live e db \<and> aof d = aof db))"

named_theorems keeps_intro

lemma keeps_None [keeps_intro]: "keeps e W db None"
  by (simp add: keeps_def)

lemma keeps_Some [keeps_intro]:
  "db_inv d \<Longrightarrow> versionMap d = versionMap db \<Longrightarrow> (\<And>k. k \<notin> W \<Longrightarrow> live e d k = live e db k) \<Longrightarrow> (err_reply r \<Longrightarrow> live e d = live e db \<and> aof d = aof db) \<Longrightarrow>
   keeps e W db (Some (r, d))"
  by (auto simp: keeps_def)

lemma keeps_bind [keeps_intro]: "(\<And>x. m = Some x \<Longrightarrow> keeps e W db (f x)) \<Longrightarrow> keeps e W db (m \<bind> f)"
  by (cases m) (simp_all add: keeps_None)

lemma keeps_if [keeps_intro]: "(P \<Longrightarrow> keeps e W db x) \<Longrightarrow> (\<not> P \<Longrightarrow> keeps e W db y) \<Longrightarrow> keeps e W db (if P then x else y)"
  by simp

lemma keeps_option [keeps_intro]:
  "(a = None \<Longrightarrow> keeps e W db x) \<Longrightarrow> (\<And>y. a = Some y \<Longrightarrow> keeps e W db (f y)) \<Longrightarrow>
   keeps e W db (case a of None \<Rightarrow> x | Some y \<Rightarrow> f y)"
  by (simp split: option.split)

lemma keeps_sum [keeps_intro]:
  "(\<And>y. a = Inl y \<Longrightarrow> keeps e W db (f y)) \<Longrightarrow> (\<And>y. a = Inr y \<Longrightarrow> keeps e W db (g y)) \<Longrightarrow>
   keeps e W db (case a of Inl y \<Rightarrow> f y | Inr y \<Rightarrow> g y)"
  by (simp split: sum.split)

lemma keeps_prod [keeps_intro]:
  "(\<And>y z. a = (y, z) \<Longrightarrow> keeps e W db (f y z)) \<Longrightarrow> keeps e W db (case a of (y, z) \<Rightarrow> f y z)"
  by (simp split: prod.split)

text \<open>Reading keeps everything that is seen.\<close>

definition same :: "'f env \<Rightarrow> 'z DB \<Rightarrow> 'z DB \<Rightarrow> bool" where
  "same e db d \<longleftrightarrow> db_inv d \<and> live e d = live e db \<and> aof d = aof db \<and> versionMap d = versionMap db"

lemma same_refl: "db_inv db \<Longrightarrow> same e db db"
  by (simp add: same_def)

lemma same_getEntity: "same e db d \<Longrightarrow> same e db (fst (getEntity e k d))"
  by (simp add: same_def getEntity_inv getEntity_live getEntity_maps)

lemma keeps_same: "same e db d \<Longrightarrow> keeps e W db (Some (r, d))"
  by (rule keeps_Some) (auto simp: same_def)

lemma getEntity_cases:
  assumes "same e db d" "getEntity e k d = (d1, x)"
  shows "same e db d1" "purged e k d1" "x = map_option fst (live e d1 k)"
  using same_getEntity [OF assms(1), of k] getEntity_purged [of e k d] getEntity_value [of e k d] getEntity_live [of e e k d] assms(2)
  by simp_all

lemma keeps_getEntity:
  assumes "db_inv db" "\<And>d x. same e db d \<Longrightarrow> purged e key d \<Longrightarrow> x = map_option fst (live e d key) \<Longrightarrow> keeps e W db (k d x)"
  shows "keeps e W db (case getEntity e key db of (d, x) \<Rightarrow> k d x)"
proof -
  obtain d x where g: "getEntity e key db = (d, x)" by fastforce
  show ?thesis unfolding g prod.case by (rule assms(2)) (rule getEntity_cases [OF same_refl [OF assms(1)] g])+
qed

lemma with_string_cases:
  assumes "same e db d0"
  obtains (panic) "with_string e key k d0 = None"
  | (wrong) d where "with_string e key k d0 = Some (WrongTypeErrReply, d)" "same e db d"
  | (val) b d where "with_string e key k d0 = k b d" "same e db d" "purged e key d" "b \<noteq> None \<Longrightarrow> dmap d key \<noteq> None"
proof -
  obtain d1 x where g: "getEntity e key d0 = (d1, x)" by fastforce
  note c = getEntity_cases [OF assms(1) g]
  have "dmap d1 key \<noteq> None" if "x \<noteq> None" using that c(3) by (auto dest: live_dmap)
  moreover have "with_string e key k d0 = None \<or> with_string e key k d0 = Some (WrongTypeErrReply, d1)
      \<or> with_string e key k d0 = k None d1 \<or> (x \<noteq> None \<and> (\<exists>v. with_string e key k d0 = k (Some v) d1))"
    using g by (auto simp: with_string_def getAsString_def string_bytes_def
        split: option.split entity.split ptr.split gany.split bind_split)
  ultimately show ?thesis using c that by blast
qed

lemma str_obj_bytes:
  "ro_type (makeStringObject v) = TypeString" "string_bytes (newRobj TypeString (ro_enc (makeStringObject v)) (PStr (ro_ptr (makeStringObject v)))) = Some (Some v)"
proof -
  show t: "ro_type (makeStringObject v) = TypeString" by (simp add: makeStringObject_def sharedInt_eq Let_def split: prod.split)
  have "newRobj TypeString (ro_enc (makeStringObject v)) (ro_ptr (makeStringObject v)) = makeStringObject v"
    unfolding t [symmetric] by (simp add: newRobj_def)
  moreover have "ro_enc (makeStringObject v) \<in> {EncInt, EncEmbstr, EncRaw}"
    by (simp add: makeStringObject_def sharedInt_eq Let_def split: prod.split)
  ultimately show "string_bytes (newRobj TypeString (ro_enc (makeStringObject v)) (PStr (ro_ptr (makeStringObject v)))) = Some (Some v)"
    by (simp add: string_bytes_def newRobj_def getStringBytes_make)
qed

lemma with_string_str:
  assumes "db_inv db" "live e db key = Some (str_obj (makeStringObject v), t)"
  shows "\<exists>d. (\<forall>k. with_string e key k db = k (Some v) d) \<and> same e db d"
proof -
  obtain d x where g: "getEntity e key db = (d, x)" by fastforce
  note c = getEntity_cases [OF same_refl [OF assms(1)] g]
  have "x = Some (str_obj (makeStringObject v))" using c assms(2) by (simp add: same_def)
  then have "getAsString e key db = Some (Inr (Some v), d)"
    by (simp add: getAsString_def g str_obj_def str_obj_bytes) (simp add: newRobj_def str_obj_bytes)
  then show ?thesis using c(1) by (intro exI [of _ d]) (simp add: with_string_def)
qed

lemma keeps_with_string:
  assumes "same e db d0"
    "\<And>b d. same e db d \<Longrightarrow> purged e key d \<Longrightarrow> (b \<noteq> None \<Longrightarrow> dmap d key \<noteq> None) \<Longrightarrow> keeps e W db (k b d)"
  shows "keeps e W db (with_string e key k d0)"
  by (rule with_string_cases [OF assms(1), of key k]) (auto intro: keeps_None keeps_same assms(2))

lemma live_other:
  "j \<noteq> k \<Longrightarrow> live e (putEntity e' k x db) j = live e db j" "j \<noteq> k \<Longrightarrow> live e (remove_key k db) j = live e db j"
  "j \<noteq> k \<Longrightarrow> live e (expire e' k t db) j = live e db j" "j \<noteq> k \<Longrightarrow> live e (persist k db) j = live e db j"
  "live e (addAof l db) j = live e db j"
  by (simp_all add: live_def)

lemmas keeps_db = db_inv_rules addAof_live live_other same_def

lemma keeps_execGet: "db_inv db \<Longrightarrow> keeps e {} db (execGet e args db)"
  unfolding execGet_def Let_def by (intro keeps_intro keeps_with_string same_refl) (auto simp: same_def)

lemma same_change:
  assumes "same e db d" "db_inv d'" "versionMap d' = versionMap d" "\<forall>j. j \<notin> W \<longrightarrow> live e d' j = live e d j" "\<not> err_reply r"
  shows "keeps e W db (Some (r, d'))"
  using assms by (intro keeps_Some) (auto simp: same_def)

lemma set_string_keeps:
  "db_inv (set_string e k v d) = db_inv (putEntity e k (str_obj (makeStringObject v)) d)"
  "j \<noteq> k \<Longrightarrow> live e (set_string e' k v d) j = live e d j"
  by (simp_all add: set_string_def live_other)

lemma put_policy_keeps:
  assumes "put_policy e p k x d = (d1, n)" "db_inv d"
  shows "db_inv d1" "j \<noteq> k \<Longrightarrow> live e d1 j = live e d j" "n > 0 \<Longrightarrow> dmap d1 k \<noteq> None" "n \<le> 0 \<Longrightarrow> d1 = d"
    "versionMap d1 = versionMap d"
  using assms
  by (auto simp: put_policy_def putIfAbsent_def putIfExists_def db_inv_iff live_def split: policy.splits if_splits)

lemma gindex_0: "gindex args 0 = Some key \<Longrightarrow> args ! 0 = key"
  by (auto simp: gindex_def split: if_splits)

lemma keeps_check_cond:
  assumes "same e db d0" "\<And>d. same e db d \<Longrightarrow> keeps e W db (k d)"
  shows "keeps e W db (check_cond e key opt ok k d0)"
  unfolding check_cond_def using assms by (intro keeps_intro keeps_with_string) (auto simp: same_def)

lemma keeps_set_apply:
  assumes "same e db d"
  shows "keeps e {key} db (set_apply e args key value opts d)"
proof -
  obtain d1 n where p: "put_policy e (policy opts) key (str_obj (makeStringObject value)) d = (d1, n)" by fastforce
  note k = put_policy_keeps [OF p]
  have d: "db_inv d" using assms by (simp add: same_def)
  show ?thesis
  proof (cases "n > 0")
    case True
    then show ?thesis using k d
      by (cases "ttl opts = 0")
         (simp_all add: set_apply_def p Let_def, (rule same_change [OF assms], simp_all add: keeps_db)+)
  next
    case False
    then show ?thesis using k d assms by (auto simp: set_apply_def p intro: keeps_same)
  qed
qed

lemma keeps_execSet: "db_inv db \<Longrightarrow> keeps e {args ! 0} db (execSet e args db)"
  unfolding execSet_def
  by (intro keeps_intro keeps_check_cond keeps_set_apply same_refl) (simp_all add: gindex_0 keeps_set_apply)

text \<open>The options of GETEX change the expiry of the key at most, also when they end in an error.\<close>

definition ttl_change :: "'f env \<Rightarrow> string \<Rightarrow> 'z DB \<Rightarrow> 'z DB \<Rightarrow> bool" where
  "ttl_change e key d d1 \<longleftrightarrow>
     db_inv d1 \<and> data d1 = data d \<and> aof d1 = aof d \<and> versionMap d1 = versionMap d \<and> (\<forall>j. j \<noteq> key \<longrightarrow> live e d1 j = live e d j)"

lemma ttl_change_refl: "db_inv d \<Longrightarrow> ttl_change e key d d"
  by (simp add: ttl_change_def)

lemma ttl_change_persist: "db_inv d \<Longrightarrow> ttl_change e key (persist key d) d1 \<Longrightarrow> ttl_change e key d d1"
  by (simp add: ttl_change_def live_other)

lemma getex_opts_ttl: "db_inv d \<Longrightarrow> ttl_change e key d (snd (getex_opts key args t d))"
proof (induction "length args" arbitrary: args t d rule: less_induct)
  case less
  show ?case
  proof (cases args)
    case Nil
    then show ?thesis using less.prems by (simp add: getex_opts.simps ttl_change_refl)
  next
    case (Cons a rest)
    have i1: "ttl_change e key d (snd (getex_opts key rest t d))"
      and i2: "ttl_change e key d (snd (getex_opts key (tl rest) t' d))"
      and i3: "ttl_change e key d (snd (getex_opts key rest t' (persist key d)))" for t'
      using less Cons by (simp_all add: persist_inv ttl_change_persist [OF less.prems])
    show ?thesis unfolding Cons getex_opts.simps [of key "a # rest" t d]
      using i1 i2 i3 less.prems by (simp add: Let_def ttl_change_refl split: sum.split)
  qed
qed

lemma keeps_count_with:
  assumes "same e db d"
  shows "keeps e {key} db (count_with name f t0 v0 e key args d)"
  unfolding count_with_def using assms
  by (intro keeps_intro keeps_with_string; (assumption | rule same_change)?)
     (simp_all add: set_string_def keeps_db)

lemma keeps_execIncr: "db_inv db \<Longrightarrow> keeps e {args ! 0} db (execIncr e args db)"
  unfolding execIncr_def by (intro keeps_intro) (simp add: gindex_0 keeps_count_with same_refl)

lemma keeps_execDecr: "db_inv db \<Longrightarrow> keeps e {args ! 0} db (execDecr e args db)"
  unfolding execDecr_def by (intro keeps_intro) (simp add: gindex_0 keeps_count_with same_refl)

lemma keeps_execIncrBy: "db_inv db \<Longrightarrow> keeps e {args ! 0} db (execIncrBy e args db)"
  unfolding execIncrBy_def by (intro keeps_intro same_refl) (simp_all add: gindex_0 keeps_count_with same_refl)

lemma keeps_execDecrBy: "db_inv db \<Longrightarrow> keeps e {args ! 0} db (execDecrBy e args db)"
  unfolding execDecrBy_def by (intro keeps_intro same_refl) (simp_all add: gindex_0 keeps_count_with same_refl)

lemma keeps_execIncrByFloat: "db_inv db \<Longrightarrow> keeps e {args ! 0} db (execIncrByFloat e args db)"
  unfolding execIncrByFloat_def Let_def
  by (intro keeps_intro keeps_with_string same_refl) (auto simp: gindex_0 set_string_def keeps_db)

lemma keeps_execSetNX: "db_inv db \<Longrightarrow> keeps e {args ! 0} db (execSetNX e args db)"
  unfolding execSetNX_def
  by (intro keeps_intro) (auto simp: putIfAbsent_def db_inv_iff live_def gindex_0 Let_def intro!: keeps_Some split: if_splits)

lemma keeps_setex_with: "db_inv db \<Longrightarrow> keeps e {args ! 0} db (setex_with c e args db)"
  unfolding setex_with_def Let_def
  by (intro keeps_intro same_refl) (auto simp: gindex_0 set_string_def keeps_db intro!: expire_inv)

lemma put_pairs_version [simp]: "versionMap (put_pairs e kvs d) = versionMap d"
  by (induction e kvs d rule: put_pairs.induct) (simp_all add: set_string_def)

lemma put_pairs_keeps:
  "db_inv d \<Longrightarrow> db_inv (put_pairs e kvs d)" "j \<notin> fst ` set kvs \<Longrightarrow> live e (put_pairs e kvs d) j = live e d j"
  by (induction e kvs d rule: put_pairs.induct) (auto simp: set_string_def putEntity_inv live_other)

lemma keeps_execMSet: "db_inv db \<Longrightarrow> keeps e (set (fst (prepareMSet args))) db (execMSet e args db)"
  unfolding execMSet_def prepareMSet_def
  by (intro keeps_intro same_refl) (auto simp: keeps_db put_pairs_keeps)

lemma any_exists_same: "same e db d \<Longrightarrow> same e db (snd (any_exists e keys d))"
proof (induction keys arbitrary: d)
  case (Cons key keys)
  obtain d1 x where g: "getEntity e key d = (d1, x)" by fastforce
  then show ?case using Cons getEntity_cases(1) [OF Cons.prems g] by simp
qed simp

lemma keeps_execMSetNX: "db_inv db \<Longrightarrow> keeps e (set (fst (prepareMSet args))) db (execMSetNX e args db)"
proof -
  assume db: "db_inv db"
  obtain found d1 where a: "any_exists e (map fst (pairs args)) db = (found, d1)" by fastforce
  then have "same e db d1" using any_exists_same [OF same_refl [OF db], of e "map fst (pairs args)"] by simp
  then show ?thesis using db a
    by (auto simp: execMSetNX_def prepareMSet_def keeps_db put_pairs_keeps intro!: keeps_Some)
qed

lemma mget_loop_same: "mget_loop e keys acc d = Some (vs, d1) \<Longrightarrow> same e db d \<Longrightarrow> same e db d1"
proof (induction keys arbitrary: acc d)
  case (Cons key keys)
  obtain d2 x where g: "getEntity e key d = (d2, x)" by fastforce
  then obtain r where "getAsString e key d = Some (r, d2)" "mget_loop e keys (acc @ [case r of Inl _ \<Rightarrow> None | Inr b \<Rightarrow> b]) d2 = Some (vs, d1)"
    using Cons.prems(1)
    by (auto simp: getAsString_def split: option.splits entity.splits if_splits bind_splits ptr.splits gany.splits)
  then show ?case using Cons getEntity_cases(1) [OF Cons.prems(2) g] by blast
qed simp

lemma keeps_execMGet: "db_inv db \<Longrightarrow> keeps e {} db (execMGet e args db)"
  unfolding execMGet_def by (intro keeps_bind keeps_prod keeps_same) (auto intro: mget_loop_same same_refl)

lemma keeps_execGetSet: "db_inv db \<Longrightarrow> keeps e {args ! 0} db (execGetSet e args db)"
  unfolding execGetSet_def
  by (intro keeps_intro keeps_with_string same_refl) (auto simp: gindex_0 set_string_def keeps_db split: option.splits)

lemma keeps_execGetDel: "db_inv db \<Longrightarrow> keeps e {args ! 0} db (execGetDel e args db)"
  unfolding execGetDel_def
  by (intro keeps_intro keeps_with_string same_refl) (auto simp: gindex_0 keeps_db)

lemma keeps_execStrLen: "db_inv db \<Longrightarrow> keeps e {} db (execStrLen e args db)"
  unfolding execStrLen_def Let_def by (intro keeps_intro keeps_with_string same_refl) (auto simp: same_def)

lemma keeps_execAppend: "db_inv db \<Longrightarrow> keeps e {args ! 0} db (execAppend e args db)"
  unfolding execAppend_def Let_def
  by (intro keeps_intro keeps_with_string same_refl; (drule (1) getEntity_cases(1))?) (simp_all add: gindex_0 keeps_db)

lemma keeps_execSetRange: "db_inv db \<Longrightarrow> keeps e {args ! 0} db (execSetRange e args db)"
  unfolding execSetRange_def Let_def
  by (intro keeps_intro keeps_with_string same_refl) (auto simp: gindex_0 keeps_db)

lemma keeps_execGetRange: "db_inv db \<Longrightarrow> keeps e {} db (execGetRange e args db)"
  unfolding execGetRange_def Let_def by (intro keeps_intro keeps_with_string same_refl) (auto simp: same_def)

lemma keeps_execSetBit: "db_inv db \<Longrightarrow> keeps e {args ! 0} db (execSetBit e args db)"
  unfolding execSetBit_def
  by (intro keeps_intro keeps_with_string same_refl) (auto simp: gindex_0 keeps_db)

lemma keeps_execGetBit: "db_inv db \<Longrightarrow> keeps e {} db (execGetBit e args db)"
  unfolding execGetBit_def Let_def by (intro keeps_intro keeps_with_string same_refl) (auto simp: same_def)

lemma keeps_execBitCount: "db_inv db \<Longrightarrow> keeps e {} db (execBitCount e args db)"
  unfolding execBitCount_def Let_def by (intro keeps_intro keeps_with_string same_refl) (auto simp: same_def)

lemma keeps_execBitPos: "db_inv db \<Longrightarrow> keeps e {} db (execBitPos e args db)"
  unfolding execBitPos_def Let_def by (intro keeps_intro keeps_with_string same_refl) (auto simp: same_def)

lemma put_policies_applied: "put_policies e p kvs a d = (d1, True) \<Longrightarrow> a"
proof (induction kvs arbitrary: a d)
  case (Cons kv kvs)
  obtain key v where kv: "kv = (key, v)" by fastforce
  obtain d2 n where p: "put_policy e p key (str_obj (makeStringObject v)) d = (d2, n)" by fastforce
  have "put_policies e p kvs (a \<and> n \<noteq> 0) d2 = (d1, True)" using Cons.prems by (simp add: kv p)
  then show ?case using Cons.IH by blast
qed simp

lemma put_policies_keeps:
  "db_inv d \<Longrightarrow> put_policies e p kvs a d = (d1, a1) \<Longrightarrow>
   db_inv d1 \<and> versionMap d1 = versionMap d \<and> (\<forall>j. j \<notin> fst ` set kvs \<longrightarrow> live e d1 j = live e d j) \<and>
   (\<forall>j. dmap d j \<noteq> None \<longrightarrow> dmap d1 j \<noteq> None) \<and> (a1 \<longrightarrow> (\<forall>j \<in> fst ` set kvs. dmap d1 j \<noteq> None))"
proof (induction kvs arbitrary: a d)
  case (Cons kv kvs)
  obtain key v where kv: "kv = (key, v)" by fastforce
  obtain d2 n where p: "put_policy e p key (str_obj (makeStringObject v)) d = (d2, n)" by fastforce
  note k = put_policy_keeps [OF p Cons.prems(1)]
  have mono: "dmap d j \<noteq> None \<Longrightarrow> dmap d2 j \<noteq> None" and n: "n \<noteq> 0 \<Longrightarrow> n > 0" for j
    using p by (auto simp: put_policy_def putIfAbsent_def putIfExists_def split: policy.splits if_splits)
  have "put_policies e p kvs (a \<and> n \<noteq> 0) d2 = (d1, a1)" using Cons.prems(2) by (simp add: kv p)
  moreover have "a1 \<Longrightarrow> a \<and> n \<noteq> 0" using calculation by (auto dest: put_policies_applied)
  ultimately show ?case using Cons.IH [OF k(1)] k(2,3,5) mono n by (auto simp: kv)
qed simp

lemma expire_all_version [simp]: "versionMap (expire_all e keys t d) = versionMap d"
  by (induction e keys t d rule: expire_all.induct) simp_all

lemma expire_all_keeps:
  "db_inv d \<Longrightarrow> \<forall>k \<in> set keys. dmap d k \<noteq> None \<Longrightarrow>
   db_inv (expire_all e keys t d) \<and> (\<forall>j. j \<notin> set keys \<longrightarrow> live e (expire_all e keys t d) j = live e d j)"
  by (induction keys arbitrary: d) (auto simp: expire_inv live_other)

lemma pairs_take: "pairs (take (2 * n) xs) = take n (pairs xs)"
  apply (induction xs arbitrary: n rule: pairs.induct)
  subgoal for k v rest n by (cases n) auto
  subgoal by simp
  subgoal for x n by (cases n) auto
  done

lemma msetex_keys:
  assumes "parseInt a = Some numkeys" "1 \<le> numkeys" "prepareMSetEX (a # rest) = Some (W, R)"
    "wrap64 (1 + wrap64 (numkeys * 2)) = kvEnd"
  shows "pairs (take (nat kvEnd - 1) rest) = take (nat numkeys) (pairs rest)" "set W = fst ` set (take (nat numkeys) (pairs rest))"
proof -
  have "numkeys < 2 ^ 47" using assms by (auto simp: prepareMSetEX_def maxAlloc_def split: if_splits)
  then have "kvEnd = 1 + numkeys * 2" using assms(2,4) by (simp add: wrap64_id int64_def)
  then have "nat kvEnd - 1 = 2 * nat numkeys" using assms(2) by (simp add: nat_add_distrib nat_mult_distrib)
  then show "pairs (take (nat kvEnd - 1) rest) = take (nat numkeys) (pairs rest)" by (simp add: pairs_take)
  show "set W = fst ` set (take (nat numkeys) (pairs rest))"
    using assms(1-3) by (auto simp: prepareMSetEX_def take_map simp del: set_map simp flip: set_map split: if_splits)
qed

lemma keeps_msetex_apply:
  assumes "db_inv db"
  shows "keeps e (fst ` set kvs) db (msetex_apply e args p t kvs db)"
proof -
  obtain d1 applied where pp: "put_policies e p kvs True db = (d1, applied)" by fastforce
  note k = put_policies_keeps [OF assms pp]
  show ?thesis
  proof (cases applied)
    case True
    note x = expire_all_keeps [of d1 "map fst kvs" e]
    show ?thesis using True k x by (auto simp: msetex_apply_def pp Let_def addAof_live intro!: keeps_Some)
  next
    case False
    then show ?thesis using k by (auto simp: msetex_apply_def pp intro!: keeps_Some)
  qed
qed

lemma keeps_execMSetEX:
  assumes db: "db_inv db" and prep: "prepareMSetEX args = Some (W, R)"
  shows "keeps e (set W) db (execMSetEX e args db)"
proof (cases args)
  case (Cons a rest)
  have "keeps e (set W) db (msetex_apply e args p t (pairs (take (nat (wrap64 (1 + wrap64 (numkeys * 2))) - 1) rest)) db)"
    if "parseInt a = Some numkeys" "1 \<le> numkeys" for numkeys p t
    using keeps_msetex_apply [OF db] msetex_keys [OF that prep [unfolded Cons] refl] by simp
  then show ?thesis
    using keeps_same [OF same_refl [OF db]]
    by (auto simp: execMSetEX_def Cons Let_def keeps_None split: option.split sum.split)
qed (use db in \<open>simp add: execMSetEX_def keeps_same same_refl\<close>)

lemma frame_execGetEX:
  assumes "db_inv db" "execGetEX e args db = Some (r, d)"
  shows "db_inv d \<and> versionMap d = versionMap db \<and> (\<forall>k. k \<noteq> args ! 0 \<longrightarrow> live e d k = live e db k)"
proof -
  let ?key = "args ! 0"
  have ex: "with_string e ?key (getex_apply e args ?key) db = Some (r, d)"
    using assms(2) by (auto simp: execGetEX_def gindex_def split: if_splits)
  have step: "db_inv d \<and> versionMap d = versionMap d0 \<and> (\<forall>j. j \<noteq> ?key \<longrightarrow> live e d j = live e d0 j)"
    if k0: "getex_apply e args ?key b d0 = Some (r, d)" and d0: "db_inv d0" "b \<noteq> None \<Longrightarrow> dmap d0 ?key \<noteq> None" for b d0
  proof -
    obtain x d1 where g: "getex_opts ?key (tl args) 0 d0 = (x, d1)" by fastforce
    have t: "ttl_change e ?key d0 d1" using getex_opts_ttl [OF d0(1), of e ?key "tl args" 0] g by simp
    show ?thesis
    proof (cases b)
      case (Some v)
      then show ?thesis using k0 d0 t
        by (auto simp: getex_apply_def g ttl_change_def Let_def keeps_db split: sum.splits if_splits)
    qed (use k0 d0 in \<open>simp add: getex_apply_def\<close>)
  qed
  show ?thesis
    using ex step
    by (cases rule: with_string_cases [OF same_refl [OF assms(1)], of e ?key "getex_apply e args ?key"]) (auto simp: same_def)
qed

section \<open>Properties\<close>

lemma execSet_PX:
  assumes "parseInt t = Some n" "0 < n"
  shows "execSet e [key, v, ''PX'', t] db =
    set_apply e [key, v, ''PX'', t] key v (noOpts\<lparr>ttl := wrap64 n\<rparr>) db"
proof -
  have "toUpper ''PX'' = ''PX''" by code_simp
  then have "parse_set_opts [''PX'', t] noOpts = parse_set_opts [] (noOpts\<lparr>ttl := wrap64 n\<rparr>)"
    using assms by (simp add: parse_set_opts.simps [of "[''PX'', t]"] parse_ttl_def noOpts_def)
  then show ?thesis by (simp add: execSet_def gindex_def parse_set_opts.simps [of "[]"] check_cond_def noOpts_def)
qed

text \<open>C19. A value that SET stores with an expiry of a positive number of milliseconds is what GET returns until the
  expiry has passed, and nil afterwards, whatever the key held before; nothing else is needed to make it disappear. The
  expiry is that many milliseconds from now as long as they fit in 64 bits as nanoseconds; the product of a larger
  number wraps around, and a value whose expiry wrapped into the past is gone at once.\<close>

theorem set_px_get:
  fixes e :: "'f env"
  assumes "db_inv db" "parseInt t = Some n" "0 < n"
  shows "\<exists>d. execSet e [key, v, ''PX'', t] db = Some (OkReply, d) \<and>
    (\<forall>e' :: 'f env. \<exists>d'. execGet e' [key] d =
       Some (if now e' \<le> now e + wrap64 (n * 10 ^ 6) then BulkReply (Some v) else NullBulkReply, d')) \<and>
    (n * 10 ^ 6 < 2 ^ 63 \<longrightarrow> wrap64 (n * 10 ^ 6) = n * 10 ^ 6)"
proof -
  define u where "u = now e + wrap64 (n * 10 ^ 6)"
  let ?x = "str_obj (makeStringObject v)"
  have w: "wrap64 n = n" using parseInt_int64 [OF assms(2)] by (simp add: wrap64_id)
  have fit: "wrap64 (n * 10 ^ 6) = n * 10 ^ 6" if "n * 10 ^ 6 < 2 ^ 63"
    using that assms(3) by (intro wrap64_id) (simp add: int64_def)
  let ?d = "addAof (makeExpireCmd key u) (addAof [''SET'', key, v] (expire e key u (putEntity e key ?x db)))"
  have set: "execSet e [key, v, ''PX'', t] db = Some (OkReply, ?d)"
    using assms(3) by (simp add: execSet_PX [OF assms(2,3)] set_apply_def noOpts_def put_policy_def w in_millis_def Let_def u_def)
  have inv: "db_inv ?d" using assms(1) by (simp add: addAof_live expire_inv putEntity_inv)
  have lv: "live e' ?d key = (if now e' \<le> u then Some (?x, Some u) else None)" for e' :: "'f env" by (simp add: live_def)
  have "\<exists>d'. execGet e' [key] ?d = Some (if now e' \<le> u then BulkReply (Some v) else NullBulkReply, d')" for e' :: "'f env"
  proof (cases "now e' \<le> u")
    case True
    then have "live e' ?d key = Some (?x, Some u)" using lv by simp
    then obtain d' where "\<forall>k. with_string e' key k ?d = k (Some v) d'" using with_string_str [OF inv] by blast
    then show ?thesis using True by (simp add: execGet_def gindex_def)
  next
    case False
    obtain d1 x where g: "getEntity e' key ?d = (d1, x)" by fastforce
    then have "x = None" using getEntity_value [of e' key ?d] lv False by simp
    then show ?thesis using g False by (simp add: execGet_def gindex_def with_string_def getAsString_def)
  qed
  then show ?thesis using set fit unfolding u_def by blast
qed

theorem set_px_get_witness:
  "(\<exists>d d' d''. execSet default_env [''k'', ''v'', ''PX'', ''5''] (makeDB :: unit DB) = Some (OkReply, d) \<and>
     execGet default_env [''k''] d = Some (BulkReply (Some ''v''), d') \<and>
     execGet (default_env\<lparr>now := 5000001\<rparr>) [''k''] d = Some (NullBulkReply, d'')) \<and>
   (\<exists>d d'. execSet default_env [''k'', ''v'', ''PX'', ''9300000000000''] (makeDB :: unit DB) = Some (OkReply, d) \<and>
     execGet default_env [''k''] d = Some (NullBulkReply, d'))"
proof -
  have p: "parseInt ''5'' = Some 5" "parseInt ''9300000000000'' = Some 9300000000000" by code_simp+
  have w: "wrap64 (5 * 10 ^ 6) = 5 * 10 ^ 6" "wrap64 (9300000000000 * 10 ^ 6) < 0" by (simp_all add: wrap64_def)
  have z: "now default_env = 0" by (simp add: default_env_def)
  obtain d where d: "execSet default_env [''k'', ''v'', ''PX'', ''5''] (makeDB :: unit DB) = Some (OkReply, d)"
      "\<forall>e' :: unit env. \<exists>d'. execGet e' [''k''] d = Some (if now e' \<le> wrap64 (5 * 10 ^ 6) then BulkReply (Some ''v'') else NullBulkReply, d')"
    using set_px_get [OF db_inv_makeDB p(1), of default_env "''k''" "''v''"] unfolding z by auto
  obtain d2 where d2: "execSet default_env [''k'', ''v'', ''PX'', ''9300000000000''] (makeDB :: unit DB) = Some (OkReply, d2)"
      "\<forall>e' :: unit env. \<exists>d'. execGet e' [''k''] d2 =
         Some (if now e' \<le> wrap64 (9300000000000 * 10 ^ 6) then BulkReply (Some ''v'') else NullBulkReply, d')"
    using set_px_get [OF db_inv_makeDB p(2), of default_env "''k''" "''v''"] unfolding z by auto
  show ?thesis
    using d(1) d(2) [rule_format, of default_env] d(2) [rule_format, of "default_env\<lparr>now := 5000001\<rparr>"]
      d2(1) d2(2) [rule_format, of default_env] w by (auto simp: z)
qed

end
