(* ===== verification/KeysCmd.thy ===== *)
theory KeysCmd
  imports StringCmd
begin

text \<open>
  The commands on keys, \<^verbatim>\<open>internal/command/keys.go\<close>: deletion, types, renaming and expiry. KEYS and SCAN
  (their loops are those of the dict theories) and COPY, which spans two databases, are left out.
\<close>

section \<open>Deletion\<close>

definition execDel :: "string list \<Rightarrow> 'z DB \<Rightarrow> 'z result" where
  "execDel args db =
     (let (db1, deleted) = removes args db in
      Some (IntReply (int deleted), if deleted > 0 then addAof (toCmdLine3 ''del'' args) db1 else db1))"

definition delexArgErr :: reply where
  "delexArgErr = StandardErrReply (''ERR wrong number of arguments for '' @ [CHR 0x27] @ ''delex'' @ [CHR 0x27] @ '' command'')"

definition delex_remove :: "string \<Rightarrow> string list \<Rightarrow> 'z DB \<Rightarrow> 'z result" where
  "delex_remove key args db = Some (IntReply 1, addAof (toCmdLine3 ''delex'' args) (remove_key key db))"

definition execDelEX :: "'f env \<Rightarrow> string list \<Rightarrow> 'z DB \<Rightarrow> 'z result" where
  "execDelEX e args db =
     (case args of
        [key] \<Rightarrow>
          (let (db1, x) = getEntity e key db in
           if x = None then Some (IntReply 0, db1) else delex_remove key args db1)
      | [key, c, condVal] \<Rightarrow>
          with_string e key (\<lambda>b db.
            let cond = toUpper c in
            if cond \<notin> {''IFEQ'', ''IFNE'', ''IFDEQ'', ''IFDNE''} then
              Some (StandardErrReply ''ERR Invalid condition. Use IFEQ, IFNE, IFDEQ, or IFDNE'', db)
            else case b of
              None \<Rightarrow> Some (IntReply 0, db)
            | Some current \<Rightarrow>
                if (if cond = ''IFEQ'' then current = condVal
                    else if cond = ''IFNE'' then current \<noteq> condVal
                    else if cond = ''IFDEQ'' then valueDigest e current = condVal
                    else valueDigest e current \<noteq> condVal)
                then delex_remove key args db else Some (IntReply 0, db)) db
      | _ \<Rightarrow> Some (delexArgErr, db))"

fun exists_loop :: "'f env \<Rightarrow> string list \<Rightarrow> int \<Rightarrow> 'z DB \<Rightarrow> int \<times> 'z DB" where
  "exists_loop e [] n db = (n, db)"
| "exists_loop e (key # keys) n db =
     (let (db1, x) = getEntity e key db in exists_loop e keys (if x \<noteq> None then n + 1 else n) db1)"

definition execExists :: "'f env \<Rightarrow> string list \<Rightarrow> 'z DB \<Rightarrow> 'z result" where
  "execExists e args db = (let (n, db1) = exists_loop e args 0 db in Some (IntReply n, db1))"

definition execFlushDB :: "string list \<Rightarrow> 'z DB \<Rightarrow> 'z result" where
  "execFlushDB args db = Some (OkReply, addAof (toCmdLine3 ''flushdb'' args) (flush db))"

text \<open>Bare lists and sorted sets are of none of the types that the code tells apart.\<close>

definition getType :: "'f env \<Rightarrow> string \<Rightarrow> 'z DB \<Rightarrow> string \<times> 'z DB" where
  "getType e key db =
     (let (db1, x) = getEntity e key db in
      (case x of
         None \<Rightarrow> ''none''
       | Some (Obj r) \<Rightarrow> typeName r
       | Some (Bare (PStr (GBytes _))) \<Rightarrow> ''string''
       | Some (Bare (PDict _)) \<Rightarrow> ''hash''
       | Some (Bare (PLegacySet _)) \<Rightarrow> ''set''
       | Some (Bare _) \<Rightarrow> [], db1))"

definition execType :: "'f env \<Rightarrow> string list \<Rightarrow> 'z DB \<Rightarrow> 'z result" where
  "execType e args db =
     do { key \<leftarrow> gindex args 0;
          let (result, db1) = getType e key db;
          Some (if result \<noteq> [] then StatusReply result else UnknownErrReply, db1) }"

section \<open>Renaming\<close>

definition noKeyErr :: reply where
  "noKeyErr = StandardErrReply ''no such key''"

text \<open>The expiry of the source moves to the destination.\<close>

definition move_ttl :: "'f env \<Rightarrow> string \<Rightarrow> string \<Rightarrow> int option \<Rightarrow> 'z DB \<Rightarrow> 'z DB" where
  "move_ttl e src dest rawTTL db =
     (case rawTTL of None \<Rightarrow> db | Some expireTime \<Rightarrow> expire e dest expireTime (persist dest (persist src db)))"

definition execRename :: "'f env \<Rightarrow> string list \<Rightarrow> 'z DB \<Rightarrow> 'z result" where
  "execRename e args db =
     (case args of
        [src, dest] \<Rightarrow>
          (let (db1, x) = getEntity e src db in
           case x of
             None \<Rightarrow> Some (noKeyErr, db1)
           | Some entity \<Rightarrow>
               (let rawTTL = tmap db1 src; db2 = remove_key src (putEntity e dest entity db1) in
                Some (OkReply, addAof (toCmdLine3 ''rename'' args) (move_ttl e src dest rawTTL db2))))
      | _ \<Rightarrow> Some (StandardErrReply (''ERR wrong number of arguments for '' @ [CHR 0x27] @ ''rename'' @ [CHR 0x27] @ '' command''), db))"

definition execRenameNx :: "'f env \<Rightarrow> string list \<Rightarrow> 'z DB \<Rightarrow> 'z result" where
  "execRenameNx e args db =
     do { src \<leftarrow> gindex args 0;
          dest \<leftarrow> gindex args 1;
          let (db1, y) = getEntity e dest db;
          if y \<noteq> None then Some (IntReply 0, db1)
          else let (db2, x) = getEntity e src db1 in
            case x of
              None \<Rightarrow> Some (noKeyErr, db2)
            | Some entity \<Rightarrow>
                (let rawTTL = tmap db2 src; db3 = putEntity e dest entity (fst (removes [src, dest] db2)) in
                 Some (IntReply 1, addAof (toCmdLine3 ''renamenx'' args) (move_ttl e src dest rawTTL db3))) }"

section \<open>Expiry\<close>

record expireOpt =
  optNX :: bool
  optXX :: bool
  optGT :: bool
  optLT :: bool

fun expire_flags :: "string list \<Rightarrow> expireOpt \<Rightarrow> reply + expireOpt" where
  "expire_flags [] opts = Inr opts"
| "expire_flags (a # rest) opts =
     (let opt = toUpper a in
      if opt = ''NX'' then expire_flags rest (opts\<lparr>optNX := True\<rparr>)
      else if opt = ''XX'' then expire_flags rest (opts\<lparr>optXX := True\<rparr>)
      else if opt = ''GT'' then expire_flags rest (opts\<lparr>optGT := True\<rparr>)
      else if opt = ''LT'' then expire_flags rest (opts\<lparr>optLT := True\<rparr>)
      else Inl (StandardErrReply (''ERR Unsupported option '' @ a)))"

definition parseExpireOption :: "string list \<Rightarrow> reply + expireOpt" where
  "parseExpireOption args =
     (case expire_flags args \<lparr>optNX = False, optXX = False, optGT = False, optLT = False\<rparr> of
        Inl err \<Rightarrow> Inl err
      | Inr opts \<Rightarrow>
          if optNX opts \<and> (optXX opts \<or> optGT opts \<or> optLT opts)
          then Inl (StandardErrReply ''ERR NX and XX, GT or LT options at the same time are not compatible'')
          else if optGT opts \<and> optLT opts
          then Inl (StandardErrReply ''ERR GT and LT options at the same time are not compatible'')
          else Inr opts)"

definition checkExpireOption :: "string \<Rightarrow> expireOpt \<Rightarrow> int \<Rightarrow> 'z DB \<Rightarrow> bool" where
  "checkExpireOption key opts expireAt db =
     (case tmap db key of
        None \<Rightarrow> \<not> optXX opts \<and> \<not> optGT opts
      | Some expireTime \<Rightarrow> \<not> optNX opts \<and> (optGT opts \<longrightarrow> expireAt > expireTime) \<and> (optLT opts \<longrightarrow> expireAt < expireTime))"

text \<open>The common body of EXPIRE, PEXPIRE, EXPIREAT and PEXPIREAT, with the time that the number stands for.\<close>

definition expire_with :: "('f env \<Rightarrow> int \<Rightarrow> int) \<Rightarrow> 'f env \<Rightarrow> string list \<Rightarrow> 'z DB \<Rightarrow> 'z result" where
  "expire_with f e args db =
     do { key \<leftarrow> gindex args 0;
          numText \<leftarrow> gindex args 1;
          case parseInt numText of
            None \<Rightarrow> Some (intErr, db)
          | Some n \<Rightarrow>
              (let (db1, x) = getEntity e key db; expireAt = f e n in
               if x = None then Some (IntReply 0, db1)
               else case parseExpireOption (drop 2 args) of
                 Inl err \<Rightarrow> Some (err, db1)
               | Inr opts \<Rightarrow>
                   if \<not> checkExpireOption key opts expireAt db1 then Some (IntReply 0, db1)
                   else Some (IntReply 1, addAof (makeExpireCmd key expireAt) (expire e key expireAt db1))) }"

definition execExpire :: "'f env \<Rightarrow> string list \<Rightarrow> 'z DB \<Rightarrow> 'z result" where
  "execExpire e args db = expire_with (\<lambda>e n. now e + wrap64 (n * 10 ^ 9)) e args db"

text \<open>\<^verbatim>\<open>time.Unix\<close> counts the seconds from the year 1, in 64 bits.\<close>

definition unix_seconds :: "int \<Rightarrow> int" where
  "unix_seconds n = wrap64 (n + 62135596800) - 62135596800"

definition execExpireAt :: "'f env \<Rightarrow> string list \<Rightarrow> 'z DB \<Rightarrow> 'z result" where
  "execExpireAt e args db = expire_with (\<lambda>e n. unix_seconds n * 10 ^ 9) e args db"

definition execPExpire :: "'f env \<Rightarrow> string list \<Rightarrow> 'z DB \<Rightarrow> 'z result" where
  "execPExpire e args db = expire_with (\<lambda>e n. now e + wrap64 (n * 10 ^ 6)) e args db"

definition execPExpireAt :: "'f env \<Rightarrow> string list \<Rightarrow> 'z DB \<Rightarrow> 'z result" where
  "execPExpireAt e args db = expire_with (\<lambda>e n. wrap64 (n * 10 ^ 6)) e args db"

text \<open>The common body of the commands that read an expiry.\<close>

definition ttl_with :: "('f env \<Rightarrow> int \<Rightarrow> int) \<Rightarrow> 'f env \<Rightarrow> string list \<Rightarrow> 'z DB \<Rightarrow> 'z result" where
  "ttl_with f e args db =
     do { key \<leftarrow> gindex args 0;
          let (db1, x) = getEntity e key db;
          Some (IntReply (if x = None then - 2 else case tmap db1 key of None \<Rightarrow> - 1 | Some t \<Rightarrow> f e t), db1) }"

definition execExpireTime :: "'f env \<Rightarrow> string list \<Rightarrow> 'z DB \<Rightarrow> 'z result" where
  "execExpireTime e args db = ttl_with (\<lambda>e t. t div 10 ^ 9) e args db"

definition execPExpireTime :: "'f env \<Rightarrow> string list \<Rightarrow> 'z DB \<Rightarrow> 'z result" where
  "execPExpireTime e args db = ttl_with (\<lambda>e t. unixMilli t) e args db"

text \<open>\<^verbatim>\<open>Sub\<close> saturates; \<^verbatim>\<open>math.Round\<close> rounds half away from zero (here of the exact quotient).\<close>

definition saturate :: "int \<Rightarrow> int" where
  "saturate d = max (- (2 ^ 63)) (min (2 ^ 63 - 1) d)"

definition round_div :: "int \<Rightarrow> int \<Rightarrow> int" where
  "round_div d u = (if d \<ge> 0 then (2 * d + u) div (2 * u) else - ((2 * - d + u) div (2 * u)))"

definition execTTL :: "'f env \<Rightarrow> string list \<Rightarrow> 'z DB \<Rightarrow> 'z result" where
  "execTTL e args db = ttl_with (\<lambda>e t. round_div (saturate (t - now e)) (10 ^ 9)) e args db"

definition execPTTL :: "'f env \<Rightarrow> string list \<Rightarrow> 'z DB \<Rightarrow> 'z result" where
  "execPTTL e args db = ttl_with (\<lambda>e t. go_div (saturate (t - now e)) (10 ^ 6)) e args db"

definition execPersist :: "'f env \<Rightarrow> string list \<Rightarrow> 'z DB \<Rightarrow> 'z result" where
  "execPersist e args db =
     do { key \<leftarrow> gindex args 0;
          let (db1, x) = getEntity e key db;
          if x = None \<or> tmap db1 key = None then Some (IntReply 0, db1)
          else Some (IntReply 1, addAof (toCmdLine3 ''persist'' args) (persist key db1)) }"

section \<open>What the commands keep\<close>

lemma removes_keeps:
  "db_inv d \<Longrightarrow> removes keys d = (d1, n) \<Longrightarrow>
   db_inv d1 \<and> aof d1 = aof d \<and> versionMap d1 = versionMap d \<and> (\<forall>j. j \<notin> set keys \<longrightarrow> live e d1 j = live e d j) \<and> (n = 0 \<longrightarrow> d1 = d)"
proof (induction keys arbitrary: d n)
  case (Cons key keys)
  show ?case
  proof (cases "dmap d key")
    case (Some x)
    obtain d2 m where "removes keys (remove_key key d) = (d2, m)" by fastforce
    then show ?thesis using Cons.IH [of "remove_key key d" m] Cons.prems Some by (simp add: remove_key_inv live_other)
  qed (use Cons in simp)
qed simp

lemma keeps_execDel: "db_inv db \<Longrightarrow> keeps e (set args) db (execDel args db)"
proof -
  assume db: "db_inv db"
  obtain d1 n where r: "removes args db = (d1, n)" by fastforce
  show ?thesis using removes_keeps [OF db r, of e] by (auto simp: execDel_def r addAof_live intro!: keeps_Some)
qed

lemma keeps_delex_remove: "same e db d \<Longrightarrow> keeps e {key} db (delex_remove key args d)"
  unfolding delex_remove_def by (rule same_change, assumption) (auto simp: keeps_db)

lemma keeps_execDelEX: "db_inv db \<Longrightarrow> keeps e {args ! 0} db (execDelEX e args db)"
proof -
  assume db: "db_inv db"
  note s = same_refl [OF db, of e]
  consider "\<exists>key. args = [key]" | "\<exists>key c v. args = [key, c, v]" | "length args \<noteq> 1 \<and> length args \<noteq> 3"
    by (fastforce simp: length_Suc_conv numeral_3_eq_3)
  then show ?thesis
  proof cases
    case 1
    then obtain key where a: "args = [key]" by blast
    obtain d1 x where g: "getEntity e key db = (d1, x)" by fastforce
    show ?thesis using getEntity_cases(1) [OF s g] by (auto simp: a execDelEX_def g keeps_same keeps_delex_remove)
  next
    case 2
    then obtain key c v where a: "args = [key, c, v]" by blast
    show ?thesis unfolding a execDelEX_def Let_def list.case
      by (intro keeps_with_string [OF s] keeps_if keeps_option) (auto intro: keeps_same keeps_delex_remove)
  next
    case 3
    then have "execDelEX e args db = Some (delexArgErr, db)" by (auto simp: execDelEX_def split: list.split)
    then show ?thesis using s by (simp add: keeps_same)
  qed
qed

lemma exists_loop_same: "same e db d \<Longrightarrow> same e db (snd (exists_loop e keys n d))"
proof (induction keys arbitrary: n d)
  case (Cons key keys)
  obtain d1 x where g: "getEntity e key d = (d1, x)" by fastforce
  then show ?case using Cons getEntity_cases(1) [OF Cons.prems g] by simp
qed simp

lemma keeps_execExists: "db_inv db \<Longrightarrow> keeps e {} db (execExists e args db)"
  using exists_loop_same [OF same_refl, of db e args 0] by (auto simp: execExists_def keeps_same split: prod.splits)

lemma keeps_execType: "db_inv db \<Longrightarrow> keeps e {} db (execType e args db)"
  unfolding execType_def getType_def Let_def
  by (intro keeps_bind) (auto simp: same_refl split: prod.split intro!: keeps_same dest: getEntity_cases(1) [OF same_refl])

lemma keeps_log_expire:
  assumes "same e db d" "map_option fst (live e d key) \<noteq> None"
  shows "keeps e {key} db (Some (IntReply n, addAof l (expire e key t d)))"
proof (rule same_change [OF assms(1)])
  have "dmap d key \<noteq> None" using assms(2) by (auto dest: live_dmap)
  then show "db_inv (addAof l (expire e key t d))" using assms(1) by (simp add: same_def addAof_live expire_inv)
qed (simp_all add: live_other)

lemma keeps_expire_with: "db_inv db \<Longrightarrow> keeps e {args ! 0} db (expire_with f e args db)"
  unfolding expire_with_def Let_def
  by (intro keeps_bind keeps_option keeps_getEntity keeps_if keeps_sum) (auto simp: gindex_0 same_refl intro: keeps_same keeps_log_expire)

lemma keeps_ttl_with: "db_inv db \<Longrightarrow> keeps e {} db (ttl_with f e args db)"
  unfolding ttl_with_def Let_def by (intro keeps_bind keeps_getEntity keeps_same)

lemma keeps_log_persist: "same e db d \<Longrightarrow> keeps e {key} db (Some (IntReply n, addAof l (persist key d)))"
  by (rule same_change, assumption) (auto simp: same_def persist_inv addAof_live live_other)

lemma keeps_execPersist: "db_inv db \<Longrightarrow> keeps e {args ! 0} db (execPersist e args db)"
  unfolding execPersist_def Let_def
  by (intro keeps_bind keeps_getEntity keeps_if) (auto simp: gindex_0 intro: keeps_same keeps_log_persist)

lemma move_ttl_keeps:
  assumes "db_inv d" "dmap d dest \<noteq> None"
  shows "db_inv (move_ttl e src dest t d)" "aof (move_ttl e src dest t d) = aof d"
    "versionMap (move_ttl e src dest t d) = versionMap d"
    "j \<noteq> src \<Longrightarrow> j \<noteq> dest \<Longrightarrow> live e (move_ttl e src dest t d) j = live e d j"
  using assms by (auto simp: move_ttl_def keeps_db split: option.splits)

text \<open>Renaming writes both keys, though it announces the destination alone.\<close>

lemma keeps_execRename:
  assumes "db_inv db" "src \<noteq> dest"
  shows "keeps e {src, dest} db (execRename e [src, dest] db)"
  unfolding execRename_def Let_def list.case
proof (intro keeps_getEntity keeps_option assms(1))
  fix d x y
  assume d: "same e db d"
  then show "keeps e {src, dest} db (Some (noKeyErr, d))" by (rule keeps_same)
  let ?d = "remove_key src (putEntity e dest y d)"
  have m: "db_inv ?d" "dmap ?d dest \<noteq> None" using d assms(2) by (simp_all add: same_def keeps_db)
  show "keeps e {src, dest} db (Some (OkReply, addAof (toCmdLine3 ''rename'' [src, dest]) (move_ttl e src dest (tmap d src) ?d)))"
    by (rule same_change [OF d]) (simp_all add: move_ttl_keeps [OF m] addAof_live live_other)
qed

lemma keeps_execRenameNx:
  assumes "db_inv db" "src \<noteq> dest"
  shows "keeps e {src, dest} db (execRenameNx e [src, dest] db)"
proof -
  obtain d1 y where g1: "getEntity e dest db = (d1, y)" by fastforce
  obtain d2 x where g2: "getEntity e src d1 = (d2, x)" by fastforce
  note s1 = getEntity_cases [OF same_refl [OF assms(1)] g1]
  note s2 = getEntity_cases [OF s1(1) g2]
  have "keeps e {src, dest} db (Some (IntReply 1, addAof l (move_ttl e src dest t (putEntity e dest z (fst (removes [src, dest] d2))))))"
    for l t z
  proof (rule same_change [OF s2(1)])
    obtain d3 n where r: "removes [src, dest] d2 = (d3, n)" by fastforce
    have d2: "db_inv d2" using s2(1) by (simp add: same_def)
    note rk = removes_keeps [OF d2 r, of e]
    have m: "db_inv (putEntity e dest z d3)" "dmap (putEntity e dest z d3) dest \<noteq> None" using rk by (simp_all add: putEntity_inv)
    show "db_inv (addAof l (move_ttl e src dest t (putEntity e dest z (fst (removes [src, dest] d2)))))"
      "versionMap (addAof l (move_ttl e src dest t (putEntity e dest z (fst (removes [src, dest] d2))))) = versionMap d2"
      "\<forall>j. j \<notin> {src, dest} \<longrightarrow> live e (addAof l (move_ttl e src dest t (putEntity e dest z (fst (removes [src, dest] d2))))) j = live e d2 j"
      unfolding r fst_conv using rk by (simp_all add: move_ttl_keeps [OF m] addAof_live live_other)
  qed simp
  then show ?thesis using s1(1) s2(1)
    by (auto simp: execRenameNx_def gindex_def g1 g2 Let_def intro: keeps_same split: option.split)
qed

end
