(* ===== verification/ListCmd.thy ===== *)
theory ListCmd
  imports StringCmd
begin

text \<open>
  The list commands, \<^verbatim>\<open>internal/command/list.go\<close>, on the list objects of \<open>ListObj\<close>. A handler changes the list in
  place: the key is rebound to an object with the new list. A nil byte string is the empty one.
\<close>

section \<open>Access\<close>

text \<open>The list of an entity, unless it is of another type.\<close>

definition entity_list :: "'z entity \<Rightarrow> listobj option" where
  "entity_list x =
     (case x of
        Obj r \<Rightarrow> if ro_type r \<noteq> TypeList then None else (case ro_ptr r of PList l \<Rightarrow> Some l | _ \<Rightarrow> None)
      | Bare (PList l) \<Rightarrow> Some l
      | Bare _ \<Rightarrow> None)"

definition getAsList :: "'f env \<Rightarrow> string \<Rightarrow> 'z DB \<Rightarrow> (reply + listobj option) \<times> 'z DB" where
  "getAsList e key db =
     (let (db1, x) = getEntity e key db in
      (case x of
         None \<Rightarrow> Inr None
       | Some entity \<Rightarrow> (case entity_list entity of None \<Rightarrow> Inl WrongTypeErrReply | Some l \<Rightarrow> Inr (Some l)), db1))"

definition list_entity :: "listobj \<Rightarrow> 'z entity" where
  "list_entity l = Obj (newRobj TypeList EncListpack (PList l))"

definition getOrInitList :: "'f env \<Rightarrow> string \<Rightarrow> 'z DB \<Rightarrow> (reply + listobj) \<times> 'z DB" where
  "getOrInitList e key db =
     (case getAsList e key db of
        (Inl err, db1) \<Rightarrow> (Inl err, db1)
      | (Inr (Some l), db1) \<Rightarrow> (Inr l, db1)
      | (Inr None, db1) \<Rightarrow> (Inr newList, putEntity e key (list_entity newList) db1))"

text \<open>The object of a key after its list has changed to \<open>l\<close>.\<close>

definition set_list :: "string \<Rightarrow> listobj \<Rightarrow> 'z DB \<Rightarrow> 'z DB" where
  "set_list key l db =
     (case dmap db key of
        None \<Rightarrow> db
      | Some (Obj r) \<Rightarrow> db\<lparr>data := gmap_set key (Obj (r\<lparr>ro_ptr := PList l\<rparr>)) (data db)\<rparr>
      | Some (Bare _) \<Rightarrow> db\<lparr>data := gmap_set key (Bare (PList l)) (data db)\<rparr>)"

text \<open>The list that a pointer obtained earlier from the key points to now.\<close>

definition list_at :: "string \<Rightarrow> 'z DB \<Rightarrow> listobj option" where
  "list_at key db = do { x \<leftarrow> dmap db key; entity_list x }"

definition with_list :: "'f env \<Rightarrow> string \<Rightarrow> ('z DB \<Rightarrow> 'z result) \<Rightarrow> (listobj \<Rightarrow> 'z DB \<Rightarrow> 'z result) \<Rightarrow> 'z DB \<Rightarrow> 'z result" where
  "with_list e key absent k db =
     (case getAsList e key db of
        (Inl err, db1) \<Rightarrow> Some (err, db1)
      | (Inr None, db1) \<Rightarrow> absent db1
      | (Inr (Some l), db1) \<Rightarrow> k l db1)"

text \<open>\<^verbatim>\<open>val, _ := raw.([]byte)\<close>, and the assertion that panics.\<close>

definition as_bytes :: "gany \<Rightarrow> bytes option" where
  "as_bytes g = (case g of GBytes b \<Rightarrow> Some b | _ \<Rightarrow> None)"

definition equals :: "gany \<Rightarrow> gany \<Rightarrow> bool" where
  "equals a b \<longleftrightarrow> a = b"

definition drop_empty :: "string \<Rightarrow> listobj \<Rightarrow> 'z DB \<Rightarrow> 'z DB option" where
  "drop_empty key l db =
     do { n \<leftarrow> lo_len l; Some (if n = 0 then remove_key key (set_list key l db) else set_list key l db) }"

definition syntaxErr :: reply where
  "syntaxErr = StandardErrReply ''ERR syntax error''"

definition argErr :: "string \<Rightarrow> reply" where
  "argErr cmd = StandardErrReply (''ERR wrong number of arguments for '' @ [CHR 0x27] @ cmd @ [CHR 0x27] @ '' command'')"

section \<open>Reading\<close>

text \<open>An index from either end, when it is inside.\<close>

definition list_index :: "int \<Rightarrow> int \<Rightarrow> int option" where
  "list_index sz index =
     (if index < - sz then None
      else if index < 0 then Some (sz + index)
      else if index \<ge> sz then None
      else Some index)"

definition execLIndex :: "'f env \<Rightarrow> string list \<Rightarrow> 'z DB \<Rightarrow> 'z result" where
  "execLIndex e args db =
     do { key \<leftarrow> gindex args 0;
          indexText \<leftarrow> gindex args 1;
          case parseInt indexText of
            None \<Rightarrow> Some (intErr, db)
          | Some index \<Rightarrow>
              with_list e key (\<lambda>db. Some (NullBulkReply, db)) (\<lambda>l db.
                do { sz \<leftarrow> lo_len l;
                     case list_index sz index of
                       None \<Rightarrow> Some (NullBulkReply, db)
                     | Some i \<Rightarrow> do { (raw, _) \<leftarrow> lo_get l i; Some (BulkReply (as_bytes raw), db) } }) db }"

definition execLLen :: "'f env \<Rightarrow> string list \<Rightarrow> 'z DB \<Rightarrow> 'z result" where
  "execLLen e args db =
     do { key \<leftarrow> gindex args 0;
          with_list e key (\<lambda>db. Some (IntReply 0, db)) (\<lambda>l db. do { sz \<leftarrow> lo_len l; Some (IntReply sz, db) }) db }"

text \<open>The bounds of LRANGE as a slice of the list; \<open>None\<close> is a start past the end.\<close>

definition range_bounds :: "int \<Rightarrow> int \<Rightarrow> int \<Rightarrow> (int \<times> int) option" where
  "range_bounds sz start stop =
     (if start \<ge> sz then None
      else
        let start' = (if start < - sz then 0 else if start < 0 then sz + start else start);
            stop' = (if stop < - sz then 0 else if stop < 0 then sz + stop + 1 else if stop < sz then stop + 1 else sz)
        in Some (start', if stop' < start' then start' else stop'))"

definition execLRange :: "'f env \<Rightarrow> string list \<Rightarrow> 'z DB \<Rightarrow> 'z result" where
  "execLRange e args db =
     do { key \<leftarrow> gindex args 0;
          startText \<leftarrow> gindex args 1;
          case parseInt startText of
            None \<Rightarrow> Some (intErr, db)
          | Some start \<Rightarrow>
              do { stopText \<leftarrow> gindex args 2;
                   case parseInt stopText of
                     None \<Rightarrow> Some (intErr, db)
                   | Some stop \<Rightarrow>
                       with_list e key (\<lambda>db. Some (EmptyMultiBulkReply, db)) (\<lambda>l db.
                         do { sz \<leftarrow> lo_len l;
                              case range_bounds sz start stop of
                                None \<Rightarrow> Some (EmptyMultiBulkReply, db)
                              | Some (i, j) \<Rightarrow> do { slice \<leftarrow> lo_range l i j; Some (MultiBulkReply (map as_bytes slice), db) } }) db } }"

text \<open>LPOS: the options (rank, count and maximal length; a missing one is -1), then the search from either side.\<close>

definition rankErr :: reply where
  "rankErr = StandardErrReply (''ERR RANK can'' @ [CHR 0x27] @
     ''t be zero: use 1 to start from the first match, 2 from the second ... or use negative to start from the end of the list'')"

fun lpos_opts :: "string list \<Rightarrow> int \<Rightarrow> int \<Rightarrow> int \<Rightarrow> reply + int \<times> int \<times> int" where
  "lpos_opts [] rank cnt maxlen = Inr (rank, cnt, maxlen)"
| "lpos_opts [a] rank cnt maxlen = Inl syntaxErr"
| "lpos_opts (a # b # rest) rank cnt maxlen =
     (let opt = toUpper a in
      if opt \<notin> {''RANK'', ''COUNT'', ''MAXLEN''} then Inl syntaxErr
      else case parseInt b of
        None \<Rightarrow> Inl intErr
      | Some v \<Rightarrow>
          if opt = ''RANK'' then (if v = 0 then Inl rankErr else lpos_opts rest v cnt maxlen)
          else if v < 0 then Inl intErr
          else if opt = ''COUNT'' then lpos_opts rest rank v maxlen
          else lpos_opts rest rank cnt v)"

definition lpos_forward :: "bytes \<Rightarrow> int \<Rightarrow> int \<Rightarrow> int \<Rightarrow> listobj \<Rightarrow> int list option" where
  "lpos_forward element rank cnt limit l =
     map_option snd (lo_forEach (\<lambda>(matchCount, matches) i v.
       Some (if int i \<ge> limit then ((matchCount, matches), False)
             else if equals v (GBytes element) then
               (let m = matchCount + 1 in
                if m \<ge> rank then
                  let matches' = matches @ [int i] in
                  ((m, matches'), \<not> (cnt < 0 \<or> cnt > 0 \<and> int (length matches') \<ge> cnt))
                else ((m, matches), True))
             else ((matchCount, matches), True))) l (0, []))"

text \<open>\<open>Inl\<close>: there are not enough matches.\<close>

definition lpos_backward :: "bytes \<Rightarrow> int \<Rightarrow> int \<Rightarrow> int \<Rightarrow> listobj \<Rightarrow> (unit + int list) option" where
  "lpos_backward element rank cnt limit l =
     do { allMatches \<leftarrow> lo_forEach (\<lambda>ms i v.
            Some (if int i \<ge> limit then (ms, False) else (if equals v (GBytes element) then ms @ [int i] else ms, True))) l [];
          let start = wrap64 (int (length allMatches) - wrap64 (- rank));
          if start < 0 then Some (Inl ())
          else if cnt < 0 then do { i \<leftarrow> gindex allMatches start; Some (Inr [i]) }
          else
            let stop = min (wrap64 (start + cnt)) (int (length allMatches)) in
            do { ms \<leftarrow> (if start < stop then gslice allMatches start stop else Some []); Some (Inr ms) } }"

definition lpos_reply :: "int \<Rightarrow> int list \<Rightarrow> reply" where
  "lpos_reply cnt matches =
     (if cnt \<ge> 0 then (if matches = [] then EmptyMultiBulkReply else MultiRawReply (map IntReply matches))
      else case matches of [] \<Rightarrow> NullBulkReply | i # _ \<Rightarrow> IntReply i)"

definition execLPos :: "'f env \<Rightarrow> string list \<Rightarrow> 'z DB \<Rightarrow> 'z result" where
  "execLPos e args db =
     (case args of
        key # element # rest \<Rightarrow>
          (case lpos_opts rest 1 (- 1) (- 1) of
             Inl err \<Rightarrow> Some (err, db)
           | Inr (rank, cnt, maxlen) \<Rightarrow>
               with_list e key (\<lambda>db. Some (lpos_reply cnt [], db)) (\<lambda>l db.
                 do { sz \<leftarrow> lo_len l;
                      let limit = (if maxlen \<ge> 0 \<and> maxlen < sz then maxlen else sz);
                      if rank > 0 then do { ms \<leftarrow> lpos_forward element rank cnt limit l; Some (lpos_reply cnt ms, db) }
                      else do { r \<leftarrow> lpos_backward element rank cnt limit l;
                                Some (case r of Inl _ \<Rightarrow> lpos_reply cnt [] | Inr ms \<Rightarrow> lpos_reply cnt ms, db) } }) db)
      | _ \<Rightarrow> Some (argErr ''lpos'', db))"

section \<open>Pushing\<close>

fun push_all :: "(listobj \<Rightarrow> gany \<Rightarrow> listobj option) \<Rightarrow> string list \<Rightarrow> listobj \<Rightarrow> listobj option" where
  "push_all f [] l = Some l"
| "push_all f (v # vs) l = do { l' \<leftarrow> f l (GBytes v); push_all f vs l' }"

abbreviation insert_front :: "'f env \<Rightarrow> listobj \<Rightarrow> gany \<Rightarrow> listobj option" where
  "insert_front e l v \<equiv> lo_insert (limits e) (growth e) l 0 v"

abbreviation append_last :: "'f env \<Rightarrow> listobj \<Rightarrow> gany \<Rightarrow> listobj option" where
  "append_last e l v \<equiv> lo_add (limits e) l v"

text \<open>The common bodies of LPUSH and RPUSH and of LPUSHX and RPUSHX.\<close>

definition push_log ::
  "string \<Rightarrow> (listobj \<Rightarrow> gany \<Rightarrow> listobj option) \<Rightarrow> string \<Rightarrow> string list \<Rightarrow> listobj \<Rightarrow> 'z DB \<Rightarrow> 'z result" where
  "push_log name f key args l db =
     do { l' \<leftarrow> push_all f (tl args) l;
          n \<leftarrow> lo_len l';
          Some (IntReply n, addAof (toCmdLine3 name args) (set_list key l' db)) }"

definition push_with ::
  "string \<Rightarrow> (listobj \<Rightarrow> gany \<Rightarrow> listobj option) \<Rightarrow> 'f env \<Rightarrow> string list \<Rightarrow> 'z DB \<Rightarrow> 'z result" where
  "push_with name f e args db =
     do { key \<leftarrow> gindex args 0;
          case getOrInitList e key db of
            (Inl err, db1) \<Rightarrow> Some (err, db1)
          | (Inr l, db1) \<Rightarrow> push_log name f key args l db1 }"

definition pushx_with ::
  "string \<Rightarrow> (listobj \<Rightarrow> gany \<Rightarrow> listobj option) \<Rightarrow> 'f env \<Rightarrow> string list \<Rightarrow> 'z DB \<Rightarrow> 'z result" where
  "pushx_with name f e args db =
     do { key \<leftarrow> gindex args 0;
          with_list e key (\<lambda>db. Some (IntReply 0, db)) (push_log name f key args) db }"

definition execLPush :: "'f env \<Rightarrow> string list \<Rightarrow> 'z DB \<Rightarrow> 'z result" where
  "execLPush e args db = push_with ''lpush'' (insert_front e) e args db"

definition execRPush :: "'f env \<Rightarrow> string list \<Rightarrow> 'z DB \<Rightarrow> 'z result" where
  "execRPush e args db = push_with ''rpush'' (append_last e) e args db"

definition execLPushX :: "'f env \<Rightarrow> string list \<Rightarrow> 'z DB \<Rightarrow> 'z result" where
  "execLPushX e args db = pushx_with ''lpushx'' (insert_front e) e args db"

definition execRPushX :: "'f env \<Rightarrow> string list \<Rightarrow> 'z DB \<Rightarrow> 'z result" where
  "execRPushX e args db =
     (if length args < 2 then Some (argErr ''rpush'', db) else pushx_with ''rpushx'' (append_last e) e args db)"

section \<open>Popping\<close>

abbreviation remove_front :: "listobj \<Rightarrow> (listobj \<times> gany) option" where
  "remove_front l \<equiv> lo_remove l 0"

fun pop_n :: "(listobj \<Rightarrow> (listobj \<times> gany) option) \<Rightarrow> nat \<Rightarrow> listobj \<Rightarrow> bytes list \<Rightarrow> (bytes list \<times> listobj) option" where
  "pop_n f 0 l vals = Some (vals, l)"
| "pop_n f (Suc n) l vals =
     do { (l', raw) \<leftarrow> f l; val \<leftarrow> as_bytes raw; pop_n f n l' (vals @ [val]) }"

definition pop_count ::
  "(listobj \<Rightarrow> (listobj \<times> gany) option) \<Rightarrow> string \<Rightarrow> int \<Rightarrow> listobj \<Rightarrow> 'z DB \<Rightarrow> (bytes list \<times> 'z DB) option" where
  "pop_count f key cnt l db =
     do { sz \<leftarrow> lo_len l;
          let n = (if cnt > sz then sz else cnt);
          if n < 0 then None
          else do { (vals, l') \<leftarrow> pop_n f (nat n) l []; db' \<leftarrow> drop_empty key l' db; Some (vals, db') } }"

definition pop_one ::
  "(listobj \<Rightarrow> (listobj \<times> gany) option) \<Rightarrow> string \<Rightarrow> listobj \<Rightarrow> 'z DB \<Rightarrow> (bytes option \<times> 'z DB) option" where
  "pop_one f key l db = do { (l', raw) \<leftarrow> f l; db' \<leftarrow> drop_empty key l' db; Some (as_bytes raw, db') }"

definition pop_with :: "string \<Rightarrow> (listobj \<Rightarrow> (listobj \<times> gany) option) \<Rightarrow> 'f env \<Rightarrow> string list \<Rightarrow> 'z DB \<Rightarrow> 'z result" where
  "pop_with name f e args db =
     do { key \<leftarrow> gindex args 0;
          with_list e key (\<lambda>db. Some (NullBulkReply, db)) (\<lambda>l db.
            if length args = 2 then
              (case parseInt (args ! 1) of
                 None \<Rightarrow> Some (intErr, db)
               | Some cnt \<Rightarrow>
                   do { (vals, db') \<leftarrow> pop_count f key cnt l db;
                        Some (MultiBulkReply (map Some vals), addAof (toCmdLine3 name args) db') })
            else do { (val, db') \<leftarrow> pop_one f key l db; Some (BulkReply val, addAof (toCmdLine3 name args) db') }) db }"

definition execLPop :: "'f env \<Rightarrow> string list \<Rightarrow> 'z DB \<Rightarrow> 'z result" where
  "execLPop e args db = pop_with ''lpop'' remove_front e args db"

definition execRPop :: "'f env \<Rightarrow> string list \<Rightarrow> 'z DB \<Rightarrow> 'z result" where
  "execRPop e args db = pop_with ''rpop'' lo_removeLast e args db"

definition prepareRPopLPush :: "string list \<Rightarrow> (string list \<times> string list) option" where
  "prepareRPopLPush args = do { s \<leftarrow> gindex args 0; d \<leftarrow> gindex args 1; Some ([s, d], []) }"

text \<open>Source and destination may be the same list, so each is read again where the code follows its pointer.\<close>

definition rpoplpush_apply :: "'f env \<Rightarrow> string list \<Rightarrow> string \<Rightarrow> string \<Rightarrow> 'z DB \<Rightarrow> 'z result" where
  "rpoplpush_apply e args sourceKey destKey db =
     do { l \<leftarrow> list_at sourceKey db;
          (l1, raw) \<leftarrow> lo_removeLast l;
          let db1 = set_list sourceKey l1 db;
          d \<leftarrow> list_at destKey db1;
          d1 \<leftarrow> insert_front e d (GBytes (case as_bytes raw of None \<Rightarrow> [] | Some b \<Rightarrow> b));
          let db2 = set_list destKey d1 db1;
          l2 \<leftarrow> list_at sourceKey db2;
          n \<leftarrow> lo_len l2;
          let db3 = (if n = 0 then remove_key sourceKey db2 else db2);
          Some (BulkReply (as_bytes raw), addAof (toCmdLine3 ''rpoplpush'' args) db3) }"

definition execRPopLPush :: "'f env \<Rightarrow> string list \<Rightarrow> 'z DB \<Rightarrow> 'z result" where
  "execRPopLPush e args db =
     do { sourceKey \<leftarrow> gindex args 0;
          destKey \<leftarrow> gindex args 1;
          with_list e sourceKey (\<lambda>db. Some (NullBulkReply, db)) (\<lambda>l db.
            case getOrInitList e destKey db of
              (Inl err, db1) \<Rightarrow> Some (err, db1)
            | (Inr _, db1) \<Rightarrow> rpoplpush_apply e args sourceKey destKey db1) db }"

definition prepareBLPop :: "string list \<Rightarrow> (string list \<times> string list) option" where
  "prepareBLPop args = (if args = [] then None else Some (butlast args, []))"

text \<open>The first list that is not empty; the event loop blocks on a null reply.\<close>

fun bpop_loop ::
  "string \<Rightarrow> (listobj \<Rightarrow> (listobj \<times> gany) option) \<Rightarrow> 'f env \<Rightarrow> string list \<Rightarrow> string list \<Rightarrow> 'z DB \<Rightarrow> 'z result" where
  "bpop_loop name f e args [] db = Some (NullBulkReply, db)"
| "bpop_loop name f e args (key # keys) db =
     with_list e key (bpop_loop name f e args keys) (\<lambda>l db.
       do { n \<leftarrow> lo_len l;
            if n > 0 then
              do { (val, db') \<leftarrow> pop_one f key l db;
                   Some (MultiBulkReply [Some key, val], addAof (toCmdLine3 name args) db') }
            else bpop_loop name f e args keys db }) db"

definition execBLPop :: "'f env \<Rightarrow> string list \<Rightarrow> 'z DB \<Rightarrow> 'z result" where
  "execBLPop e args db = (if args = [] then None else bpop_loop ''blpop'' remove_front e args (butlast args) db)"

definition execBRPop :: "'f env \<Rightarrow> string list \<Rightarrow> 'z DB \<Rightarrow> 'z result" where
  "execBRPop e args db = (if args = [] then None else bpop_loop ''brpop'' lo_removeLast e args (butlast args) db)"

text \<open>LMPOP. The keys are collected before the number of arguments is checked, which panics when they are too few.\<close>

definition prepareLMPop :: "string list \<Rightarrow> (string list \<times> string list) option" where
  "prepareLMPop args =
     do { t \<leftarrow> gindex args 0;
          case parseInt t of
            None \<Rightarrow> Some ([], [])
          | Some numKeys \<Rightarrow>
              if numKeys < 1 then Some ([], [])
              else if int (length args) < 1 + numKeys then None
              else Some (take (nat numKeys) (tl args), []) }"

fun lmpop_loop ::
  "(listobj \<Rightarrow> (listobj \<times> gany) option) \<Rightarrow> int \<Rightarrow> 'f env \<Rightarrow> string list \<Rightarrow> string list \<Rightarrow> 'z DB \<Rightarrow> 'z result" where
  "lmpop_loop f cnt e args [] db = Some (NullBulkReply, db)"
| "lmpop_loop f cnt e args (key # keys) db =
     with_list e key (lmpop_loop f cnt e args keys) (\<lambda>l db.
       do { n \<leftarrow> lo_len l;
            if n = 0 then lmpop_loop f cnt e args keys db
            else do { (vals, db') \<leftarrow> pop_count f key cnt l db;
                      Some (MultiRawReply [BulkReply (Some key), MultiBulkReply (map Some vals)],
                        addAof (toCmdLine3 ''lmpop'' args) db') } }) db"

definition lmpop_count :: "string list \<Rightarrow> reply + int" where
  "lmpop_count rest =
     (case rest of
        [] \<Rightarrow> Inr 1
      | opt # rest' \<Rightarrow>
          if toUpper opt \<noteq> ''COUNT'' then Inl syntaxErr
          else case rest' of
            [] \<Rightarrow> Inl syntaxErr
          | c # _ \<Rightarrow> (case parseInt c of None \<Rightarrow> Inl intErr | Some n \<Rightarrow> if n < 1 then Inl intErr else Inr n))"

definition execLMPop :: "'f env \<Rightarrow> string list \<Rightarrow> 'z DB \<Rightarrow> 'z result" where
  "execLMPop e args db =
     (if length args < 3 then Some (argErr ''lmpop'', db)
      else case parseInt (hd args) of
        None \<Rightarrow> Some (intErr, db)
      | Some numKeys \<Rightarrow>
          if numKeys < 1 then Some (intErr, db)
          else if int (length args) < wrap64 (numKeys + 2) then Some (argErr ''lmpop'', db)
          else do { d \<leftarrow> gindex args (wrap64 (1 + numKeys));
                    let direction = toUpper d;
                    if direction \<noteq> ''LEFT'' \<and> direction \<noteq> ''RIGHT'' then Some (syntaxErr, db)
                    else case lmpop_count (drop (nat (2 + numKeys)) args) of
                      Inl err \<Rightarrow> Some (err, db)
                    | Inr cnt \<Rightarrow>
                        lmpop_loop (if direction = ''LEFT'' then remove_front else lo_removeLast) cnt e args
                          (take (nat numKeys) (tl args)) db })"

section \<open>Changing elements\<close>

definition execLRem :: "'f env \<Rightarrow> string list \<Rightarrow> 'z DB \<Rightarrow> 'z result" where
  "execLRem e args db =
     do { key \<leftarrow> gindex args 0;
          countText \<leftarrow> gindex args 1;
          case parseInt countText of
            None \<Rightarrow> Some (intErr, db)
          | Some cnt \<Rightarrow>
              do { value \<leftarrow> gindex args 2;
                   with_list e key (\<lambda>db. Some (IntReply 0, db)) (\<lambda>l db.
                     let eq = (\<lambda>a. equals a (GBytes value)) in
                     do { (l', removed) \<leftarrow>
                            (if cnt = 0 then lo_removeAllByVal eq l
                             else if cnt > 0 then lo_removeByVal eq cnt l
                             else lo_reverseRemoveByVal eq (wrap64 (- cnt)) l);
                          db' \<leftarrow> drop_empty key l' db;
                          Some (IntReply (int removed), if removed > 0 then addAof (toCmdLine3 ''lrem'' args) db' else db') }) db } }"

definition indexErr :: reply where
  "indexErr = StandardErrReply ''ERR index out of range''"

definition execLSet :: "'f env \<Rightarrow> string list \<Rightarrow> 'z DB \<Rightarrow> 'z result" where
  "execLSet e args db =
     do { key \<leftarrow> gindex args 0;
          indexText \<leftarrow> gindex args 1;
          case parseInt indexText of
            None \<Rightarrow> Some (intErr, db)
          | Some index \<Rightarrow>
              do { value \<leftarrow> gindex args 2;
                   with_list e key (\<lambda>db. Some (StandardErrReply ''ERR no such key'', db)) (\<lambda>l db.
                     do { sz \<leftarrow> lo_len l;
                          case list_index sz index of
                            None \<Rightarrow> Some (indexErr, db)
                          | Some i \<Rightarrow>
                              do { l' \<leftarrow> lo_set l i (GBytes value);
                                   Some (OkReply, addAof (toCmdLine3 ''lset'' args) (set_list key l' db)) } }) db } }"

fun trim_loop :: "(listobj \<Rightarrow> (listobj \<times> gany) option) \<Rightarrow> nat \<Rightarrow> listobj \<Rightarrow> listobj option" where
  "trim_loop f 0 l = Some l"
| "trim_loop f (Suc n) l =
     do { len \<leftarrow> lo_len l; if len > 0 then do { (l', _) \<leftarrow> f l; trim_loop f n l' } else Some l }"

text \<open>A list that is trimmed to nothing stays.\<close>

definition ltrim_apply :: "string list \<Rightarrow> string \<Rightarrow> int \<Rightarrow> int \<Rightarrow> listobj \<Rightarrow> 'z DB \<Rightarrow> 'z result" where
  "ltrim_apply args key start stop l db =
     do { len \<leftarrow> lo_len l;
          let leftCount = (if start < 0 then start + len else start);
          let rightCount = len - (if stop < 0 then stop + len else stop) - 1;
          l1 \<leftarrow> trim_loop remove_front (nat leftCount) l;
          l2 \<leftarrow> trim_loop lo_removeLast (nat rightCount) l1;
          Some (OkReply, addAof (toCmdLine3 ''ltrim'' args) (set_list key l2 db)) }"

definition execLTrim :: "'f env \<Rightarrow> string list \<Rightarrow> 'z DB \<Rightarrow> 'z result" where
  "execLTrim e args db =
     (case args of
        [key, startText, stopText] \<Rightarrow>
          (case (parseInt startText, parseInt stopText) of
             (Some start, Some stop) \<Rightarrow> with_list e key (\<lambda>db. Some (OkReply, db)) (ltrim_apply args key start stop) db
           | _ \<Rightarrow> Some (intErr, db))
      | _ \<Rightarrow> Some (StandardErrReply (''ERR wrong number of arguments (given '' @ itoa (int (length args)) @ '', expected 3)''), db))"

text \<open>The first position of the pivot, or -1.\<close>

definition pivot_index :: "bytes \<Rightarrow> listobj \<Rightarrow> int option" where
  "pivot_index pivot l =
     lo_forEach (\<lambda>index i v. do { b \<leftarrow> as_bytes v; Some (if b = pivot then (int i, False) else (index, True)) }) l (- 1)"

definition linsert_apply :: "'f env \<Rightarrow> string list \<Rightarrow> string \<Rightarrow> string \<Rightarrow> bytes \<Rightarrow> bytes \<Rightarrow> listobj \<Rightarrow> 'z DB \<Rightarrow> 'z result" where
  "linsert_apply e args key dir pivot val l db =
     (if dir \<noteq> ''before'' \<and> dir \<noteq> ''after'' then Some (syntaxErr, db)
      else do { index \<leftarrow> pivot_index pivot l;
                if index = - 1 then Some (IntReply (- 1), db)
                else do { l' \<leftarrow> lo_insert (limits e) (growth e) l (if dir = ''before'' then index else index + 1) (GBytes val);
                          n \<leftarrow> lo_len l';
                          Some (IntReply n, addAof (toCmdLine3 ''linsert'' args) (set_list key l' db)) } })"

definition execLInsert :: "'f env \<Rightarrow> string list \<Rightarrow> 'z DB \<Rightarrow> 'z result" where
  "execLInsert e args db =
     (case args of
        [key, where_, pivot, val] \<Rightarrow>
          with_list e key (\<lambda>db. Some (IntReply 0, db)) (linsert_apply e args key (toLower where_) pivot val) db
      | _ \<Rightarrow> Some (argErr ''linsert'', db))"

section \<open>Undo logs\<close>

text \<open>The command lines that take a command back, made before it runs, with the database after the reads.\<close>

type_synonym 'z undo = "(cmdLine list \<times> 'z DB) option"

definition undo_list :: "'f env \<Rightarrow> string \<Rightarrow> (listobj \<Rightarrow> cmdLine list option) \<Rightarrow> 'z DB \<Rightarrow> 'z undo" where
  "undo_list e key k db =
     (case getAsList e key db of
        (Inr (Some l), db1) \<Rightarrow> map_option (\<lambda>ls. (ls, db1)) (k l)
      | (_, db1) \<Rightarrow> Some ([], db1))"

definition undo_pop :: "bool \<Rightarrow> 'f env \<Rightarrow> string list \<Rightarrow> 'z DB \<Rightarrow> 'z undo" where
  "undo_pop left e args db =
     do { key \<leftarrow> gindex args 0;
          undo_list e key (\<lambda>l.
            do { len \<leftarrow> lo_len l;
                 if len = 0 then Some []
                 else if length args = 2 then
                   (case parseInt (args ! 1) of
                      None \<Rightarrow> Some []
                    | Some cnt \<Rightarrow>
                        let n = (if cnt > len then len else cnt) in
                        if n < 0 then None
                        else do { vals \<leftarrow> (if left then lo_range l 0 n else lo_range l (len - n) len);
                                  elements \<leftarrow> (if n \<le> int (length vals) then those (map as_bytes (take (nat n) vals)) else None);
                                  Some [(if left then ''LPUSH'' else ''RPUSH'') # key # (if left then rev elements else elements)] })
                 else do { (raw, _) \<leftarrow> lo_get l (if left then 0 else len - 1);
                           Some [[if left then ''LPUSH'' else ''RPUSH'', key, (case as_bytes raw of None \<Rightarrow> [] | Some b \<Rightarrow> b)]] } }) db }"

definition undoLPop :: "'f env \<Rightarrow> string list \<Rightarrow> 'z DB \<Rightarrow> 'z undo" where "undoLPop e args db = undo_pop True e args db"
definition undoRPop :: "'f env \<Rightarrow> string list \<Rightarrow> 'z DB \<Rightarrow> 'z undo" where "undoRPop e args db = undo_pop False e args db"

definition undoLPush :: "string list \<Rightarrow> 'z DB \<Rightarrow> 'z undo" where
  "undoLPush args db = do { key \<leftarrow> gindex args 0; Some (replicate (length args - 1) [''LPOP'', key], db) }"

definition undoRPush :: "string list \<Rightarrow> 'z DB \<Rightarrow> 'z undo" where
  "undoRPush args db = do { key \<leftarrow> gindex args 0; Some (replicate (length args - 1) [''RPOP'', key], db) }"

definition undoLSet :: "'f env \<Rightarrow> string list \<Rightarrow> 'z DB \<Rightarrow> 'z undo" where
  "undoLSet e args db =
     do { key \<leftarrow> gindex args 0;
          indexText \<leftarrow> gindex args 1;
          case parseInt indexText of
            None \<Rightarrow> Some ([], db)
          | Some index \<Rightarrow>
              undo_list e key (\<lambda>l.
                do { sz \<leftarrow> lo_len l;
                     case list_index sz index of
                       None \<Rightarrow> Some []
                     | Some i \<Rightarrow>
                         do { (raw, _) \<leftarrow> lo_get l i;
                              Some [[''LSET'', key, indexText, (case as_bytes raw of None \<Rightarrow> [] | Some b \<Rightarrow> b)]] } }) db }"

definition undoRPopLPush :: "'f env \<Rightarrow> string list \<Rightarrow> 'z DB \<Rightarrow> 'z undo" where
  "undoRPopLPush e args db =
     do { sourceKey \<leftarrow> gindex args 0;
          undo_list e sourceKey (\<lambda>l.
            do { len \<leftarrow> lo_len l;
                 if len = 0 then Some []
                 else do { (raw, _) \<leftarrow> lo_get l (len - 1);
                           destKey \<leftarrow> gindex args 1;
                           Some [[''RPUSH'', sourceKey, (case as_bytes raw of None \<Rightarrow> [] | Some b \<Rightarrow> b)], [''LPOP'', destKey]] } }) db }"

section \<open>What the commands keep\<close>

lemma err_reply_more [simp]:
  "\<not> err_reply (MultiRawReply rs)" "\<not> err_reply EmptyMultiBulkReply" "err_reply syntaxErr" "err_reply (argErr c)" "err_reply indexErr"
  by (simp_all add: err_reply_def isErrorReply_def gindex_def syntaxErr_def argErr_def indexErr_def)

lemma lpos_reply_ok [simp]: "\<not> err_reply (lpos_reply cnt ms)"
  by (simp add: lpos_reply_def split: list.split)

lemma set_list_fields [simp]:
  "ttlMap (set_list k l db) = ttlMap db" "aof (set_list k l db) = aof db" "versionMap (set_list k l db) = versionMap db"
  "dom (dmap (set_list k l db)) = dom (dmap db)" "j \<noteq> k \<Longrightarrow> dmap (set_list k l db) j = dmap db j"
  by (auto simp: set_list_def split: option.split entity.split)

lemma set_list_keeps: "db_inv (set_list k l db) = db_inv db" "j \<noteq> k \<Longrightarrow> live e (set_list k l db) j = live e db j"
  by (simp_all add: db_inv_def live_def)

lemma set_list_at: "list_at k db = Some l0 \<Longrightarrow> list_at k (set_list k l db) = Some l"
  by (auto simp: list_at_def set_list_def entity_list_def split: option.splits entity.splits if_splits bind_splits)

lemma getAsList_cases:
  assumes "same e db d0" "getAsList e key d0 = (r, d)"
  shows "same e db d" "purged e key d" "r = Inr (Some l) \<Longrightarrow> list_at key d = Some l"
    "r = Inr None \<Longrightarrow> live e d key = None" "r = Inl err \<Longrightarrow> err_reply err"
proof -
  obtain x where g: "getEntity e key d0 = (d, x)" using assms(2) by (auto simp: getAsList_def split: prod.splits)
  note c = getEntity_cases [OF assms(1) g]
  show "same e db d" "purged e key d" by (rule c)+
  show "r = Inr (Some l) \<Longrightarrow> list_at key d = Some l" "r = Inr None \<Longrightarrow> live e d key = None" "r = Inl err \<Longrightarrow> err_reply err"
    using assms(2) g c(3) by (auto simp: getAsList_def list_at_def dest: live_dmap split: option.splits)
qed

lemma keeps_with_list:
  assumes "same e db d0" "\<And>d. same e db d \<Longrightarrow> purged e key d \<Longrightarrow> keeps e W db (absent d)"
    "\<And>l d. same e db d \<Longrightarrow> purged e key d \<Longrightarrow> list_at key d = Some l \<Longrightarrow> keeps e W db (k l d)"
  shows "keeps e W db (with_list e key absent k d0)"
proof -
  obtain r d where g: "getAsList e key d0 = (r, d)" by fastforce
  note c = getAsList_cases [OF assms(1) g]
  consider err where "r = Inl err" | "r = Inr None" | l where "r = Inr (Some l)" by (metis sum.exhaust option.exhaust)
  then show ?thesis
    by cases (use c assms(2,3) in \<open>auto simp: with_list_def g keeps_same\<close>)
qed

lemma keeps_set_list:
  assumes "same e db d" "\<not> err_reply r" "key \<in> W"
  shows "keeps e W db (Some (r, addAof line (set_list key l d)))"
proof (rule same_change [OF assms(1)])
  have "j \<noteq> key" if "j \<notin> W" for j using that assms(3) by blast
  then show "\<forall>j. j \<notin> W \<longrightarrow> live e (addAof line (set_list key l d)) j = live e d j" by (simp add: addAof_live set_list_keeps)
qed (use assms in \<open>simp_all add: same_def addAof_live set_list_keeps\<close>)

lemma drop_empty_keeps:
  assumes "drop_empty key l d = Some d'" "db_inv d"
  shows "db_inv d'" "j \<noteq> key \<Longrightarrow> live e d' j = live e d j" "versionMap d' = versionMap d"
  using assms by (auto simp: drop_empty_def set_list_keeps remove_key_inv live_other split: bind_splits)

lemma keeps_drop_empty:
  assumes "same e db d" "drop_empty key l d = Some d'" "\<not> err_reply r" "key \<in> W"
  shows "keeps e W db (Some (r, addAof line d'))" "keeps e W db (Some (r, d'))"
proof -
  have d: "db_inv d" using assms(1) by (simp add: same_def)
  have "live e d' j = live e d j" if "j \<notin> W" for j
  proof -
    have "j \<noteq> key" using that assms(4) by blast
    then show ?thesis by (rule drop_empty_keeps(2) [OF assms(2) d])
  qed
  then show "keeps e W db (Some (r, addAof line d'))" "keeps e W db (Some (r, d'))"
    using drop_empty_keeps(1,3) [OF assms(2) d] assms(3) by (auto simp: addAof_live intro!: same_change [OF assms(1)])
qed

lemma keeps_execLIndex: "db_inv db \<Longrightarrow> keeps e {} db (execLIndex e args db)"
  unfolding execLIndex_def by (intro keeps_intro keeps_with_list same_refl) (auto simp: same_def)

lemma keeps_execLLen: "db_inv db \<Longrightarrow> keeps e {} db (execLLen e args db)"
  unfolding execLLen_def by (intro keeps_intro keeps_with_list same_refl) (auto simp: same_def)

lemma keeps_execLRange: "db_inv db \<Longrightarrow> keeps e {} db (execLRange e args db)"
  unfolding execLRange_def by (intro keeps_intro keeps_with_list same_refl) (auto simp: same_def)

lemma keeps_execLPos: "db_inv db \<Longrightarrow> keeps e {} db (execLPos e args db)"
proof -
  assume db: "db_inv db"
  show ?thesis
  proof (cases "\<exists>key element rest. args = key # element # rest")
    case True
    then obtain key element rest where a: "args = key # element # rest" by blast
    show ?thesis unfolding execLPos_def a list.case Let_def
      using db by (intro keeps_intro keeps_with_list same_refl) (auto simp: same_def split: sum.splits)
  next
    case False
    then have "execLPos e args db = Some (argErr ''lpos'', db)" by (auto simp: execLPos_def split: list.split)
    then show ?thesis using db by (simp add: keeps_same same_refl)
  qed
qed

lemma keeps_push_log: "same e db d \<Longrightarrow> keeps e {key} db (push_log name f key args l d)"
  unfolding push_log_def by (intro keeps_bind keeps_set_list) auto

text \<open>A list that is made for a push and the list in it: one change.\<close>

lemma getOrInitList_cases:
  assumes "same e db d0" "getOrInitList e key d0 = (r, d)"
  shows "db_inv d" "aof d = aof db" "versionMap d = versionMap db" "j \<noteq> key \<Longrightarrow> live e d j = live e db j" "r = Inr l \<Longrightarrow> list_at key d = Some l"
    "r = Inl err \<Longrightarrow> err_reply err \<and> same e db d"
proof -
  obtain r1 d1 where g: "getAsList e key d0 = (r1, d1)" by fastforce
  note c = getAsList_cases [OF assms(1) g]
  have n: "entity_list (list_entity newList) = Some newList" by (simp add: entity_list_def list_entity_def newRobj_def)
  consider x where "r1 = Inl x" | "r1 = Inr None" | x where "r1 = Inr (Some x)" by (metis sum.exhaust option.exhaust)
  then show "db_inv d" "aof d = aof db" "versionMap d = versionMap db" "j \<noteq> key \<Longrightarrow> live e d j = live e db j" "r = Inr l \<Longrightarrow> list_at key d = Some l"
    "r = Inl err \<Longrightarrow> err_reply err \<and> same e db d"
    using assms(2) c n
    by (cases; auto simp: getOrInitList_def g same_def putEntity_inv live_other list_at_def)+
qed

lemma keeps_change:
  assumes "db_inv d" "versionMap d = versionMap db" "\<And>j. j \<notin> W \<Longrightarrow> live e d j = live e db j" "\<not> err_reply r"
  shows "keeps e W db (Some (r, d))"
  using assms by (intro keeps_Some) auto

lemma keeps_push_with: "db_inv db \<Longrightarrow> keeps e {args ! 0} db (push_with name f e args db)"
proof -
  assume db: "db_inv db"
  have "keeps e {key} db (case getOrInitList e key db of (Inl err, d) \<Rightarrow> Some (err, d) | (Inr l, d) \<Rightarrow> push_log name f key args l d)"
    for key
  proof -
    obtain r d where g: "getOrInitList e key db = (r, d)" by fastforce
    note c = getOrInitList_cases [OF same_refl [OF db] g]
    show ?thesis
    proof (cases r)
      case (Inl err)
      then show ?thesis using c(6) by (simp add: g keeps_same)
    next
      case (Inr l)
      then show ?thesis unfolding g prod.case Inr sum.case push_log_def
        by (intro keeps_bind keeps_change) (use c in \<open>auto simp: addAof_live set_list_keeps\<close>)
    qed
  qed
  then show ?thesis unfolding push_with_def by (intro keeps_bind) (simp add: gindex_0)
qed

lemma keeps_pushx_with: "db_inv db \<Longrightarrow> keeps e {args ! 0} db (pushx_with name f e args db)"
  unfolding pushx_with_def by (intro keeps_bind keeps_with_list same_refl) (auto simp: gindex_0 keeps_same intro: keeps_push_log)

lemma keeps_execRPushX: "db_inv db \<Longrightarrow> keeps e {args ! 0} db (execRPushX e args db)"
  by (simp add: execRPushX_def keeps_pushx_with keeps_same same_refl)

lemma keeps_popped:
  assumes "same e db d" "\<not> err_reply r" "key \<in> W"
  shows "pop_count f key cnt l d = Some (vals, d') \<Longrightarrow> keeps e W db (Some (r, addAof line d'))"
    "pop_one f key l d = Some (val, d') \<Longrightarrow> keeps e W db (Some (r, addAof line d'))"
proof -
  have "keeps e W db (Some (r, addAof line d'))" if "drop_empty key l' d = Some d'" for l'
    using keeps_drop_empty(1) [OF assms(1) that assms(2,3)] .
  then show "pop_count f key cnt l d = Some (vals, d') \<Longrightarrow> keeps e W db (Some (r, addAof line d'))"
    "pop_one f key l d = Some (val, d') \<Longrightarrow> keeps e W db (Some (r, addAof line d'))"
    by (auto simp: pop_count_def pop_one_def Let_def split: bind_splits if_splits)
qed

lemma keeps_pop_with: "db_inv db \<Longrightarrow> keeps e {args ! 0} db (pop_with name f e args db)"
  unfolding pop_with_def
  by (rule keeps_bind, rule keeps_with_list [OF same_refl], assumption, simp add: keeps_same,
      intro keeps_if keeps_option keeps_bind keeps_prod)
     (auto simp: gindex_0 keeps_same intro: keeps_popped)

lemma keeps_bpop_loop: "same e db d \<Longrightarrow> set keys \<subseteq> W \<Longrightarrow> keeps e W db (bpop_loop name f e args keys d)"
proof (induction keys arbitrary: d)
  case (Cons key keys)
  show ?case unfolding bpop_loop.simps
    by (rule keeps_with_list [OF Cons.prems(1)], use Cons in simp, intro keeps_bind keeps_if keeps_prod)
       (use Cons in \<open>auto intro: keeps_popped\<close>)
qed (simp add: keeps_same)

lemma keeps_lmpop_loop: "same e db d \<Longrightarrow> set keys \<subseteq> W \<Longrightarrow> keeps e W db (lmpop_loop f cnt e args keys d)"
proof (induction keys arbitrary: d)
  case (Cons key keys)
  show ?case unfolding lmpop_loop.simps
    by (rule keeps_with_list [OF Cons.prems(1)], use Cons in simp, intro keeps_bind keeps_if keeps_prod)
       (use Cons in \<open>auto intro: keeps_popped\<close>)
qed (simp add: keeps_same)

lemma keeps_execBLPop: "db_inv db \<Longrightarrow> prepareBLPop args = Some (W, R) \<Longrightarrow> keeps e (set W) db (execBLPop e args db)"
  by (auto simp: execBLPop_def prepareBLPop_def keeps_None same_refl keeps_bpop_loop split: if_splits)

lemma keeps_execBRPop: "db_inv db \<Longrightarrow> prepareBLPop args = Some (W, R) \<Longrightarrow> keeps e (set W) db (execBRPop e args db)"
  by (auto simp: execBRPop_def prepareBLPop_def keeps_None same_refl keeps_bpop_loop split: if_splits)

lemma keeps_execLMPop:
  assumes "db_inv db" "prepareLMPop args = Some (W, R)"
  shows "keeps e (set W) db (execLMPop e args db)"
proof (cases "length args < 3")
  case False
  then obtain a rest where a: "args = a # rest" by (cases args) auto
  have "set (take (nat n) rest) \<subseteq> set W" if "parseInt a = Some n" "\<not> n < 1" for n
    using assms(2) that by (auto simp: prepareLMPop_def a gindex_def split: if_splits)
  then show ?thesis using False unfolding execLMPop_def a Let_def
    by (intro keeps_if keeps_option keeps_bind keeps_sum) (auto simp: keeps_same same_refl assms(1) intro!: keeps_lmpop_loop)
qed (simp add: execLMPop_def keeps_same same_refl assms(1))

lemma keeps_rpoplpush_apply:
  assumes "db_inv d" "versionMap d = versionMap db" "\<And>j. j \<noteq> dest \<Longrightarrow> live e d j = live e db j"
  shows "keeps e {src, dest} db (rpoplpush_apply e args src dest d)"
  unfolding rpoplpush_apply_def Let_def
  by (intro keeps_bind keeps_prod keeps_change) (auto simp: assms addAof_live set_list_keeps remove_key_inv live_other)

lemma keeps_execRPopLPush:
  assumes "db_inv db" "prepareRPopLPush args = Some (W, R)"
  shows "keeps e (set W) db (execRPopLPush e args db)"
proof -
  obtain src dest where a: "gindex args 0 = Some src" "gindex args 1 = Some dest" "W = [src, dest]"
    using assms(2) by (auto simp: prepareRPopLPush_def split: bind_splits)
  have "keeps e (set W) db (case getOrInitList e dest d of (Inl err, d1) \<Rightarrow> Some (err, d1)
      | (Inr _, d1) \<Rightarrow> rpoplpush_apply e args src dest d1)" if "same e db d" for d
  proof -
    obtain r d1 where g: "getOrInitList e dest d = (r, d1)" by fastforce
    note c = getOrInitList_cases [OF that g]
    show ?thesis using c by (cases r) (simp_all add: g keeps_same a(3) keeps_rpoplpush_apply)
  qed
  then show ?thesis unfolding execRPopLPush_def a(1,2)
    by (simp add: keeps_with_list same_refl assms(1) keeps_same)
qed

lemma keeps_execLRem: "db_inv db \<Longrightarrow> keeps e {args ! 0} db (execLRem e args db)"
  unfolding execLRem_def Let_def
  by (intro keeps_option keeps_bind keeps_with_list same_refl keeps_prod)
     (auto simp: gindex_0 keeps_same same_refl intro: keeps_drop_empty)

lemma keeps_execLSet: "db_inv db \<Longrightarrow> keeps e {args ! 0} db (execLSet e args db)"
  unfolding execLSet_def
  by (intro keeps_option keeps_bind keeps_with_list same_refl keeps_set_list) (auto simp: gindex_0 keeps_same same_refl)

lemma keeps_execLTrim: "db_inv db \<Longrightarrow> keeps e {args ! 0} db (execLTrim e args db)"
proof -
  assume db: "db_inv db"
  have "keeps e {key} db (ltrim_apply args key i j l d)" if "same e db d" for key i j l d
    unfolding ltrim_apply_def Let_def by (intro keeps_bind keeps_set_list that) auto
  then show ?thesis
    by (auto simp: execLTrim_def keeps_same same_refl db intro!: keeps_with_list split: list.split option.split)
qed

lemma keeps_execLInsert: "db_inv db \<Longrightarrow> keeps e {args ! 0} db (execLInsert e args db)"
proof -
  assume db: "db_inv db"
  have "keeps e {key} db (linsert_apply e args key dir pivot val l d)" if "same e db d" for key dir pivot val l d
    unfolding linsert_apply_def by (intro keeps_if keeps_bind keeps_set_list) (auto simp: that keeps_same)
  then show ?thesis
    by (auto simp: execLInsert_def keeps_same same_refl db intro!: keeps_with_list split: list.split)
qed

section \<open>Lists as sequences\<close>

text \<open>Every list of the database is well formed; the sequence of a key, where an absent key is the empty one.\<close>

definition lists_ok :: "'f env \<Rightarrow> 'z DB \<Rightarrow> bool" where
  "lists_ok e db \<longleftrightarrow> thresholds_ok (limits e) \<and> (\<forall>k l. list_at k db = Some l \<longrightarrow> lo_inv (limits e) l)"

definition list_view :: "'f env \<Rightarrow> 'z DB \<Rightarrow> string \<Rightarrow> bytes list option" where
  "list_view e db key =
     (case live e db key of None \<Rightarrow> Some [] | Some (x, _) \<Rightarrow> map_option lo_vals (entity_list x))"

lemma lists_ok_remove: "lists_ok e db \<Longrightarrow> lists_ok e (remove_key k db)"
  by (auto simp: lists_ok_def list_at_def split: if_splits)

lemma lists_ok_addAof [simp]: "lists_ok e (addAof l db) = lists_ok e db"
  by (simp add: lists_ok_def list_at_def)

lemma list_view_addAof [simp]: "list_view e (addAof l db) = list_view e db"
  by (simp add: list_view_def addAof_live fun_eq_iff)

lemma list_view_at: "live e db k \<noteq> None \<Longrightarrow> list_at k db = Some l \<Longrightarrow> list_view e db k = Some (lo_vals l)"
  by (auto simp: list_view_def list_at_def live_dmap)

lemma set_list_view:
  assumes "lists_ok e db" "list_at k db = Some l0" "live e db k \<noteq> None" "lo_inv (limits e) l"
  shows "lists_ok e (set_list k l db)" "list_view e (set_list k l db) k = Some (lo_vals l)" "live e (set_list k l db) k \<noteq> None"
proof -
  have other: "list_at j (set_list k l db) = list_at j db" if "j \<noteq> k" for j using that by (simp add: list_at_def)
  have "dmap (set_list k l db) k \<noteq> None" using assms(2) by (auto simp: list_at_def set_list_def split: bind_splits entity.split)
  then show lv: "live e (set_list k l db) k \<noteq> None"
    using assms(3) by (auto simp: live_def visible_def split: option.splits)
  show "lists_ok e (set_list k l db)"
    unfolding lists_ok_def
  proof (intro conjI allI impI)
    fix j l1
    assume "list_at j (set_list k l db) = Some l1"
    then show "lo_inv (limits e) l1"
      using assms(1,4) other [of j] set_list_at [OF assms(2), of l] by (cases "j = k") (auto simp: lists_ok_def)
  qed (use assms(1) in \<open>simp add: lists_ok_def\<close>)
  show "list_view e (set_list k l db) k = Some (lo_vals l)"
    using list_view_at [OF lv set_list_at [OF assms(2)]] .
qed

lemma getAsList_view:
  assumes "db_inv db" "lists_ok e db" "list_view e db key = Some xs" "getAsList e key db = (r, d)"
  obtains (absent) "r = Inr None" "xs = []" "same e db d" "lists_ok e d" "purged e key d" "live e d key = None"
  | (list) l where "r = Inr (Some l)" "same e db d" "lists_ok e d" "lo_inv (limits e) l" "lo_vals l = xs" "list_at key d = Some l"
      "live e d key \<noteq> None"
proof -
  obtain x where g: "getEntity e key db = (d, x)" using assms(4) by (auto simp: getAsList_def split: prod.splits)
  have r: "r = (case x of None \<Rightarrow> Inr None | Some y \<Rightarrow> (case entity_list y of None \<Rightarrow> Inl WrongTypeErrReply | Some l \<Rightarrow> Inr (Some l)))"
    using assms(4) by (simp add: getAsList_def g)
  note c = getEntity_cases [OF same_refl [OF assms(1)] g]
  have dm: "dmap d k = Some y \<Longrightarrow> dmap db k = Some y" for k y
    using getEntity_maps(1) [of e key db] g by (auto split: if_splits)
  then have ok: "lists_ok e d" using assms(2) by (fastforce simp: lists_ok_def list_at_def split: bind_splits)
  have lv: "live e d = live e db" using c(1) by (simp add: same_def)
  show ?thesis
  proof (cases "live e d key")
    case None
    then show ?thesis using absent c ok lv assms(3) r by (simp add: list_view_def)
  next
    case (Some y)
    then obtain z t where y: "live e d key = Some (z, t)" by (cases y) auto
    then obtain l where l: "entity_list z = Some l" "lo_vals l = xs" using assms(3) lv by (auto simp: list_view_def)
    then have la: "list_at key d = Some l" using live_dmap [OF y] by (simp add: list_at_def)
    then have "lo_inv (limits e) l" using ok by (auto simp: lists_ok_def)
    then show ?thesis using list [of l] c ok l la y r by simp
  qed
qed

lemma getOrInitList_view:
  assumes "db_inv db" "lists_ok e db" "list_view e db key = Some xs" "getOrInitList e key db = (r, d)"
  obtains l where "r = Inr l" "db_inv d" "lists_ok e d" "lo_inv (limits e) l" "lo_vals l = xs" "list_at key d = Some l"
      "live e d key \<noteq> None"
proof -
  obtain r1 d1 where g: "getAsList e key db = (r1, d1)" by fastforce
  show ?thesis
  proof (cases rule: getAsList_view [OF assms(1-3) g])
    case 1
    let ?d = "putEntity e key (list_entity newList) d1"
    have n: "entity_list (list_entity newList) = Some newList" by (simp add: entity_list_def list_entity_def newRobj_def)
    have inv: "lo_inv (limits e) newList" using assms(2) by (auto simp: lists_ok_def newList_spec)
    have "lists_ok e ?d" using 1 inv by (auto simp: lists_ok_def list_at_def n split: if_splits)
    moreover have "live e ?d key \<noteq> None" using 1 by (simp add: putEntity_live same_def)
    ultimately show ?thesis
      using that [of newList] 1 assms(4) inv n
      by (auto simp: getOrInitList_def g newList_spec list_at_def same_def putEntity_inv)
  next
    case (2 l)
    then show ?thesis using that [of l] assms(4) by (auto simp: getOrInitList_def g same_def)
  qed
qed

lemma push_all_spec:
  assumes "lo_inv (limits e) l" "\<forall>v \<in> set vs. go_str v"
  shows "\<exists>l'. push_all (append_last e) vs l = Some l' \<and> lo_inv (limits e) l' \<and> lo_vals l' = lo_vals l @ vs"
    "\<exists>l'. push_all (insert_front e) vs l = Some l' \<and> lo_inv (limits e) l' \<and> lo_vals l' = rev vs @ lo_vals l"
  using assms
proof (induction vs arbitrary: l)
  case (Cons v vs)
  { case 1
    obtain l1 where l1: "append_last e l (GBytes v) = Some l1" "lo_inv (limits e) l1" "lo_vals l1 = lo_vals l @ [v]"
      using lo_add_spec [of "limits e" l v] 1 by auto
    then show ?case using Cons.IH(1) [of l1] 1 by auto
  next
    case 2
    obtain l1 where l1: "insert_front e l (GBytes v) = Some l1" "lo_inv (limits e) l1" "lo_vals l1 = v # lo_vals l"
      using lo_insert_spec [of "limits e" l v 0 "growth e"] 2 by (auto simp: list_insert_def)
    then show ?case using Cons.IH(2) [of l1] 2 by auto }
qed auto

lemma push_spec:
  assumes "db_inv db" "lists_ok e db" "list_view e db key = Some xs"
    and push: "\<And>l. lo_inv (limits e) l \<Longrightarrow> \<exists>l'. push_all f vs l = Some l' \<and> lo_inv (limits e) l' \<and> lo_vals l' = g (lo_vals l)"
  shows "\<exists>d. push_with name f e (key # vs) db = Some (IntReply (int (length (g xs))), d) \<and> db_inv d \<and> lists_ok e d \<and>
    list_view e d key = Some (g xs)"
proof -
  obtain r d where i: "getOrInitList e key db = (r, d)" by fastforce
  obtain l where l: "r = Inr l" "db_inv d" "lists_ok e d" "lo_inv (limits e) l" "lo_vals l = xs" "list_at key d = Some l" "live e d key \<noteq> None"
    using getOrInitList_view [OF assms(1-3) i] by blast
  obtain l' where l': "push_all f vs l = Some l'" "lo_inv (limits e) l'" "lo_vals l' = g xs" using push [OF l(4)] l(5) by auto
  show ?thesis
    using l l' set_list_view [OF l(3,6,7) l'(2)]
    by (simp add: push_with_def gindex_def i push_log_def lo_len_spec addAof_live set_list_keeps)
qed

lemma pop_spec:
  assumes "db_inv db" "lists_ok e db" "list_view e db key = Some xs" "xs \<noteq> []"
    and pop: "\<And>l. lo_inv (limits e) l \<Longrightarrow> lo_vals l \<noteq> [] \<Longrightarrow>
      \<exists>l'. f l = Some (l', GBytes (h (lo_vals l))) \<and> lo_inv (limits e) l' \<and> lo_vals l' = g (lo_vals l)"
  shows "\<exists>d. pop_with name f e [key] db = Some (BulkReply (Some (h xs)), d) \<and> db_inv d \<and> lists_ok e d \<and>
    list_view e d key = Some (g xs) \<and> (live e d key = None \<longleftrightarrow> g xs = [])"
proof -
  obtain r d where i: "getAsList e key db = (r, d)" by fastforce
  show ?thesis
  proof (cases rule: getAsList_view [OF assms(1-3) i])
    case 1
    then show ?thesis using assms(4) by simp
  next
    case (2 l)
    obtain l' where l': "f l = Some (l', GBytes (h xs))" "lo_inv (limits e) l'" "lo_vals l' = g xs" using pop 2 assms(4) by metis
    note s = set_list_view [OF 2(3,6,7) l'(2)]
    let ?d = "if g xs = [] then remove_key key (set_list key l' d) else set_list key l' d"
    have "pop_one f key l d = Some (Some (h xs), ?d)"
      using l' by (simp add: pop_one_def drop_empty_def lo_len_spec as_bytes_def)
    then show ?thesis using 2 i l' s
      by (auto simp: pop_with_def gindex_def with_list_def addAof_live same_def set_list_keeps remove_key_inv lists_ok_remove
          remove_key_live list_view_def split: if_splits)
  qed
qed

text \<open>Popping a number of elements, from the front (\<open>r\<close> the identity) or from the end (\<open>r\<close> the
  reversal): a number above the length takes them all.\<close>

lemma pop_n_spec:
  assumes "\<And>l. lo_inv (limits e) l \<Longrightarrow> lo_vals l \<noteq> [] \<Longrightarrow>
      \<exists>l'. f l = Some (l', GBytes (hd (r (lo_vals l)))) \<and> lo_inv (limits e) l' \<and> r (lo_vals l') = tl (r (lo_vals l))"
    "\<And>ys. length (r ys) = length ys" "lo_inv (limits e) l" "n \<le> length (lo_vals l)"
  shows "\<exists>l'. pop_n f n l vals = Some (vals @ take n (r (lo_vals l)), l') \<and> lo_inv (limits e) l' \<and> r (lo_vals l') = drop n (r (lo_vals l))"
  using assms(3,4)
proof (induction n arbitrary: l vals)
  case (Suc n)
  then have ne: "lo_vals l \<noteq> []" by auto
  obtain l1 where l1: "f l = Some (l1, GBytes (hd (r (lo_vals l))))" "lo_inv (limits e) l1" "r (lo_vals l1) = tl (r (lo_vals l))"
    using assms(1) [OF Suc.prems(1) ne] by blast
  have len: "length (lo_vals l1) = length (lo_vals l) - 1" using assms(2) [of "lo_vals l1"] assms(2) [of "lo_vals l"] l1(3) by simp
  obtain x xs where x: "r (lo_vals l) = x # xs" using ne assms(2) [of "lo_vals l"] by (cases "r (lo_vals l)") auto
  have "n \<le> length (lo_vals l1)" using len Suc.prems(2) by linarith
  from Suc.IH [OF l1(2) this, of "vals @ [x]"] show ?case using l1 x by (auto simp: as_bytes_def)
qed simp

lemma pop_count_spec:
  assumes "db_inv db" "lists_ok e db" "list_view e db key = Some xs" "xs \<noteq> []" "parseInt c = Some n" "0 \<le> n"
    and pop: "\<And>l. lo_inv (limits e) l \<Longrightarrow> lo_vals l \<noteq> [] \<Longrightarrow>
      \<exists>l'. f l = Some (l', GBytes (hd (r (lo_vals l)))) \<and> lo_inv (limits e) l' \<and> r (lo_vals l') = tl (r (lo_vals l))"
    and r: "\<And>ys. length (r ys) = length ys" "\<And>ys. r (r ys) = ys"
  shows "\<exists>d. pop_with name f e [key, c] db = Some (MultiBulkReply (map Some (take (nat n) (r xs))), d) \<and> db_inv d \<and> lists_ok e d \<and>
    list_view e d key = Some (r (drop (nat n) (r xs))) \<and> (live e d key = None \<longleftrightarrow> int (length xs) \<le> n)"
proof -
  obtain g d where i: "getAsList e key db = (g, d)" by fastforce
  show ?thesis
  proof (cases rule: getAsList_view [OF assms(1-3) i])
    case 1
    then show ?thesis using assms(4) by simp
  next
    case (2 l)
    define m where "m = min (nat n) (length xs)"
    have m: "nat (if int (length xs) < n then int (length xs) else n) = m"
      using assms(6) unfolding m_def min_def by (auto simp: nat_le_iff)
    have tk: "take m (r xs) = take (nat n) (r xs)" "drop m (r xs) = drop (nat n) (r xs)" using r(1) [of xs] by (auto simp: m_def min_def)
    obtain l' where l': "pop_n f m l [] = Some (take (nat n) (r xs), l')" "lo_inv (limits e) l'" "r (lo_vals l') = drop (nat n) (r xs)"
      using pop_n_spec [OF pop r(1) 2(4), of m "[]"] 2 tk by (auto simp: m_def)
    have v: "lo_vals l' = r (drop (nat n) (r xs))" using l'(3) r(2) by metis
    have e: "lo_vals l' = [] \<longleftrightarrow> int (length xs) \<le> n"
      using r(1) [of "lo_vals l'"] r(1) [of xs] l'(3) assms(6) by (metis drop_eq_Nil length_0_conv nat_le_iff of_nat_le_iff zle_int int_nat_eq)
    note s = set_list_view [OF 2(3,6,7) l'(2)]
    let ?d = "if lo_vals l' = [] then remove_key key (set_list key l' d) else set_list key l' d"
    have "pop_count f key n l d = Some (take (nat n) (r xs), ?d)"
      using l' 2 m assms(6) by (simp add: pop_count_def drop_empty_def lo_len_spec Let_def)
    then show ?thesis using 2 i l' s assms(5) e v
      by (auto simp: pop_with_def gindex_def with_list_def addAof_live same_def set_list_keeps remove_key_inv lists_ok_remove
          remove_key_live list_view_def split: if_splits)
  qed
qed

lemma pop_ends:
  assumes "lo_inv t l" "lo_vals l \<noteq> []"
  shows "\<exists>l'. lo_remove l 0 = Some (l', GBytes (hd (lo_vals l))) \<and> lo_inv t l' \<and> lo_vals l' = tl (lo_vals l)"
    "\<exists>l'. lo_removeLast l = Some (l', GBytes (last (lo_vals l))) \<and> lo_inv t l' \<and> lo_vals l' = butlast (lo_vals l)"
  using lo_remove_spec [OF assms(1), of 0] lo_removeLast_spec [OF assms(1)] assms(2)
  by (cases "lo_vals l"; auto simp: list_remove_def)+

lemma pop_end_rev:
  assumes "lo_inv t l" "lo_vals l \<noteq> []"
  shows "\<exists>l'. lo_removeLast l = Some (l', GBytes (hd (rev (lo_vals l)))) \<and> lo_inv t l' \<and> rev (lo_vals l') = tl (rev (lo_vals l))"
  using pop_ends(2) [OF assms] butlast_rev [of "rev (lo_vals l)"] by (auto simp: hd_rev)

text \<open>What LRANGE should return: the elements from one end to the other, both included.\<close>

definition range_ref :: "int \<Rightarrow> int \<Rightarrow> 'a list \<Rightarrow> 'a list" where
  "range_ref i j xs =
     (let n = int (length xs); lo = max 0 (if i < 0 then n + i else i); hi = min (n - 1) (if j < 0 then n + j else j)
      in take (nat (hi - lo + 1)) (drop (nat lo) xs))"

lemma range_bounds_eq:
  assumes "1 \<le> n"
  shows "range_bounds n i j =
    (let lo = max 0 (if i < 0 then n + i else i); hi = min (n - 1) (if j < 0 then n + j else j) in
     if lo \<ge> n then None else Some (lo, max lo (hi + 1)))"
  using assms by (simp add: range_bounds_def Let_def max_def min_def)

lemma range_bounds_ref:
  assumes "xs \<noteq> []"
  shows "case range_bounds (int (length xs)) i j of
      None \<Rightarrow> range_ref i j xs = []
    | Some (a, b) \<Rightarrow> 0 \<le> a \<and> a < int (length xs) \<and> a \<le> b \<and> b \<le> int (length xs) \<and>
        range_ref i j xs = take (nat (b - a)) (drop (nat a) xs)"
proof -
  have n: "1 \<le> int (length xs)" using assms by (cases xs) auto
  have t: "nat (max lo (hi + 1) - lo) = nat (hi - lo + 1)" for lo hi :: int by (auto simp: max_def algebra_simps)
  show ?thesis unfolding range_bounds_eq [OF n] range_ref_def Let_def by (auto simp: t)
qed

section \<open>Properties\<close>

text \<open>A command replies \<open>r\<close> and leaves the key with the sequence \<open>ys\<close> and every other key as it was.\<close>

definition list_step :: "'f env \<Rightarrow> 'z DB \<Rightarrow> string \<Rightarrow> 'z result \<Rightarrow> reply \<Rightarrow> bytes list \<Rightarrow> bool" where
  "list_step e db key x r ys \<longleftrightarrow>
     (\<exists>d. x = Some (r, d) \<and> db_inv d \<and> lists_ok e d \<and> list_view e d key = Some ys \<and> (\<forall>j. j \<noteq> key \<longrightarrow> live e d j = live e db j))"

lemma list_stepI:
  assumes "\<exists>d. x = Some (r, d) \<and> db_inv d \<and> lists_ok e d \<and> list_view e d key = Some ys \<and> P d" "keeps e {key} db x"
  shows "list_step e db key x r ys"
  using assms by (auto simp: list_step_def keeps_def)

text \<open>C17. The list commands act on the sequence of a key: RPUSH appends its arguments, LPUSH puts them in front in
  reverse, and on a list that is not empty LPOP and RPOP remove and return the first and the last element or, with a
  count that is not negative, that many elements from the front and from the end (all of them when there are fewer).
  None of these panics, in either encoding of the list and across the conversion, and no other key changes. A negative
  count and a list that LTRIM has emptied are not covered: the code panics on both.\<close>

theorem list_commands_refine_seq:
  assumes "db_inv db" "lists_ok e db" "list_view e db key = Some xs" "\<forall>v \<in> set vs. go_str v"
  shows "list_step e db key (execRPush e (key # vs) db) (IntReply (int (length (xs @ vs)))) (xs @ vs) \<and>
    list_step e db key (execLPush e (key # vs) db) (IntReply (int (length (rev vs @ xs)))) (rev vs @ xs) \<and>
    (xs \<noteq> [] \<longrightarrow>
      list_step e db key (execLPop e [key] db) (BulkReply (Some (hd xs))) (tl xs) \<and>
      list_step e db key (execRPop e [key] db) (BulkReply (Some (last xs))) (butlast xs) \<and>
      (\<forall>c n. parseInt c = Some n \<longrightarrow> 0 \<le> n \<longrightarrow>
        list_step e db key (execLPop e [key, c] db) (MultiBulkReply (map Some (take (nat n) xs))) (drop (nat n) xs) \<and>
        list_step e db key (execRPop e [key, c] db) (MultiBulkReply (map Some (take (nat n) (rev xs))))
          (rev (drop (nat n) (rev xs)))))"
proof (intro conjI impI allI)
  note keep = keeps_push_with [OF assms(1), of e "key # vs", simplified] keeps_pop_with [OF assms(1), of e "[key]", simplified]
  show "list_step e db key (execRPush e (key # vs) db) (IntReply (int (length (xs @ vs)))) (xs @ vs)"
    unfolding execRPush_def using push_spec [OF assms(1-3) push_all_spec(1) [OF _ assms(4)], of "''rpush''"] keep
    by (intro list_stepI [where P = "\<lambda>_. True"]) auto
  show "list_step e db key (execLPush e (key # vs) db) (IntReply (int (length (rev vs @ xs)))) (rev vs @ xs)"
    unfolding execLPush_def using push_spec [OF assms(1-3) push_all_spec(2) [OF _ assms(4)], of "''lpush''"] keep
    by (intro list_stepI [where P = "\<lambda>_. True"]) auto
  assume xs: "xs \<noteq> []"
  show "list_step e db key (execLPop e [key] db) (BulkReply (Some (hd xs))) (tl xs)"
    unfolding execLPop_def using pop_spec [OF assms(1-3) xs, of remove_front hd tl "''lpop''"] keep pop_ends(1)
    by (intro list_stepI) auto
  show "list_step e db key (execRPop e [key] db) (BulkReply (Some (last xs))) (butlast xs)"
    unfolding execRPop_def using pop_spec [OF assms(1-3) xs, of lo_removeLast last butlast "''rpop''"] keep pop_ends(2)
    by (intro list_stepI) auto
  fix c n assume n: "parseInt c = Some n" "0 \<le> n"
  note keep2 = keeps_pop_with [OF assms(1), of e "[key, c]", simplified]
  show "list_step e db key (execLPop e [key, c] db) (MultiBulkReply (map Some (take (nat n) xs))) (drop (nat n) xs)"
    unfolding execLPop_def using pop_count_spec [OF assms(1-3) xs n, of remove_front id "''lpop''"] keep2 pop_ends(1)
    by (intro list_stepI) auto
  show "list_step e db key (execRPop e [key, c] db) (MultiBulkReply (map Some (take (nat n) (rev xs)))) (rev (drop (nat n) (rev xs)))"
    unfolding execRPop_def using pop_count_spec [OF assms(1-3) xs n, of lo_removeLast rev "''rpop''"] keep2 pop_end_rev
    by (intro list_stepI) auto
qed

lemma default_lists_ok: "lists_ok default_env makeDB" "db_inv makeDB" "list_view default_env makeDB k = Some []"
  by (simp_all add: lists_ok_def default_env_def thresholds_ok_def defaultEncodingThresholds_def makeDB_def list_at_def db_inv_def
      list_view_def live_def)

theorem list_commands_refine_seq_witness:
  "\<exists>d d' d''. execRPush default_env [''k'', ''a'', ''b'', ''c''] (makeDB :: unit DB) = Some (IntReply 3, d) \<and>
     execLPop default_env [''k''] d = Some (BulkReply (Some ''a''), d') \<and> list_view default_env d' ''k'' = Some [''b'', ''c''] \<and>
     execRPop default_env [''k'', ''7''] d' = Some (MultiBulkReply [Some ''c'', Some ''b''], d'') \<and> list_view default_env d'' ''k'' = Some []"
proof -
  obtain d where d: "execRPush default_env [''k'', ''a'', ''b'', ''c''] (makeDB :: unit DB) = Some (IntReply 3, d)" "db_inv d"
      "lists_ok default_env d" "list_view default_env d ''k'' = Some [''a'', ''b'', ''c'']"
    using list_commands_refine_seq [OF default_lists_ok(2,1,3), of "[''a'', ''b'', ''c'']" "''k''"]
    by (auto simp: list_step_def go_str_def)
  obtain d' where d': "execLPop default_env [''k''] d = Some (BulkReply (Some ''a''), d')" "db_inv d'" "lists_ok default_env d'"
      "list_view default_env d' ''k'' = Some [''b'', ''c'']"
    using list_commands_refine_seq [OF d(2,3,4), of "[]"] by (auto simp: list_step_def)
  have "parseInt ''7'' = Some 7" by code_simp
  then have "list_step default_env d' ''k'' (execRPop default_env [''k'', ''7''] d')
      (MultiBulkReply (map Some (take (nat 7) (rev [''b'', ''c''])))) (rev (drop (nat 7) (rev [''b'', ''c''])))"
    using list_commands_refine_seq [OF d'(2,3,4), of "[]"] by (metis empty_iff list.set(1) list.simps(3) zero_le_numeral)
  then show ?thesis using d(1) d' by (auto simp: list_step_def)
qed

text \<open>C18. On a list that is not empty, LRANGE returns the elements between its two positions, both included and either
  counted from the end when negative, whatever the positions are; it changes nothing that is seen. (On a list in pages
  that LTRIM has emptied, \<open>LRANGE k -1 0\<close> panics: lemma \<open>lrange_emptied_panics\<close>.)\<close>

theorem lrange_spec:
  assumes "db_inv db" "lists_ok e db" "list_view e db key = Some xs" "parseInt a = Some i" "parseInt b = Some j" "xs \<noteq> []"
  shows "\<exists>r d. execLRange e [key, a, b] db = Some (r, d) \<and> toBytes r = toBytes (MultiBulkReply (map Some (range_ref i j xs))) \<and>
    same e db d"
proof -
  obtain r d where g: "getAsList e key db = (r, d)" by fastforce
  show ?thesis
  proof (cases rule: getAsList_view [OF assms(1-3) g])
    case 1
    then show ?thesis using assms(6) by simp
  next
    case (2 l)
    have z: "gindex [key, a, b] 0 = Some key" "gindex [key, a, b] 1 = Some a" "gindex [key, a, b] 2 = Some b"
      by (simp_all add: gindex_def)
    have len: "lo_len l = Some (int (length xs))" using 2 by (simp add: lo_len_spec)
    note rb = range_bounds_ref [OF assms(6), of i j]
    show ?thesis
    proof (cases "range_bounds (int (length xs)) i j")
      case None
      then show ?thesis using 2 rb by (simp add: execLRange_def z assms(4,5) with_list_def g len itoa_def dec_def)
    next
      case (Some ab)
      then obtain s t where st: "range_bounds (int (length xs)) i j = Some (s, t)" by (cases ab) auto
      have "lo_range l s t = Some (map GBytes (range_ref i j xs))"
        using lo_range_spec [OF 2(4), of s t] rb st 2(5) by simp
      then show ?thesis using 2 by (simp add: execLRange_def z assms(4,5) with_list_def g len st as_bytes_def comp_def)
    qed
  qed
qed

lemma example_list:
  obtains d where "execRPush default_env [''k'', ''a'', ''b''] (makeDB :: unit DB) = Some (IntReply 2, d)" "db_inv d"
    "lists_ok default_env d" "list_view default_env d ''k'' = Some [''a'', ''b'']"
  using push_spec [OF default_lists_ok(2,1,3) push_all_spec(1), of "[''a'', ''b'']" "''rpush''" "''k''"]
  by (auto simp: execRPush_def go_str_def)

theorem lrange_spec_witness:
  "\<exists>d r d'. execRPush default_env [''k'', ''a'', ''b''] (makeDB :: unit DB) = Some (IntReply 2, d) \<and>
     execLRange default_env [''k'', ''-1'', ''5''] d = Some (r, d') \<and> toBytes r = toBytes (MultiBulkReply [Some ''b''])"
proof -
  obtain d where d: "execRPush default_env [''k'', ''a'', ''b''] (makeDB :: unit DB) = Some (IntReply 2, d)" "db_inv d"
      "lists_ok default_env d" "list_view default_env d ''k'' = Some [''a'', ''b'']"
    by (rule example_list)
  have p: "parseInt ''-1'' = Some (- 1)" "parseInt ''5'' = Some 5" by code_simp+
  have "range_ref (- 1) 5 [''a'', ''b''] = [''b'']" by (simp add: range_ref_def)
  then obtain r d' where "execLRange default_env [''k'', ''-1'', ''5''] d = Some (r, d')" "toBytes r = toBytes (MultiBulkReply [Some ''b''])"
    using lrange_spec [OF d(2,3,4) p] by auto
  then show ?thesis using d(1) by blast
qed

lemma trim_all:
  "lo_inv t l \<Longrightarrow> \<exists>l'. trim_loop lo_removeLast (length (lo_vals l)) l = Some l' \<and> lo_inv t l' \<and> lo_vals l' = []"
proof (induction "length (lo_vals l)" arbitrary: l)
  case (Suc n)
  obtain l1 where l1: "lo_removeLast l = Some (l1, GBytes (last (lo_vals l)))" "lo_inv t l1" "lo_vals l1 = butlast (lo_vals l)"
    using lo_removeLast_spec [OF Suc.prems] Suc.hyps(2) by (cases "lo_vals l = []") auto
  have "n = length (lo_vals l1)" using Suc.hyps(2) l1(3) by simp
  then obtain l' where "trim_loop lo_removeLast n l1 = Some l'" "lo_inv t l'" "lo_vals l' = []"
    using Suc.hyps(1) [of l1] l1(2) by auto
  moreover have "lo_len l = Some (int (Suc n))" using Suc by (simp add: lo_len_spec)
  ultimately show ?case using l1(1) Suc.hyps(2) [symmetric] by simp
qed auto

lemma lrange_emptied_panics:
  assumes "getAsList e key db = (Inr (Some l), d)" "lo_ql l ql []"
  shows "execLRange e [key, ''-1'', ''0''] db = None"
proof -
  have p: "parseInt ''-1'' = Some (- 1)" "parseInt ''0'' = Some 0" by code_simp+
  have z: "ql_len ql = 0" using assms(2) by (simp add: lo_ql_def ql_len_def ql_inv_def ql_flat_def)
  then have r: "lo_len l = Some 0" "lo_range l 0 0 = None"
    using assms(2) by (simp_all add: lo_len_def lo_range_def lo_ql_def ql_range_def)
  have "gindex [key, ''-1'', ''0''] 2 = Some ''0''" "gindex [key, ''-1'', ''0''] 1 = Some ''-1''" by (simp_all add: gindex_def)
  then show ?thesis using assms(1) p r by (simp add: execLRange_def with_list_def range_bounds_def gindex_def)
qed

text \<open>C37. A list that LTRIM empties is not deleted: trimming to the empty range of the positions 1 to 0 leaves the key
  with an empty list, though the comment of the command says that the list is deleted; every other command that
  empties a list deletes its key.\<close>

theorem ltrim_keeps_empty_list:
  assumes "db_inv db" "lists_ok e db" "list_view e db key = Some xs" "xs \<noteq> []"
  shows "\<exists>d. execLTrim e [key, ''1'', ''0''] db = Some (OkReply, d) \<and> list_view e d key = Some [] \<and> live e d key \<noteq> None"
proof -
  obtain r d where g: "getAsList e key db = (r, d)" by fastforce
  have p: "parseInt ''1'' = Some 1" "parseInt ''0'' = Some 0" by code_simp+
  show ?thesis
  proof (cases rule: getAsList_view [OF assms(1-3) g])
    case 1
    then show ?thesis using assms(4) by simp
  next
    case (2 l)
    obtain l1 where l1: "lo_remove l 0 = Some (l1, GBytes (hd xs))" "lo_inv (limits e) l1" "lo_vals l1 = tl xs"
      using lo_remove_spec [OF 2(4), of 0] 2(5) assms(4) by (cases xs) (auto simp: list_remove_def)
    have len: "lo_len l = Some (int (length xs))" "int (length xs) > 0" using 2 assms(4) by (simp_all add: lo_len_spec)
    have "nat (int (length xs) - 0 - 1) = length (lo_vals l1)" by (simp add: l1(3))
    then obtain l2 where l2: "trim_loop lo_removeLast (nat (int (length xs) - 0 - 1)) l1 = Some l2" "lo_inv (limits e) l2" "lo_vals l2 = []"
      using trim_all [OF l1(2)] by auto
    have "trim_loop remove_front (nat 1) l = Some l1" using l1(1) len by simp
    then show ?thesis using 2 g len l2 set_list_view [OF 2(3,6,7) l2(2)]
      by (simp add: execLTrim_def p with_list_def ltrim_apply_def addAof_live)
  qed
qed

theorem ltrim_keeps_empty_list_witness:
  "\<exists>d d'. execRPush default_env [''k'', ''a'', ''b''] (makeDB :: unit DB) = Some (IntReply 2, d) \<and>
     execLTrim default_env [''k'', ''1'', ''0''] d = Some (OkReply, d') \<and> live default_env d' ''k'' \<noteq> None"
proof -
  obtain d where d: "execRPush default_env [''k'', ''a'', ''b''] (makeDB :: unit DB) = Some (IntReply 2, d)" "db_inv d"
      "lists_ok default_env d" "list_view default_env d ''k'' = Some [''a'', ''b'']"
    by (rule example_list)
  then show ?thesis using ltrim_keeps_empty_list [OF d(2,3,4)] by auto
qed

end
