(* ===== verification/Commands.thy ===== *)
theory Commands
  imports KeysCmd ListCmd
begin

text \<open>
  The command table and the execution of command lines: \<^verbatim>\<open>router.go\<close>, the dispatch of \<^verbatim>\<open>database.go\<close>, the undo logs of
  transactions (\<^verbatim>\<open>tx_utils.go\<close>) and the versions that WATCH compares, with the serialisation of entities of
  \<^verbatim>\<open>persist/aof/marshal.go\<close>. The table holds the commands of \<^verbatim>\<open>string.go\<close>, \<^verbatim>\<open>keys.go\<close>, \<^verbatim>\<open>list.go\<close> and
  \<^verbatim>\<open>transaction.go\<close> but KEYS, SCAN and RANDOMKEY; a line that names a command of another file is outside the model,
  and what is shown of a name that is not in the table concerns names the program does not know either. One command
  runs at a time (what the key locks grant is shown in \<open>ShardLocks\<close>); there is no memory limit, and the notifications
  of clients, which leave the database as it is, are left out. The clock stands still during a transaction.
\<close>

section \<open>Keys of a command\<close>

type_synonym keys = "string list \<times> string list"

definition readFirstKey :: "string list \<Rightarrow> keys option" where
  "readFirstKey args = do { key \<leftarrow> gindex args 0; Some ([], [key]) }"

definition writeFirstKey :: "string list \<Rightarrow> keys option" where
  "writeFirstKey args = do { key \<leftarrow> gindex args 0; Some ([key], []) }"

definition writeAllKeys :: "string list \<Rightarrow> keys option" where
  "writeAllKeys args = Some (args, [])"

definition readAllKeys :: "string list \<Rightarrow> keys option" where
  "readAllKeys args = Some ([], args)"

definition prepareMGet :: "string list \<Rightarrow> keys option" where
  "prepareMGet args = Some ([], args)"

definition prepareRename :: "string list \<Rightarrow> keys option" where
  "prepareRename args = do { src \<leftarrow> gindex args 0; dest \<leftarrow> gindex args 1; Some ([dest], [src]) }"

section \<open>Entities as commands\<close>

text \<open>
  The command line that makes an entity; \<open>None\<close> is the nil reply of a value that has none. The arguments are a slice made
  for as many elements as the object counts, which the iteration fills. What other commands store is printed by \<open>oc\<close>.
\<close>

definition fill :: "nat \<Rightarrow> string list \<Rightarrow> string list option" where
  "fill n vals = (if length vals > n then None else Some (vals @ replicate (n - length vals) []))"

definition stringToCmd :: "string \<Rightarrow> bytes \<Rightarrow> cmdLine" where
  "stringToCmd key b = [''SET'', key, b]"

definition objectListToCmd :: "string \<Rightarrow> listobj \<Rightarrow> cmdLine option" where
  "objectListToCmd key l =
     do { n \<leftarrow> lo_len l;
          vals \<leftarrow> lo_forEach (\<lambda>acc i val. Some (acc @ [bytes_of val], True)) l [];
          args \<leftarrow> fill (nat n) vals;
          Some (''RPUSH'' # key # args) }"

definition setToCmd :: "string \<Rightarrow> string list \<Rightarrow> cmdLine" where
  "setToCmd key members = ''SADD'' # key # members"

definition objectSetToCmd :: "string \<Rightarrow> setobj \<Rightarrow> cmdLine option" where
  "objectSetToCmd key s =
     do { n \<leftarrow> set_len (Some s);
          vals \<leftarrow> set_forEach (Some s) (\<lambda>acc val. Some (acc @ [val], True)) [];
          args \<leftarrow> fill n vals;
          Some (''SADD'' # key # args) }"

definition hashToCmd :: "string \<Rightarrow> gany simpleDict \<Rightarrow> cmdLine option" where
  "hashToCmd key d =
     do { vals \<leftarrow> sd_forEach d (\<lambda>acc field val. Some (acc @ [field, bytes_of val], True)) [];
          args \<leftarrow> fill (sd_len d * 2) vals;
          Some (''HMSET'' # key # args) }"

definition objectHashToCmd :: "string \<Rightarrow> hash \<Rightarrow> cmdLine option" where
  "objectHashToCmd key h =
     do { n \<leftarrow> hash_len h;
          vals \<leftarrow> hash_forEach h (\<lambda>acc field val.
            Some (acc @ [field, (case val of GBytes v \<Rightarrow> v | GStr v \<Rightarrow> v | _ \<Rightarrow> [])], True)) [];
          args \<leftarrow> fill (n * 2) vals;
          Some (''HMSET'' # key # args) }"

definition robjToCmd :: "(string \<Rightarrow> 'z \<Rightarrow> cmdLine option) \<Rightarrow> string \<Rightarrow> 'z ptr robj \<Rightarrow> cmdLine option" where
  "robjToCmd oc key r =
     (case ro_type r of
        TypeString \<Rightarrow>
          (case ro_ptr r of PStr g \<Rightarrow> map_option (stringToCmd key) (getStringBytes (newRobj (ro_type r) (ro_enc r) g)) | _ \<Rightarrow> None)
      | TypeList \<Rightarrow> (case ro_ptr r of PList l \<Rightarrow> objectListToCmd key l | _ \<Rightarrow> None)
      | TypeSet \<Rightarrow> (case ro_ptr r of PSet s \<Rightarrow> objectSetToCmd key s | PLegacySet ms \<Rightarrow> Some (setToCmd key ms) | _ \<Rightarrow> None)
      | TypeHash \<Rightarrow> (case ro_ptr r of PHash h \<Rightarrow> objectHashToCmd key h | _ \<Rightarrow> None)
      | TypeZSet \<Rightarrow> (case ro_ptr r of POther z \<Rightarrow> oc key z | _ \<Rightarrow> None)
      | TypeStream \<Rightarrow> None)"

definition entityToCmd :: "(string \<Rightarrow> 'z \<Rightarrow> cmdLine option) \<Rightarrow> string \<Rightarrow> 'z entity \<Rightarrow> cmdLine option" where
  "entityToCmd oc key x =
     (case x of
        Obj r \<Rightarrow> robjToCmd oc key r
      | Bare (PStr (GBytes b)) \<Rightarrow> Some (stringToCmd key b)
      | Bare (PList l) \<Rightarrow> objectListToCmd key l
      | Bare (PSet s) \<Rightarrow> objectSetToCmd key s
      | Bare (PLegacySet ms) \<Rightarrow> Some (setToCmd key ms)
      | Bare (PDict d) \<Rightarrow> hashToCmd key d
      | Bare (POther z) \<Rightarrow> oc key z
      | Bare _ \<Rightarrow> None)"

definition toTTLCmd :: "string \<Rightarrow> 'z DB \<Rightarrow> cmdLine" where
  "toTTLCmd key db =
     (case tmap db key of
        None \<Rightarrow> [''PERSIST'', key]
      | Some expireTime \<Rightarrow> [''PEXPIREAT'', key, itoa (go_div (go_div (wrap64 expireTime) 1000) 1000)])"

section \<open>Undo logs\<close>

type_synonym 'z other = "string \<Rightarrow> 'z \<Rightarrow> cmdLine option"

text \<open>A value without a command line panics here.\<close>

fun rollbackGivenKeys :: "'z other \<Rightarrow> 'f env \<Rightarrow> string list \<Rightarrow> 'z DB \<Rightarrow> 'z undo" where
  "rollbackGivenKeys oc e [] db = Some ([], db)"
| "rollbackGivenKeys oc e (key # keys) db =
     (let (db1, x) = getEntity e key db in
      do { lines \<leftarrow> (case x of
             None \<Rightarrow> Some [[''DEL'', key]]
           | Some entity \<Rightarrow> do { cmd \<leftarrow> entityToCmd oc key entity; Some [[''DEL'', key], cmd, toTTLCmd key db1] });
           (rest, db2) \<leftarrow> rollbackGivenKeys oc e keys db1;
           Some (lines @ rest, db2) })"

definition rollbackFirstKey :: "'z other \<Rightarrow> 'f env \<Rightarrow> string list \<Rightarrow> 'z DB \<Rightarrow> 'z undo" where
  "rollbackFirstKey oc e args db = do { key \<leftarrow> gindex args 0; rollbackGivenKeys oc e [key] db }"

definition undoDel :: "'z other \<Rightarrow> 'f env \<Rightarrow> string list \<Rightarrow> 'z DB \<Rightarrow> 'z undo" where
  "undoDel oc e args db = rollbackGivenKeys oc e args db"

definition undoRename :: "'z other \<Rightarrow> 'f env \<Rightarrow> string list \<Rightarrow> 'z DB \<Rightarrow> 'z undo" where
  "undoRename oc e args db =
     do { src \<leftarrow> gindex args 0; dest \<leftarrow> gindex args 1; rollbackGivenKeys oc e [src, dest] db }"

definition undoMSet :: "'z other \<Rightarrow> 'f env \<Rightarrow> string list \<Rightarrow> 'z DB \<Rightarrow> 'z undo" where
  "undoMSet oc e args db = rollbackGivenKeys oc e (fst (prepareMSet args)) db"

definition undoExpire :: "string list \<Rightarrow> 'z DB \<Rightarrow> 'z undo" where
  "undoExpire args db = do { key \<leftarrow> gindex args 0; Some ([toTTLCmd key db], db) }"

section \<open>The command table\<close>

record ('f, 'z) "command" =
  executor :: "'f env \<Rightarrow> string list \<Rightarrow> 'z DB \<Rightarrow> 'z result"
  prepare :: "string list \<Rightarrow> keys option"
  undo :: "('f env \<Rightarrow> string list \<Rightarrow> 'z DB \<Rightarrow> 'z undo) option"
  arity :: int
  flags :: nat

definition flagWrite :: nat where "flagWrite = 0"
definition flagReadOnly :: nat where "flagReadOnly = 1"

text \<open>The names are given in lower case.\<close>

definition registerCommand ::
  "string \<Rightarrow> ('f env \<Rightarrow> string list \<Rightarrow> 'z DB \<Rightarrow> 'z result) \<Rightarrow> (string list \<Rightarrow> keys option) \<Rightarrow>
   ('f env \<Rightarrow> string list \<Rightarrow> 'z DB \<Rightarrow> 'z undo) option \<Rightarrow> int \<Rightarrow> nat \<Rightarrow> string \<times> ('f, 'z) command" where
  "registerCommand name ex pre rollback ar fl =
     (name, \<lparr>executor = ex, prepare = pre, undo = rollback, arity = ar, flags = fl\<rparr>)"

definition execGetVersion :: "string list \<Rightarrow> 'z DB \<Rightarrow> 'z result" where
  "execGetVersion args db = do { key \<leftarrow> gindex args 0; Some (IntReply (int (getVersion key db)), db) }"

definition stringTable :: "'z other \<Rightarrow> (string \<times> ('f, 'z) command) list" where
  "stringTable oc =
    [registerCommand ''set'' execSet writeFirstKey (Some (rollbackFirstKey oc)) (- 3) flagWrite,
     registerCommand ''setnx'' execSetNX writeFirstKey (Some (rollbackFirstKey oc)) 3 flagWrite,
     registerCommand ''setex'' execSetEX writeFirstKey (Some (rollbackFirstKey oc)) 4 flagWrite,
     registerCommand ''psetex'' execPSetEX writeFirstKey (Some (rollbackFirstKey oc)) 4 flagWrite,
     registerCommand ''mset'' execMSet (\<lambda>args. Some (prepareMSet args)) (Some (undoMSet oc)) (- 3) flagWrite,
     registerCommand ''mget'' execMGet prepareMGet None (- 2) flagReadOnly,
     registerCommand ''msetnx'' execMSetNX (\<lambda>args. Some (prepareMSet args)) (Some (undoMSet oc)) (- 3) flagWrite,
     registerCommand ''msetex'' execMSetEX prepareMSetEX (Some (undoMSet oc)) (- 3) flagWrite,
     registerCommand ''get'' execGet readFirstKey None 2 flagReadOnly,
     registerCommand ''getex'' execGetEX writeFirstKey (Some (rollbackFirstKey oc)) (- 2) flagReadOnly,
     registerCommand ''getset'' execGetSet writeFirstKey (Some (rollbackFirstKey oc)) 3 flagWrite,
     registerCommand ''getdel'' execGetDel writeFirstKey (Some (rollbackFirstKey oc)) 2 flagWrite,
     registerCommand ''incr'' execIncr writeFirstKey (Some (rollbackFirstKey oc)) 2 flagWrite,
     registerCommand ''incrby'' execIncrBy writeFirstKey (Some (rollbackFirstKey oc)) 3 flagWrite,
     registerCommand ''incrbyfloat'' execIncrByFloat writeFirstKey (Some (rollbackFirstKey oc)) 3 flagWrite,
     registerCommand ''decr'' execDecr writeFirstKey (Some (rollbackFirstKey oc)) 2 flagWrite,
     registerCommand ''decrby'' execDecrBy writeFirstKey (Some (rollbackFirstKey oc)) 3 flagWrite,
     registerCommand ''strlen'' execStrLen readFirstKey None 2 flagReadOnly,
     registerCommand ''append'' execAppend writeFirstKey (Some (rollbackFirstKey oc)) 3 flagWrite,
     registerCommand ''setrange'' execSetRange writeFirstKey (Some (rollbackFirstKey oc)) 4 flagWrite,
     registerCommand ''getrange'' execGetRange readFirstKey None 4 flagReadOnly,
     registerCommand ''setbit'' execSetBit writeFirstKey (Some (rollbackFirstKey oc)) 4 flagWrite,
     registerCommand ''getbit'' execGetBit readFirstKey None 3 flagReadOnly,
     registerCommand ''bitcount'' execBitCount readFirstKey None (- 2) flagReadOnly,
     registerCommand ''bitpos'' execBitPos readFirstKey None (- 3) flagReadOnly]"

definition keysTable :: "'z other \<Rightarrow> (string \<times> ('f, 'z) command) list" where
  "keysTable oc =
    [registerCommand ''del'' (\<lambda>_. execDel) writeAllKeys (Some (undoDel oc)) (- 2) flagWrite,
     registerCommand ''delex'' execDelEX writeFirstKey (Some (rollbackFirstKey oc)) (- 2) flagWrite,
     registerCommand ''expire'' execExpire writeFirstKey (Some (\<lambda>_. undoExpire)) (- 3) flagWrite,
     registerCommand ''expireat'' execExpireAt writeFirstKey (Some (\<lambda>_. undoExpire)) (- 3) flagWrite,
     registerCommand ''expiretime'' execExpireTime readFirstKey None 2 flagReadOnly,
     registerCommand ''pexpire'' execPExpire writeFirstKey (Some (\<lambda>_. undoExpire)) (- 3) flagWrite,
     registerCommand ''pexpireat'' execPExpireAt writeFirstKey (Some (\<lambda>_. undoExpire)) (- 3) flagWrite,
     registerCommand ''pexpiretime'' execPExpireTime readFirstKey None 2 flagReadOnly,
     registerCommand ''ttl'' execTTL readFirstKey None 2 flagReadOnly,
     registerCommand ''pttl'' execPTTL readFirstKey None 2 flagReadOnly,
     registerCommand ''persist'' execPersist writeFirstKey (Some (\<lambda>_. undoExpire)) 2 flagWrite,
     registerCommand ''exists'' execExists readAllKeys None (- 2) flagReadOnly,
     registerCommand ''type'' execType readFirstKey None 2 flagReadOnly,
     registerCommand ''rename'' execRename prepareRename (Some (undoRename oc)) 3 flagReadOnly,
     registerCommand ''renamenx'' execRenameNx prepareRename (Some (undoRename oc)) 3 flagReadOnly]"

definition listTable :: "'z other \<Rightarrow> (string \<times> ('f, 'z) command) list" where
  "listTable oc =
    [registerCommand ''lpos'' execLPos readFirstKey None (- 3) flagReadOnly,
     registerCommand ''lmpop'' execLMPop prepareLMPop None (- 4) flagWrite,
     registerCommand ''lpush'' execLPush writeFirstKey (Some (\<lambda>_. undoLPush)) (- 3) flagWrite,
     registerCommand ''lpushx'' execLPushX writeFirstKey (Some (\<lambda>_. undoLPush)) (- 3) flagWrite,
     registerCommand ''rpush'' execRPush writeFirstKey (Some (\<lambda>_. undoRPush)) (- 3) flagWrite,
     registerCommand ''rpushx'' execRPushX writeFirstKey (Some (\<lambda>_. undoRPush)) (- 3) flagWrite,
     registerCommand ''lpop'' execLPop writeFirstKey (Some undoLPop) (- 2) flagWrite,
     registerCommand ''rpop'' execRPop writeFirstKey (Some undoRPop) (- 2) flagWrite,
     registerCommand ''rpoplpush'' execRPopLPush prepareRPopLPush (Some undoRPopLPush) 3 flagWrite,
     registerCommand ''lrem'' execLRem writeFirstKey (Some (rollbackFirstKey oc)) 4 flagWrite,
     registerCommand ''llen'' execLLen readFirstKey None 2 flagReadOnly,
     registerCommand ''lindex'' execLIndex readFirstKey None 3 flagReadOnly,
     registerCommand ''lset'' execLSet writeFirstKey (Some undoLSet) 4 flagWrite,
     registerCommand ''lrange'' execLRange readFirstKey None 4 flagReadOnly,
     registerCommand ''ltrim'' execLTrim writeFirstKey (Some (rollbackFirstKey oc)) 4 flagWrite,
     registerCommand ''linsert'' execLInsert writeFirstKey (Some (rollbackFirstKey oc)) 5 flagWrite,
     registerCommand ''blpop'' execBLPop prepareBLPop None (- 3) flagWrite,
     registerCommand ''brpop'' execBRPop prepareBLPop None (- 3) flagWrite]"

definition txTable :: "(string \<times> ('f, 'z) command) list" where
  "txTable =
    [registerCommand ''getver'' (\<lambda>_. execGetVersion) readAllKeys None 2 flagReadOnly]"

definition cmdTable :: "'z other \<Rightarrow> (string \<times> ('f, 'z) command) list" where
  "cmdTable oc = stringTable oc @ keysTable oc @ listTable oc @ txTable"

definition lookup :: "'z other \<Rightarrow> string \<Rightarrow> ('f, 'z) command option" where
  "lookup oc name = map_of (cmdTable oc) (toLower name)"

definition isReadOnlyCommand :: "'z other \<Rightarrow> string \<Rightarrow> bool" where
  "isReadOnlyCommand oc name =
     (case (lookup oc name :: (unit, 'z) command option) of None \<Rightarrow> False | Some cmd \<Rightarrow> flags cmd mod 2 = 1)"

definition unknownErr :: "string \<Rightarrow> reply" where
  "unknownErr name = StandardErrReply (''ERR unknown command '' @ [CHR 0x27] @ toLower name @ [CHR 0x27])"

section \<open>Execution\<close>

definition execWithLock :: "'z other \<Rightarrow> 'f env \<Rightarrow> cmdLine \<Rightarrow> 'z DB \<Rightarrow> 'z result" where
  "execWithLock oc e line db =
     (case line of
        [] \<Rightarrow> None
      | name # args \<Rightarrow>
          (case lookup oc name of
             None \<Rightarrow> Some (unknownErr name, db)
           | Some cmd \<Rightarrow>
               if \<not> validateArity (arity cmd) line then Some (ArgNumErrReply (toLower name), db) else executor cmd e args db))"

text \<open>Without a memory limit both paths of the code are the same: announce, give the written keys a new version, execute.\<close>

definition execNormalCommand :: "'z other \<Rightarrow> 'f env \<Rightarrow> cmdLine \<Rightarrow> 'z DB \<Rightarrow> 'z result" where
  "execNormalCommand oc e line db =
     (case line of
        [] \<Rightarrow> None
      | name # args \<Rightarrow>
          (case (lookup oc name :: ('f, 'z) command option) of
             None \<Rightarrow> Some (unknownErr name, db)
           | Some cmd \<Rightarrow>
               if \<not> validateArity (arity cmd) line then Some (ArgNumErrReply (toLower name), db)
               else do { (write, read) \<leftarrow> prepare cmd args; executor cmd e args (addVersion write db) }))"

definition getRelatedKeys :: "'z other \<Rightarrow> 'f env \<Rightarrow> cmdLine \<Rightarrow> keys option" where
  "getRelatedKeys oc e line =
     (case line of
        [] \<Rightarrow> None
      | name # args \<Rightarrow> (case (lookup oc name :: ('f, 'z) command option) of None \<Rightarrow> Some ([], []) | Some cmd \<Rightarrow> prepare cmd args))"

definition getUndoLogs :: "'z other \<Rightarrow> 'f env \<Rightarrow> cmdLine \<Rightarrow> 'z DB \<Rightarrow> 'z undo" where
  "getUndoLogs oc e line db =
     (case line of
        [] \<Rightarrow> None
      | name # args \<Rightarrow>
          (case lookup oc name of
             None \<Rightarrow> Some ([], db)
           | Some cmd \<Rightarrow> (case undo cmd of None \<Rightarrow> Some ([], db) | Some u \<Rightarrow> u e args db)))"

section \<open>Every command keeps the contract\<close>

definition obeys :: "'f env \<Rightarrow> 'z DB \<Rightarrow> ('f, 'z) command \<Rightarrow> bool" where
  "obeys e db c \<longleftrightarrow> (\<forall>args W R. prepare c args = Some (W, R) \<longrightarrow> keeps e (set W) db (executor c e args db))"

lemma obeys_write:
  "(\<And>args. keeps e {args ! 0} db (f e args db)) \<Longrightarrow> obeys e db \<lparr>executor = f, prepare = writeFirstKey, undo = u, arity = a, flags = fl\<rparr>"
  by (auto simp: obeys_def writeFirstKey_def gindex_0 split: bind_splits dest!: gindex_0)

lemma obeys_read:
  assumes "\<And>args. keeps e {} db (f e args db)"
  shows "obeys e db \<lparr>executor = f, prepare = readFirstKey, undo = u, arity = a, flags = fl\<rparr>"
    "obeys e db \<lparr>executor = f, prepare = readAllKeys, undo = u, arity = a, flags = fl\<rparr>"
    "obeys e db \<lparr>executor = f, prepare = prepareMGet, undo = u, arity = a, flags = fl\<rparr>"
  using assms by (auto simp: obeys_def readFirstKey_def readAllKeys_def prepareMGet_def split: bind_splits)

lemma obeys_prepare:
  "(\<And>args W R. p args = Some (W, R) \<Longrightarrow> keeps e (set W) db (f e args db)) \<Longrightarrow>
   obeys e db \<lparr>executor = f, prepare = p, undo = u, arity = a, flags = fl\<rparr>"
  by (simp add: obeys_def)

lemma wrapped_keeps:
  assumes "db_inv db"
  shows "keeps e {args ! 0} db (execSetEX e args db)" "keeps e {args ! 0} db (execPSetEX e args db)"
    "keeps e {args ! 0} db (execExpire e args db)" "keeps e {args ! 0} db (execExpireAt e args db)"
    "keeps e {args ! 0} db (execPExpire e args db)" "keeps e {args ! 0} db (execPExpireAt e args db)"
    "keeps e {} db (execExpireTime e args db)" "keeps e {} db (execPExpireTime e args db)"
    "keeps e {} db (execTTL e args db)" "keeps e {} db (execPTTL e args db)"
    "keeps e {args ! 0} db (execLPush e args db)" "keeps e {args ! 0} db (execRPush e args db)"
    "keeps e {args ! 0} db (execLPushX e args db)" "keeps e {args ! 0} db (execLPop e args db)" "keeps e {args ! 0} db (execRPop e args db)"
  using assms
  by (simp_all add: execSetEX_def execPSetEX_def keeps_setex_with execExpire_def execExpireAt_def execPExpire_def execPExpireAt_def
      keeps_expire_with execExpireTime_def execPExpireTime_def execTTL_def execPTTL_def keeps_ttl_with execLPush_def execRPush_def
      keeps_push_with execLPushX_def keeps_pushx_with execLPop_def execRPop_def keeps_pop_with)

lemma announced_keeps:
  assumes "db_inv db"
  shows "Some (prepareMSet args) = Some (W, R) \<Longrightarrow> keeps e (set W) db (execMSet e args db)"
    "Some (prepareMSet args) = Some (W, R) \<Longrightarrow> keeps e (set W) db (execMSetNX e args db)"
    "writeAllKeys args = Some (W, R) \<Longrightarrow> keeps e (set W) db (execDel args db)"
    "readAllKeys args = Some (W, R) \<Longrightarrow> keeps e (set W) db (execGetVersion args db)"
  using keeps_execMSet [OF assms, of e args] keeps_execMSetNX [OF assms, of e args] keeps_execDel [OF assms, of e args]
  by (auto simp: writeAllKeys_def execGetVersion_def keeps_same same_refl assms intro!: keeps_bind)

lemmas command_keeps =
  keeps_execSet keeps_execSetNX keeps_execGet keeps_execGetSet keeps_execGetDel keeps_execIncr keeps_execIncrBy
  keeps_execIncrByFloat keeps_execDecr keeps_execDecrBy keeps_execStrLen keeps_execAppend keeps_execSetRange keeps_execGetRange
  keeps_execSetBit keeps_execGetBit keeps_execBitCount keeps_execBitPos keeps_execMGet
  keeps_execDelEX keeps_execPersist keeps_execExists keeps_execType
  keeps_execLPos keeps_execLLen keeps_execLIndex keeps_execLRange keeps_execRPushX
  keeps_execLRem keeps_execLSet keeps_execLTrim keeps_execLInsert wrapped_keeps

lemmas command_announced = announced_keeps keeps_execMSetEX keeps_execLMPop keeps_execRPopLPush keeps_execBLPop keeps_execBRPop

lemma list_all_Nil: "list_all P []"
  by simp

lemma stringTable_obeys:
  assumes "db_inv db"
  shows "list_all (\<lambda>(n, c). n = ''getex'' \<or> obeys e db c) (stringTable oc)"
  unfolding stringTable_def registerCommand_def list.pred_inject(2) prod.case
  by (intro conjI; ((rule disjI1, rule refl) | rule list_all_Nil
       | (rule disjI2, (rule obeys_write obeys_read obeys_prepare), (rule command_keeps command_announced), (rule assms | assumption)+)))

lemma keysTable_obeys:
  assumes "db_inv db"
  shows "list_all (\<lambda>(n, c). n = ''rename'' \<or> n = ''renamenx'' \<or> obeys e db c) (keysTable oc)"
  unfolding keysTable_def registerCommand_def list.pred_inject(2) prod.case
  by (intro conjI; ((rule disjI1, rule refl) | rule list_all_Nil | (rule disjI2, rule disjI1, rule refl)
       | (rule disjI2, rule disjI2, (rule obeys_write obeys_read obeys_prepare), (rule command_keeps command_announced), (rule assms | assumption)+)))

lemma listTable_obeys:
  assumes "db_inv db"
  shows "list_all (\<lambda>(n, c). obeys e db c) (listTable oc)" "list_all (\<lambda>(n, c). obeys e db c) txTable"
  unfolding listTable_def txTable_def registerCommand_def list.pred_inject(2) prod.case
  by (intro conjI; (rule list_all_Nil
       | ((rule obeys_write obeys_read obeys_prepare), (rule command_keeps command_announced), (rule assms | assumption)+)))+

text \<open>The commands that do not: GETEX changes an expiry before it fails, and renaming writes a key it does not announce.\<close>

definition exempt :: "string set" where
  "exempt = {''getex'', ''rename'', ''renamenx''}"

lemma lookup_obeys:
  assumes "db_inv db" "lookup oc name = Some c" "toLower name \<notin> exempt"
  shows "obeys e db c"
proof -
  have "(toLower name, c) \<in> set (stringTable oc) \<union> set (keysTable oc) \<union> set (listTable oc) \<union> set txTable"
    using map_of_SomeD [of "cmdTable oc" "toLower name" c] assms(2) by (auto simp: lookup_def cmdTable_def)
  then show ?thesis
    using stringTable_obeys [OF assms(1), of e oc] keysTable_obeys [OF assms(1), of e oc] listTable_obeys [OF assms(1), of e] assms(3)
    by (fastforce simp: exempt_def list_all_iff)
qed

section \<open>One command line\<close>

definition write_keys :: "'z other \<Rightarrow> 'f env \<Rightarrow> cmdLine \<Rightarrow> string list" where
  "write_keys oc e line = (case getRelatedKeys oc e line of None \<Rightarrow> [] | Some (W, R) \<Rightarrow> W)"

lemma addVersion_other: "k \<notin> set ks \<Longrightarrow> getVersion k (addVersion ks db) = getVersion k db"
  by (induction ks db rule: addVersion.induct) (simp_all add: getVersion_def)

lemma addVersion_count:
  "getVersion k db < 2 ^ 32 \<Longrightarrow> getVersion k (addVersion ks db) = (getVersion k db + count_list ks k) mod 2 ^ 32"
proof (induction ks arbitrary: db)
  case (Cons key ks)
  define d1 where "d1 = db\<lparr>versionMap := gmap_set key ((getVersion key db + 1) mod 2 ^ 32) (versionMap db)\<rparr>"
  have v: "getVersion k d1 = (if k = key then (getVersion k db + 1) mod 2 ^ 32 else getVersion k db)" by (simp add: d1_def getVersion_def)
  have "getVersion k (addVersion ks d1) = (getVersion k d1 + count_list ks k) mod 2 ^ 32"
    using Cons.IH [of d1] Cons.prems v by (simp split: if_splits)
  moreover have "addVersion (key # ks) db = addVersion ks d1" by (simp add: d1_def)
  ultimately show ?case by (simp add: v mod_simps)
qed simp

lemma keeps_addVersion:
  "keeps e W (addVersion ks db) x \<longleftrightarrow>
   (\<forall>r d. x = Some (r, d) \<longrightarrow>
      db_inv d \<and> versionMap d = versionMap (addVersion ks db) \<and> (\<forall>k. k \<notin> W \<longrightarrow> live e d k = live e db k) \<and>
      (err_reply r \<longrightarrow> live e d = live e db \<and> aof d = aof db))"
  by (simp add: keeps_def live_def fun_eq_iff)

lemma execNormal_cases:
  assumes "db_inv db" "toLower name \<notin> exempt" "execNormalCommand oc e (name # args) db = Some (r, d)"
  obtains (rejected) "d = db"
  | (run) W R c where "lookup oc name = Some c" "getRelatedKeys oc e (name # args) = Some (W, R)"
      "executor c e args (addVersion W db) = Some (r, d)" "keeps e (set W) (addVersion W db) (Some (r, d))"
proof (cases "lookup oc name :: ('b, 'a) command option")
  case None
  then show ?thesis using assms(3) rejected by (simp add: execNormalCommand_def)
next
  case (Some c)
  show ?thesis
  proof (cases "validateArity (arity c) (name # args)")
    case False
    then show ?thesis using assms(3) Some rejected by (simp add: execNormalCommand_def)
  next
    case True
    then obtain W R where p: "prepare c args = Some (W, R)" "executor c e args (addVersion W db) = Some (r, d)"
      using assms(3) Some by (auto simp: execNormalCommand_def split: bind_splits)
    have "db_inv (addVersion W db)" using assms(1) by (simp add: db_inv_def)
    then have "obeys e (addVersion W db) c" by (rule lookup_obeys [OF _ Some assms(2)])
    then show ?thesis using run [OF Some _ p(2)] p Some by (fastforce simp: obeys_def getRelatedKeys_def)
  qed
qed

section \<open>Properties\<close>

text \<open>C3. Every string, key and list command of the table (GETEX and the renaming commands excepted) keeps the
  invariant of the database, changes what is seen of no key but those that it announced for locking, and gives only
  those a new version; a reply that is an error comes with no visible change and no entry in the log.\<close>

theorem command_contract:
  assumes "db_inv db" "toLower name \<notin> exempt" "execNormalCommand oc e (name # args) db = Some (r, d)"
  shows "db_inv d \<and>
    (\<forall>k. k \<notin> set (write_keys oc e (name # args)) \<longrightarrow> live e d k = live e db k \<and> getVersion k d = getVersion k db) \<and>
    (err_reply r \<longrightarrow> live e d = live e db \<and> aof d = aof db)"
proof (cases rule: execNormal_cases [OF assms])
  case 1
  then show ?thesis using assms(1) by simp
next
  case (2 W R c)
  then have "getVersion k d = getVersion k db" if "k \<notin> set W" for k
    using addVersion_other [OF that, of db] by (simp add: keeps_addVersion getVersion_def)
  then show ?thesis using 2 by (auto simp: keeps_addVersion write_keys_def)
qed

lemma lower_names:
  "toLower ''SET'' = ''set''" "toLower ''DEL'' = ''del''" "toLower ''PERSIST'' = ''persist''" "toLower ''PEXPIREAT'' = ''pexpireat''"
  "toLower ''RPUSH'' = ''rpush''" "toLower ''RENAME'' = ''rename''" "toLower ''INCR'' = ''incr''"
  by code_simp+

lemma lookups:
  "lookup oc ''SET'' = Some \<lparr>executor = execSet, prepare = writeFirstKey, undo = Some (rollbackFirstKey oc), arity = - 3, flags = flagWrite\<rparr>"
  "lookup oc ''DEL'' = Some \<lparr>executor = \<lambda>_. execDel, prepare = writeAllKeys, undo = Some (undoDel oc), arity = - 2, flags = flagWrite\<rparr>"
  "lookup oc ''PERSIST'' = Some \<lparr>executor = execPersist, prepare = writeFirstKey, undo = Some (\<lambda>_. undoExpire), arity = 2, flags = flagWrite\<rparr>"
  "lookup oc ''PEXPIREAT'' = Some \<lparr>executor = execPExpireAt, prepare = writeFirstKey, undo = Some (\<lambda>_. undoExpire), arity = - 3, flags = flagWrite\<rparr>"
  "lookup oc ''RPUSH'' = Some \<lparr>executor = execRPush, prepare = writeFirstKey, undo = Some (\<lambda>_. undoRPush), arity = - 3, flags = flagWrite\<rparr>"
  by (simp_all add: lookup_def cmdTable_def stringTable_def keysTable_def listTable_def registerCommand_def lower_names)

lemma lookup_rename:
  "lookup oc ''RENAME'' = Some \<lparr>executor = execRename, prepare = prepareRename, undo = Some (undoRename oc), arity = 3, flags = flagReadOnly\<rparr>"
  by (simp add: lookup_def cmdTable_def stringTable_def keysTable_def registerCommand_def lower_names)

lemma execSet_plain:
  "execSet e [key, v] db =
     Some (OkReply, addAof [''set'', key, v] (persist key (putEntity e key (str_obj (makeStringObject v)) db)))"
proof -
  have "parse_set_opts [] noOpts = Inr noOpts" by (simp add: parse_set_opts.simps)
  then show ?thesis
    by (simp add: gindex_def execSet_def check_cond_def noOpts_def set_apply_def put_policy_def toCmdLine3_def)
qed

lemma exec_SET:
  "execNormalCommand oc e [''SET'', key, v] db =
     Some (OkReply, addAof [''set'', key, v] (persist key (putEntity e key (str_obj (makeStringObject v)) (addVersion [key] db))))"
  "write_keys oc e [''SET'', key, v] = [key]" "toLower ''SET'' \<notin> exempt"
  by (simp_all add: execNormalCommand_def lookups validateArity_def writeFirstKey_def gindex_def execSet_plain write_keys_def
      getRelatedKeys_def lower_names exempt_def)

theorem command_contract_witness:
  "\<exists>r d. execNormalCommand (\<lambda>_ (_ :: unit). None) default_env [''SET'', ''k'', ''v''] makeDB = Some (r, d) \<and>
     db_inv d \<and> live default_env d ''j'' = live default_env makeDB ''j''"
  using command_contract [OF db_inv_makeDB exec_SET(3)
      exec_SET(1) [where oc = "\<lambda>_ (_ :: unit). None" and e = default_env and key = "''k''" and v = "''v''"]]
  by (auto simp: exec_SET)

text \<open>What happens to the key space between two commands of a client: command lines of any client and jobs of the time
  wheel, each with the clock it reads.\<close>

datatype 'f happening = Command "'f env" cmdLine | Timer "'f env" string

fun happens :: "'z other \<Rightarrow> 'f happening \<Rightarrow> 'z DB \<Rightarrow> 'z DB option" where
  "happens oc (Command e line) db = map_option snd (execNormalCommand oc e line db)"
| "happens oc (Timer e key) db = Some (expireJob e key db)"

fun run :: "'z other \<Rightarrow> 'f happening list \<Rightarrow> 'z DB \<Rightarrow> 'z DB option" where
  "run oc [] db = Some db"
| "run oc (h # hs) db = do { db1 \<leftarrow> happens oc h db; run oc hs db1 }"

fun clock :: "'f happening \<Rightarrow> int" where
  "clock (Command e line) = now e"
| "clock (Timer e key) = now e"

fun announced :: "'z other \<Rightarrow> 'f happening \<Rightarrow> string list" where
  "announced oc (Command e line) = write_keys oc e line"
| "announced oc (Timer e key) = []"

fun announces :: "'f happening \<Rightarrow> bool" where
  "announces (Command e line) \<longleftrightarrow> line = [] \<or> toLower (hd line) \<notin> exempt"
| "announces (Timer e key) \<longleftrightarrow> True"

definition isWatchingChanged :: "(string \<times> nat) list \<Rightarrow> 'z DB \<Rightarrow> bool" where
  "isWatchingChanged watching db = list_ex (\<lambda>(key, ver). ver \<noteq> getVersion key db) watching"

definition versions_ok :: "'z DB \<Rightarrow> bool" where
  "versions_ok db \<longleftrightarrow> (\<forall>k. getVersion k db < 2 ^ 32)"

lemma exec_versions:
  assumes "db_inv db" "versions_ok db" "toLower name \<notin> exempt" "execNormalCommand oc e (name # args) db = Some (r, d)"
  shows "db_inv d" "versions_ok d"
    "\<exists>n \<le> length (write_keys oc e (name # args)).
       getVersion k d = (getVersion k db + n) mod 2 ^ 32 \<and> (n = 0 \<longrightarrow> live e d k = live e db k)"
proof (atomize (full), cases rule: execNormal_cases [OF assms(1,3,4)])
  case 1
  then show "db_inv d \<and> versions_ok d \<and> (\<exists>n \<le> length (write_keys oc e (name # args)).
       getVersion k d = (getVersion k db + n) mod 2 ^ 32 \<and> (n = 0 \<longrightarrow> live e d k = live e db k))"
    using assms(1,2) by (auto simp: versions_ok_def intro!: exI [of _ 0])
next
  case (2 W R c)
  have "getVersion j d = (getVersion j db + count_list W j) mod 2 ^ 32" for j
    using 2(4) addVersion_count [of j db W] assms(2) by (simp add: keeps_addVersion getVersion_def versions_ok_def)
  moreover have "count_list W k = 0 \<Longrightarrow> live e d k = live e db k" using 2(4) by (simp add: keeps_addVersion count_list_0_iff)
  ultimately show "db_inv d \<and> versions_ok d \<and> (\<exists>n \<le> length (write_keys oc e (name # args)).
       getVersion k d = (getVersion k db + n) mod 2 ^ 32 \<and> (n = 0 \<longrightarrow> live e d k = live e db k))"
    using 2(2,4) by (auto simp: keeps_addVersion versions_ok_def write_keys_def count_le_length intro!: exI [of _ "count_list W k"])
qed

text \<open>What is seen of a key at a later time is a function of what is seen of it now.\<close>

definition aged :: "int \<Rightarrow> ('z entity \<times> int option) option \<Rightarrow> ('z entity \<times> int option) option" where
  "aged n x = (case x of Some (v, Some t) \<Rightarrow> if n > t then None else x | _ \<Rightarrow> x)"

lemma live_aged: "now e \<le> now e' \<Longrightarrow> live e' db k = aged (now e') (live e db k)"
  by (auto simp: live_def aged_def visible_def split: option.splits)

lemma expireJob_keeps:
  assumes "db_inv db"
  shows "live e (expireJob e key db) = live e db" "db_inv (expireJob e key db)" "getVersion k (expireJob e key db) = getVersion k db"
  using assms by (auto simp: expireJob_def live_def fun_eq_iff db_inv_def getVersion_def visible_def split: option.splits)

lemma happens_versions:
  assumes "happens oc h db = Some d" "db_inv db" "versions_ok db" "announces h" "clock h \<le> now e'"
  shows "db_inv d" "versions_ok d"
    "\<exists>n \<le> length (announced oc h). getVersion k d = (getVersion k db + n) mod 2 ^ 32 \<and> (n = 0 \<longrightarrow> live e' d k = live e' db k)"
proof (atomize (full), cases h)
  case (Timer e key)
  then have d: "d = expireJob e key db" and le: "now e \<le> now e'" using assms(1,5) by auto
  show "db_inv d \<and> versions_ok d \<and> (\<exists>n \<le> length (announced oc h).
      getVersion k d = (getVersion k db + n) mod 2 ^ 32 \<and> (n = 0 \<longrightarrow> live e' d k = live e' db k))"
    using expireJob_keeps [OF assms(2), where e = e and key = key] assms(3) Timer d by (simp add: versions_ok_def live_aged [OF le])
next
  case (Command e line)
  then obtain r where r: "execNormalCommand oc e line db = Some (r, d)" and le: "now e \<le> now e'" using assms(1,5) by auto
  then obtain name args where l: "line = name # args" by (cases line) (auto simp: execNormalCommand_def)
  have ex: "toLower name \<notin> exempt" "execNormalCommand oc e (name # args) db = Some (r, d)" using assms(4) Command l r by auto
  note v = exec_versions [OF assms(2,3) ex]
  obtain n where "n \<le> length (announced oc h)" "getVersion k d = (getVersion k db + n) mod 2 ^ 32" "n = 0 \<longrightarrow> live e d k = live e db k"
    using v(3) [of k] Command l by auto
  then show "db_inv d \<and> versions_ok d \<and> (\<exists>n \<le> length (announced oc h).
      getVersion k d = (getVersion k db + n) mod 2 ^ 32 \<and> (n = 0 \<longrightarrow> live e' d k = live e' db k))"
    using v(1,2) by (auto simp: live_aged [OF le])
qed

lemma run_versions:
  assumes "run oc hs db = Some d" "db_inv db" "versions_ok db" "\<forall>h \<in> set hs. announces h \<and> clock h \<le> now e'"
  shows "\<exists>n \<le> length (concat (map (announced oc) hs)).
    getVersion k d = (getVersion k db + n) mod 2 ^ 32 \<and> (n = 0 \<longrightarrow> live e' d k = live e' db k)"
  using assms
proof (induction hs arbitrary: db)
  case Nil
  then show ?case by (simp add: versions_ok_def)
next
  case (Cons h hs)
  then obtain d1 where h: "happens oc h db = Some d1" and rest: "run oc hs d1 = Some d" by (auto split: bind_splits)
  have ok: "announces h" "clock h \<le> now e'" using Cons.prems(4) by auto
  note s = happens_versions [OF h Cons.prems(2,3) ok]
  obtain n where n: "n \<le> length (announced oc h)" "getVersion k d1 = (getVersion k db + n) mod 2 ^ 32"
      "n = 0 \<longrightarrow> live e' d1 k = live e' db k"
    using s(3) [of k] by blast
  obtain m where m: "m \<le> length (concat (map (announced oc) hs))" "getVersion k d = (getVersion k d1 + m) mod 2 ^ 32"
      "m = 0 \<longrightarrow> live e' d k = live e' d1 k"
    using Cons.IH [OF rest s(1,2)] Cons.prems(4) by auto
  have "getVersion k d = (getVersion k db + (n + m)) mod 2 ^ 32" by (simp add: m(2) n(2) mod_simps add.assoc)
  then show ?case using n m by (intro exI [of _ "n + m"]) auto
qed

text \<open>C4. WATCH is sound for commands that announce the keys they write (every command of the table but GETEX, RENAME
  and RENAMENX): when the versions noted for the watched keys are still current after any sequence of such command lines
  and of jobs of the time wheel, whatever clocks they read, then each watched key is seen as it was seen at WATCH, or it
  had an expiry time then that has passed since. Fewer than \<open>2 ^ 32\<close> keys have been announced in between, after which a
  version may come round.\<close>

theorem watch_sound:
  assumes "run oc hs db = Some d" "db_inv db" "versions_ok db" "\<forall>h \<in> set hs. announces h \<and> clock h \<le> now e'"
    "length (concat (map (announced oc) hs)) < 2 ^ 32" "now e \<le> now e'"
    "\<not> isWatchingChanged (map (\<lambda>k. (k, getVersion k db)) keys) d"
  shows "\<forall>k \<in> set keys. live e' d k = live e db k \<or>
    (\<exists>x t. live e db k = Some (x, Some t) \<and> t < now e' \<and> live e' d k = None)"
proof
  fix k
  assume "k \<in> set keys"
  then have same: "getVersion k d = getVersion k db" using assms(7) by (auto simp: isWatchingChanged_def list_ex_iff)
  obtain n where n: "n \<le> length (concat (map (announced oc) hs))" "getVersion k d = (getVersion k db + n) mod 2 ^ 32"
      "n = 0 \<longrightarrow> live e' d k = live e' db k"
    using run_versions [OF assms(1-4)] by blast
  have "getVersion k db < 2 ^ 32" "n < 2 ^ 32" using assms(3,5) n(1) by (simp_all add: versions_ok_def)
  then have "n = 0" using same n(2) by (cases "getVersion k db + n < 2 ^ 32") (auto simp: le_mod_geq)
  then show "live e' d k = live e db k \<or> (\<exists>x t. live e db k = Some (x, Some t) \<and> t < now e' \<and> live e' d k = None)"
    using n(3) live_aged [OF assms(6), of db k] by (auto simp: aged_def split: option.splits if_splits)
qed

text \<open>The watched key \<open>j\<close> expires at time 5; the other client sets \<open>k\<close> at time 0 and the time wheel fires at time 7.\<close>

theorem watch_sound_witness:
  "\<exists>d. run (\<lambda>_ (_ :: unit). None) [Command default_env [''SET'', ''k'', ''v''], Timer (default_env\<lparr>now := 7\<rparr>) ''j'']
       (makeDB\<lparr>data := [(''j'', str_obj (makeStringObject ''w''))], ttlMap := [(''j'', 5)]\<rparr>) = Some d \<and>
     \<not> isWatchingChanged [(''j'', 0)] d \<and> live (default_env\<lparr>now := 7\<rparr>) d ''j'' = None"
proof -
  let ?oc = "\<lambda>_ (_ :: unit). None" and ?e = "default_env\<lparr>now := 7\<rparr>"
  let ?db = "makeDB\<lparr>data := [(''j'', str_obj (makeStringObject ''w''))], ttlMap := [(''j'', 5)]\<rparr> :: unit DB"
  have db: "db_inv ?db" "versions_ok ?db" "getVersion ''j'' ?db = 0" "live default_env ?db ''j'' \<noteq> None" "live ?e ?db ''j'' = None"
    by (simp_all add: db_inv_def versions_ok_def getVersion_def makeDB_def live_def default_env_def)
  obtain d where d: "run ?oc [Command default_env [''SET'', ''k'', ''v''], Timer ?e ''j''] ?db = Some d" by (simp add: exec_SET)
  have j: "getVersion ''j'' d = 0" "live ?e d ''j'' = live ?e ?db ''j''"
    using d by (auto simp: exec_SET getVersion_def makeDB_def live_def default_env_def expireJob_def)
  then have w: "\<not> isWatchingChanged (map (\<lambda>k. (k, getVersion k ?db)) [''j'']) d" using db(3) by (simp add: isWatchingChanged_def)
  have "\<forall>k \<in> set [''j'']. live ?e d k = live default_env ?db k \<or>
      (\<exists>x t. live default_env ?db k = Some (x, Some t) \<and> t < now ?e \<and> live ?e d k = None)"
    by (rule watch_sound [OF d db(1,2) _ _ _ w]) (simp_all add: exec_SET default_env_def)
  then show ?thesis using d j db w by auto
qed

text \<open>C38. Renaming escapes both guards. RENAME of a key to itself answers OK and deletes the key. RENAME of a key to
  another one removes the source without giving it a new version, so that a transaction that watches the source does
  not notice.\<close>

theorem rename_loses_key:
  assumes "db_inv db" "live e db src = Some (x, t)"
  shows "\<exists>d. execNormalCommand oc e [''RENAME'', src, dest] db = Some (OkReply, d) \<and> live e d src = None \<and>
    (src \<noteq> dest \<longrightarrow> getVersion src d = getVersion src db)"
proof -
  define d0 where "d0 = addVersion [dest] db"
  have ex: "execNormalCommand oc e [''RENAME'', src, dest] db = execRename e [src, dest] d0"
    by (simp add: execNormalCommand_def lookup_rename validateArity_def prepareRename_def gindex_def d0_def del: addVersion.simps)
  have lv: "live e d0 = live e db" and inv: "db_inv d0"
    using assms(1) unfolding d0_def by (simp_all add: live_def fun_eq_iff db_inv_def del: addVersion.simps)
  obtain d1 y where g: "getEntity e src d0 = (d1, y)" by fastforce
  note c = getEntity_cases [OF same_refl [OF inv] g]
  have y: "y = Some x" using c lv assms(2) by (simp add: same_def)
  have "live e (move_ttl e src dest u (remove_key src (putEntity e dest x d1))) src = None" for u
    by (simp add: move_ttl_def live_def split: option.split)
  moreover have "getVersion src (move_ttl e src dest u (remove_key src (putEntity e dest x d1))) = getVersion src d0" for u
    using c(1) by (simp add: move_ttl_def same_def getVersion_def split: option.split)
  moreover have "src \<noteq> dest \<Longrightarrow> getVersion src d0 = getVersion src db" unfolding d0_def by (rule addVersion_other) simp
  ultimately show ?thesis
    by (simp add: ex execRename_def g y addAof_live) (simp add: getVersion_def)
qed

theorem rename_loses_key_witness:
  "\<exists>d d1 d2. execNormalCommand (\<lambda>_ (_ :: unit). None) default_env [''SET'', ''k'', ''v''] makeDB = Some (OkReply, d) \<and>
     live default_env d ''k'' \<noteq> None \<and>
     execNormalCommand (\<lambda>_ (_ :: unit). None) default_env [''RENAME'', ''k'', ''k''] d = Some (OkReply, d1) \<and>
     live default_env d1 ''k'' = None \<and>
     execNormalCommand (\<lambda>_ (_ :: unit). None) default_env [''RENAME'', ''k'', ''j''] d = Some (OkReply, d2) \<and>
     getVersion ''k'' d2 = getVersion ''k'' d"
proof -
  let ?oc = "\<lambda>_ (_ :: unit). None"
  obtain d x where d: "execNormalCommand ?oc default_env [''SET'', ''k'', ''v''] makeDB = Some (OkReply, d)" "db_inv d"
      "live default_env d ''k'' = Some (x, None)"
    by (simp add: exec_SET makeDB_def live_def db_inv_def)
  show ?thesis
    using rename_loses_key [OF d(2,3), of ?oc "''k''"] rename_loses_key [OF d(2,3), of ?oc "''j''"] d by auto
qed

end
