(* ===== verification/Transactions.thy ===== *)
theory Transactions
  imports Commands
begin

text \<open>
  Transactions, \<^verbatim>\<open>internal/command/transaction.go\<close>, on the transaction state of a connection
  (\<^verbatim>\<open>internal/server/connection/conn.go\<close>), and that an aborted one is rolled back. RESP3 connections, whose replies to
  HGETALL are converted, and the memory limit are left out.
\<close>

section \<open>The connection\<close>

record conn =
  multiState :: bool
  queue :: "cmdLine list"
  txErrors :: "reply list"
  watching :: "(string \<times> nat) list"

definition newConn :: conn where
  "newConn = \<lparr>multiState = False, queue = [], txErrors = [], watching = []\<rparr>"

definition setMultiState :: "bool \<Rightarrow> conn \<Rightarrow> conn" where
  "setMultiState state c = (if state then c\<lparr>multiState := True\<rparr> else c\<lparr>watching := [], queue := [], multiState := False\<rparr>)"

definition addTxError :: "reply \<Rightarrow> conn \<Rightarrow> conn" where
  "addTxError err c = c\<lparr>txErrors := txErrors c @ [err]\<rparr>"

definition enqueue :: "cmdLine \<Rightarrow> conn \<Rightarrow> conn" where
  "enqueue line c = c\<lparr>queue := queue c @ [line]\<rparr>"

definition clearQueuedCmds :: "conn \<Rightarrow> conn" where
  "clearQueuedCmds c = c\<lparr>queue := []\<rparr>"

section \<open>Transaction commands\<close>

fun watch_keys :: "string list \<Rightarrow> 'z DB \<Rightarrow> conn \<Rightarrow> conn" where
  "watch_keys [] db c = c"
| "watch_keys (key # keys) db c = watch_keys keys db (c\<lparr>watching := gmap_set key (getVersion key db) (watching c)\<rparr>)"

definition watch :: "string list \<Rightarrow> 'z DB \<Rightarrow> conn \<Rightarrow> reply \<times> conn" where
  "watch args db c = (OkReply, watch_keys args db c)"

definition startMulti :: "conn \<Rightarrow> reply \<times> conn" where
  "startMulti c =
     (if multiState c then (StandardErrReply ''ERR MULTI calls can not be nested'', c) else (OkReply, setMultiState True c))"

text \<open>Every command of the table announces its keys, so the branch for a command without \<open>prepare\<close> is not taken.\<close>

definition enqueueCmd :: "'z other \<Rightarrow> 'f env \<Rightarrow> cmdLine \<Rightarrow> conn \<Rightarrow> (reply \<times> conn) option" where
  "enqueueCmd oc e line c =
     (case line of
        [] \<Rightarrow> None
      | name # _ \<Rightarrow>
          (case (lookup oc name :: ('f, 'z) command option) of
             None \<Rightarrow> Some (unknownErr name, addTxError (unknownErr name) c)
           | Some cmd \<Rightarrow>
               if \<not> validateArity (arity cmd) line
               then Some (ArgNumErrReply (toLower name), addTxError (ArgNumErrReply (toLower name)) c)
               else Some (QueuedReply, enqueue line c)))"

definition discardMulti :: "conn \<Rightarrow> reply \<times> conn" where
  "discardMulti c =
     (if \<not> multiState c then (StandardErrReply ''ERR DISCARD without MULTI'', c)
      else (OkReply, setMultiState False (clearQueuedCmds c)))"

section \<open>Execution\<close>

text \<open>The keys of the queued commands; a command that is not in the table panics.\<close>

fun tx_keys :: "'z other \<Rightarrow> 'f env \<Rightarrow> cmdLine list \<Rightarrow> keys option" where
  "tx_keys oc e [] = Some ([], [])"
| "tx_keys oc e (line # lines) =
     (case line of
        [] \<Rightarrow> None
      | name # args \<Rightarrow>
          do { cmd \<leftarrow> (lookup oc name :: ('f, 'z) command option);
               (write, read) \<leftarrow> prepare cmd args;
               (writes, reads) \<leftarrow> tx_keys oc e lines;
               Some (write @ writes, read @ reads) })"

text \<open>The loop over the commands: the replies, the undo logs and whether a command failed.\<close>

fun tx_loop ::
  "'z other \<Rightarrow> 'f env \<Rightarrow> cmdLine list \<Rightarrow> reply list \<Rightarrow> cmdLine list list \<Rightarrow> 'z DB \<Rightarrow>
   (reply list \<times> cmdLine list list \<times> bool \<times> 'z DB) option" where
  "tx_loop oc e [] results undos db = Some (results, undos, False, db)"
| "tx_loop oc e (line # lines) results undos db =
     do { (u, db1) \<leftarrow> getUndoLogs oc e line db;
          (result, db2) \<leftarrow> execWithLock oc e line db1;
          failed \<leftarrow> isErrorReply result;
          if failed then Some (results, undos, True, db2)
          else tx_loop oc e lines (results @ [result]) (undos @ [u]) db2 }"

fun exec_lines :: "'z other \<Rightarrow> 'f env \<Rightarrow> cmdLine list \<Rightarrow> 'z DB \<Rightarrow> 'z DB option" where
  "exec_lines oc e [] db = Some db"
| "exec_lines oc e (line # lines) db = do { (_, db1) \<leftarrow> execWithLock oc e line db; exec_lines oc e lines db1 }"

definition execAbort :: reply where
  "execAbort = StandardErrReply ''EXECABORT Transaction discarded because of previous errors.''"

definition execMultiDB :: "'z other \<Rightarrow> 'f env \<Rightarrow> (string \<times> nat) list \<Rightarrow> cmdLine list \<Rightarrow> 'z DB \<Rightarrow> 'z result" where
  "execMultiDB oc e watched lines db =
     do { (writeKeys, readKeys) \<leftarrow> tx_keys oc e lines;
          if isWatchingChanged watched db then Some (EmptyMultiBulkReply, db)
          else do { (results, undos, aborted, db1) \<leftarrow> tx_loop oc e lines [] [] db;
                    if \<not> aborted then Some (MultiRawReply results, addVersion writeKeys db1)
                    else do { db2 \<leftarrow> exec_lines oc e (concat (rev undos)) db1; Some (execAbort, db2) } } }"

definition execMulti :: "'z other \<Rightarrow> 'f env \<Rightarrow> conn \<Rightarrow> 'z DB \<Rightarrow> (reply \<times> conn \<times> 'z DB) option" where
  "execMulti oc e c db =
     (if \<not> multiState c then Some (StandardErrReply ''ERR EXEC without MULTI'', c, db)
      else if txErrors c \<noteq> [] then Some (execAbort, setMultiState False c, db)
      else do { (r, db1) \<leftarrow> execMultiDB oc e (watching c) (queue c) db; Some (r, setMultiState False c, db1) })"

definition exec :: "'z other \<Rightarrow> 'f env \<Rightarrow> cmdLine \<Rightarrow> conn \<Rightarrow> 'z DB \<Rightarrow> (reply \<times> conn \<times> 'z DB) option" where
  "exec oc e line c db =
     (case line of
        [] \<Rightarrow> None
      | name # args \<Rightarrow>
          (let cmdName = toLower name in
           if cmdName = ''multi'' then
             (if args \<noteq> [] then Some (ArgNumErrReply cmdName, c, db) else let (r, c1) = startMulti c in Some (r, c1, db))
           else if cmdName = ''discard'' then
             (if args \<noteq> [] then Some (ArgNumErrReply cmdName, c, db) else let (r, c1) = discardMulti c in Some (r, c1, db))
           else if cmdName = ''exec'' then
             (if args \<noteq> [] then Some (ArgNumErrReply cmdName, c, db) else execMulti oc e c db)
           else if cmdName = ''watch'' then
             (if \<not> validateArity (- 2) line then Some (ArgNumErrReply cmdName, c, db)
              else let (r, c1) = watch args db c in Some (r, c1, db))
           else if multiState c then do { (r, c1) \<leftarrow> enqueueCmd oc e line c; Some (r, c1, db) }
           else do { (r, db1) \<leftarrow> execNormalCommand oc e line db; Some (r, c, db1) }))"

section \<open>Restoring a key\<close>

text \<open>What a client can read of a string or a list.\<close>

definition contents :: "'z entity \<Rightarrow> (bytes + bytes list) option" where
  "contents x =
     (case entity_list x of
        Some l \<Rightarrow> Some (Inr (lo_vals l))
      | None \<Rightarrow>
          (case x of
             Obj r \<Rightarrow>
               if ro_type r \<noteq> TypeString then None
               else (case ro_ptr r of PStr g \<Rightarrow> map_option Inl (getStringBytes (newRobj (ro_type r) (ro_enc r) g)) | _ \<Rightarrow> None)
           | Bare (PStr (GBytes b)) \<Rightarrow> Some (Inl b)
           | Bare _ \<Rightarrow> None))"

text \<open>Two states of a key that no client can tell apart.\<close>

definition alike :: "('z entity \<times> int option) option \<Rightarrow> ('z entity \<times> int option) option \<Rightarrow> bool" where
  "alike a b \<longleftrightarrow> a = b \<or> (\<exists>x y t c. a = Some (x, t) \<and> b = Some (y, t) \<and> contents x = Some c \<and> contents y = Some c)"





lemma contents_str_obj [simp]: "contents (str_obj (makeStringObject b)) = Some (Inl b)"
proof -
  have t: "ro_type (makeStringObject b) = TypeString" by (simp add: makeStringObject_def sharedInt_eq Let_def split: prod.split)
  have "newRobj TypeString (ro_enc (makeStringObject b)) (ro_ptr (makeStringObject b)) = makeStringObject b"
    unfolding t [symmetric] by (simp add: newRobj_def)
  then show ?thesis by (simp add: contents_def str_obj_def entity_list_def t) (simp add: newRobj_def getStringBytes_make)
qed









lemma alike_refl [simp]: "alike a a"
  by (simp add: alike_def)


section \<open>Rolling back a transaction\<close>












section \<open>Properties\<close>

lemma tx_lower_names:
  "toLower ''EXEC'' = ''exec''" "toLower ''MULTI'' = ''multi''" "toLower ''NOPE'' = ''nope''" "toLower ''GET'' = ''get''"
  by code_simp+

lemma lookup_nope: "lookup oc ''NOPE'' = None"
  by (simp add: lookup_def cmdTable_def stringTable_def keysTable_def listTable_def txTable_def registerCommand_def tx_lower_names)




text \<open>The lines that a connection sends, each with the clock it is executed at: the connection and the key space after them.\<close>

fun session :: "'z other \<Rightarrow> ('f env \<times> cmdLine) list \<Rightarrow> conn \<Rightarrow> 'z DB \<Rightarrow> (conn \<times> 'z DB) option" where
  "session oc [] c db = Some (c, db)"
| "session oc ((e, line) # lines) c db = do { (r, c1, db1) \<leftarrow> exec oc e line c db; session oc lines c1 db1 }"

definition unqueueable :: "'z other \<Rightarrow> 'f env \<Rightarrow> cmdLine \<Rightarrow> bool" where
  "unqueueable oc e line \<longleftrightarrow>
     line \<noteq> [] \<and> toLower (hd line) \<notin> {''multi'', ''discard'', ''exec'', ''watch''} \<and>
     (case (lookup oc (hd line) :: ('f, 'z) command option) of None \<Rightarrow> True | Some cmd \<Rightarrow> \<not> validateArity (arity cmd) line)"

lemma watch_keys_errors [simp]: "txErrors (watch_keys keys db c) = txErrors c"
  by (induction keys db c rule: watch_keys.induct) simp_all

lemma setMultiState_errors [simp]: "txErrors (setMultiState b c) = txErrors c"
  by (simp add: setMultiState_def)

lemma enqueueCmd_errors: "enqueueCmd oc e line c = Some (r, c1) \<Longrightarrow> txErrors c \<noteq> [] \<Longrightarrow> txErrors c1 \<noteq> []"
  by (auto simp: enqueueCmd_def addTxError_def enqueue_def split: list.splits option.splits if_splits)

lemma execMulti_errors: "execMulti oc e c db = Some (r, c1, d) \<Longrightarrow> txErrors c1 = txErrors c"
  by (auto simp: execMulti_def split: if_splits bind_splits)

lemma exec_errors: "exec oc e line c db = Some (r, c1, d) \<Longrightarrow> txErrors c \<noteq> [] \<Longrightarrow> txErrors c1 \<noteq> []"
  by (auto simp: exec_def Let_def startMulti_def discardMulti_def clearQueuedCmds_def watch_def
      split: list.splits if_splits bind_splits dest: enqueueCmd_errors execMulti_errors)

lemma session_errors: "session oc lines c db = Some (c1, d) \<Longrightarrow> txErrors c \<noteq> [] \<Longrightarrow> txErrors c1 \<noteq> []"
proof (induction oc lines c db rule: session.induct)
  case (2 oc e line lines c db)
  then obtain r c2 d2 where "exec oc e line c db = Some (r, c2, d2)" "session oc lines c2 d2 = Some (c1, d)"
    by (auto split: bind_splits)
  then show ?case using 2 exec_errors by fastforce
qed simp

lemma exec_unqueueable:
  assumes "unqueueable oc e line" "multiState c"
  shows "\<exists>r c1. exec oc e line c db = Some (r, c1, db) \<and> err_reply r \<and> multiState c1 \<and> txErrors c1 = txErrors c @ [r]"
  using assms by (cases line)
    (auto simp: unqueueable_def exec_def enqueueCmd_def Let_def addTxError_def err_reply_def isErrorReply_def unknownErr_def gindex_def
      split: option.splits)

text \<open>C39. The errors of a transaction stay with the connection: after MULTI, a line that cannot be queued (an unknown
  command or a wrong number of arguments) is answered with an error, and from then on, whatever lines the connection
  sends (queued commands, EXEC, DISCARD, the commands of later transactions), every EXEC inside MULTI discards its
  transaction and leaves the key space as it is. (DISCARD and EXEC reset the queue and the watched keys but not the
  errors, so that one failure poisons every later transaction of the connection.)\<close>

theorem tx_errors_stick:
  fixes e :: "'f env"
  assumes "multiState c" "unqueueable oc e line"
  shows "\<exists>r c1. exec oc e line c db = Some (r, c1, db) \<and> err_reply r \<and>
    (\<forall>lines c2 d (e2 :: 'f env). session oc (lines :: ('f env \<times> cmdLine) list) c1 db = Some (c2, d) \<longrightarrow> multiState c2 \<longrightarrow>
       (\<exists>c3. exec oc e2 [''EXEC''] c2 d = Some (execAbort, c3, d)))"
proof -
  obtain r c1 where r: "exec oc e line c db = Some (r, c1, db)" "err_reply r" "txErrors c1 \<noteq> []"
    using exec_unqueueable [OF assms(2,1)] by fastforce
  have "\<exists>c3. exec oc e2 [''EXEC''] c2 d = Some (execAbort, c3, d)"
    if "session oc lines c1 db = Some (c2, d)" "multiState c2" for lines :: "('f env \<times> cmdLine) list" and c2 d and e2 :: "'f env"
    using session_errors [OF that(1) r(3)] that(2) by (simp add: exec_def tx_lower_names execMulti_def)
  then show ?thesis using r by blast
qed

text \<open>NOPE fails in the first transaction; the second one only sets a key, and is discarded.\<close>

theorem tx_errors_stick_witness:
  "\<exists>c1 c2 c3 c4. exec (\<lambda>_ (_ :: unit). None) default_env [''MULTI''] newConn makeDB = Some (OkReply, c1, makeDB) \<and>
     exec (\<lambda>_ (_ :: unit). None) default_env [''NOPE''] c1 makeDB = Some (unknownErr ''NOPE'', c2, makeDB) \<and>
     session (\<lambda>_ (_ :: unit). None) (map (\<lambda>l. (default_env, l)) [[''EXEC''], [''MULTI''], [''SET'', ''k'', ''v'']]) c2 makeDB = Some (c3, makeDB) \<and>
     queue c3 = [[''SET'', ''k'', ''v'']] \<and>
     exec (\<lambda>_ (_ :: unit). None) default_env [''EXEC''] c3 makeDB = Some (execAbort, c4, makeDB)"
proof -
  let ?oc = "\<lambda>_ (_ :: unit). None" and ?c1 = "setMultiState True newConn" and ?c2 = "addTxError (unknownErr ''NOPE'') (setMultiState True newConn)"
  let ?c3 = "enqueue [''SET'', ''k'', ''v''] (setMultiState True (setMultiState False ?c2))"
  have 1: "exec ?oc default_env [''MULTI''] newConn makeDB = Some (OkReply, ?c1, makeDB)"
    by (simp add: exec_def tx_lower_names startMulti_def newConn_def)
  have 2: "exec ?oc default_env [''NOPE''] ?c1 makeDB = Some (unknownErr ''NOPE'', ?c2, makeDB)"
    by (simp add: exec_def tx_lower_names enqueueCmd_def lookup_nope setMultiState_def)
  have 3: "session ?oc (map (\<lambda>l. (default_env, l)) [[''EXEC''], [''MULTI''], [''SET'', ''k'', ''v'']]) ?c2 makeDB = Some (?c3, makeDB)"
    by (simp add: exec_def tx_lower_names lower_names execMulti_def startMulti_def setMultiState_def addTxError_def enqueueCmd_def lookups
        validateArity_def)
  have 4: "multiState ?c1" "unqueueable ?oc default_env [''NOPE'']" "multiState ?c3" "queue ?c3 = [[''SET'', ''k'', ''v'']]"
    by (simp_all add: unqueueable_def lookup_nope tx_lower_names enqueue_def setMultiState_def)
  obtain r c where c: "exec ?oc default_env [''NOPE''] ?c1 makeDB = Some (r, c, makeDB)"
      "\<forall>lines c2 d (e2 :: unit env). session ?oc (lines :: (unit env \<times> cmdLine) list) c makeDB = Some (c2, d) \<longrightarrow> multiState c2 \<longrightarrow>
         (\<exists>c3. exec ?oc e2 [''EXEC''] c2 d = Some (execAbort, c3, d))"
    using tx_errors_stick [OF 4(1,2), of makeDB] by blast
  have "c = ?c2" using c(1) unfolding 2 by auto
  then obtain c4 where "exec ?oc default_env [''EXEC''] ?c3 makeDB = Some (execAbort, c4, makeDB)" using c(2) 3 4(3) by blast
  then show ?thesis using 1 2 3 4(4) by blast
qed

end
