(* ===== verification/Slices.thy ===== *)
theory Slices
  imports Bitmap StringCmd
begin

text \<open>
  The strings of the key space as the slices that the program stores. \<^verbatim>\<open>MakeStringObject\<close> keeps the slice it is given
  and \<^verbatim>\<open>GetStringBytes\<close> returns it (\<^verbatim>\<open>internal/object/object.go\<close>), so that APPEND, SETRANGE and SETBIT
  (\<^verbatim>\<open>internal/command/string.go\<close>) write into the array of the stored value, and the undo log of
  \<^verbatim>\<open>rollbackGivenKeys\<close> (\<^verbatim>\<open>internal/command/tx_utils.go\<close>) refers to that array. The theory models these operations on an
  explicit store of arrays. It shows that they compute what the command layer computes on byte strings as long as every
  key has an array of its own, and where the sharing with the undo log can be seen.
\<close>

section \<open>Slices of arrays\<close>

text \<open>The arrays that have been allocated, by number; a slice is a part of one of them, with room up to its capacity.\<close>

type_synonym store = "string list"

record slice =
  sl_arr :: nat
  sl_off :: nat
  sl_len :: nat
  sl_cap :: nat

definition slice_ok :: "store \<Rightarrow> slice \<Rightarrow> bool" where
  "slice_ok st s \<longleftrightarrow> sl_arr s < length st \<and> sl_len s \<le> sl_cap s \<and> sl_off s + sl_cap s \<le> length (st ! sl_arr s)"

definition bytes_at :: "store \<Rightarrow> slice \<Rightarrow> bytes" where
  "bytes_at st s = take (sl_len s) (drop (sl_off s) (st ! sl_arr s))"

definition overwrite :: "bytes \<Rightarrow> nat \<Rightarrow> bytes \<Rightarrow> bytes" where
  "overwrite b i v = take i b @ v @ drop (i + length v) b"

definition write_at :: "store \<Rightarrow> slice \<Rightarrow> nat \<Rightarrow> bytes \<Rightarrow> store" where
  "write_at st s i v = st[sl_arr s := overwrite (st ! sl_arr s) (sl_off s + i) v]"

text \<open>A fresh array with the given bytes and at least the given capacity.\<close>

definition sl_new :: "nat \<Rightarrow> bytes \<Rightarrow> store \<Rightarrow> store \<times> slice" where
  "sl_new cap v st =
     (st @ [v @ replicate (cap - length v) (CHR 0x00)],
      \<lparr>sl_arr = length st, sl_off = 0, sl_len = length v, sl_cap = max cap (length v)\<rparr>)"

text \<open>\<^verbatim>\<open>append\<close>: in place within the capacity, into a new array beyond it, whose capacity the runtime chooses.\<close>

definition sl_append :: "(nat \<Rightarrow> nat \<Rightarrow> nat) \<Rightarrow> bytes \<Rightarrow> store \<Rightarrow> slice \<Rightarrow> store \<times> slice" where
  "sl_append grow v st s =
     (if sl_len s + length v \<le> sl_cap s then (write_at st s (sl_len s) v, s\<lparr>sl_len := sl_len s + length v\<rparr>)
      else sl_new (grow (sl_cap s) (sl_len s + length v)) (bytes_at st s @ v) st)"

section \<open>The operations on stored strings\<close>

text \<open>A string object is an integer or refers to a slice. The other parts of the key space play no role here.\<close>

datatype sobj = SInt int | SBytes slice

record sdb =
  sd_store :: store
  sd_keys :: "(string \<times> sobj) list"

definition s_makeStringObject :: "store \<Rightarrow> slice \<Rightarrow> sobj" where
  "s_makeStringObject st s = (let (v, ok) = isInt (bytes_at st s) in if ok then SInt v else SBytes s)"

definition s_getStringBytes :: "sobj \<Rightarrow> store \<Rightarrow> store \<times> slice" where
  "s_getStringBytes x st = (case x of SInt v \<Rightarrow> sl_new 0 (formatInt64 v) st | SBytes s \<Rightarrow> (st, s))"

text \<open>An absent key gives the nil slice, here an empty slice of its own.\<close>

definition s_getAsString :: "string \<Rightarrow> sdb \<Rightarrow> store \<times> slice" where
  "s_getAsString key d =
     (case map_of (sd_keys d) key of None \<Rightarrow> sl_new 0 [] (sd_store d) | Some x \<Rightarrow> s_getStringBytes x (sd_store d))"

definition s_put :: "string \<Rightarrow> sobj \<Rightarrow> store \<Rightarrow> sdb \<Rightarrow> sdb" where
  "s_put key x st d = \<lparr>sd_store = st, sd_keys = gmap_set key x (sd_keys d)\<rparr>"

definition s_execSet :: "string \<Rightarrow> slice \<Rightarrow> sdb \<Rightarrow> sdb" where
  "s_execSet key s d = s_put key (s_makeStringObject (sd_store d) s) (sd_store d) d"

definition s_execAppend :: "(nat \<Rightarrow> nat \<Rightarrow> nat) \<Rightarrow> string \<Rightarrow> bytes \<Rightarrow> sdb \<Rightarrow> sdb" where
  "s_execAppend grow key v d =
     (let (st, s) = s_getAsString key d; (st1, s1) = sl_append grow v st s in
      s_put key (if map_of (sd_keys d) key \<noteq> None then SBytes s1 else s_makeStringObject st1 s1) st1 d)"

fun s_setrange_loop :: "(nat \<Rightarrow> nat \<Rightarrow> nat) \<Rightarrow> int \<Rightarrow> int \<Rightarrow> bytes \<Rightarrow> store \<Rightarrow> slice \<Rightarrow> (store \<times> slice) option" where
  "s_setrange_loop grow bytesLen idx [] st s = Some (st, s)"
| "s_setrange_loop grow bytesLen idx (c # cs) st s =
     (if idx \<ge> bytesLen then (let (st1, s1) = sl_append grow [c] st s in s_setrange_loop grow bytesLen (idx + 1) cs st1 s1)
      else if idx < 0 then None
      else s_setrange_loop grow bytesLen (idx + 1) cs (write_at st s (nat idx) [c]) s)"

definition s_pad :: "(nat \<Rightarrow> nat \<Rightarrow> nat) \<Rightarrow> int \<Rightarrow> store \<Rightarrow> slice \<Rightarrow> (store \<times> slice) option" where
  "s_pad grow n st s =
     (if n > int (sl_len s) then
        (if n - int (sl_len s) > maxAlloc then None
         else Some (sl_append grow (replicate (nat (n - int (sl_len s))) (CHR 0x00)) st s))
      else Some (st, s))"

definition s_execSetRange :: "(nat \<Rightarrow> nat \<Rightarrow> nat) \<Rightarrow> string \<Rightarrow> int \<Rightarrow> bytes \<Rightarrow> sdb \<Rightarrow> sdb option" where
  "s_execSetRange grow key offset value d =
     (let (st, s) = s_getAsString key d in
      if value = [] then Some d
      else do { (st1, s1) \<leftarrow> s_pad grow offset st s;
                (st2, s2) \<leftarrow> s_setrange_loop grow (int (sl_len s1)) offset value st1 s1;
                Some (s_put key (SBytes s2) st2 d) })"

text \<open>\<^verbatim>\<open>FromBytes\<close> and \<^verbatim>\<open>ToBytes\<close> do not copy.\<close>

definition s_setBit :: "(nat \<Rightarrow> nat \<Rightarrow> nat) \<Rightarrow> int \<Rightarrow> nat \<Rightarrow> store \<Rightarrow> slice \<Rightarrow> (store \<times> slice) option" where
  "s_setBit grow offset val st s =
     (let byteIndex = go_div offset 8; bitOffset = 7 - go_mod offset 8 in
      do { (st1, s1) \<leftarrow> s_pad grow (toByteSize (wrap64 (offset + 1))) st s;
           c \<leftarrow> gindex (bytes_at st1 s1) byteIndex;
           Some (write_at st1 s1 (nat byteIndex) [set_in_byte bitOffset (val > 0) c], s1) })"

definition s_execSetBit :: "(nat \<Rightarrow> nat \<Rightarrow> nat) \<Rightarrow> string \<Rightarrow> int \<Rightarrow> nat \<Rightarrow> sdb \<Rightarrow> sdb option" where
  "s_execSetBit grow key offset val d =
     (let (st, s) = s_getAsString key d in
      do { former \<leftarrow> getBit (bytes_at st s) offset;
           (st1, s1) \<leftarrow> s_setBit grow offset val st s;
           Some (s_put key (SBytes s1) st1 d) })"

text \<open>The undo log of one key: DEL, or DEL and SET with the slice of the value; and its execution.\<close>

datatype undo_log = UndoDel | UndoSet slice

definition s_rollbackGivenKeys :: "string \<Rightarrow> sdb \<Rightarrow> undo_log \<times> sdb" where
  "s_rollbackGivenKeys key d =
     (case map_of (sd_keys d) key of
        None \<Rightarrow> (UndoDel, d)
      | Some x \<Rightarrow> (let (st, s) = s_getStringBytes x (sd_store d) in (UndoSet s, d\<lparr>sd_store := st\<rparr>)))"

definition s_undo :: "string \<Rightarrow> undo_log \<Rightarrow> sdb \<Rightarrow> sdb" where
  "s_undo key u d =
     (let d1 = d\<lparr>sd_keys := gmap_delete key (sd_keys d)\<rparr> in
      case u of UndoDel \<Rightarrow> d1 | UndoSet s \<Rightarrow> s_execSet key s d1)"

text \<open>What GET reads.\<close>

definition s_value :: "sdb \<Rightarrow> string \<rightharpoonup> bytes" where
  "s_value d key = map_option (\<lambda>x. case x of SInt v \<Rightarrow> formatInt64 v | SBytes s \<Rightarrow> bytes_at (sd_store d) s) (map_of (sd_keys d) key)"

section \<open>Reading and writing slices\<close>

lemma length_bytes_at [simp]: "slice_ok st s \<Longrightarrow> length (bytes_at st s) = sl_len s"
  by (auto simp: slice_ok_def bytes_at_def)

lemma length_overwrite [simp]: "i + length v \<le> length b \<Longrightarrow> length (overwrite b i v) = length b"
  by (simp add: overwrite_def)

lemma overwrite_one: "i < length b \<Longrightarrow> overwrite b i [c] = b[i := c]"
  by (simp add: overwrite_def upd_conv_take_nth_drop)

lemma overwrite_Cons: "i + length (c # v) \<le> length b \<Longrightarrow> overwrite (b[i := c]) (Suc i) v = overwrite b i (c # v)"
  by (simp add: overwrite_def take_Suc_conv_app_nth)

lemma write_at_ok:
  assumes "slice_ok st s" "i + length v \<le> sl_cap s"
  shows "slice_ok (write_at st s i v) t \<longleftrightarrow> slice_ok st t" "length (write_at st s i v) = length st"
  using assms by (auto simp: slice_ok_def write_at_def nth_list_update)

lemma write_at_other: "sl_arr t \<noteq> sl_arr s \<Longrightarrow> bytes_at (write_at st s i v) t = bytes_at st t"
  by (simp add: bytes_at_def write_at_def)

lemma write_at_inside:
  assumes "slice_ok st s" "i + length v \<le> sl_len s"
  shows "bytes_at (write_at st s i v) s = overwrite (bytes_at st s) i v"
proof (rule nth_equalityI)
  show "length (bytes_at (write_at st s i v) s) = length (overwrite (bytes_at st s) i v)"
    using assms write_at_ok(1) [OF assms(1), of i v s] by (simp add: slice_ok_def)
  fix j assume "j < length (bytes_at (write_at st s i v) s)"
  then have "j < sl_len s" using assms write_at_ok(1) [OF assms(1), of i v s] by (simp add: slice_ok_def)
  then show "bytes_at (write_at st s i v) s ! j = overwrite (bytes_at st s) i v ! j"
    using assms by (auto simp: bytes_at_def write_at_def overwrite_def slice_ok_def nth_append)
qed

text \<open>
  What an operation on the slice \<open>s\<close> may do to the store: its result lies in the array of \<open>s\<close> or in a new one, and the
  slices of other arrays are untouched.
\<close>

definition moves :: "store \<Rightarrow> slice \<Rightarrow> store \<Rightarrow> slice \<Rightarrow> bool" where
  "moves st s st' s' \<longleftrightarrow>
     slice_ok st' s' \<and> (sl_arr s' = sl_arr s \<or> length st \<le> sl_arr s') \<and> length st \<le> length st' \<and>
     (\<forall>t. slice_ok st t \<longrightarrow> sl_arr t \<noteq> sl_arr s \<longrightarrow> slice_ok st' t \<and> bytes_at st' t = bytes_at st t)"

lemma moves_refl: "slice_ok st s \<Longrightarrow> moves st s st s"
  by (simp add: moves_def)

lemma moves_trans:
  assumes "moves st s st1 s1" "moves st1 s1 st2 s2"
  shows "moves st s st2 s2"
proof -
  have "slice_ok st2 t \<and> bytes_at st2 t = bytes_at st t" if t: "slice_ok st t" "sl_arr t \<noteq> sl_arr s" for t
  proof -
    have "slice_ok st1 t" "bytes_at st1 t = bytes_at st t" "sl_arr t \<noteq> sl_arr s1"
      using assms(1) t by (auto simp: moves_def slice_ok_def)
    then show ?thesis using assms(2) by (simp add: moves_def)
  qed
  then show ?thesis using assms by (auto simp: moves_def)
qed

lemma moves_write: "slice_ok st s \<Longrightarrow> i + length v \<le> sl_cap s \<Longrightarrow> moves st s (write_at st s i v) s"
  by (simp add: moves_def write_at_ok write_at_other)

lemma sl_new_spec:
  assumes "sl_new cap v st = (st', s')"
  shows "bytes_at st' s' = v" "slice_ok st' s'" "sl_arr s' = length st" "length st' = Suc (length st)"
    "\<And>t. slice_ok st t \<Longrightarrow> slice_ok st' t \<and> bytes_at st' t = bytes_at st t"
  using assms by (auto simp: sl_new_def bytes_at_def slice_ok_def nth_append)

lemma sl_append_spec:
  assumes "slice_ok st s" "sl_append grow v st s = (st', s')"
  shows "bytes_at st' s' = bytes_at st s @ v" "moves st s st' s'" "bytes_at st' s = bytes_at st s" "slice_ok st' s"
proof -
  have "bytes_at st' s' = bytes_at st s @ v \<and> moves st s st' s' \<and> bytes_at st' s = bytes_at st s \<and> slice_ok st' s"
  proof (cases "sl_len s + length v \<le> sl_cap s")
    case True
    let ?t = "s\<lparr>sl_len := sl_len s + length v\<rparr>"
    have ok: "slice_ok st ?t" using assms(1) True by (simp add: slice_ok_def)
    have st': "st' = write_at st s (sl_len s) v" "s' = ?t" using assms(2) True by (simp_all add: sl_append_def)
    have "bytes_at st' s' = overwrite (bytes_at st ?t) (sl_len s) v"
      using write_at_inside [OF ok, of "sl_len s" v] by (simp add: st' write_at_def)
    moreover have "take (sl_len s) (bytes_at st ?t) = bytes_at st s" by (simp add: bytes_at_def)
    ultimately have b: "bytes_at st' s' = bytes_at st s @ v" using ok by (simp add: overwrite_def)
    have "bytes_at st' s = take (sl_len s) (bytes_at st' s')" by (simp add: bytes_at_def st')
    then have "bytes_at st' s = bytes_at st s" using b assms(1) by simp
    then show ?thesis using b ok True assms(1) by (simp add: st' moves_def write_at_ok write_at_other)
  next
    case False
    then have "sl_new (grow (sl_cap s) (sl_len s + length v)) (bytes_at st s @ v) st = (st', s')" using assms(2) by (simp add: sl_append_def)
    note n = sl_new_spec [OF this]
    show ?thesis using n(1-4) n(5) assms(1) by (simp add: moves_def)
  qed
  then show "bytes_at st' s' = bytes_at st s @ v" "moves st s st' s'" "bytes_at st' s = bytes_at st s" "slice_ok st' s" by simp_all
qed

section \<open>The operations compute what the command layer computes\<close>

lemma s_pad_spec:
  assumes "slice_ok st s"
  shows "case s_pad grow n st s of
      None \<Rightarrow> n > int (sl_len s) \<and> n - int (sl_len s) > maxAlloc
    | Some (st', s') \<Rightarrow> bytes_at st' s' = bytes_at st s @ replicate (nat (n - int (sl_len s))) (CHR 0x00) \<and> moves st s st' s' \<and>
        (n > int (sl_len s) \<longrightarrow> n - int (sl_len s) \<le> maxAlloc) \<and> (n \<le> int (sl_len s) \<longrightarrow> st' = st \<and> s' = s)"
  using sl_append_spec(1,2) [OF assms] moves_refl [OF assms]
  by (auto simp: s_pad_def split: prod.splits)

lemma s_setrange_loop_spec:
  assumes "slice_ok st s" "bytesLen \<le> int (sl_len s)"
  shows "case s_setrange_loop grow bytesLen idx v st s of
      None \<Rightarrow> setrange_loop bytesLen idx v (bytes_at st s) = None
    | Some (st', s') \<Rightarrow> setrange_loop bytesLen idx v (bytes_at st s) = Some (bytes_at st' s') \<and> moves st s st' s' \<and>
        (idx + int (length v) \<le> bytesLen \<longrightarrow> s' = s)"
  using assms
proof (induction grow bytesLen idx v st s rule: s_setrange_loop.induct)
  case (2 grow bytesLen idx c cs st s)
  consider (app) "idx \<ge> bytesLen" | (neg) "idx < bytesLen" "idx < 0" | (set) "idx < bytesLen" "0 \<le> idx" by linarith
  then show ?case
  proof cases
    case app
    obtain st1 s1 where a: "sl_append grow [c] st s = (st1, s1)" by fastforce
    note sp = sl_append_spec [OF 2(3) a]
    have len: "sl_len s \<le> sl_len s1"
      using sp(1) 2(3) length_bytes_at [of st1 s1] sp(2) by (metis length_append length_bytes_at le_add1 moves_def)
    have "slice_ok st1 s1" "bytesLen \<le> int (sl_len s1)" using sp(2) 2(4) len by (simp_all add: moves_def)
    then show ?thesis using 2(1) [OF app a [symmetric] refl] app a sp by (auto split: option.splits dest: moves_trans)
  next
    case set
    have i: "nat idx + length [c] \<le> sl_len s" "nat idx < sl_len s" using set 2(4) by simp_all
    then have ok: "nat idx + length [c] \<le> sl_cap s" using 2(3) by (auto simp: slice_ok_def)
    have b: "bytes_at (write_at st s (nat idx) [c]) s = (bytes_at st s)[nat idx := c]"
      using write_at_inside [OF 2(3) i(1)] i(2) 2(3) by (simp add: overwrite_one)
    have w: "slice_ok (write_at st s (nat idx) [c]) s" using write_at_ok(1) [OF 2(3) ok] 2(3) by simp
    show ?thesis
      using 2(2) [OF _ _ w 2(4)] set b moves_write [OF 2(3) ok] by (auto split: option.splits dest: moves_trans)
  qed simp
qed (simp add: moves_refl)

lemma s_setBit_spec:
  assumes "slice_ok st s"
  shows "case s_setBit grow offset val st s of
      None \<Rightarrow> setBit (bytes_at st s) offset val = None
    | Some (st', s') \<Rightarrow> setBit (bytes_at st s) offset val = Some (bytes_at st' s') \<and> moves st s st' s' \<and>
        (toByteSize (wrap64 (offset + 1)) \<le> int (sl_len s) \<longrightarrow> s' = s)"
proof -
  let ?n = "toByteSize (wrap64 (offset + 1))"
  note p = s_pad_spec [OF assms, where grow = grow and n = ?n]
  show ?thesis
  proof (cases "s_pad grow ?n st s")
    case None
    then show ?thesis using p assms by (simp add: s_setBit_def setBit_def bm_grow_def Let_def maxAlloc_def)
  next
    case (Some x)
    then obtain st1 s1 where x: "s_pad grow ?n st s = Some (st1, s1)" by (cases x) auto
    have g: "bm_grow (bytes_at st s) (wrap64 (offset + 1)) = Some (bytes_at st1 s1)"
      using p x assms by (auto simp: bm_grow_def maxAlloc_def Let_def)
    have ok: "slice_ok st1 s1" "moves st s st1 s1" using p x by (auto simp: moves_def)
    show ?thesis
    proof (cases "gindex (bytes_at st1 s1) (go_div offset 8)")
      case None
      then show ?thesis using x g by (simp add: s_setBit_def setBit_def Let_def)
    next
      case (Some c)
      let ?i = "nat (go_div offset 8)"
      have i: "?i < sl_len s1" using Some ok by (auto simp: gindex_def split: if_splits)
      then have c: "?i + length [c'] \<le> sl_len s1" "?i + length [c'] \<le> sl_cap s1" for c' :: char
        using ok(1) by (auto simp: slice_ok_def)
      have w: "bytes_at (write_at st1 s1 ?i [c']) s1 = (bytes_at st1 s1)[?i := c']" for c'
        using write_at_inside [OF ok(1) c(1)] i ok(1) by (simp add: overwrite_one)
      have same: "?n \<le> int (sl_len s) \<longrightarrow> s1 = s" using p x by auto
      show ?thesis
        using x g Some same w moves_trans [OF ok(2) moves_write [OF ok(1) c(2)]] by (simp add: s_setBit_def setBit_def Let_def)
    qed
  qed
qed

section \<open>Keys that own their arrays\<close>

definition owned :: "sdb \<Rightarrow> bool" where
  "owned d \<longleftrightarrow>
     (\<forall>k s. map_of (sd_keys d) k = Some (SBytes s) \<longrightarrow> slice_ok (sd_store d) s) \<and>
     (\<forall>k j s t. k \<noteq> j \<longrightarrow> map_of (sd_keys d) k = Some (SBytes s) \<longrightarrow> map_of (sd_keys d) j = Some (SBytes t) \<longrightarrow> sl_arr s \<noteq> sl_arr t)"

lemma made_value: "(case s_makeStringObject st s of SInt v \<Rightarrow> formatInt64 v | SBytes t \<Rightarrow> bytes_at st t) = bytes_at st s"
  by (cases "bytes_at st s" rule: isInt_cases) (simp_all add: s_makeStringObject_def)

lemma made_slice: "s_makeStringObject st s = SBytes t \<Longrightarrow> t = s"
  by (auto simp: s_makeStringObject_def split: prod.splits if_splits)

lemma s_getAsString_spec:
  assumes "owned d" "s_getAsString key d = (st, s)"
  shows "slice_ok st s" "bytes_at st s = or_empty (s_value d key)"
    "\<And>j t. j \<noteq> key \<Longrightarrow> map_of (sd_keys d) j = Some (SBytes t) \<Longrightarrow>
       slice_ok st t \<and> bytes_at st t = bytes_at (sd_store d) t \<and> sl_arr t \<noteq> sl_arr s"
proof -
  have new: "slice_ok st s \<and> bytes_at st s = v \<and> (\<forall>j t. map_of (sd_keys d) j = Some (SBytes t) \<longrightarrow>
      slice_ok st t \<and> bytes_at st t = bytes_at (sd_store d) t \<and> sl_arr t \<noteq> sl_arr s)"
    if "sl_new 0 v (sd_store d) = (st, s)" for v
    using sl_new_spec [OF that] assms(1) by (fastforce simp: owned_def slice_ok_def)
  have "slice_ok st s \<and> bytes_at st s = or_empty (s_value d key) \<and> (\<forall>j t. j \<noteq> key \<longrightarrow> map_of (sd_keys d) j = Some (SBytes t) \<longrightarrow>
      slice_ok st t \<and> bytes_at st t = bytes_at (sd_store d) t \<and> sl_arr t \<noteq> sl_arr s)"
  proof (cases "map_of (sd_keys d) key")
    case None
    then show ?thesis using assms(2) new [of "[]"] by (simp add: s_getAsString_def s_value_def or_empty_def)
  next
    case (Some x)
    then show ?thesis
    proof (cases x)
      case (SInt v)
      then show ?thesis using Some assms(2) new [of "formatInt64 v"]
        by (simp add: s_getAsString_def s_getStringBytes_def s_value_def or_empty_def)
    next
      case (SBytes t)
      then show ?thesis using Some assms
        by (auto simp: s_getAsString_def s_getStringBytes_def s_value_def or_empty_def owned_def)
    qed
  qed
  then show "slice_ok st s" "bytes_at st s = or_empty (s_value d key)"
    "\<And>j t. j \<noteq> key \<Longrightarrow> map_of (sd_keys d) j = Some (SBytes t) \<Longrightarrow>
       slice_ok st t \<and> bytes_at st t = bytes_at (sd_store d) t \<and> sl_arr t \<noteq> sl_arr s"
    by blast+
qed

lemma s_put_owned:
  assumes "owned d" "s_getAsString key d = (st, s)" "moves st s st' s'" "x = SBytes s' \<or> x = s_makeStringObject st' s'"
  shows "owned (s_put key x st' d)" "s_value (s_put key x st' d) = (s_value d)(key \<mapsto> bytes_at st' s')"
proof -
  note g = s_getAsString_spec [OF assms(1,2)]
  have x: "x = SBytes t \<Longrightarrow> t = s'" for t using assms(4) made_slice by auto
  have v: "(case x of SInt v \<Rightarrow> formatInt64 v | SBytes t \<Rightarrow> bytes_at st' t) = bytes_at st' s'"
    using assms(4) made_value [of st' s'] by auto
  have o: "slice_ok st' t \<and> bytes_at st' t = bytes_at (sd_store d) t \<and> sl_arr t \<noteq> sl_arr s'"
    if "j \<noteq> key" "map_of (sd_keys d) j = Some (SBytes t)" for j t
    using g(3) [OF that] assms(3) by (auto simp: moves_def slice_ok_def)
  have "slice_ok st' s'" using assms(3) by (simp add: moves_def)
  then show "owned (s_put key x st' d)"
    using assms(1) o x unfolding owned_def by (auto simp: s_put_def split: if_splits) metis
  show "s_value (s_put key x st' d) = (s_value d)(key \<mapsto> bytes_at st' s')"
  proof
    fix j
    show "s_value (s_put key x st' d) j = ((s_value d)(key \<mapsto> bytes_at st' s')) j"
      using v o [of j] by (cases "map_of (sd_keys d) j") (auto simp: s_value_def s_put_def split: sobj.split)
  qed
qed

text \<open>The new value of SETRANGE on bytes, as the command layer computes it.\<close>

definition setrange_value :: "int \<Rightarrow> bytes \<Rightarrow> bytes \<Rightarrow> bytes option" where
  "setrange_value offset value bytes =
     do { padded \<leftarrow> (if int (length bytes) < offset then
                        (if offset - int (length bytes) > maxAlloc then None
                         else Some (bytes @ replicate (nat (offset - int (length bytes))) (CHR 0x00)))
                      else Some bytes);
          setrange_loop (int (length padded)) offset value padded }"

lemma append_refines:
  assumes "owned d"
  shows "owned (s_execAppend grow key v d)" "s_value (s_execAppend grow key v d) = (s_value d)(key \<mapsto> or_empty (s_value d key) @ v)"
proof -
  obtain st s where g: "s_getAsString key d = (st, s)" by fastforce
  obtain st1 s1 where a: "sl_append grow v st s = (st1, s1)" by fastforce
  note gs = s_getAsString_spec [OF assms g]
  note as = sl_append_spec [OF gs(1) a]
  let ?x = "if map_of (sd_keys d) key \<noteq> None then SBytes s1 else s_makeStringObject st1 s1"
  have "?x = SBytes s1 \<or> ?x = s_makeStringObject st1 s1" by simp
  note p = s_put_owned [OF assms g as(2) this]
  show "owned (s_execAppend grow key v d)" "s_value (s_execAppend grow key v d) = (s_value d)(key \<mapsto> or_empty (s_value d key) @ v)"
    using p as(1) gs(2) by (simp_all only: s_execAppend_def g a Let_def prod.case)
qed

lemma setrange_refines:
  assumes "owned d" "v \<noteq> []"
  shows "case s_execSetRange grow key offset v d of
      None \<Rightarrow> setrange_value offset v (or_empty (s_value d key)) = None
    | Some d' \<Rightarrow> owned d' \<and> (\<exists>r. setrange_value offset v (or_empty (s_value d key)) = Some r \<and> s_value d' = (s_value d)(key \<mapsto> r))"
proof -
  obtain st s where g: "s_getAsString key d = (st, s)" by fastforce
  note gs = s_getAsString_spec [OF assms(1) g]
  note p = s_pad_spec [OF gs(1), where grow = grow and n = offset]
  show ?thesis
  proof (cases "s_pad grow offset st s")
    case None
    then show ?thesis using p assms(2) gs g by (simp add: s_execSetRange_def setrange_value_def gs(2) [symmetric])
  next
    case (Some x)
    then obtain st1 s1 where x: "s_pad grow offset st s = Some (st1, s1)" by (cases x) auto
    have m: "moves st s st1 s1" "slice_ok st1 s1" using p x by (auto simp: moves_def)
    have v: "setrange_value offset v (or_empty (s_value d key)) = setrange_loop (int (sl_len s1)) offset v (bytes_at st1 s1)"
      using p x m(2) gs(1) length_bytes_at [OF m(2)]
      by (auto simp: setrange_value_def gs(2) [symmetric])
    note l = s_setrange_loop_spec [OF m(2), where bytesLen = "int (sl_len s1)" and grow = grow and idx = offset and v = v]
    show ?thesis
    proof (cases "s_setrange_loop grow (int (sl_len s1)) offset v st1 s1")
      case None
      then show ?thesis using l v x g assms(2) by (simp add: s_execSetRange_def)
    next
      case (Some y)
      then obtain st2 s2 where y: "s_setrange_loop grow (int (sl_len s1)) offset v st1 s1 = Some (st2, s2)" by (cases y) auto
      then have l2: "setrange_loop (int (sl_len s1)) offset v (bytes_at st1 s1) = Some (bytes_at st2 s2)" "moves st1 s1 st2 s2" using l by auto
      show ?thesis
        using s_put_owned [OF assms(1) g moves_trans [OF m(1) l2(2)], of "SBytes s2"] l2(1) v x y g assms(2)
        by (simp add: s_execSetRange_def)
    qed
  qed
qed

lemma setbit_refines:
  assumes "owned d"
  shows "case s_execSetBit grow key offset val d of
      None \<Rightarrow> getBit (or_empty (s_value d key)) offset = None \<or> setBit (or_empty (s_value d key)) offset val = None
    | Some d' \<Rightarrow> owned d' \<and> (\<exists>r. setBit (or_empty (s_value d key)) offset val = Some r \<and> s_value d' = (s_value d)(key \<mapsto> r))"
proof -
  obtain st s where g: "s_getAsString key d = (st, s)" by fastforce
  note gs = s_getAsString_spec [OF assms g]
  note b = s_setBit_spec [OF gs(1), where grow = grow and offset = offset and val = val]
  show ?thesis
  proof (cases "getBit (bytes_at st s) offset = None \<or> s_setBit grow offset val st s = None")
    case True
    then show ?thesis using b g by (auto simp: s_execSetBit_def gs(2) [symmetric])
  next
    case False
    then obtain c st1 s1 where f: "getBit (bytes_at st s) offset = Some c" "s_setBit grow offset val st s = Some (st1, s1)" by auto
    then show ?thesis using b s_put_owned [OF assms g, of st1 s1 "SBytes s1"] g by (simp add: s_execSetBit_def gs(2) [symmetric])
  qed
qed

lemma execSetRange_value:
  assumes "parseInt off = Some offset" "v \<noteq> []"
  shows "execSetRange e [key, off, v] db =
    with_string e key (\<lambda>b db. do { r \<leftarrow> setrange_value offset v (or_empty b);
      Some (IntReply (int (length r)),
        addAof (toCmdLine3 ''setRange'' [key, off, v]) (putEntity e key (str_obj (makeRawStringObject r)) db)) }) db"
proof -
  have "gindex [key, off, v] 1 = Some off" "gindex [key, off, v] 2 = Some v" by (simp_all add: gindex_def)
  then show ?thesis using assms by (simp add: execSetRange_def setrange_value_def gindex_def Let_def)
qed

section \<open>Properties\<close>

lemma setrange_loop_inside:
  "0 \<le> idx \<Longrightarrow> idx + int (length v) \<le> int (length b) \<Longrightarrow> setrange_loop (int (length b)) idx v b = Some (overwrite b (nat idx) v)"
proof (induction v arbitrary: idx b)
  case (Cons c v)
  have "nat (idx + 1) = Suc (nat idx)" "nat idx + length (c # v) \<le> length b" using Cons.prems by auto
  then show ?case using Cons.prems Cons.IH [of "idx + 1" "b[nat idx := c]"] overwrite_Cons [of "nat idx" c v b] by simp
qed (simp add: overwrite_def)

text \<open>What an abort restores: the bytes that the slice of the log has by then.\<close>

lemma undo_value: "s_value (s_undo key (UndoSet s) d) key = Some (bytes_at (sd_store d) s)"
  using made_value [of "sd_store d" s] by (simp add: s_undo_def s_execSet_def s_put_def s_value_def Let_def split: sobj.splits)

lemma bit_inside: "0 \<le> pos \<Longrightarrow> pos < 8 * int n \<Longrightarrow> pos < 2 ^ 62 \<Longrightarrow> toByteSize (wrap64 (pos + 1)) \<le> int n"
proof -
  assume b: "0 \<le> pos" "pos < 8 * int n" "pos < 2 ^ 62"
  then have "wrap64 (pos + 1) = pos + 1" by (intro wrap64_id) (simp add: int64_def)
  moreover have "go_div (pos + 1) 8 = (pos + 1) div 8" "go_mod (pos + 1) 8 = (pos + 1) mod 8"
    using go_div_mod_8 [of "nat (pos + 1)"] b by (simp_all add: zdiv_int zmod_int)
  ultimately show ?thesis using b(2) by (simp add: toByteSize_def) presburger
qed

text \<open>C40. The undo log of a transaction refers to the stored bytes and not to a copy: for a key whose value is kept as
  bytes (not as an integer), a SETRANGE inside the value, or a SETBIT inside it, changes the log as well, so that
  executing the log in an abort leaves the key with the changed bytes. An APPEND writes behind the bytes of the log, and
  the abort restores the value.\<close>

theorem undo_log_overwritten:
  assumes "map_of (sd_keys d) key = Some (SBytes s)" "slice_ok (sd_store d) s"
    "0 \<le> off" "off + int (length v) \<le> int (sl_len s)" "0 \<le> pos" "pos < 8 * int (sl_len s)" "pos < 2 ^ 62"
  shows "\<exists>d1 d2 d3 b. s_rollbackGivenKeys key d = (UndoSet s, d1) \<and> s_value d1 key = Some (bytes_at (sd_store d) s) \<and>
    s_execSetRange grow key off v d1 = Some d2 \<and>
    s_value (s_undo key (UndoSet s) d2) key = Some (overwrite (bytes_at (sd_store d) s) (nat off) v) \<and>
    s_execSetBit grow key pos val d1 = Some d3 \<and> setBit (bytes_at (sd_store d) s) pos val = Some b \<and>
    s_value (s_undo key (UndoSet s) d3) key = Some b \<and>
    s_value (s_undo key (UndoSet s) (s_execAppend grow key v d1)) key = Some (bytes_at (sd_store d) s)"
proof -
  let ?st = "sd_store d" and ?b = "bytes_at (sd_store d) s"
  have u: "s_rollbackGivenKeys key d = (UndoSet s, d)" "s_getAsString key d = (?st, s)"
    using assms(1) by (simp_all add: s_rollbackGivenKeys_def s_getAsString_def s_getStringBytes_def)
  have r: "\<exists>d2. s_execSetRange grow key off v d = Some d2 \<and> bytes_at (sd_store d2) s = overwrite ?b (nat off) v"
  proof (cases "v = []")
    case False
    have "setrange_loop (int (sl_len s)) off v ?b = Some (overwrite ?b (nat off) v)"
      using setrange_loop_inside [of off v ?b] assms(2-4) by simp
    then obtain st1 where "s_setrange_loop grow (int (sl_len s)) off v ?st s = Some (st1, s)" "bytes_at st1 s = overwrite ?b (nat off) v"
      using s_setrange_loop_spec [OF assms(2), where bytesLen = "int (sl_len s)" and grow = grow and idx = off and v = v] assms(4)
      by (auto split: option.splits)
    then show ?thesis using False u(2) assms(4) by (simp add: s_execSetRange_def s_pad_def s_put_def)
  qed (use u(2) in \<open>simp add: s_execSetRange_def overwrite_def\<close>)
  have n: "toByteSize (wrap64 (pos + 1)) \<le> int (sl_len s)" using bit_inside assms(5-7) by blast
  obtain i where i: "pos = int i" using assms(5) by (metis zero_le_imp_eq_int)
  have "i div 8 < sl_len s" using assms(6) i by linarith
  then obtain b where b: "setBit ?b pos val = Some b" and g: "getBit ?b pos \<noteq> None"
    using n assms(2) by (simp add: i setBit_def getBit_nat go_div_mod_8 bm_grow_def Let_def)
  have s: "\<exists>d3. s_execSetBit grow key pos val d = Some d3 \<and> bytes_at (sd_store d3) s = b"
    using s_setBit_spec [OF assms(2), where grow = grow and offset = pos and val = val] b g n u(2)
    by (auto simp: s_execSetBit_def s_put_def split: option.splits)
  have "bytes_at (sd_store (s_execAppend grow key v d)) s = ?b"
    using sl_append_spec(3) [OF assms(2)] u(2) by (auto simp: s_execAppend_def s_put_def split: prod.split)
  moreover have "s_value d key = Some ?b" using assms(1) by (simp add: s_value_def)
  ultimately show ?thesis using u(1) r s b by (auto simp: undo_value)
qed

text \<open>The value \<open>abc\<close>, with SETRANGE at 0 of \<open>X\<close> and SETBIT of the bit 6 (from \<open>a\<close> to \<open>c\<close>).\<close>

theorem undo_log_overwritten_witness:
  "\<exists>d2 d3. s_execSetRange (\<lambda>_ n. n) ''k'' 0 ''X'' \<lparr>sd_store = [''abc''], sd_keys = [(''k'', SBytes \<lparr>sl_arr = 0, sl_off = 0, sl_len = 3, sl_cap = 3\<rparr>)]\<rparr> = Some d2 \<and>
     s_value (s_undo ''k'' (UndoSet \<lparr>sl_arr = 0, sl_off = 0, sl_len = 3, sl_cap = 3\<rparr>) d2) ''k'' = Some ''Xbc'' \<and>
     s_execSetBit (\<lambda>_ n. n) ''k'' 6 1 \<lparr>sd_store = [''abc''], sd_keys = [(''k'', SBytes \<lparr>sl_arr = 0, sl_off = 0, sl_len = 3, sl_cap = 3\<rparr>)]\<rparr> = Some d3 \<and>
     s_value (s_undo ''k'' (UndoSet \<lparr>sl_arr = 0, sl_off = 0, sl_len = 3, sl_cap = 3\<rparr>) d3) ''k'' = Some ''cbc''"
proof -
  let ?s = "\<lparr>sl_arr = 0, sl_off = 0, sl_len = 3, sl_cap = 3\<rparr>"
  let ?d = "\<lparr>sd_store = [''abc''], sd_keys = [(''k'', SBytes ?s)]\<rparr>"
  have "setBit ''abc'' 6 1 = Some ''cbc''" by code_simp
  moreover have "s_rollbackGivenKeys ''k'' ?d = (UndoSet ?s, ?d)" by (simp add: s_rollbackGivenKeys_def s_getStringBytes_def)
  ultimately show ?thesis
    using undo_log_overwritten [of ?d "''k''" ?s 0 "''X''" 6 "\<lambda>_ n. n" 1]
    by (auto simp: slice_ok_def bytes_at_def overwrite_def)
qed

end
