(* ===== verification/ReadBuffer.thy ===== *)
theory ReadBuffer
  imports Slices ReqParser
begin

text \<open>
  The read buffer of a client of the event loop, \<^verbatim>\<open>internal/net/eventloop/server.go\<close>: what the client sends is
  appended to one slice, the arguments of the parsed commands are subslices of it, and the bytes of a request that is
  cut off are moved to its front before the commands run. The parser of theory \<open>ReqParser\<close> is repeated with the places
  of the arguments in the buffer instead of their bytes; the engine, the replies and the blocking commands are left out.
\<close>

section \<open>The parser, with the places of the arguments\<close>

text \<open>The position and the length of an argument, and the bytes there.\<close>

type_synonym slot = "nat \<times> nat"

definition view :: "string \<Rightarrow> slot \<Rightarrow> string" where
  "view buf x = take (snd x) (drop (fst x) buf)"

abbreviation views :: "string \<Rightarrow> slot option list \<Rightarrow> string option list" where
  "views buf \<equiv> map (map_option (view buf))"

definition readSlot :: "string \<Rightarrow> int \<Rightarrow> (perr + (slot option \<times> int)) option" where
  "readSlot buf consumed =
     (if consumed \<ge> int (length buf) then Some (Inl Incomplete)
      else if buf ! nat consumed \<noteq> CHR ''$'' then Some (Inl ProtocolError)
      else case readLine (drop (nat consumed + 1) buf) of
        Inl e \<Rightarrow> Some (Inl e)
      | Inr (argLine, argLineLen) \<Rightarrow>
          (let c = consumed + argLineLen + 1 in
           if argLine \<noteq> [] \<and> hd argLine = CHR ''-'' then
             (if argLine \<noteq> ''-1'' then Some (Inl ProtocolError) else Some (Inr (None, c)))
           else case parseUint argLine of
             None \<Rightarrow> Some (Inl ProtocolError)
           | Some argLen \<Rightarrow>
               if wrap64 (c + argLen + 2) > int (length buf) then Some (Inl Incomplete)
               else if c + argLen > int (length buf) then None
               else Some (Inr (Some (nat c, nat argLen), c + argLen + 2))))"

fun slots_loop :: "nat \<Rightarrow> string \<Rightarrow> int \<Rightarrow> slot option list \<Rightarrow> (perr + (slot option list \<times> int)) option" where
  "slots_loop 0 buf consumed args = Some (Inr (args, consumed))"
| "slots_loop (Suc n) buf consumed args =
     (case readSlot buf consumed of
        None \<Rightarrow> None
      | Some (Inl e) \<Rightarrow> Some (Inl e)
      | Some (Inr (arg, c)) \<Rightarrow> slots_loop n buf c (args @ [arg]))"

definition parseOneSlots :: "string \<Rightarrow> (perr + (slot option list \<times> int)) option" where
  "parseOneSlots buf =
     (case buf of
        [] \<Rightarrow> Some (Inl Incomplete)
      | b # bs \<Rightarrow>
          if b \<noteq> CHR ''*'' then Some (Inl ProtocolError)
          else case readLine bs of
            Inl e \<Rightarrow> Some (Inl e)
          | Inr (line, lineLen) \<Rightarrow>
              (case parseUint line of
                 None \<Rightarrow> Some (Inl ProtocolError)
               | Some cnt \<Rightarrow> if cnt * 24 > maxAlloc then None else slots_loop (nat cnt) buf (lineLen + 1) []))"

abbreviation seen :: "string \<Rightarrow> (perr + (slot option list \<times> int)) option \<Rightarrow> (perr + (string option list \<times> int)) option" where
  "seen buf \<equiv> map_option (map_sum (\<lambda>e. e) (map_prod (views buf) (\<lambda>n. n)))"

lemma readArg_slot: "readArg buf c = map_option (map_sum (\<lambda>e. e) (map_prod (map_option (view buf)) (\<lambda>n. n))) (readSlot buf c)"
  by (auto simp: readArg_def readSlot_def view_def Let_def split: sum.split option.split)

lemma args_loop_slots: "args_loop n buf c (views buf args) = seen buf (slots_loop n buf c args)"
proof (induction n arbitrary: c args)
  case (Suc n)
  have "args_loop n buf c' (views buf args @ [map_option (view buf) a]) = seen buf (slots_loop n buf c' (args @ [a]))" for a c'
    using Suc [of c' "args @ [a]"] by simp
  then show ?case by (auto simp: readArg_slot split: option.split sum.split)
qed simp

lemma parseOne_slots: "parseOneMultibulk buf = seen buf (parseOneSlots buf)"
  using args_loop_slots [where args = "[]"]
  by (auto simp: parseOneMultibulk_def parseOneSlots_def split: list.split sum.split option.split)

lemma parseOneSlots_pos: "parseOneSlots buf = Some (Inr (cmd, n)) \<Longrightarrow> 0 < n"
  using parseOneMultibulk_pos [of buf "views buf cmd" n] by (simp add: parseOne_slots)

definition shift :: "int \<Rightarrow> slot \<Rightarrow> slot" where
  "shift offset x = (nat offset + fst x, snd x)"

function slots_of :: "string \<Rightarrow> slot option list list \<Rightarrow> int \<Rightarrow> (perr + (slot option list list \<times> int)) option" where
  "slots_of buf cmds offset =
     (if offset < int (length buf) then
        (case parseOneSlots (drop (nat offset) buf) of
           None \<Rightarrow> None
         | Some (Inl Incomplete) \<Rightarrow> Some (Inr (cmds, offset))
         | Some (Inl ProtocolError) \<Rightarrow> Some (Inl ProtocolError)
         | Some (Inr (cmd, consumed)) \<Rightarrow> slots_of buf (cmds @ [map (map_option (shift offset)) cmd]) (offset + consumed))
      else Some (Inr (cmds, offset)))"
  by pat_completeness auto
termination
  by (relation "measure (\<lambda>(buf, cmds, offset). nat (int (length buf) - offset))") (auto dest: parseOneSlots_pos)

declare slots_of.simps [simp del]

definition parseSlots :: "string \<Rightarrow> (perr + (slot option list list \<times> int)) option" where
  "parseSlots buf = slots_of buf [] 0"











section \<open>The buffer\<close>

text \<open>The buffer of a new client: no bytes, and room for 1024. \<^verbatim>\<open>make\<close> is the first array that it uses.\<close>

definition newClient :: "store \<Rightarrow> store \<times> slice" where
  "newClient st = sl_new 1024 [] st"

text \<open>What the reads return is appended in turn.\<close>

fun read_all :: "(nat \<Rightarrow> nat \<Rightarrow> nat) \<Rightarrow> string list \<Rightarrow> store \<Rightarrow> slice \<Rightarrow> store \<times> slice" where
  "read_all grow [] st q = (st, q)"
| "read_all grow (chunk # chunks) st q = (let (st1, q1) = sl_append grow chunk st q in read_all grow chunks st1 q1)"

definition subslice :: "slice \<Rightarrow> slot \<Rightarrow> slice" where
  "subslice q x = \<lparr>sl_arr = sl_arr q, sl_off = sl_off q + fst x, sl_len = snd x, sl_cap = sl_cap q - fst x\<rparr>"

text \<open>\<^verbatim>\<open>copy(c.queryBuf, c.queryBuf[consumed:])\<close>.\<close>

definition compact :: "int \<Rightarrow> store \<Rightarrow> slice \<Rightarrow> store \<times> slice" where
  "compact consumed st q =
     (if consumed > 0 then
        (let rest = drop (nat consumed) (bytes_at st q) in (write_at st q 0 rest, q\<lparr>sl_len := length rest\<rparr>))
      else (st, q))"

text \<open>Reading, up to the point where the commands are executed with their arguments; or the client is closed.\<close>

datatype outcome = Close | Run "slice option list list"

definition onReadable :: "(nat \<Rightarrow> nat \<Rightarrow> nat) \<Rightarrow> string list \<Rightarrow> store \<Rightarrow> slice \<Rightarrow> (outcome \<times> store \<times> slice) option" where
  "onReadable grow chunks st q =
     (let (st1, q1) = read_all grow chunks st q in
      case parseSlots (bytes_at st1 q1) of
        None \<Rightarrow> None
      | Some (Inl e) \<Rightarrow> Some (Close, st1, q1)
      | Some (Inr (cmds, consumed)) \<Rightarrow>
          (let (st2, q2) = compact consumed st1 q1 in Some (Run (map (map (map_option (subslice q1))) cmds), st2, q2)))"







section \<open>Properties\<close>



text \<open>
  The values that SET stores refer to the buffer as well: after \<^verbatim>\<open>SET k hello\<close>, the next request of the client,
  \<^verbatim>\<open>SET j world\<close>, changes the value of \<open>k\<close> as soon as it is read.
\<close>

lemma stored_value_overwritten:
  "(case onReadable (\<lambda>_ n. n) [request [''SET'', ''k'', ''hello'']] (fst (sl_new 64 [] [])) (snd (sl_new 64 [] [])) of
      Some (Run [[_, _, Some b]], st1, q1) \<Rightarrow>
        (let d = s_execSet ''k'' b \<lparr>sd_store = st1, sd_keys = []\<rparr> in
         case onReadable (\<lambda>_ n. n) [request [''SET'', ''j'', ''world'']] st1 q1 of
           Some (_, st2, _) \<Rightarrow> [s_value d ''k'', s_value (d\<lparr>sd_store := st2\<rparr>) ''k'']
         | None \<Rightarrow> [])
    | _ \<Rightarrow> []) = [Some ''hello'', Some ''world'']"
  by code_simp

end
