(* ===== verification/Spec2Isabelle.thy ===== *)
theory Spec2Isabelle
  imports IntStr Listpack Intset SimpleDict RedisDict RedisScan ConcurrentDict ShardLocks Wildcard
    RObject HashObj SetObj QuickList LinkedList ListObj SortedSet ZSetObj ReqParser Transactions Slices ReadBuffer
begin

text \<open>
  A verification development of hayakv, a key-value server that speaks the Redis protocol. File names are relative to
  \<^verbatim>\<open>src/\<close>.

  \<^bold>\<open>The program.\<close> A network front end cuts the bytes of a connection into requests. A request is a command line; the
  server hands it to a logical database, which looks the command up in a table, checks the number of arguments, locks
  the keys that the command announces, gives the written ones a new version and runs the handler. The handler reads and
  writes entities in the key space, a dictionary (one of two engines), and appends what it did to the append-only log.
  An entity holds a typed object whose encoding depends on its size: strings, hashes, sets, lists and sorted sets, the
  small ones in a compact listpack or intset, the large ones in dictionaries, paged lists and skip lists. WATCH, MULTI
  and EXEC queue command lines on the connection and run them as one, with undo logs. Replies are marshalled back.

  \<^bold>\<open>Conventions\<close> (\<open>Prelude\<close>, \<open>GoStd\<close>). A byte string is a \<open>string\<close>, a panic is \<open>None\<close>, a 64-bit integer an \<open>int\<close> with the
  wrap-around written out, a pointer structure an explicit store, a callback loop a fold over the captured variables.
  An operation on an object returns the new object. Definitions are executable. A byte slice is the string of its bytes,
  which is exact as long as every argument and every stored value has an array of its own, as with the server that
  reads with the stream parser; \<open>Slices\<close> and \<open>ReadBuffer\<close> model the places where the code shares arrays.

  \<^bold>\<open>Compact encodings\<close> (\<^verbatim>\<open>internal/object\<close>).
  \<^item> \<open>Codec\<close>, \<open>IntStr\<close>, \<open>Listpack\<close>: \<^verbatim>\<open>listpack.go\<close>. What is appended is what is read back; integers and their texts.
  \<^item> \<open>Intset\<close>: \<^verbatim>\<open>intset.go\<close>. It implements a set of integers.

  \<^bold>\<open>Dictionaries\<close> (\<^verbatim>\<open>internal/datastruct/dict\<close>).
  \<^item> \<open>Dict\<close> is the interface and its contract (locale \<open>dict_impl\<close>: every call agrees with a finite map); \<open>SimpleDict\<close>,
    \<open>ConcurrentDict\<close> (\<^verbatim>\<open>concurrent.go\<close>) and \<open>RedisDict\<close> with \<open>Buckets\<close> (\<^verbatim>\<open>redisdict.go\<close>) meet it, the last one while it
    moves its bindings from one table to the next. The first theorem below compares the two engines.
  \<^item> \<open>Scan\<close> is the client of a scan command (locale \<open>cursor_scan\<close>); \<open>RedisScan\<close>, \<open>ConcurrentDict\<close>, \<open>HashObj\<close> and \<open>SetObj\<close>
    instantiate it: a full scan of an unchanged collection ends and visits every matching key once. \<open>Wildcard\<close> is the
    translation of glob patterns (\<^verbatim>\<open>internal/lib/wildcard\<close>).
  \<^item> \<open>ShardLocks\<close>: the key locks, as a step relation on interleaved goroutines. The steps of a lock
    are those of \<^verbatim>\<open>sync.RWMutex\<close>, waiting writers first. No deadlock, and commands that conflict do not run at the same time.

  \<^bold>\<open>Objects\<close> (\<^verbatim>\<open>internal/object\<close>, \<^verbatim>\<open>internal/datastruct\<close>).
  \<^item> \<open>RObject\<close>: the object header and the string encodings. \<open>HashObj\<close>, \<open>SetObj\<close>: hashes with the expiry of fields, and sets,
    in every encoding, refine a map and a set. The hash table of a large hash is the \<open>SimpleDict\<close> that the conversion makes.
  \<^item> \<open>ListApi\<close> (locale \<open>list_impl\<close>), \<open>QuickList\<close>, \<open>LinkedList\<close>, \<open>ListObj\<close>: lists refine a sequence.
  \<^item> \<open>Border\<close>, \<open>SkipList\<close>, \<open>SkipOps\<close>, \<open>ZApi\<close> (locale \<open>zset_impl\<close>), \<open>SortedSet\<close>, \<open>ZSetObj\<close>: sorted sets refine a sorted list. The skip
    list has its nodes, levels and spans in a store; \<open>SkipList\<close> states when they are linked correctly, \<open>SkipOps\<close> shows
    what each operation does to them.

  \<^bold>\<open>Protocol\<close>. \<open>Resp\<close> (\<^verbatim>\<open>internal/proto\<close>): replies, their bytes and the stream parser, and the round trip. \<open>ReqParser\<close>
  (\<^verbatim>\<open>internal/net/eventloop/reqparser.go\<close>): pipelined requests cut anywhere, and agreement of the three parsers.
  \<open>ReadBuffer\<close> (\<^verbatim>\<open>internal/net/eventloop/server.go\<close>): the buffer that the arguments of the commands are parts of, and what
  the engine reads off it.

  \<^bold>\<open>Commands\<close> (\<^verbatim>\<open>internal/command\<close>).
  \<^item> \<open>Db\<close>: \<^verbatim>\<open>database.go\<close> and the access metadata of \<^verbatim>\<open>evict.go\<close>. The record \<open>DB\<close> has the dictionaries of the code as
    association lists; \<open>live\<close> is what a client sees of a key, \<open>db_inv\<close> the invariant (only keys that exist have an expiry).
  \<^item> \<open>Bitmap\<close> (\<^verbatim>\<open>internal/datastruct/bitmap\<close>), \<open>StringCmd\<close> (\<^verbatim>\<open>string.go\<close>), \<open>KeysCmd\<close> (\<^verbatim>\<open>keys.go\<close>), \<open>ListCmd\<close> (\<^verbatim>\<open>list.go\<close>): the
    handlers, one definition each. \<open>keeps\<close> is the contract of a handler: the invariant, the frame and the error paths.
    On top: the expiry of a value that SET stores, and the list commands as operations on sequences.
  \<^item> \<open>Commands\<close>: the table (\<^verbatim>\<open>router.go\<close> and the \<^verbatim>\<open>init\<close> functions), the dispatch and the undo logs (\<^verbatim>\<open>tx_utils.go\<close>,
    \<^verbatim>\<open>internal/persist/aof/marshal.go\<close>). The contract holds for every command of the table but three, and WATCH is sound
    while the clock moves and keys expire.
  \<^item> \<open>Transactions\<close>: \<^verbatim>\<open>transaction.go\<close>. An aborted transaction of commands that overwrite no stored byte is rolled back.
  \<^item> \<open>Slices\<close>: APPEND, SETRANGE, SETBIT and the undo log on slices of an explicit store. They compute what \<open>StringCmd\<close>
    computes when every key has an array of its own; the undo log shares the array of its key.

  \<^bold>\<open>Flaws.\<close> Some theorems state what the code does where it does not do what it means to: removal by value in the two list encodings, ranges of scores to infinity and with an offset, the list that LTRIM
  empties, RENAME, the errors of a transaction that stay with its connection, the undo log that SETRANGE overwrites, and
  the arguments that a cut-off request overwrites in the read buffer. Lemmas show others: the linked list past its end,
  the paged list out of range, LRANGE on an emptied list, a scan with the count 0, a stored value in the read buffer.

  \<^bold>\<open>Bounds.\<close> The sharded dict counts its keys in 32 bits and the other engine doubles its table, hence the bounds on the
  number of calls, \<open>2 ^ 31 - 1\<close> and \<open>2 ^ 44\<close>, in their contracts; a table of more than \<open>2 ^ 45\<close> buckets cannot be
  allocated, and under these bounds the load factor, a \<^verbatim>\<open>float64\<close> in the code, is exact. The client of a scan has as fuel the number of its
  calls; the theorems show that one call per shard, bucket or entry is enough. Loops over pointers are partial functions
  whose result is \<open>None\<close> where they do not end; the refinement theorems show that they return. Thresholds of encodings
  are a parameter; the growth of a Go slice and the random heights of the skip list are arguments, whatever they are.

  \<^bold>\<open>Parameters.\<close> The regular-expression engine, the printing and parsing of floats, and digests. Scores are values of a
  linear order with a zero, so NaN is not one of them. The command that rebuilds a sorted set or a stream is a parameter
  of the undo logs.

  \<^bold>\<open>Not modelled.\<close> The handlers of hashes, sets, sorted sets, streams, HyperLogLogs, geographic and bit-field commands
  (the objects of the first three are); KEYS, SCAN, RANDOMKEY and COPY
  as commands of the table; the sockets, the poller and the goroutines; files of
  the log and of snapshots; replication, clusters, publish and subscribe, scripts, access control; eviction, memory
  limits, notifications, statistics and configuration. They are input and output, other programs, or process-wide
  state. The database runs one command at a time; a command reads the clock once, and the clock may move between commands.
\<close>

section \<open>The engines of the key space\<close>

text \<open>C1. The two engines of the key space are interchangeable: every sequence of dictionary calls returns
  the same results, without a panic, on a fresh sharded dict and on a fresh incremental-rehash
  table, namely the results of the calls on a plain finite map, and leaves the same bindings. (Up to \<open>2 ^ 31 - 1\<close>
  calls, \<open>2 ^ 32\<close> shards and a size hint of \<open>2 ^ 45\<close> buckets; a larger table cannot be allocated.)\<close>

theorem engines_agree:
  assumes "length ops \<le> 2 ^ 31 - 1" "shards \<le> 2 ^ 32" "hint \<le> 2 ^ 45"
  shows "\<exists>d1 d0 d2. dict_run concurrent_Dict (makeConcurrent shards) ops = Some (d1, snd (map_run Map.empty ops)) \<and>
    makeRedis hint = Some d0 \<and> dict_run redis_Dict d0 ops = Some (d2, snd (map_run Map.empty ops)) \<and> cd_abs d1 = rd_abs d2"
proof -
  obtain d1 where "dict_run concurrent_Dict (makeConcurrent shards) ops = Some (d1, snd (map_run Map.empty ops))"
      "cd_abs d1 = fst (map_run Map.empty ops)"
    using cd.run_refines [OF makeConcurrent_inv(1) [OF assms(2)], of ops] assms(1)
    by (auto simp: makeConcurrent_inv(2) [OF assms(2)])
  moreover obtain d0 :: "'a redisDict" where d0: "makeRedis hint = Some d0" "rd_inv d0" "rd_abs d0 = Map.empty"
    by (rule makeRedis_spec [OF assms(3)])
  moreover obtain d2 where "dict_run redis_Dict d0 ops = Some (d2, snd (map_run Map.empty ops))"
      "rd_abs d2 = fst (map_run Map.empty ops)"
    using rd.run_refines [OF d0(2), of ops] assms(1) by (auto simp: d0(3))
  ultimately show ?thesis by metis
qed

theorem engines_agree_witness:
  "\<exists>d1 d0 d2. dict_run concurrent_Dict (makeConcurrent 16) [OpPut ''a'' (1 :: int), OpPut ''a'' 2, OpRemove ''a'', OpLen]
      = Some (d1, [RNum 1, RNum 0, RVal (Some 2), RNum 0]) \<and>
    makeRedis 0 = Some d0 \<and> dict_run redis_Dict d0 [OpPut ''a'' (1 :: int), OpPut ''a'' 2, OpRemove ''a'', OpLen]
      = Some (d2, [RNum 1, RNum 0, RVal (Some 2), RNum 0])"
  using engines_agree [of "[OpPut ''a'' (1 :: int), OpPut ''a'' 2, OpRemove ''a'', OpLen]" 16 0] by auto

section \<open>The lists\<close>

text \<open>C16. The paged list and the pointer-linked list are interchangeable: every program of calls that a
  plain sequence can run returns the same results on both, without a panic, and leaves them with
  the same elements.\<close>

theorem lists_agree:
  assumes "seq_run [] ops = Some (xs, rs)"
  shows "\<exists>ql ll. list_run (quick_List grow) newQuickList ops = Some (ql, rs) \<and>
    list_run linked_List ll_empty ops = Some (ll, rs) \<and> ql_flat ql = xs \<and> ll_vals ll = xs"
proof -
  obtain ql where "list_run (quick_List grow) newQuickList ops = Some (ql, rs)" "ql_flat ql = xs"
    using ql.run_refines [OF newQuickList_inv(1), unfolded newQuickList_inv(2), OF _ assms] by (auto simp: list.pred_True)
  moreover obtain ll where "list_run linked_List ll_empty ops = Some (ll, rs)" "ll_vals ll = xs"
    using ll.run_refines [OF ll_empty_inv(1), unfolded ll_empty_inv(2), OF _ assms] by (auto simp: list.pred_True)
  ultimately show ?thesis by blast
qed

theorem lists_agree_witness:
  "\<exists>ql ll. list_run (quick_List (\<lambda>c n. 2 * n)) newQuickList [LAdd 4, LInsert 0 (9 :: int), LContains (\<lambda>x. x = 4), LRemoveLast]
      = Some (ql, [LUnit, LUnit, LBool True, LVal (Some 4)]) \<and>
    list_run linked_List ll_empty [LAdd 4, LInsert 0 (9 :: int), LContains (\<lambda>x. x = 4), LRemoveLast]
      = Some (ll, [LUnit, LUnit, LBool True, LVal (Some 4)]) \<and> ql_flat ql = [9] \<and> ll_vals ll = [9]"
proof -
  let ?ops = "[LAdd 4, LInsert 0 (9 :: int), LContains (\<lambda>x. x = 4), LRemoveLast]"
  have "seq_run [] ?ops = Some ([9], [LUnit, LUnit, LBool True, LVal (Some 4)])" by (simp add: list_insert_def)
  then show ?thesis using lists_agree [of ?ops _ _ "\<lambda>c n. 2 * n"] by blast
qed

section \<open>The sorted sets\<close>

text \<open>C30. The encodings of a sorted set are interchangeable: objects under any two settings of the thresholds and a bare
  skip-list set return the same results for every program of calls that the contract covers (which ranges of scores up
  to plus infinity from a positive border, where the encodings differ, are not).\<close>

theorem sorted_sets_agree:
  fixes es :: "'s::{linorder,zero} element list"
  assumes "float_text fmt parse" "0 \<le> zsetMaxListpackEntries t1" "0 \<le> zsetMaxListpackEntries t2" "list_all zop_ok ops"
    and "zref_run [] ops = Some (es, rs)"
  shows "\<exists>z1 z2 s. zset_run (zset_ZSet t1 fmt parse) newZSet ops = Some (z1, rs) \<and>
    zset_run (zset_ZSet t2 fmt parse) newZSet ops = Some (z2, rs) \<and> zset_run sorted_ZSet ss_make ops = Some (s, rs)"
proof -
  have "\<exists>z. zset_run (zset_ZSet t fmt parse) newZSet ops = Some (z, rs)" if "0 \<le> zsetMaxListpackEntries t" for t
    using zo.run_refines [of fmt parse t newZSet "[]" ops es rs] assms newZSet_rep [OF that, of fmt] by auto
  moreover have "\<exists>s. zset_run sorted_ZSet ss_make ops = Some (s, rs)"
    using ss.run_refines [OF ss_make_rep _ assms(5)] by (auto simp: list.pred_True)
  ultimately show ?thesis using assms(2,3) by blast
qed

theorem sorted_sets_agree_witness:
  "\<exists>z1 z2 s. zset_run (zset_ZSet small_thresholds byte_fmt byte_parse) newZSet [ZAdd (\<lambda>_. 7) ''b'' 2, ZAdd (\<lambda>_. 0) ''a'' 1, ZPopMin 1]
      = Some (z1, [ZBool True, ZBool True, ZEls [\<lparr>el_member = ''a'', el_score = 1\<rparr>]]) \<and>
    zset_run (zset_ZSet defaultEncodingThresholds byte_fmt byte_parse) newZSet [ZAdd (\<lambda>_. 7) ''b'' 2, ZAdd (\<lambda>_. 0) ''a'' 1, ZPopMin 1]
      = Some (z2, [ZBool True, ZBool True, ZEls [\<lparr>el_member = ''a'', el_score = 1\<rparr>]]) \<and>
    zset_run sorted_ZSet ss_make [ZAdd (\<lambda>_. 7) ''b'' 2, ZAdd (\<lambda>_. 0) ''a'' 1, ZPopMin 1]
      = Some (s, [ZBool True, ZBool True, ZEls [\<lparr>el_member = ''a'', el_score = 1 :: 8 word\<rparr>]])"
proof -
  let ?ops = "[ZAdd (\<lambda>_. 7) ''b'' 2, ZAdd (\<lambda>_. 0) ''a'' 1, ZPopMin 1] :: 8 word zset_op list"
  have r: "zref_run [] ?ops = Some ([\<lparr>el_member = ''b'', el_score = 2\<rparr>], [ZBool True, ZBool True, ZEls [\<lparr>el_member = ''a'', el_score = 1\<rparr>]])"
    by code_simp
  show ?thesis using sorted_sets_agree [OF byte_text _ _ _ r, of small_thresholds defaultEncodingThresholds]
    by (simp add: defaultEncodingThresholds_def go_str_def)
qed

end
